(* ===== verification/Prelude.thy ===== *)
theory Prelude
  imports Main "HOL-Library.Word"
begin

text \<open>
  Shared ground of the development: the machine-integer types of the Go sources, the
  errors of \<^verbatim>\<open>errors.go\<close> (with the two runtime outcomes of a Go program, a panic and
  a loop that does not end, as values), the result and state-passing combinators, Go
  slices as sub-lists, and the list lemmas on slices and overwritten slices that carry the
  component proofs.
\<close>

unbundle bit_operations_syntax

section \<open>Machine integers\<close>

type_synonym byte = "8 word"
type_synonym u16 = "16 word"
type_synonym u32 = "32 word"
type_synonym u64 = "64 word"
type_synonym bytes = "byte list"

text \<open>
  An \<open>int64\<close> expression whose value can leave the range on a hostile image is written
  with \<open>wrap64\<close>, Go's two's-complement wrap-around.
\<close>

definition wrap64 :: "int \<Rightarrow> int" where
  "wrap64 x = (x + 2 ^ 63) mod 2 ^ 64 - 2 ^ 63"

section \<open>Errors\<close>

text \<open>
  One constructor per sentinel of \<^verbatim>\<open>errors.go\<close>; the text that \<^verbatim>\<open>fmt.Errorf\<close> wraps
  around a sentinel is not kept, because callers compare with \<^verbatim>\<open>errors.Is\<close>.
  \<open>EOF\<close> and \<open>ErrUnexpectedEOF\<close> are the sentinels of package \<^verbatim>\<open>io\<close>, \<open>ErrNodeFull\<close> is
  \<^verbatim>\<open>errNodeFull\<close> of \<^verbatim>\<open>catwrite.go\<close>, \<open>ErrNegativeOffset\<close> the unnamed error of
  \<^verbatim>\<open>fork.readAt\<close>, \<open>ErrForkRead\<close> the wrapped error of the reader in the same function.
  \<open>Panic\<close> is a Go runtime panic (an index or a slice bound out of range); \<open>NoReturn\<close> says
  that a loop used up the fuel of its model.
\<close>

datatype err =
    ErrReadOnly | ErrBadHeader | ErrNotFound | ErrNotDirectory | ErrNotRegular
  | ErrNotSymlink | ErrCorrupt | ErrUnsupported | ErrNoSpace | ErrExists | ErrNotEmpty
  | EOF | ErrUnexpectedEOF | ErrNodeFull | ErrNegativeOffset | ErrForkRead err
  | ErrTooLarge | Panic | NoReturn

type_synonym 'a result = "err + 'a"

definition bindR :: "'a result \<Rightarrow> ('a \<Rightarrow> 'b result) \<Rightarrow> 'b result" where
  "bindR r f = (case r of Inl e \<Rightarrow> Inl e | Inr x \<Rightarrow> f x)"

text \<open>
  Code that edits the image keeps its edits when it returns an error, so the state is
  returned on both branches.
\<close>

type_synonym ('s, 'a) op = "'s \<Rightarrow> 'a result \<times> 's"

definition ret :: "'a \<Rightarrow> ('s, 'a) op" where
  "ret x s = (Inr x, s)"

definition raise :: "err \<Rightarrow> ('s, 'a) op" where
  "raise e s = (Inl e, s)"

definition bnd :: "('s, 'a) op \<Rightarrow> ('a \<Rightarrow> ('s, 'b) op) \<Rightarrow> ('s, 'b) op" where
  "bnd m f s = (case m s of (Inl e, s') \<Rightarrow> (Inl e, s') | (Inr x, s') \<Rightarrow> f x s')"

definition getS :: "('s \<Rightarrow> 'a) \<Rightarrow> ('s, 'a) op" where
  "getS f s = (Inr (f s), s)"

definition modS :: "('s \<Rightarrow> 's) \<Rightarrow> ('s, unit) op" where
  "modS f s = (Inr (), f s)"

definition liftR :: "('s \<Rightarrow> 'a result) \<Rightarrow> ('s, 'a) op" where
  "liftR f s = (f s, s)"

section \<open>The environment\<close>

text \<open>
  Code that the driver only calls: \<^verbatim>\<open>safeio.MakeBytes\<close> (a third-party allocation guard, from a
  size and a limit to a buffer or an error), the case-folding table behind
  \<^verbatim>\<open>strings.EqualFold\<close> (the least rune of a rune's case orbit), and the clock. They are
  parameters of every operation that reaches them.
\<close>

record env =
  envMakeBytes :: "int \<Rightarrow> int \<Rightarrow> bytes result"
  envFold :: "nat \<Rightarrow> nat"
  envNow :: int

text \<open>One concrete environment, for the concrete instances: a guard that checks the limit, ASCII case
  folding, and a clock that stands still.\<close>

definition sampleEnv :: env where
  "sampleEnv =
     \<lparr>envMakeBytes = \<lambda>n lim. if 0 \<le> n \<and> n \<le> lim then Inr (replicate (nat n) 0) else Inl ErrTooLarge,
      envFold = \<lambda>c. if 65 \<le> c \<and> c \<le> 90 then c + 32 else c, envNow = 0\<rparr>"

section \<open>Slices\<close>

text \<open>
  \<open>gslice b lo hi\<close> is Go's \<^verbatim>\<open>b[lo:hi]\<close> for \<open>lo \<le> hi \<le> length b\<close>;
  \<open>overwrite b off xs\<close> is \<open>b\<close> after \<^verbatim>\<open>copy(b[off:off+len(xs)], xs)\<close>.
\<close>

definition gslice :: "'a list \<Rightarrow> nat \<Rightarrow> nat \<Rightarrow> 'a list" where
  "gslice b lo hi = take (hi - lo) (drop lo b)"

definition overwrite :: "'a list \<Rightarrow> nat \<Rightarrow> 'a list \<Rightarrow> 'a list" where
  "overwrite b off xs = take off b @ xs @ drop (off + length xs) b"

section \<open>Lemma collections\<close>

named_theorems monad_simps "unfolding rules of the result and state combinators"
named_theorems slice_simps "reads of slices and of overwritten slices"
named_theorems codec_simps "round trips of the big-endian codecs"

declare bindR_def [monad_simps] ret_def [monad_simps] raise_def [monad_simps]
  bnd_def [monad_simps] getS_def [monad_simps] modS_def [monad_simps] liftR_def [monad_simps]

lemma bindR_Inr [simp]: "bindR (Inr x) f = f x"
  by (simp add: bindR_def)

lemma bindR_Inl [simp]: "bindR (Inl e) f = Inl e"
  by (simp add: bindR_def)

lemma bindR_eq_Inr: "bindR r f = Inr y \<longleftrightarrow> (\<exists>x. r = Inr x \<and> f x = Inr y)"
  by (cases r) auto

lemma bnd_ret [simp]: "bnd (ret x) f = f x"
  by (rule ext) (simp add: monad_simps)

lemma bnd_raise [simp]: "bnd (raise e) f = raise e"
  by (rule ext) (simp add: monad_simps)

lemma bnd_InrI: "m s = (Inr x, s') \<Longrightarrow> bnd m f s = f x s'"
  by (simp add: bnd_def)

lemma bnd_InlI: "m s = (Inl e, s') \<Longrightarrow> bnd m f s = (Inl e, s')"
  by (simp add: bnd_def)

lemma bnd_eq_Inr: "bnd m f s = (Inr y, t) \<longleftrightarrow> (\<exists>x s'. m s = (Inr x, s') \<and> f x s' = (Inr y, t))"
  by (auto simp: bnd_def split: sum.splits prod.splits)

section \<open>Invariants of operations\<close>

text \<open>
  \<open>keepsAt I m s\<close>: run from \<open>s\<close>, the operation leaves a state with the invariant, on success and
  on failure. \<open>quiet\<close> operations do not touch the state at all.
\<close>

definition keepsAt :: "('s \<Rightarrow> bool) \<Rightarrow> ('s, 'a) op \<Rightarrow> 's \<Rightarrow> bool" where
  "keepsAt I m s \<longleftrightarrow> (I s \<longrightarrow> I (snd (m s)))"

definition keeps :: "('s \<Rightarrow> bool) \<Rightarrow> ('s, 'a) op \<Rightarrow> bool" where
  "keeps I m \<longleftrightarrow> (\<forall>s. keepsAt I m s)"

definition quiet :: "('s, 'a) op \<Rightarrow> bool" where
  "quiet m \<longleftrightarrow> (\<forall>s. snd (m s) = s)"

named_theorems keeps_rules "operations that keep an invariant"
named_theorems quiet_rules "operations that do not touch the state"

lemma keepsI: "(\<And>s. I s \<Longrightarrow> I (snd (m s))) \<Longrightarrow> keeps I m"
  by (simp add: keeps_def keepsAt_def)

lemma keepsD: "keeps I m \<Longrightarrow> I s \<Longrightarrow> I (snd (m s))"
  by (simp add: keeps_def keepsAt_def)

lemma keeps_run: "keeps I m \<Longrightarrow> I s \<Longrightarrow> m s = (r, s') \<Longrightarrow> I s'"
  by (drule keepsD, assumption) simp

lemma quietD: "quiet m \<Longrightarrow> m s = (r, s') \<Longrightarrow> s' = s"
  by (metis quiet_def snd_conv)

lemma quiet_keeps: "quiet m \<Longrightarrow> keeps I m"
  by (simp add: quiet_def keeps_def keepsAt_def)

lemma quiet_ret [quiet_rules]: "quiet (ret x)"
  by (simp add: quiet_def ret_def)

lemma quiet_raise [quiet_rules]: "quiet (raise e)"
  by (simp add: quiet_def raise_def)

lemma quiet_getS [quiet_rules]: "quiet (getS f)"
  by (simp add: quiet_def getS_def)

lemma quiet_liftR [quiet_rules]: "quiet (liftR f)"
  by (simp add: quiet_def liftR_def)

lemma quiet_bnd [quiet_rules]: "quiet m \<Longrightarrow> (\<And>x. quiet (f x)) \<Longrightarrow> quiet (bnd m f)"
  unfolding quiet_def bnd_def by (auto split: sum.split prod.split) (metis snd_conv)+

lemma quiet_if [quiet_rules]: "quiet m \<Longrightarrow> quiet m' \<Longrightarrow> quiet (if b then m else m')"
  by simp

lemma quiet_option [quiet_rules]: "quiet m \<Longrightarrow> (\<And>x. quiet (f x)) \<Longrightarrow> quiet (case z of None \<Rightarrow> m | Some x \<Rightarrow> f x)"
  by (cases z) auto

lemma quiet_prod [quiet_rules]: "(\<And>x y. quiet (f x y)) \<Longrightarrow> quiet (case z of (x, y) \<Rightarrow> f x y)"
  by (cases z) auto

lemma keeps_ret [keeps_rules]: "keeps I (ret x)"
  by (intro quiet_keeps quiet_rules)

lemma keeps_raise [keeps_rules]: "keeps I (raise e)"
  by (intro quiet_keeps quiet_rules)

lemma keeps_getS [keeps_rules]: "keeps I (getS f)"
  by (intro quiet_keeps quiet_rules)

lemma keeps_liftR [keeps_rules]: "keeps I (liftR f)"
  by (intro quiet_keeps quiet_rules)

lemma keeps_bnd [keeps_rules]: "keeps I m \<Longrightarrow> (\<And>x. keeps I (f x)) \<Longrightarrow> keeps I (bnd m f)"
  unfolding keeps_def keepsAt_def bnd_def by (auto split: sum.split prod.split)

text \<open>Composition where the second part relies on what the first one returned.\<close>

lemma keeps_bnd_run:
  assumes "keeps I m" "\<And>s0 x s. I s0 \<Longrightarrow> I s \<Longrightarrow> m s0 = (Inr x, s) \<Longrightarrow> I (snd (f x s))"
  shows "keeps I (bnd m f)"
proof (rule keepsI)
  fix s assume I: "I s"
  obtain r s' where m: "m s = (r, s')" by fastforce
  then have I': "I s'" using keeps_run [OF assms(1) I] by simp
  show "I (snd (bnd m f s))"
    using assms(2) [OF I I'] m I' by (cases r) (auto simp: bnd_def)
qed

lemma keeps_if [keeps_rules]: "keeps I m \<Longrightarrow> keeps I m' \<Longrightarrow> keeps I (if b then m else m')"
  by simp

lemma keeps_option [keeps_rules]: "keeps I m \<Longrightarrow> (\<And>x. keeps I (f x)) \<Longrightarrow> keeps I (case z of None \<Rightarrow> m | Some x \<Rightarrow> f x)"
  by (cases z) auto

lemma keeps_prod [keeps_rules]: "(\<And>x y. keeps I (f x y)) \<Longrightarrow> keeps I (case z of (x, y) \<Rightarrow> f x y)"
  by (cases z) auto

lemma keeps_modS [keeps_rules]: "(\<And>s. I s \<Longrightarrow> I (g s)) \<Longrightarrow> keeps I (modS g)"
  by (simp add: keeps_def keepsAt_def modS_def)

text \<open>An operation that looks at the state before it chooses what to do.\<close>

lemma keeps_read: "(\<And>t. keeps I (m t)) \<Longrightarrow> keeps I (\<lambda>s. m s s)"
  by (simp add: keeps_def keepsAt_def)

lemma quiet_read: "(\<And>t. quiet (m t)) \<Longrightarrow> quiet (\<lambda>s. m s s)"
  by (simp add: quiet_def)

section \<open>Wrap-around\<close>

lemma wrap64_id: "- (2 ^ 63) \<le> x \<Longrightarrow> x < 2 ^ 63 \<Longrightarrow> wrap64 x = x"
  by (simp add: wrap64_def)

lemma wrap64_nat: "n < 2 ^ 63 \<Longrightarrow> wrap64 (int n) = int n"
  by (rule wrap64_id) auto

lemma wrap64_range: "- (2 ^ 63) \<le> wrap64 x \<and> wrap64 x < 2 ^ 63"
proof -
  have "0 \<le> (x + 2 ^ 63) mod 2 ^ 64" "(x + 2 ^ 63) mod 2 ^ 64 < (2::int) ^ 64"
    by simp_all
  then show ?thesis unfolding wrap64_def by simp
qed

section \<open>Slices of lists\<close>

lemma length_gslice [simp]: "length (gslice b lo hi) = min (hi - lo) (length b - lo)"
  by (simp add: gslice_def)

lemma nth_gslice [simp]: "i < hi - lo \<Longrightarrow> lo + i < length b \<Longrightarrow> gslice b lo hi ! i = b ! (lo + i)"
  by (simp add: gslice_def)

lemma gslice_gslice [slice_simps]:
  "gslice (gslice b lo hi) i j = gslice b (lo + i) (min hi (lo + j))"
proof -
  have "min (j - i) (hi - lo - i) = min hi (lo + j) - (lo + i)" by arith
  then show ?thesis by (simp add: gslice_def drop_take add.commute)
qed

lemma gslice_all: "gslice b 0 (length b) = b"
  by (simp add: gslice_def)

lemma gslice_same [simp]: "gslice b i i = []"
  by (simp add: gslice_def)

lemma length_overwrite [simp]: "off + length xs \<le> length b \<Longrightarrow> length (overwrite b off xs) = length b"
  by (simp add: overwrite_def)

lemma nth_overwrite:
  "off + length xs \<le> length b \<Longrightarrow> i < length b \<Longrightarrow>
   overwrite b off xs ! i = (if off \<le> i \<and> i < off + length xs then xs ! (i - off) else b ! i)"
  by (auto simp: overwrite_def nth_append min_def)

lemma gslice_overwrite_same [slice_simps]:
  "off + length xs \<le> length b \<Longrightarrow> hi = off + length xs \<Longrightarrow> gslice (overwrite b off xs) off hi = xs"
  by (simp add: gslice_def overwrite_def)

lemma gslice_overwrite_below [slice_simps]:
  assumes "off + length xs \<le> length b" "hi \<le> off"
  shows "gslice (overwrite b off xs) lo hi = gslice b lo hi"
  by (rule nth_equalityI) (use assms in \<open>auto simp: nth_overwrite\<close>)

lemma gslice_overwrite_above [slice_simps]:
  assumes "off + length xs \<le> length b" "off + length xs \<le> lo"
  shows "gslice (overwrite b off xs) lo hi = gslice b lo hi"
  by (rule nth_equalityI) (use assms in \<open>auto simp: nth_overwrite\<close>)

lemma gslice_overwrite_inside:
  assumes "off + length xs \<le> length b" "off \<le> lo" "hi \<le> off + length xs"
  shows "gslice (overwrite b off xs) lo hi = gslice xs (lo - off) (hi - off)"
  by (rule nth_equalityI) (use assms in \<open>auto simp: nth_overwrite\<close>)

lemma overwrite_Nil [simp]: "overwrite b off [] = b"
  by (simp add: overwrite_def)

lemma gslice_append_split: "lo \<le> mid \<Longrightarrow> mid \<le> hi \<Longrightarrow> gslice b lo mid @ gslice b mid hi = gslice b lo hi"
proof -
  assume le: "lo \<le> mid" "mid \<le> hi"
  have "gslice b lo hi = take ((mid - lo) + (hi - mid)) (drop lo b)"
    using le by (simp add: gslice_def)
  also have "\<dots> = take (mid - lo) (drop lo b) @ take (hi - mid) (drop (mid - lo) (drop lo b))"
    by (rule take_add)
  finally show ?thesis using le by (simp add: gslice_def)
qed

end
