(* ===== verification/Bytes.thy ===== *)
theory Bytes
  imports Prelude
begin

text \<open>
  The on-disk codecs every component shares: \<^verbatim>\<open>encoding/binary\<close>'s big-endian reads and
  writes (\<^verbatim>\<open>binary.BigEndian.Uint16/32/64\<close> and \<^verbatim>\<open>PutUint16/32/64\<close>), and the bit maps of
  the allocation file and of the B-tree header node, in which the most significant bit of
  byte 0 is entry 0. The laws of a bit map are the locale \<open>bitset\<close>, interpreted on the
  byte representation.
\<close>

section \<open>Big-endian integers\<close>

text \<open>\<open>be32 b i\<close> is \<^verbatim>\<open>binary.BigEndian.Uint32(b[i:i+4])\<close>; \<open>enc32 v\<close> the bytes \<^verbatim>\<open>PutUint32\<close> stores.\<close>

definition be16 :: "bytes \<Rightarrow> nat \<Rightarrow> u16" where
  "be16 b i = ucast (b ! (i + 1)) OR push_bit 8 (ucast (b ! i))"

definition be32 :: "bytes \<Rightarrow> nat \<Rightarrow> u32" where
  "be32 b i = ucast (b ! (i + 3)) OR push_bit 8 (ucast (b ! (i + 2)))
     OR push_bit 16 (ucast (b ! (i + 1))) OR push_bit 24 (ucast (b ! i))"

definition be64 :: "bytes \<Rightarrow> nat \<Rightarrow> u64" where
  "be64 b i = ucast (be32 b (i + 4)) OR push_bit 32 (ucast (be32 b i))"

definition enc16 :: "u16 \<Rightarrow> bytes" where
  "enc16 v = [ucast (drop_bit 8 v), ucast v]"

definition enc32 :: "u32 \<Rightarrow> bytes" where
  "enc32 v = [ucast (drop_bit 24 v), ucast (drop_bit 16 v), ucast (drop_bit 8 v), ucast v]"

definition enc64 :: "u64 \<Rightarrow> bytes" where
  "enc64 v = enc32 (ucast (drop_bit 32 v)) @ enc32 (ucast v)"

section \<open>Bit maps\<close>

definition bitMask :: "nat \<Rightarrow> byte" where
  "bitMask n = drop_bit (n mod 8) 0x80"

definition getBit :: "bytes \<Rightarrow> nat \<Rightarrow> bool" where
  "getBit m n \<longleftrightarrow> (m ! (n div 8)) AND bitMask n \<noteq> 0"

definition setBit :: "bytes \<Rightarrow> nat \<Rightarrow> bytes" where
  "setBit m n = m[n div 8 := (m ! (n div 8)) OR bitMask n]"

definition clrBit :: "bytes \<Rightarrow> nat \<Rightarrow> bytes" where
  "clrBit m n = m[n div 8 := (m ! (n div 8)) AND NOT (bitMask n)]"

definition inMap :: "bytes \<Rightarrow> nat \<Rightarrow> bool" where
  "inMap m n \<longleftrightarrow> n div 8 < length m"

section \<open>Codec laws\<close>

lemma length_enc [simp]:
  "length (enc16 v) = 2" "length (enc32 w) = 4" "length (enc64 x) = 8"
  by (simp_all add: enc16_def enc32_def enc64_def)

lemma be16_enc16 [codec_simps]: "be16 (enc16 v) 0 = v"
  by (rule bit_word_eqI) (auto simp: be16_def enc16_def bit_simps)

lemma be32_enc32 [codec_simps]: "be32 (enc32 v) 0 = v"
proof (rule bit_word_eqI)
  fix n assume "n < LENGTH(32)"
  then consider "n < 8" | "8 \<le> n" "n < 16" | "16 \<le> n" "n < 24" | "24 \<le> n" "n < 32"
    by simp linarith
  then show "bit (be32 (enc32 v) 0) n = bit v n"
    by cases (auto simp: be32_def enc32_def bit_simps)
qed

lemma be16_append_left:
  "i + 2 \<le> length xs \<Longrightarrow> be16 (xs @ ys) i = be16 xs i"
  by (simp add: be16_def nth_append)

lemma be32_append_left:
  "i + 4 \<le> length xs \<Longrightarrow> be32 (xs @ ys) i = be32 xs i"
  by (simp add: be32_def nth_append)

lemma be64_append_left:
  "i + 8 \<le> length xs \<Longrightarrow> be64 (xs @ ys) i = be64 xs i"
  by (simp add: be64_def be32_append_left)

lemma be16_append_right:
  "length xs \<le> i \<Longrightarrow> be16 (xs @ ys) i = be16 ys (i - length xs)"
  by (simp add: be16_def nth_append Suc_diff_le)

lemma be32_append_right:
  "length xs \<le> i \<Longrightarrow> be32 (xs @ ys) i = be32 ys (i - length xs)"
  by (simp add: be32_def nth_append Suc_diff_le)

lemma be64_append_right:
  "length xs \<le> i \<Longrightarrow> be64 (xs @ ys) i = be64 ys (i - length xs)"
  by (simp add: be64_def be32_append_right)

lemma be64_enc64 [codec_simps]: "be64 (enc64 v) 0 = v"
proof -
  have "be64 (enc64 v) 0 = ucast (ucast v :: u32) OR push_bit 32 (ucast (ucast (drop_bit 32 v) :: u32))"
    by (simp add: be64_def enc64_def be32_append_left be32_append_right be32_enc32)
  also have "\<dots> = v"
    by (rule bit_word_eqI) (auto simp: bit_simps)
  finally show ?thesis .
qed

text \<open>Encoding what was read gives the bytes back.\<close>

lemma gslice_4: "i + 4 \<le> length b \<Longrightarrow> gslice b i (i + 4) = [b ! i, b ! (i + 1), b ! (i + 2), b ! (i + 3)]"
  by (rule nth_equalityI) (auto simp: less_Suc_eq numeral_eq_Suc)

lemma gslice_2: "i + 2 \<le> length b \<Longrightarrow> gslice b i (i + 2) = [b ! i, b ! (i + 1)]"
  by (rule nth_equalityI) (auto simp: less_Suc_eq numeral_eq_Suc)

lemma enc16_be16: "i + 2 \<le> length b \<Longrightarrow> enc16 (be16 b i) = gslice b i (i + 2)"
  unfolding gslice_2 by (auto simp: enc16_def be16_def bit_eq_iff bit_simps dest: bit_imp_le_length)

lemma enc32_be32: "i + 4 \<le> length b \<Longrightarrow> enc32 (be32 b i) = gslice b i (i + 4)"
  by (auto simp: enc32_def be32_def gslice_4 bit_eq_iff bit_simps dest: bit_imp_le_length)

lemma enc64_be64: "i + 8 \<le> length b \<Longrightarrow> enc64 (be64 b i) = gslice b i (i + 8)"
proof -
  assume len: "i + 8 \<le> length b"
  have hi: "(ucast (drop_bit 32 (be64 b i)) :: u32) = be32 b i"
    by (rule bit_word_eqI) (auto simp: be64_def bit_simps dest: bit_imp_le_length)
  have lo: "(ucast (be64 b i) :: u32) = be32 b (i + 4)"
    by (rule bit_word_eqI) (auto simp: be64_def bit_simps)
  have "enc64 (be64 b i) = gslice b i (i + 4) @ gslice b (i + 4) (i + 4 + 4)"
    using len by (simp only: enc64_def hi lo enc32_be32)
  also have "\<dots> = gslice b i (i + 8)" using gslice_append_split [of i "i + 4" "i + 8" b]
    by (simp add: add.assoc)
  finally show ?thesis .
qed

text \<open>Reads at an offset of a slice and of an overwritten buffer.\<close>

lemma be16_gslice [codec_simps]:
  "i + 2 \<le> hi - lo \<Longrightarrow> lo + i + 2 \<le> length b \<Longrightarrow> be16 (gslice b lo hi) i = be16 b (lo + i)"
  by (simp add: be16_def)

lemma be32_gslice [codec_simps]:
  "i + 4 \<le> hi - lo \<Longrightarrow> lo + i + 4 \<le> length b \<Longrightarrow> be32 (gslice b lo hi) i = be32 b (lo + i)"
  by (simp add: be32_def add.assoc)

lemma be64_gslice [codec_simps]:
  "i + 8 \<le> hi - lo \<Longrightarrow> lo + i + 8 \<le> length b \<Longrightarrow> be64 (gslice b lo hi) i = be64 b (lo + i)"
  by (simp add: be64_def be32_gslice add.assoc)

lemma be16_overwrite_same [codec_simps]:
  "i + 2 \<le> length b \<Longrightarrow> be16 (overwrite b i (enc16 v)) i = v"
  using be16_enc16 [of v] by (simp add: be16_def nth_overwrite)

lemma be32_overwrite_same [codec_simps]:
  "i + 4 \<le> length b \<Longrightarrow> be32 (overwrite b i (enc32 v)) i = v"
  using be32_enc32 [of v] by (simp add: be32_def nth_overwrite numeral_2_eq_2)

lemma be32_overwrite_inside:
  "i + length xs \<le> length b \<Longrightarrow> i \<le> j \<Longrightarrow> j + 4 \<le> i + length xs \<Longrightarrow>
   be32 (overwrite b i xs) j = be32 xs (j - i)"
  by (simp add: be32_def nth_overwrite Suc_diff_le)

lemma be16_overwrite_inside:
  "i + length xs \<le> length b \<Longrightarrow> i \<le> j \<Longrightarrow> j + 2 \<le> i + length xs \<Longrightarrow>
   be16 (overwrite b i xs) j = be16 xs (j - i)"
  by (simp add: be16_def nth_overwrite Suc_diff_le)

lemma be64_overwrite_inside:
  "i + length xs \<le> length b \<Longrightarrow> i \<le> j \<Longrightarrow> j + 8 \<le> i + length xs \<Longrightarrow>
   be64 (overwrite b i xs) j = be64 xs (j - i)"
  by (simp add: be64_def be32_overwrite_inside)

lemma be64_overwrite_same [codec_simps]:
  "i + 8 \<le> length b \<Longrightarrow> be64 (overwrite b i (enc64 v)) i = v"
  by (simp add: be64_overwrite_inside be64_enc64)

lemma be16_overwrite_other [codec_simps]:
  "i + length xs \<le> length b \<Longrightarrow> j + 2 \<le> i \<or> i + length xs \<le> j \<Longrightarrow> j + 2 \<le> length b \<Longrightarrow>
   be16 (overwrite b i xs) j = be16 b j"
  by (auto simp: be16_def nth_overwrite)

lemma be32_overwrite_other [codec_simps]:
  "i + length xs \<le> length b \<Longrightarrow> j + 4 \<le> i \<or> i + length xs \<le> j \<Longrightarrow> j + 4 \<le> length b \<Longrightarrow>
   be32 (overwrite b i xs) j = be32 b j"
  by (auto simp: be32_def nth_overwrite)

lemma be64_overwrite_other [codec_simps]:
  "i + length xs \<le> length b \<Longrightarrow> j + 8 \<le> i \<or> i + length xs \<le> j \<Longrightarrow> j + 8 \<le> length b \<Longrightarrow>
   be64 (overwrite b i xs) j = be64 b j"
  by (auto simp: be64_def be32_overwrite_other)

lemma be32_replicate0 [simp]: "i + 4 \<le> n \<Longrightarrow> be32 (replicate n 0) i = 0"
  by (simp add: be32_def)

lemma be16_replicate0 [simp]: "i + 2 \<le> n \<Longrightarrow> be16 (replicate n 0) i = 0"
  by (simp add: be16_def)

lemma be64_replicate0 [simp]: "i + 8 \<le> n \<Longrightarrow> be64 (replicate n 0) i = 0"
  by (simp add: be64_def)

section \<open>Bit-map laws\<close>

locale bitset =
  fixes test :: "'b \<Rightarrow> nat \<Rightarrow> bool"
    and mark :: "'b \<Rightarrow> nat \<Rightarrow> 'b"
    and unmark :: "'b \<Rightarrow> nat \<Rightarrow> 'b"
    and valid :: "'b \<Rightarrow> nat \<Rightarrow> bool"
  assumes test_mark: "valid m n \<Longrightarrow> valid m k \<Longrightarrow> test (mark m n) k = (k = n \<or> test m k)"
    and test_unmark: "valid m n \<Longrightarrow> valid m k \<Longrightarrow> test (unmark m n) k = (k \<noteq> n \<and> test m k)"
    and valid_mark [simp]: "valid (mark m n) k = valid m k"
    and valid_unmark [simp]: "valid (unmark m n) k = valid m k"
    and bits_eqI: "valid m = valid m' \<Longrightarrow> (\<And>k. valid m k \<Longrightarrow> test m k = test m' k) \<Longrightarrow> m = m'"
begin

text \<open>Marking and clearing a run of entries, the inner loops of the allocator.\<close>

lemma valid_mark_run [simp]: "valid (foldl mark m ks) k = valid m k"
  by (induction ks arbitrary: m) auto

lemma valid_unmark_run [simp]: "valid (foldl unmark m ks) k = valid m k"
  by (induction ks arbitrary: m) auto

lemma test_mark_run:
  "\<forall>n \<in> set ks. valid m n \<Longrightarrow> valid m k \<Longrightarrow> test (foldl mark m ks) k = (k \<in> set ks \<or> test m k)"
  by (induction ks arbitrary: m) (auto simp: test_mark)

lemma test_unmark_run:
  "\<forall>n \<in> set ks. valid m n \<Longrightarrow> valid m k \<Longrightarrow> test (foldl unmark m ks) k = (k \<notin> set ks \<and> test m k)"
  by (induction ks arbitrary: m) (auto simp: test_unmark)

text \<open>Clearing a run that was clear before it was marked restores the map.\<close>

lemma unmark_mark_run:
  assumes "\<forall>n \<in> set ks. valid m n" "\<forall>n \<in> set ks. \<not> test m n"
  shows "foldl unmark (foldl mark m ks) ks = m"
proof (rule bits_eqI)
  show "valid (foldl unmark (foldl mark m ks) ks) = valid m" by (rule ext) simp
next
  fix k assume "valid (foldl unmark (foldl mark m ks) ks) k"
  then show "test (foldl unmark (foldl mark m ks) ks) k = test m k"
    using assms by (auto simp: test_unmark_run test_mark_run)
qed

end

lemma bit_bitMask: "bit (bitMask n) i \<longleftrightarrow> i = 7 - n mod 8"
proof -
  have top: "(0x80 :: byte) = push_bit 7 1" by simp
  have "n mod 8 < 8" by simp
  then show ?thesis
    unfolding bitMask_def top by (auto simp: bit_simps simp del: push_bit_of_1)
qed

lemma getBit_bit: "getBit m n \<longleftrightarrow> bit (m ! (n div 8)) (7 - n mod 8)"
proof -
  have "(m ! (n div 8)) AND bitMask n \<noteq> 0 \<longleftrightarrow> (\<exists>i. bit (m ! (n div 8)) i \<and> bit (bitMask n) i)"
  proof
    assume "\<exists>i. bit (m ! (n div 8)) i \<and> bit (bitMask n) i"
    then obtain i where "bit ((m ! (n div 8)) AND bitMask n) i" by (auto simp: bit_simps)
    then show "(m ! (n div 8)) AND bitMask n \<noteq> 0" by auto
  qed (auto simp: bit_eq_iff bit_simps)
  then show ?thesis by (simp add: getBit_def bit_bitMask)
qed

lemma inMap_setBit [simp]: "inMap (setBit m n) k = inMap m k"
  by (simp add: inMap_def setBit_def)

lemma inMap_clrBit [simp]: "inMap (clrBit m n) k = inMap m k"
  by (simp add: inMap_def clrBit_def)

lemma length_setBit [simp]: "length (setBit m n) = length m"
  by (simp add: setBit_def)

lemma length_clrBit [simp]: "length (clrBit m n) = length m"
  by (simp add: clrBit_def)

lemma same_entry: "n div 8 = k div 8 \<Longrightarrow> (7 - n mod 8 = 7 - k mod 8) \<longleftrightarrow> n = (k::nat)"
proof -
  assume "n div 8 = k div 8"
  moreover have "n mod 8 < 8" "k mod 8 < 8" by simp_all
  moreover have "n = 8 * (n div 8) + n mod 8" "k = 8 * (k div 8) + k mod 8" by simp_all
  ultimately show ?thesis by linarith
qed

lemma getBit_setBit: "inMap m n \<Longrightarrow> getBit (setBit m n) k = (k = n \<or> getBit m k)"
  by (cases "n div 8 = k div 8")
    (auto simp: getBit_bit setBit_def inMap_def bit_simps bit_bitMask nth_list_update same_entry)

lemma getBit_clrBit: "inMap m n \<Longrightarrow> getBit (clrBit m n) k = (k \<noteq> n \<and> getBit m k)"
  by (cases "n div 8 = k div 8")
    (auto simp: getBit_bit clrBit_def inMap_def bit_simps bit_bitMask nth_list_update same_entry)

lemma bitmap_eqI:
  assumes len: "length m = length m'" and bits: "\<And>k. inMap m k \<Longrightarrow> getBit m k = getBit m' k"
  shows "m = m'"
proof (rule nth_equalityI [OF len])
  fix i assume i: "i < length m"
  show "m ! i = m' ! i"
  proof (rule bit_word_eqI)
    fix j assume "j < LENGTH(8)"
    then have j: "j < 8" by simp
    define r where "r = 7 - j"
    have "r < 8" by (simp add: r_def)
    then have "(8 * i + r) div 8 = i" "(8 * i + r) mod 8 = r" by simp_all
    then show "bit (m ! i) j = bit (m' ! i) j"
      using bits [of "8 * i + r"] i j by (simp add: inMap_def getBit_bit r_def)
  qed
qed

lemma inMap_length: "inMap m = inMap m' \<Longrightarrow> length m = length m'"
proof -
  assume eq: "inMap m = inMap m'"
  have "(k < length m) = (k < length m')" for k
    using fun_cong [OF eq, of "8 * k"] by (simp add: inMap_def)
  then show ?thesis by (metis linorder_neqE_nat order_less_irrefl)
qed

interpretation bits: bitset getBit setBit clrBit inMap
proof unfold_locales
  fix m m' assume "inMap m = inMap m'" "\<And>k. inMap m k \<Longrightarrow> getBit m k = getBit m' k"
  then show "m = m'" by (intro bitmap_eqI inMap_length)
qed (simp_all add: getBit_setBit getBit_clrBit)

end
