(* ===== verification/VolumeHeader.thy ===== *)
theory VolumeHeader
  imports Bytes
begin

text \<open>
  \<^verbatim>\<open>volume.go\<close>: extent descriptors, fork descriptors and the volume header at byte 1024,
  with the fork-descriptor encoders of \<^verbatim>\<open>mkfs.go\<close> (\<^verbatim>\<open>encodeForkInto\<close>) and \<^verbatim>\<open>btgrow.go\<close>
  (\<^verbatim>\<open>encodeForkDescriptor\<close>), and the in-memory reader \<^verbatim>\<open>bytesReaderAt\<close> of
  \<^verbatim>\<open>hfsplus.go\<close>. The lemmas show that the descriptor codec is a bijection on 80-byte
  descriptors, what a header must satisfy to be accepted, and which error a bad one gets.
\<close>

section \<open>Data\<close>

record extentDescriptor =
  StartBlock :: u32
  BlockCount :: u32

definition numInlineExtents :: nat where
  "numInlineExtents = 8"

record forkData =
  LogicalSize :: u64
  ClumpSize :: u32
  fdTotalBlocks :: u32
  Extents :: "extentDescriptor list"

definition forkDataLen :: nat where
  "forkDataLen = 8 + 4 + 4 + numInlineExtents * 8"

text \<open>The Go array \<^verbatim>\<open>Extents [8]extentDescriptor\<close> always has eight entries.\<close>

definition wf_forkData :: "forkData \<Rightarrow> bool" where
  "wf_forkData f \<longleftrightarrow> length (Extents f) = numInlineExtents"

record volumeHeader =
  Signature :: u16
  Version :: u16
  vhAttributes :: u32
  BlockSize :: u32
  vhTotalBlocks :: u32
  FreeBlocks :: u32
  AllocationFile :: forkData
  ExtentsFile :: forkData
  CatalogFile :: forkData
  AttributesFile :: forkData
  StartupFile :: forkData
  caseSensitive :: bool

definition volumeHeaderOffset :: nat where
  "volumeHeaderOffset = 1024"

definition sigHFSPlus :: u16 where
  "sigHFSPlus = 0x482B"

definition sigHFSX :: u16 where
  "sigHFSX = 0x4858"

definition specialBase :: nat where
  "specialBase = 0x70"

section \<open>Operations\<close>

text \<open>
  \<^verbatim>\<open>bytesReaderAt.ReadAt(p, off)\<close> with \<open>n = len(p)\<close>: the bytes delivered and the error.
\<close>

definition readerAt :: "bytes \<Rightarrow> nat \<Rightarrow> int \<Rightarrow> bytes \<times> err option" where
  "readerAt b n off =
     (if off < 0 \<or> off \<ge> int (length b) then ([], Some EOF)
      else let p = take n (drop (nat off) b)
           in if length p < n then (p, Some EOF) else (p, None))"

definition parseExtent :: "bytes \<Rightarrow> nat \<Rightarrow> extentDescriptor" where
  "parseExtent b off = \<lparr>StartBlock = be32 b off, BlockCount = be32 b (off + 4)\<rparr>"

definition parseForkData :: "bytes \<Rightarrow> forkData" where
  "parseForkData b =
     \<lparr>LogicalSize = be64 b 0, ClumpSize = be32 b 8, fdTotalBlocks = be32 b 12,
      Extents = map (\<lambda>i. parseExtent b (16 + 8 * i)) [0..<numInlineExtents]\<rparr>"

definition encodeExtent :: "extentDescriptor \<Rightarrow> bytes" where
  "encodeExtent e = enc32 (StartBlock e) @ enc32 (BlockCount e)"

definition encodeForkInto :: "bytes \<Rightarrow> forkData \<Rightarrow> bytes" where
  "encodeForkInto dst f =
     overwrite dst 0 (enc64 (LogicalSize f) @ enc32 (ClumpSize f) @ enc32 (fdTotalBlocks f)
       @ concat (map (\<lambda>i. encodeExtent (Extents f ! i)) [0..<numInlineExtents]))"

definition goodBlockSize :: "u32 \<Rightarrow> bool" where
  "goodBlockSize n \<longleftrightarrow> \<not> (n < 512 \<or> n AND (n - 1) \<noteq> 0)"

definition readVolumeHeader :: "bytes \<Rightarrow> volumeHeader result" where
  "readVolumeHeader rs =
     (case readerAt rs 512 (int volumeHeaderOffset) of
        (_, Some e) \<Rightarrow> Inl e
      | (buf, None) \<Rightarrow>
          if be16 buf 0 \<noteq> sigHFSPlus \<and> be16 buf 0 \<noteq> sigHFSX then Inl ErrBadHeader
          else if \<not> goodBlockSize (be32 buf 0x28) then Inl ErrCorrupt
          else Inr
            \<lparr>Signature = be16 buf 0, Version = be16 buf 2, vhAttributes = be32 buf 4,
             BlockSize = be32 buf 0x28, vhTotalBlocks = be32 buf 0x2C, FreeBlocks = be32 buf 0x30,
             AllocationFile = parseForkData (drop (specialBase + 0 * forkDataLen) buf),
             ExtentsFile = parseForkData (drop (specialBase + 1 * forkDataLen) buf),
             CatalogFile = parseForkData (drop (specialBase + 2 * forkDataLen) buf),
             AttributesFile = parseForkData (drop (specialBase + 3 * forkDataLen) buf),
             StartupFile = parseForkData (drop (specialBase + 4 * forkDataLen) buf),
        caseSensitive = False\<rparr>)"

section \<open>The reader\<close>

lemmas header_consts = numInlineExtents_def forkDataLen_def volumeHeaderOffset_def specialBase_def

lemma readerAt_inside:
  "0 \<le> off \<Longrightarrow> off < int (length b) \<Longrightarrow> nat off + n \<le> length b \<Longrightarrow>
   readerAt b n off = (gslice b (nat off) (nat off + n), None)"
  by (auto simp: readerAt_def gslice_def Let_def)

lemma readerAt_None_iff:
  "snd (readerAt b n off) = None \<longleftrightarrow> 0 \<le> off \<and> off < int (length b) \<and> nat off + n \<le> length b"
  by (auto simp: readerAt_def Let_def)

lemma length_readerAt: "snd (readerAt b n off) = None \<Longrightarrow> length (fst (readerAt b n off)) = n"
  by (auto simp: readerAt_def Let_def split: if_splits)

section \<open>The fork-descriptor codec\<close>

lemma upt_8: "[0..<8] = [0, 1, 2, 3, 4, 5, 6, 7::nat]"
  by (simp add: upt_conv_Cons)

lemma length_encodeExtent [simp]: "length (encodeExtent e) = 8"
  by (simp add: encodeExtent_def)

lemma parseExtent_encodeExtent: "parseExtent (encodeExtent e) 0 = e"
  by (simp add: parseExtent_def encodeExtent_def be32_append_left be32_append_right be32_enc32)

lemma concat_fixed_nth:
  assumes "\<And>i. i < n \<Longrightarrow> length (f i) = w" "k < n"
  shows "take w (drop (w * k) (concat (map f [0..<n]))) = f k"
  using assms
proof (induction n arbitrary: k)
  case 0
  then show ?case by simp
next
  case (Suc n)
  have len: "length (concat (map f [0..<m])) = w * m" if "m \<le> n" for m
    using that Suc.prems(1) by (induction m) auto
  show ?case
  proof (cases "k = n")
    case True
    then show ?thesis using len [of n] Suc.prems(1) [of n] by simp
  next
    case False
    with Suc.prems(2) have k: "k < n" by simp
    then have "w * k + w \<le> w * n"
      by (metis Suc_leI mult_Suc_right add.commute mult_le_mono2)
    then show ?thesis using Suc.IH [OF Suc.prems(1) k] len [of n] by simp
  qed
qed

lemma length_concat_extents:
  "length (concat (map (\<lambda>i. encodeExtent (es ! i)) [0..<n])) = 8 * n"
  by (induction n) auto

lemma length_encodeForkInto [simp]:
  "forkDataLen \<le> length dst \<Longrightarrow> length (encodeForkInto dst f) = length dst"
  by (simp add: encodeForkInto_def header_consts length_concat_extents)

lemma be_take_drop:
  "i + 4 \<le> n \<Longrightarrow> k + i + 4 \<le> length b \<Longrightarrow> be32 (take n (drop k b)) i = be32 b (k + i)"
  by (simp add: be32_def add.assoc)

lemma parse_chunk:
  "16 + 8 * i + 8 \<le> length b \<Longrightarrow>
   parseExtent b (16 + 8 * i) = parseExtent (take 8 (drop (8 * i) (drop 16 b))) 0"
  by (simp add: parseExtent_def be_take_drop add.commute add.left_commute)

lemma encodeForkInto_append:
  "forkDataLen \<le> length dst \<Longrightarrow> encodeForkInto dst f =
   (enc64 (LogicalSize f) @ enc32 (ClumpSize f) @ enc32 (fdTotalBlocks f))
     @ concat (map (\<lambda>i. encodeExtent (Extents f ! i)) [0..<numInlineExtents]) @ drop forkDataLen dst"
  by (simp add: encodeForkInto_def overwrite_def header_consts length_concat_extents)

lemma parseForkData_prefix:
  "forkDataLen \<le> n \<Longrightarrow> forkDataLen \<le> length b \<Longrightarrow> parseForkData (take n b) = parseForkData b"
  by (simp add: parseForkData_def parseExtent_def be64_def be32_def header_consts)

lemma parseExtent_encodeForkInto:
  assumes "forkDataLen \<le> length dst" "i < numInlineExtents"
  shows "parseExtent (encodeForkInto dst f) (16 + 8 * i) = Extents f ! i"
proof -
  let ?c = "concat (map (\<lambda>i. encodeExtent (Extents f ! i)) [0..<numInlineExtents])"
  have room: "8 * i + 8 \<le> length ?c" "16 + 8 * i + 8 \<le> length dst"
    using assms by (simp_all add: length_concat_extents header_consts)
  have "drop 16 (encodeForkInto dst f) = ?c @ drop forkDataLen dst"
    using assms(1) by (simp add: encodeForkInto_append)
  then have "take 8 (drop (8 * i) (drop 16 (encodeForkInto dst f))) = take 8 (drop (8 * i) ?c)"
    using room by simp
  also have "\<dots> = encodeExtent (Extents f ! i)"
    using assms(2) by (intro concat_fixed_nth) auto
  finally show ?thesis
    using parse_chunk [of i "encodeForkInto dst f"] room assms(1)
    by (simp add: parseExtent_encodeExtent)
qed

lemma parse_encode_fork:
  assumes "forkDataLen \<le> length dst" "wf_forkData f"
  shows "parseForkData (encodeForkInto dst f) = f"
proof -
  have "map (\<lambda>i. parseExtent (encodeForkInto dst f) (16 + 8 * i)) [0..<numInlineExtents]
      = map ((!) (Extents f)) [0..<length (Extents f)]"
    using assms by (auto simp: parseExtent_encodeForkInto wf_forkData_def)
  moreover have "be64 (encodeForkInto dst f) 0 = LogicalSize f"
    "be32 (encodeForkInto dst f) 8 = ClumpSize f" "be32 (encodeForkInto dst f) 12 = fdTotalBlocks f"
    using assms(1)
    by (simp_all add: encodeForkInto_append be64_append_left be32_append_left be32_append_right
        be64_enc64 be32_enc32)
  ultimately show ?thesis by (simp add: parseForkData_def map_nth)
qed

lemma encode_parse_extents:
  "k + 8 * n \<le> length b \<Longrightarrow>
   concat (map (\<lambda>i. encodeExtent (parseExtent b (k + 8 * i))) [0..<n]) = gslice b k (k + 8 * n)"
proof (induction n)
  case (Suc n)
  have "encodeExtent (parseExtent b (k + 8 * n)) = gslice b (k + 8 * n) (k + 8 * n + 8)"
    using Suc.prems gslice_append_split [of "k + 8 * n" "k + 8 * n + 4" "k + 8 * n + 8" b]
    by (simp add: encodeExtent_def parseExtent_def enc32_be32 add.assoc)
  then show ?case
    using Suc gslice_append_split [of k "k + 8 * n" "k + 8 * n + 8" b]
    by (simp add: add.commute add.left_commute)
qed simp

lemma encode_parse_fork:
  assumes "length dst = forkDataLen" "forkDataLen \<le> length b"
  shows "encodeForkInto dst (parseForkData b) = take forkDataLen b"
proof -
  have m: "map (\<lambda>i. encodeExtent (Extents (parseForkData b) ! i)) [0..<numInlineExtents]
      = map (\<lambda>i. encodeExtent (parseExtent b (16 + 8 * i))) [0..<numInlineExtents]"
    by (auto simp: parseForkData_def)
  have tail: "concat (map (\<lambda>i. encodeExtent (Extents (parseForkData b) ! i)) [0..<numInlineExtents])
      = gslice b 16 80"
    unfolding m using assms encode_parse_extents [of 16 8 b] by (simp add: header_consts)
  have head: "enc64 (LogicalSize (parseForkData b)) = gslice b 0 8"
    "enc32 (ClumpSize (parseForkData b)) = gslice b 8 12"
    "enc32 (fdTotalBlocks (parseForkData b)) = gslice b 12 16"
    using assms enc64_be64 [of 0 b] enc32_be32 [of 8 b] enc32_be32 [of 12 b]
    by (simp_all add: parseForkData_def header_consts)
  have "encodeForkInto dst (parseForkData b)
      = gslice b 0 8 @ gslice b 8 12 @ gslice b 12 16 @ gslice b 16 80"
    using assms by (simp add: encodeForkInto_append tail head)
  also have "\<dots> = gslice b 0 80"
    by (simp add: gslice_append_split)
  finally show ?thesis by (simp add: gslice_def header_consts)
qed

section \<open>Block sizes are powers of two\<close>

lemma nat_and_pred_pow2: "0 < (n::nat) \<Longrightarrow> n AND (n - 1) = 0 \<Longrightarrow> \<exists>k. n = 2 ^ k"
proof (induction n rule: less_induct)
  case (less n)
  define m where "m = n div 2"
  have half_pred: "0 < m \<Longrightarrow> (2 * m - Suc 0) div 2 = m - Suc 0" by (cases m) auto
  show ?case
  proof (cases "even n")
    case True
    then have n: "n = 2 * m" "0 < m" using less.prems(1) by (auto simp: m_def)
    have "n AND (n - 1) = 2 * (m AND (m - 1))"
      unfolding n(1) using n(2) by (subst and_nat_rec) (auto simp: half_pred)
    then have "m AND (m - 1) = 0" using less.prems(2) by simp
    then obtain k where "m = 2 ^ k" using less.IH [of m] n by auto
    then have "n = 2 ^ Suc k" using n by simp
    then show ?thesis by blast
  next
    case False
    then have n: "n = 2 * m + 1" by (auto simp: m_def elim: oddE)
    have "n AND (n - 1) = 2 * m" unfolding n by (subst and_nat_rec) simp
    then have "n = 2 ^ 0" using less.prems(2) n by simp
    then show ?thesis by blast
  qed
qed

lemma goodBlockSize_pow2:
  assumes "goodBlockSize n"
  obtains k where "9 \<le> k" "k < 32" "unat n = 2 ^ k"
proof -
  have ge: "512 \<le> unat n" and z: "n AND (n - 1) = 0"
    using assms by (simp_all add: goodBlockSize_def word_le_nat_alt not_less)
  have "unat (n - 1) = unat n - 1"
    using ge by (subst unat_sub) (simp_all add: word_le_nat_alt)
  then have "unat n AND (unat n - 1) = 0"
    using arg_cong [OF z, of unat] by (simp add: unsigned_and_eq)
  then obtain k where k: "unat n = 2 ^ k" using nat_and_pred_pow2 [of "unat n"] ge by auto
  have "(2::nat) ^ k < 2 ^ 32" using unsigned_less [of n, where 'a = nat] k by simp
  then have "k < 32" by (rule power_less_imp_less_exp [rotated]) simp
  moreover have "\<not> k < 9"
  proof
    assume "k < 9"
    then have "(2::nat) ^ k \<le> 2 ^ 8" by (intro power_increasing) auto
    with ge k show False by simp
  qed
  ultimately show thesis using that [of k] k by simp
qed

section \<open>Accepted and rejected headers\<close>

lemma readVolumeHeader_long:
  assumes "1536 \<le> length rs"
  defines "buf \<equiv> gslice rs 1024 1536"
  shows "readVolumeHeader rs =
    (if be16 rs 1024 \<noteq> sigHFSPlus \<and> be16 rs 1024 \<noteq> sigHFSX then Inl ErrBadHeader
     else if \<not> goodBlockSize (be32 rs (1024 + 0x28)) then Inl ErrCorrupt
     else Inr
       \<lparr>Signature = be16 rs 1024, Version = be16 rs 1026, vhAttributes = be32 rs 1028,
        BlockSize = be32 rs (1024 + 0x28), vhTotalBlocks = be32 rs (1024 + 0x2C),
        FreeBlocks = be32 rs (1024 + 0x30),
        AllocationFile = parseForkData (drop specialBase buf),
        ExtentsFile = parseForkData (drop (specialBase + 1 * forkDataLen) buf),
        CatalogFile = parseForkData (drop (specialBase + 2 * forkDataLen) buf),
        AttributesFile = parseForkData (drop (specialBase + 3 * forkDataLen) buf),
        StartupFile = parseForkData (drop (specialBase + 4 * forkDataLen) buf),
        caseSensitive = False\<rparr>)"
proof -
  have "readerAt rs 512 1024 = (buf, None)"
    using assms(1) readerAt_inside [of 1024 rs 512] by (simp add: buf_def)
  then show ?thesis
    using assms(1) by (simp add: readVolumeHeader_def volumeHeaderOffset_def buf_def codec_simps)
qed

lemma readVolumeHeader_short: "length rs < 1536 \<Longrightarrow> readVolumeHeader rs = Inl EOF"
  by (auto simp: readVolumeHeader_def volumeHeaderOffset_def readerAt_def Let_def)

lemma wf_parseForkData [simp]: "wf_forkData (parseForkData b)"
  by (simp add: wf_forkData_def parseForkData_def)

lemma readVolumeHeader_Inr:
  assumes "readVolumeHeader rs = Inr h"
  shows "1536 \<le> length rs" "Signature h \<in> {sigHFSPlus, sigHFSX}" "goodBlockSize (BlockSize h)"
    "list_all wf_forkData [AllocationFile h, ExtentsFile h, CatalogFile h, AttributesFile h, StartupFile h]"
proof -
  show len: "1536 \<le> length rs"
    using assms readVolumeHeader_short [of rs] by (cases "length rs < 1536") auto
  show "Signature h \<in> {sigHFSPlus, sigHFSX}" "goodBlockSize (BlockSize h)"
    "list_all wf_forkData [AllocationFile h, ExtentsFile h, CatalogFile h, AttributesFile h, StartupFile h]"
    using assms unfolding readVolumeHeader_long [OF len] by (auto split: if_splits)
qed

text \<open>
  A header block with a given signature and block size and nothing else, used by the
  concrete instances below.
\<close>

definition bareHeader :: "u16 \<Rightarrow> u32 \<Rightarrow> bytes" where
  "bareHeader sig bs = overwrite (overwrite (replicate 1536 0) 1024 (enc16 sig)) 1064 (enc32 bs)"

lemma bareHeader_fields:
  "length (bareHeader sig bs) = 1536" "be16 (bareHeader sig bs) 1024 = sig"
  "be32 (bareHeader sig bs) 1064 = bs"
  by (simp_all add: bareHeader_def codec_simps)

section \<open>Properties\<close>

text \<open>
  C39. The 80-byte fork descriptor codec is a bijection: decoding what \<^verbatim>\<open>encodeForkInto\<close>
  (and \<^verbatim>\<open>btreeWriter.encodeForkDescriptor\<close>, the same bytes) wrote returns the descriptor,
  and encoding what \<^verbatim>\<open>parseForkData\<close> read reproduces the bytes.
\<close>

theorem fork_descriptor_roundtrip:
  assumes "wf_forkData f" "forkDataLen \<le> length dst" "length b = forkDataLen"
  shows "parseForkData (encodeForkInto dst f) = f
       \<and> encodeForkInto (replicate forkDataLen 0) (parseForkData b) = b"
  using assms by (simp add: parse_encode_fork encode_parse_fork)

theorem fork_descriptor_roundtrip_witness:
  "parseForkData (encodeForkInto (replicate 80 0)
      \<lparr>LogicalSize = 5000, ClumpSize = 4096, fdTotalBlocks = 2,
       Extents = \<lparr>StartBlock = 7, BlockCount = 2\<rparr> # replicate 7 \<lparr>StartBlock = 0, BlockCount = 0\<rparr>\<rparr>)
     = \<lparr>LogicalSize = 5000, ClumpSize = 4096, fdTotalBlocks = 2,
        Extents = \<lparr>StartBlock = 7, BlockCount = 2\<rparr> # replicate 7 \<lparr>StartBlock = 0, BlockCount = 0\<rparr>\<rparr>
   \<and> encodeForkInto (replicate forkDataLen 0) (parseForkData (replicate 80 3)) = replicate 80 3"
  by (rule fork_descriptor_roundtrip) (simp_all add: wf_forkData_def header_consts)

text \<open>
  C37. What \<^verbatim>\<open>readVolumeHeader\<close> accepts: the image holds the whole 512-byte header, the
  signature is one of the two HFS+ signatures, the block size is a power of two from 512
  to \<open>2 ^ 31\<close>, and all five special-file descriptors have eight extents.
\<close>

theorem header_accepted:
  assumes "readVolumeHeader rs = Inr h"
  shows "1536 \<le> length rs \<and> Signature h \<in> {sigHFSPlus, sigHFSX}
       \<and> (\<exists>k. 9 \<le> k \<and> k < 32 \<and> unat (BlockSize h) = 2 ^ k)
       \<and> list_all wf_forkData
           [AllocationFile h, ExtentsFile h, CatalogFile h, AttributesFile h, StartupFile h]"
proof -
  obtain k where "9 \<le> k" "k < 32" "unat (BlockSize h) = 2 ^ k"
    using readVolumeHeader_Inr(3) [OF assms] by (rule goodBlockSize_pow2)
  then show ?thesis
    using readVolumeHeader_Inr(1,2,4) [OF assms] by blast
qed

theorem header_accepted_witness:
  "\<exists>h. readVolumeHeader (bareHeader sigHFSX 4096) = Inr h
     \<and> (\<exists>k. 9 \<le> k \<and> k < 32 \<and> unat (BlockSize h) = 2 ^ k)"
proof -
  have "goodBlockSize 4096" by (simp add: goodBlockSize_def)
  then obtain h where h: "readVolumeHeader (bareHeader sigHFSX 4096) = Inr h"
    by (simp add: readVolumeHeader_long bareHeader_fields)
  show ?thesis using header_accepted [OF h] h by blast
qed

text \<open>
  C38. Which error a rejected header gets, and in which order the checks are made: a short
  image is \<^verbatim>\<open>io.EOF\<close>, then a wrong signature is \<^verbatim>\<open>ErrBadHeader\<close>, then a bad block size is
  \<^verbatim>\<open>ErrCorrupt\<close>; nothing else is refused.
\<close>

theorem header_verdict:
  "(readVolumeHeader rs = Inl EOF \<longleftrightarrow> length rs < 1536)
   \<and> (readVolumeHeader rs = Inl ErrBadHeader \<longleftrightarrow>
        1536 \<le> length rs \<and> be16 rs 1024 \<notin> {sigHFSPlus, sigHFSX})
   \<and> (readVolumeHeader rs = Inl ErrCorrupt \<longleftrightarrow>
        1536 \<le> length rs \<and> be16 rs 1024 \<in> {sigHFSPlus, sigHFSX} \<and> \<not> goodBlockSize (be32 rs 1064))
   \<and> ((\<exists>h. readVolumeHeader rs = Inr h) \<longleftrightarrow>
        1536 \<le> length rs \<and> be16 rs 1024 \<in> {sigHFSPlus, sigHFSX} \<and> goodBlockSize (be32 rs 1064))"
proof (cases "length rs < 1536")
  case True
  then show ?thesis by (simp add: readVolumeHeader_short)
next
  case False
  then show ?thesis by (auto simp: readVolumeHeader_long)
qed

end
