(* ===== verification/Fork.thy ===== *)
theory Fork
  imports VolumeHeader
begin

text \<open>
  \<^verbatim>\<open>fork.go\<close>: a fork is a logical byte stream over a list of extents of the image. The
  record \<open>vol\<close> holds the fields of the Go \<^verbatim>\<open>Volume\<close> that the fork code reads through its
  \<^verbatim>\<open>vol\<close> pointer (\<open>disk\<close>: the bytes behind \<^verbatim>\<open>rs\<close>, which on a writable volume is the same
  slice as \<^verbatim>\<open>img\<close>; \<open>vsize\<close>: \<^verbatim>\<open>size\<close>; \<open>wr\<close>: whether \<^verbatim>\<open>img\<close> is set; \<open>vh\<close>). The
  lemmas refine \<^verbatim>\<open>readAt\<close> to reading the concatenated extents, show that it cannot panic on
  any image, and bound what \<^verbatim>\<open>readAll\<close> allocates.
\<close>

section \<open>Data\<close>

record vol =
  disk :: bytes
  vsize :: int
  wr :: bool
  vh :: volumeHeader

record fork =
  fsize :: int
  fextents :: "extentDescriptor list"

abbreviation blockSizeOf :: "'a vol_scheme \<Rightarrow> int" where
  "blockSizeOf v \<equiv> uint (BlockSize (vh v))"

definition maxForkBytes :: int where
  "maxForkBytes = 2 ^ 50"

definition growChunk :: int where
  "growChunk = 2 ^ 20"

section \<open>Operations\<close>

text \<open>
  The loop of \<^verbatim>\<open>fork.readAt\<close>: \<open>n\<close> is \<^verbatim>\<open>len(p)\<close>, \<open>acc\<close> the \<^verbatim>\<open>total\<close> bytes delivered,
  \<open>base\<close> is \<^verbatim>\<open>blockBase\<close>. The slice \<^verbatim>\<open>p[total:total+int(n)]\<close> panics when the window is
  negative.
\<close>

fun readAt_loop :: "bytes \<Rightarrow> int \<Rightarrow> nat \<Rightarrow> extentDescriptor list \<Rightarrow> bytes \<Rightarrow> int \<Rightarrow> int
    \<Rightarrow> bytes \<times> err option" where
  "readAt_loop d bs n [] acc off base =
     (acc, if length acc < n then Some ErrUnexpectedEOF else None)"
| "readAt_loop d bs n (ext # exts) acc off base =
     (let extLen = uint (BlockCount ext) * bs
      in if extLen = 0 then readAt_loop d bs n exts acc off base
         else let extEnd = wrap64 (base + extLen)
              in if off < extEnd then
                   let within = wrap64 (off - base);
                       absOff = wrap64 (uint (StartBlock ext) * bs + within);
                       rest = wrap64 (extLen - within);
                       m = (if rest > int n - int (length acc) then int n - int (length acc) else rest)
                   in if m < 0 then (acc, Some Panic)
                      else (case readerAt d (nat m) absOff of
                              (_, Some e) \<Rightarrow> (acc, Some (ErrForkRead e))
                            | (xs, None) \<Rightarrow>
                                if length acc + length xs = n then (acc @ xs, None)
                                else readAt_loop d bs n exts (acc @ xs) (off + m) extEnd)
                 else readAt_loop d bs n exts acc off extEnd)"

definition readAt :: "'a vol_scheme \<Rightarrow> fork \<Rightarrow> nat \<Rightarrow> int \<Rightarrow> bytes \<times> err option" where
  "readAt v f n off =
     (if off < 0 then ([], Some ErrNegativeOffset)
      else if off \<ge> fsize f then ([], Some EOF)
      else readAt_loop (disk v) (blockSizeOf v)
             (if int n > fsize f - off then nat (fsize f - off) else n) (fextents f) [] off 0)"

fun extentBytes_loop :: "int \<Rightarrow> extentDescriptor list \<Rightarrow> int \<Rightarrow> int" where
  "extentBytes_loop bs [] n = n"
| "extentBytes_loop bs (e # es) n =
     (if uint (BlockCount e) > (maxForkBytes - n) div bs then maxForkBytes
      else extentBytes_loop bs es (n + uint (BlockCount e) * bs))"

definition extentBytes :: "'a vol_scheme \<Rightarrow> fork \<Rightarrow> int" where
  "extentBytes v f = extentBytes_loop (blockSizeOf v) (fextents f) 0"

definition capacity :: "'a vol_scheme \<Rightarrow> int" where
  "capacity v = (if wr v then int (length (disk v)) else if vsize v > 0 then vsize v else -1)"

fun checkExtents_loop :: "int \<Rightarrow> int \<Rightarrow> int \<Rightarrow> extentDescriptor list \<Rightarrow> int \<Rightarrow> err option" where
  "checkExtents_loop bs cap sz [] logical = None"
| "checkExtents_loop bs cap sz (e # es) logical =
     (if logical \<ge> sz then None
      else if BlockCount e = 0 then checkExtents_loop bs cap sz es logical
      else let start = uint (StartBlock e) * bs; len = uint (BlockCount e) * bs
           in if start > cap - len then Some ErrCorrupt
              else checkExtents_loop bs cap sz es (wrap64 (logical + len)))"

definition checkExtentsInside :: "'a vol_scheme \<Rightarrow> fork \<Rightarrow> int \<Rightarrow> err option" where
  "checkExtentsInside v f cap = checkExtents_loop (blockSizeOf v) cap (fsize f) (fextents f) 0"

definition growStep :: "int \<Rightarrow> nat \<Rightarrow> int" where
  "growStep sz len = min (sz - int len) (max growChunk (int len))"

function readGrow_loop :: "'a vol_scheme \<Rightarrow> fork \<Rightarrow> bytes \<Rightarrow> bytes result" where
  "readGrow_loop v f buf =
     (if int (length buf) < fsize f then
        let step = growStep (fsize f) (length buf);
            r = readAt v f (nat step) (int (length buf))
        in if snd r \<noteq> None \<and> snd r \<noteq> Some EOF then Inl (the (snd r))
           else if int (length (fst r)) < step then Inr (buf @ fst r)
           else readGrow_loop v f (buf @ fst r)
      else Inr buf)"
  by pat_completeness auto
termination
  by (relation "measure (\<lambda>(v, f, buf). nat (fsize f - int (length buf)))")
    (auto simp: growStep_def growChunk_def)

declare readGrow_loop.simps [simp del]

definition readGrow :: "'a vol_scheme \<Rightarrow> fork \<Rightarrow> bytes result" where
  "readGrow v f = readGrow_loop v f []"

text \<open>The largest \<^verbatim>\<open>int\<close>, \<^verbatim>\<open>int64(^uint(0)>>1)\<close>, on a platform of 64 bits.\<close>

definition maxInt :: int where
  "maxInt = 2 ^ 63 - 1"

definition readAll :: "'a vol_scheme \<Rightarrow> fork \<Rightarrow> bytes result" where
  "readAll v f =
     (if fsize f = 0 then Inr []
      else if fsize f < 0 \<or> fsize f > maxForkBytes \<or> fsize f > maxInt then Inl ErrCorrupt
      else if fsize f > extentBytes v f then Inl ErrCorrupt
      else if snd (readAt v f 1 (fsize f - 1)) \<noteq> None then Inl ErrCorrupt
      else if capacity v < 0 then readGrow v f
      else if fsize f > capacity v then Inl ErrCorrupt
      else (case checkExtentsInside v f (capacity v) of
              Some e \<Rightarrow> Inl e
            | None \<Rightarrow>
                (case readAt v f (nat (fsize f)) 0 of
                   (xs, e) \<Rightarrow> if e \<noteq> None \<and> e \<noteq> Some EOF then Inl (the e) else Inr xs)))"

text \<open>\<^verbatim>\<open>int64(fd.LogicalSize)\<close> reads the unsigned size as two's complement.\<close>

definition newSpecialFork :: "forkData \<Rightarrow> fork" where
  "newSpecialFork fd =
     \<lparr>fsize = sint (LogicalSize fd), fextents = filter (\<lambda>e. BlockCount e \<noteq> 0) (Extents fd)\<rparr>"

section \<open>The bytes of a fork\<close>

text \<open>Specification: the extents' byte ranges of the image, one after the other.\<close>

definition extentSpan :: "nat \<Rightarrow> extentDescriptor \<Rightarrow> nat" where
  "extentSpan bs e = unat (BlockCount e) * bs"

definition extentContent :: "bytes \<Rightarrow> nat \<Rightarrow> extentDescriptor \<Rightarrow> bytes" where
  "extentContent d bs e = gslice d (unat (StartBlock e) * bs) (unat (StartBlock e) * bs + extentSpan bs e)"

definition forkContent :: "bytes \<Rightarrow> nat \<Rightarrow> extentDescriptor list \<Rightarrow> bytes" where
  "forkContent d bs es = concat (map (extentContent d bs) es)"

definition extentInside :: "bytes \<Rightarrow> nat \<Rightarrow> extentDescriptor \<Rightarrow> bool" where
  "extentInside d bs e \<longleftrightarrow> unat (StartBlock e) * bs + extentSpan bs e \<le> length d"

lemma length_extentContent: "extentInside d bs e \<Longrightarrow> length (extentContent d bs e) = extentSpan bs e"
  by (simp add: extentInside_def extentContent_def)

lemma length_forkContent:
  "list_all (extentInside d bs) es \<Longrightarrow> length (forkContent d bs es) = sum_list (map (extentSpan bs) es)"
  by (induction es) (auto simp: forkContent_def length_extentContent)

lemma forkContent_Cons: "forkContent d bs (e # es) = extentContent d bs e @ forkContent d bs es"
  by (simp add: forkContent_def)

lemma uint_unat_mult: "uint (w :: u32) * int bs = int (unat w * bs)"
  by simp

lemma readerAt_nat:
  "o' + m \<le> length d \<Longrightarrow> o' < length d \<Longrightarrow> readerAt d m (int o') = (gslice d o' (o' + m), None)"
  by (simp add: readerAt_inside)

text \<open>One turn of the loop: an extent before the window, and an extent that holds its start.\<close>

lemma readAt_loop_skip:
  assumes "base + extentSpan bs e < 2 ^ 63" "base + extentSpan bs e \<le> pos"
  shows "readAt_loop d (int bs) n (e # es) acc (int pos) (int base)
     = readAt_loop d (int bs) n es acc (int pos) (int (base + extentSpan bs e))"
proof -
  have len: "uint (BlockCount e) * int bs = int (extentSpan bs e)" by (simp add: extentSpan_def)
  have "wrap64 (int base + int (extentSpan bs e)) = int (base + extentSpan bs e)"
    using wrap64_nat [OF assms(1)] by simp
  then show ?thesis using assms(2) by (auto simp: len Let_def simp del: of_nat_add)
qed

lemma readAt_loop_hit:
  assumes inside: "extentInside d bs e" "length d < 2 ^ 63"
    and k: "k < extentSpan bs e" "base + extentSpan bs e < 2 ^ 63" "length acc \<le> n"
    and m: "m = min (extentSpan bs e - k) (n - length acc)" and pos: "pos = base + k"
  shows "readAt_loop d (int bs) n (e # es) acc (int pos) (int base)
     = (if length acc + m = n then (acc @ take m (drop k (extentContent d bs e)), None)
        else readAt_loop d (int bs) n es (acc @ take m (drop k (extentContent d bs e)))
          (int pos + int m) (int (base + extentSpan bs e)))"
proof -
  let ?L = "extentSpan bs e" and ?S = "unat (StartBlock e) * bs"
  have len: "uint (BlockCount e) * int bs = int ?L" by (simp add: extentSpan_def)
  have start: "uint (StartBlock e) * int bs = int ?S" by simp
  have room: "?S + ?L \<le> length d" using inside by (simp add: extentInside_def)
  have w: "wrap64 (int base + int ?L) = int (base + ?L)" "wrap64 (int pos - int base) = int k"
    using k room inside(2) pos wrap64_nat [of "base + ?L"] wrap64_nat [of k] by simp_all
  have w': "wrap64 (int ?S + int k) = int (?S + k)" "wrap64 (int ?L - int k) = int (?L - k)"
    using k room inside(2) wrap64_nat [of "?S + k"] wrap64_nat [of "?L - k"] by simp_all
  have mm: "(if int (?L - k) > int n - int (length acc) then int n - int (length acc)
      else wrap64 (int ?L - int k)) = int m"
    unfolding w' using k(3) by (auto simp: m min_def)
  have rd: "readerAt d m (int (?S + k)) = (gslice d (?S + k) (?S + k + m), None)"
    using k room by (intro readerAt_nat) (auto simp: m)
  have got: "gslice d (?S + k) (?S + k + m) = take m (drop k (extentContent d bs e))"
    using k by (simp add: extentContent_def gslice_def drop_take min_def m add.commute)
  have "length (take m (drop k (extentContent d bs e))) = m"
    using k inside(1) by (simp add: m length_extentContent)
  moreover have "pos < base + ?L" "?L \<noteq> 0" using k pos by auto
  ultimately show ?thesis
    by (simp add: len start w w' mm rd got Let_def del: of_nat_add of_nat_diff of_nat_mult)
qed

text \<open>The loop of \<^verbatim>\<open>readAt\<close> reads the rest of the window from the extents that are left.\<close>

lemma readAt_loop_content:
  assumes "list_all (extentInside d bs) es" "length d < 2 ^ 63"
    and "base + sum_list (map (extentSpan bs) es) < 2 ^ 63" "length acc \<le> n"
  shows "readAt_loop d (int bs) n es acc (int (base + k)) (int base)
     = (acc @ take (n - length acc) (drop k (forkContent d bs es)),
        if n - length acc \<le> length (forkContent d bs es) - k then None
        else Some ErrUnexpectedEOF)"
  using assms
proof (induction es arbitrary: acc k base)
  case Nil
  then show ?case by (simp add: forkContent_def)
next
  case (Cons e es)
  let ?L = "extentSpan bs e" and ?r = "n - length acc"
  have ce: "length (extentContent d bs e) = ?L"
    using Cons.prems(1) by (simp add: length_extentContent)
  show ?case
  proof (cases "k < ?L")
    case False
    then have "base + k = base + ?L + (k - ?L)" by simp
    then show ?thesis
      using Cons.prems False ce readAt_loop_skip [of base bs e "base + k" d n es acc]
        Cons.IH [of "base + ?L" acc "k - ?L"]
      by (simp add: forkContent_Cons add.assoc del: readAt_loop.simps)
        (simp add: add.commute)
  next
    case True
    define m where "m = min (?L - k) ?r"
    note step = readAt_loop_hit [OF _ Cons.prems(2) True _ Cons.prems(4) m_def refl, of base es]
    show ?thesis
    proof (cases "?r \<le> ?L - k")
      case r: True
      then have m: "m = ?r" "length acc + m = n" "?r \<le> ?L + length (forkContent d bs es) - k"
        using Cons.prems(4) True by (auto simp: m_def)
      then show ?thesis
        using r Cons.prems ce True step unfolding forkContent_Cons
        by (simp del: readAt_loop.simps)
    next
      case r: False
      then have m: "m = ?L - k" "length acc + m \<noteq> n" "int (base + k) + int m = int (base + ?L)"
        using True by (auto simp: m_def)
      then show ?thesis
        using r Cons.prems ce True step
          Cons.IH [of "base + ?L" "acc @ drop k (extentContent d bs e)" 0]
        unfolding forkContent_Cons
        by (simp add: add.assoc del: readAt_loop.simps) arith
    qed
  qed
qed

section \<open>Reading a well-formed fork\<close>

definition forkOK :: "'a vol_scheme \<Rightarrow> fork \<Rightarrow> bool" where
  "forkOK v f \<longleftrightarrow>
     list_all (extentInside (disk v) (unat (BlockSize (vh v)))) (fextents f)
     \<and> sum_list (map (extentSpan (unat (BlockSize (vh v)))) (fextents f)) < 2 ^ 63
     \<and> length (disk v) < 2 ^ 63 \<and> 0 \<le> fsize f
     \<and> fsize f \<le> int (sum_list (map (extentSpan (unat (BlockSize (vh v)))) (fextents f)))"

definition forkBytes :: "'a vol_scheme \<Rightarrow> fork \<Rightarrow> bytes" where
  "forkBytes v f = take (nat (fsize f)) (forkContent (disk v) (unat (BlockSize (vh v))) (fextents f))"

lemma length_forkBytes: "forkOK v f \<Longrightarrow> length (forkBytes v f) = nat (fsize f)"
  by (auto simp: forkOK_def forkBytes_def length_forkContent min_def)

lemma readAt_window:
  assumes "forkOK v f" "0 \<le> off" "off < fsize f"
  shows "readAt v f n off = (take n (drop (nat off) (forkBytes v f)), None)"
proof -
  let ?bs = "unat (BlockSize (vh v))" and ?n = "min n (nat (fsize f - off))"
  let ?c = "forkContent (disk v) ?bs (fextents f)"
  have "nat (fsize f) \<le> length ?c"
    using assms(1) by (auto simp: forkOK_def length_forkContent nat_le_iff)
  then have room: "?n \<le> length ?c - nat off" using assms(2,3) by linarith
  have "readAt v f n off = readAt_loop (disk v) (int ?bs) ?n (fextents f) [] (int (0 + nat off)) (int 0)"
    using assms(2,3) by (auto simp: readAt_def min_def)
  also have "\<dots> = (take ?n (drop (nat off) ?c), None)"
    using assms(1) room by (subst readAt_loop_content) (auto simp: forkOK_def)
  also have "take ?n (drop (nat off) ?c) = take n (drop (nat off) (forkBytes v f))"
    using assms(2,3) by (simp add: forkBytes_def drop_take nat_diff_distrib)
  finally show ?thesis .
qed

lemma extentBytes_covers:
  assumes "0 < bs" "m \<le> maxForkBytes" "0 \<le> k"
    and "m \<le> k + int (sum_list (map (extentSpan bs) es))"
  shows "m \<le> extentBytes_loop (int bs) es k"
  using assms(4,3)
proof (induction es arbitrary: k)
  case (Cons e es)
  show ?case
  proof (cases "uint (BlockCount e) > (maxForkBytes - k) div int bs")
    case False
    then show ?thesis
      using Cons.prems Cons.IH [of "k + uint (BlockCount e) * int bs"]
      by (simp add: extentSpan_def add.assoc)
  qed (use assms(2) in simp)
qed simp

lemma checkExtents_inside:
  assumes "list_all (extentInside d bs) es" "length d < 2 ^ 63"
    and "k + sum_list (map (extentSpan bs) es) < 2 ^ 63"
  shows "checkExtents_loop (int bs) (int (length d)) sz es (int k) = None"
  using assms
proof (induction es arbitrary: k)
  case (Cons e es)
  let ?L = "extentSpan bs e"
  have len: "uint (BlockCount e) * int bs = int ?L" by (simp add: extentSpan_def)
  have "int (unat (StartBlock e) * bs + ?L) \<le> int (length d)"
    using Cons.prems(1) by (simp add: extentInside_def del: of_nat_add of_nat_mult)
  then have fits: "\<not> uint (StartBlock e) * int bs > int (length d) - int ?L" by simp
  have "wrap64 (int k + int ?L) = int (k + ?L)"
    using Cons.prems(3) wrap64_nat [of "k + ?L"] by simp
  moreover have "checkExtents_loop (int bs) (int (length d)) sz es (int (k + ?L)) = None"
    "checkExtents_loop (int bs) (int (length d)) sz es (int k) = None"
    using Cons.prems Cons.IH [of "k + ?L"] Cons.IH [of k] by (auto simp: add.assoc)
  ultimately show ?case using fits by (simp add: len Let_def)
qed simp

lemma readGrow_loop_window:
  assumes "forkOK v f" "buf = take (length buf) (forkBytes v f)"
  shows "readGrow_loop v f buf = Inr (forkBytes v f)"
  using assms
proof (induction v f buf rule: readGrow_loop.induct)
  case (1 v f buf)
  note len = length_forkBytes [OF 1(2)]
  show ?case
  proof (cases "int (length buf) < fsize f")
    case False
    then have "buf = forkBytes v f" using 1(3) len by simp
    with False show ?thesis by (subst readGrow_loop.simps) simp
  next
    case True
    define st where "st = growStep (fsize f) (length buf)"
    have st: "0 < st" "st \<le> fsize f - int (length buf)"
      using True by (auto simp: st_def growStep_def growChunk_def)
    define xs where "xs = take (nat st) (drop (length buf) (forkBytes v f))"
    have rd: "readAt v f (nat st) (int (length buf)) = (xs, None)"
      using readAt_window [OF 1(2), of "int (length buf)"] True by (simp add: xs_def)
    have lx: "length xs = nat st" using st len by (simp add: xs_def)
    have pre: "buf @ xs = take (length (buf @ xs)) (forkBytes v f)"
      unfolding xs_def using 1(3) lx take_add [of "length buf" "nat st" "forkBytes v f"]
      by (simp add: xs_def)
    have "readGrow_loop v f (buf @ fst (readAt v f (nat st) (int (length buf)))) = Inr (forkBytes v f)"
    proof (rule 1(1) [OF True st_def refl _ _ 1(2)], unfold rd fst_conv snd_conv)
      show "buf @ xs = take (length (buf @ xs)) (forkBytes v f)" by (rule pre)
    qed (use lx st in auto)
    then show ?thesis
      using True rd lx st by (subst readGrow_loop.simps) (simp add: st_def [symmetric] Let_def)
  qed
qed

lemma readAll_forkBytes:
  assumes ok: "forkOK v f" and bs: "BlockSize (vh v) \<noteq> 0" and sz: "fsize f \<le> maxForkBytes"
    and cap: "capacity v < 0 \<or> capacity v = int (length (disk v)) \<and> fsize f \<le> int (length (disk v))"
  shows "readAll v f = Inr (forkBytes v f)"
proof (cases "fsize f = 0")
  case True
  then show ?thesis by (simp add: readAll_def forkBytes_def)
next
  case False
  with ok have pos: "0 < fsize f" by (simp add: forkOK_def)
  have bs0: "0 < unat (BlockSize (vh v))" using bs by (simp add: unat_gt_0)
  have "fsize f \<le> extentBytes v f"
    using extentBytes_covers [OF bs0 sz order_refl] ok by (simp add: extentBytes_def forkOK_def)
  moreover have "snd (readAt v f 1 (fsize f - 1)) = None"
    using readAt_window [OF ok] pos by simp
  moreover have "capacity v < 0 \<Longrightarrow> readGrow v f = Inr (forkBytes v f)"
    using readGrow_loop_window [OF ok, of "[]"] by (simp add: readGrow_def)
  moreover have "checkExtentsInside v f (int (length (disk v))) = None"
    using checkExtents_inside [of "disk v" "unat (BlockSize (vh v))" "fextents f" 0] ok
    by (simp add: checkExtentsInside_def forkOK_def)
  moreover have "readAt v f (nat (fsize f)) 0 = (forkBytes v f, None)"
    using readAt_window [OF ok, of 0] pos length_forkBytes [OF ok] by simp
  ultimately show ?thesis using pos sz cap by (auto simp: readAll_def maxInt_def maxForkBytes_def)
qed

section \<open>Writing into extents\<close>

text \<open>Two extents with no block in common; a byte range that misses an extent.\<close>

definition apart :: "extentDescriptor \<Rightarrow> extentDescriptor \<Rightarrow> bool" where
  "apart e f \<longleftrightarrow> unat (StartBlock e) + unat (BlockCount e) \<le> unat (StartBlock f)
     \<or> unat (StartBlock f) + unat (BlockCount f) \<le> unat (StartBlock e)"

definition misses :: "nat \<Rightarrow> nat \<Rightarrow> nat \<Rightarrow> extentDescriptor \<Rightarrow> bool" where
  "misses bs lo hi e \<longleftrightarrow> hi \<le> unat (StartBlock e) * bs \<or> unat (StartBlock e) * bs + extentSpan bs e \<le> lo"

lemma gslice_overwrite_misses:
  assumes "misses bs lo hi e" "off + length xs \<le> length d"
    and "unat (StartBlock e) * bs \<le> off" "off + length xs \<le> unat (StartBlock e) * bs + extentSpan bs e"
  shows "gslice (overwrite d off xs) lo hi = gslice d lo hi"
  using assms by (auto simp: misses_def intro: gslice_overwrite_below gslice_overwrite_above)

lemma apart_misses:
  assumes "apart e f"
  shows "misses bs (unat (StartBlock f) * bs) (unat (StartBlock f) * bs + extentSpan bs f) e"
proof -
  let ?se = "unat (StartBlock e)" and ?ce = "unat (BlockCount e)"
  let ?sf = "unat (StartBlock f)" and ?cf = "unat (BlockCount f)"
  have "(?se + ?ce) * bs \<le> ?sf * bs \<or> (?sf + ?cf) * bs \<le> ?se * bs"
    using assms unfolding apart_def by (metis mult_le_mono1)
  then show ?thesis by (auto simp: misses_def extentSpan_def add_mult_distrib)
qed

section \<open>Reading any fork\<close>

text \<open>
  On a hostile extent list the running \<^verbatim>\<open>blockBase\<close> can wrap; the position still never lies
  before it, which is what keeps the window of every read inside \<^verbatim>\<open>p\<close>.
\<close>

lemma wrap64_add_cases:
  assumes "- (2 ^ 63) \<le> a" "a < 2 ^ 63" "0 < b" "b < 2 ^ 63"
  shows "wrap64 (a + b) = a + b \<and> a + b < 2 ^ 63 \<or> wrap64 (a + b) < a"
proof (cases "a + b < 2 ^ 63")
  case True
  then show ?thesis using assms wrap64_id [of "a + b"] by simp
next
  case False
  have "(a + b + 2 ^ 63) mod 2 ^ 64 = (a + b + 2 ^ 63 - 2 ^ 64) mod 2 ^ 64"
    using minus_mod_self2 [of "a + b + 2 ^ 63" "2 ^ 64"] by (rule sym)
  also have "\<dots> = a + b + 2 ^ 63 - 2 ^ 64" using False assms by (intro mod_pos_pos_trivial) auto
  finally have "wrap64 (a + b) = a + b - 2 ^ 64" by (simp add: wrap64_def)
  then show ?thesis using assms by simp
qed

lemma readAt_loop_safe:
  assumes "length acc \<le> n" "base \<le> off" "- (2 ^ 63) \<le> base" "off < 2 ^ 63" "0 \<le> bs" "bs < 2 ^ 31 + 1"
  shows "snd (readAt_loop d bs n es acc off base) \<noteq> Some Panic
       \<and> length (fst (readAt_loop d bs n es acc off base)) \<le> n"
  using assms(1-4)
proof (induction es arbitrary: acc off base)
  case (Cons e es)
  let ?L = "uint (BlockCount e) * bs" and ?E = "wrap64 (base + uint (BlockCount e) * bs)"
  show ?case
  proof (cases "?L = 0 \<or> \<not> off < ?E")
    case True
    then show ?thesis
      using Cons.prems Cons.IH [of acc base off] Cons.IH [of acc ?E off] wrap64_range [of "base + ?L"]
      by (auto simp: Let_def)
  next
    case False
    have count: "uint (BlockCount e) \<le> 2 ^ 32 - 1" using uint_lt2p [of "BlockCount e"] by simp
    have "?L \<le> (2 ^ 32 - 1) * 2 ^ 31" using count assms(5,6) by (intro mult_mono) auto
    then have L: "0 < ?L" "?L < 2 ^ 63" using False assms(5) by (auto simp: less_le)
    then have E: "?E = base + ?L" "base + ?L < 2 ^ 63"
      using wrap64_add_cases [of base ?L] Cons.prems False by auto
    have "wrap64 (off - base) = off - base" "wrap64 (?L - (off - base)) = ?L - (off - base)"
      using E False L Cons.prems by (auto intro!: wrap64_id)
    then have rest: "wrap64 (?L - wrap64 (off - base)) = ?L - (off - base)" by simp
    define m where "m = (if wrap64 (?L - wrap64 (off - base)) > int n - int (length acc)
      then int n - int (length acc) else wrap64 (?L - wrap64 (off - base)))"
    have m: "0 \<le> m" "m \<le> int n - int (length acc)"
      "m = ?L - (off - base) \<or> m = int n - int (length acc)"
      unfolding m_def rest using E False Cons.prems by auto
    define a where "a = wrap64 (uint (StartBlock e) * bs + wrap64 (off - base))"
    obtain xs r where rd: "readerAt d (nat m) a = (xs, r)" by fastforce
    have lx: "r = None \<Longrightarrow> length xs = nat m"
      using length_readerAt [of d "nat m" a] rd by simp
    have step: "readAt_loop d bs n (e # es) acc off base
        = (case r of Some e' \<Rightarrow> (acc, Some (ErrForkRead e'))
           | None \<Rightarrow> if length acc + length xs = n then (acc @ xs, None)
                     else readAt_loop d bs n es (acc @ xs) (off + m) ?E)"
      using False rd m(1)
      by (simp add: Let_def m_def [symmetric] a_def [symmetric] split: option.split) (simp add: m_def)
    show ?thesis
      using m lx Cons.prems E Cons.IH [of "acc @ xs" "base + ?L" "off + m"]
      unfolding step by (auto split: option.splits simp del: readAt_loop.simps)
  qed
qed simp

lemma readAt_safe:
  assumes "fsize f < 2 ^ 63" "BlockSize (vh v) \<le> 2 ^ 31"
  shows "snd (readAt v f n off) \<noteq> Some Panic \<and> length (fst (readAt v f n off)) \<le> n"
proof -
  have "uint (BlockSize (vh v)) \<le> uint (2 ^ 31 :: u32)" using assms(2) by (simp only: word_le_def)
  then have "uint (BlockSize (vh v)) < 2 ^ 31 + 1" by simp
  then show ?thesis
    using readAt_loop_safe [of "[]" "if int n > fsize f - off then nat (fsize f - off) else n" 0 off
        "blockSizeOf v" "disk v" "fextents f"] assms(1)
    by (auto simp: readAt_def split: if_splits)
qed

lemma goodBlockSize_le: "goodBlockSize n \<Longrightarrow> n \<le> 2 ^ 31"
proof -
  assume "goodBlockSize n"
  then obtain k where k: "k < 32" "unat n = 2 ^ k" by (rule goodBlockSize_pow2)
  have "(2::nat) ^ k \<le> 2 ^ 31" using k by (intro power_increasing) auto
  then show ?thesis using k by (simp add: word_le_nat_alt)
qed

lemma readAll_length:
  assumes "readAll v f = Inr xs" "0 \<le> capacity v" "fsize f < 2 ^ 63" "BlockSize (vh v) \<le> 2 ^ 31"
  shows "int (length xs) \<le> capacity v"
proof (cases "fsize f = 0")
  case False
  have "length (fst (readAt v f (nat (fsize f)) 0)) \<le> nat (fsize f)"
    using readAt_safe [OF assms(3,4)] by blast
  then show ?thesis using assms(1,2) False
    by (auto simp: readAll_def split: if_splits option.splits prod.splits)
qed (use assms in \<open>auto simp: readAll_def\<close>)

section \<open>Properties\<close>

text \<open>A two-extent fork over a 16-byte image with 4-byte blocks, for the concrete instances.\<close>

definition sampleHeader :: "u32 \<Rightarrow> volumeHeader" where
  "sampleHeader bs =
     \<lparr>Signature = sigHFSPlus, Version = 4, vhAttributes = 0, BlockSize = bs, vhTotalBlocks = 4,
      FreeBlocks = 0, AllocationFile = parseForkData (replicate 80 0),
      ExtentsFile = parseForkData (replicate 80 0), CatalogFile = parseForkData (replicate 80 0),
      AttributesFile = parseForkData (replicate 80 0), StartupFile = parseForkData (replicate 80 0),
      caseSensitive = False\<rparr>"

definition sampleVol :: vol where
  "sampleVol = \<lparr>disk = [0, 1, 2, 3, 4, 5, 6, 7, 8, 9, 10, 11, 12, 13, 14, 15], vsize = 16, wr = True,
     vh = sampleHeader 4\<rparr>"

definition sampleFork :: fork where
  "sampleFork = \<lparr>fsize = 6, fextents = [\<lparr>StartBlock = 3, BlockCount = 1\<rparr>, \<lparr>StartBlock = 1, BlockCount = 1\<rparr>]\<rparr>"

lemmas sample_defs = sampleHeader_def sampleVol_def sampleFork_def

lemma sample_ok: "forkOK sampleVol sampleFork"
  by (simp add: forkOK_def sample_defs extentInside_def extentSpan_def)

lemma sample_bytes: "forkBytes sampleVol sampleFork = [12, 13, 14, 15, 4, 5]"
  by (simp add: forkBytes_def sample_defs forkContent_def extentContent_def extentSpan_def gslice_def)

text \<open>
  C22. \<^verbatim>\<open>fork.readAt\<close> refines reading the concatenated extents: on a fork whose extents lie
  inside the image and cover its size, a read at any offset inside the fork returns exactly
  that window of the fork's bytes, cut at its logical size, and no error, however the
  window straddles extents.
\<close>

theorem fork_read_refines:
  assumes "forkOK v f" "0 \<le> off" "off < fsize f"
  shows "readAt v f n off = (take n (drop (nat off) (forkBytes v f)), None)"
  using assms by (rule readAt_window)

theorem fork_read_refines_witness: "readAt sampleVol sampleFork 4 3 = ([15, 4, 5], None)"
  using fork_read_refines [OF sample_ok, of 3 4] by (simp add: sample_bytes) (simp add: sample_defs)

text \<open>
  C28. \<^verbatim>\<open>fork.readAll\<close> returns the fork's bytes on both of its paths: the checked single
  read when the image size is known, and the growing read (\<^verbatim>\<open>readGrow\<close>) when it is not. In
  particular none of the guards against hostile forks refuses a well-formed fork.
\<close>

theorem fork_readAll_refines:
  assumes "forkOK v f" "goodBlockSize (BlockSize (vh v))" "fsize f \<le> maxForkBytes"
    and "capacity v < 0 \<or> capacity v = int (length (disk v)) \<and> fsize f \<le> int (length (disk v))"
  shows "readAll v f = Inr (forkBytes v f)"
proof -
  have "BlockSize (vh v) \<noteq> 0" using assms(2) by (auto simp: goodBlockSize_def)
  then show ?thesis using assms by (intro readAll_forkBytes)
qed

definition bigVol :: vol where
  "bigVol = \<lparr>disk = replicate 1024 9, vsize = -1, wr = False, vh = sampleHeader 512\<rparr>"

definition bigFork :: fork where
  "bigFork = \<lparr>fsize = 600, fextents = [\<lparr>StartBlock = 1, BlockCount = 1\<rparr>, \<lparr>StartBlock = 0, BlockCount = 1\<rparr>]\<rparr>"

lemma big_fork:
  "forkOK (bigVol\<lparr>wr := w\<rparr>) bigFork" "forkBytes (bigVol\<lparr>wr := w\<rparr>) bigFork = replicate 600 9"
  "fsize bigFork \<le> maxForkBytes" "goodBlockSize (BlockSize (vh bigVol))"
  by (simp_all add: forkOK_def bigVol_def bigFork_def sampleHeader_def extentInside_def extentSpan_def
      goodBlockSize_def maxForkBytes_def forkBytes_def forkContent_def extentContent_def gslice_def
      replicate_add [symmetric])

theorem fork_readAll_refines_witness: "readAll (bigVol\<lparr>wr := False\<rparr>) bigFork = Inr (replicate 600 9)"
  using fork_readAll_refines [OF big_fork(1) _ big_fork(3), of False] big_fork
  by (simp add: capacity_def) (simp add: bigVol_def)

text \<open>
  C35. No fork, however hostile its extents and size, makes \<^verbatim>\<open>fork.readAt\<close> panic or deliver
  more bytes than the caller's buffer holds, although the running \<^verbatim>\<open>int64\<close> offsets can
  wrap around.
\<close>

theorem fork_read_never_panics:
  assumes "fsize f < 2 ^ 63" "goodBlockSize (BlockSize (vh v))"
  shows "snd (readAt v f n off) \<noteq> Some Panic \<and> length (fst (readAt v f n off)) \<le> n"
  using assms(1) goodBlockSize_le [OF assms(2)] by (rule readAt_safe)

theorem fork_read_never_panics_witness:
  "snd (readAt bigVol \<lparr>fsize = 2 ^ 63 - 1,
      fextents = replicate 8 \<lparr>StartBlock = -1, BlockCount = -1\<rparr>\<rparr> 100 5) \<noteq> Some Panic"
  using fork_read_never_panics [of "\<lparr>fsize = 2 ^ 63 - 1,
      fextents = replicate 8 \<lparr>StartBlock = -1, BlockCount = -1\<rparr>\<rparr>" bigVol 100 5]
  by (simp add: bigVol_def sampleHeader_def goodBlockSize_def)

text \<open>
  C36. \<^verbatim>\<open>readAll\<close> never returns (and so never allocated) more bytes than the image holds
  when the image size is known, whatever logical size the fork claims.
\<close>

theorem fork_readAll_bounded:
  assumes "readAll v f = Inr xs" "0 \<le> capacity v" "fsize f < 2 ^ 63"
    and "goodBlockSize (BlockSize (vh v))"
  shows "int (length xs) \<le> capacity v"
  using assms(1-3) goodBlockSize_le [OF assms(4)] by (rule readAll_length)

theorem fork_readAll_bounded_witness:
  "int (length (replicate 600 (9 :: byte))) \<le> capacity (bigVol\<lparr>wr := True\<rparr>)"
proof (rule fork_readAll_bounded)
  have "BlockSize (vh (bigVol\<lparr>wr := True\<rparr>)) \<noteq> 0" by (simp add: bigVol_def sampleHeader_def)
  from readAll_forkBytes [OF big_fork(1) this big_fork(3)]
  show "readAll (bigVol\<lparr>wr := True\<rparr>) bigFork = Inr (replicate 600 9)"
    using big_fork(2) [of True] by (simp add: capacity_def) (simp add: bigVol_def bigFork_def)
qed (simp_all add: bigVol_def bigFork_def sampleHeader_def goodBlockSize_def capacity_def)

end
