(* ===== verification/Alloc.thy ===== *)
theory Alloc
  imports Fork
begin

text \<open>
  \<^verbatim>\<open>alloc.go\<close>: the allocation bitmap. \<open>allocator\<close> is the Go struct (its \<^verbatim>\<open>v\<close> pointer is the
  volume passed to \<open>flushA\<close>; \<^verbatim>\<open>forkSpan\<close> is never used). Block numbers are natural numbers
  below the \<^verbatim>\<open>uint32\<close> block count; a run \<^verbatim>\<open>for i := start; i < start+count; i++\<close> is the list
  of its block numbers, with the sum wrapping at 32 bits. The lemmas give the allocator's
  contract in terms of the set of free blocks: first fit, completeness, exact rollback.
\<close>

section \<open>Data and operations\<close>

record allocator =
  bitmap :: bytes
  bits :: u32

definition newAllocator :: "env \<Rightarrow> 'a vol_scheme \<Rightarrow> allocator result" where
  "newAllocator env v =
     (let f = newSpecialFork (AllocationFile (vh v))
      in bindR (envMakeBytes env (fsize f) (int (length (disk v)) + blockSizeOf v))
           (\<lambda>_. bindR (readAll v f)
             (\<lambda>raw. Inr \<lparr>bitmap = raw, bits = vhTotalBlocks (vh v)\<rparr>)))"

text \<open>\<^verbatim>\<open>test\<close> compares with \<^verbatim>\<open>uint32(len(a.bitmap))\<close>.\<close>

definition testBlock :: "bytes \<Rightarrow> nat \<Rightarrow> bool" where
  "testBlock m n = (if n div 8 \<ge> length m mod 2 ^ 32 then True else getBit m n)"

text \<open>\<^verbatim>\<open>set\<close> indexes without a check: \<open>None\<close> is the panic.\<close>

definition setBlock :: "bytes \<Rightarrow> nat \<Rightarrow> bytes option" where
  "setBlock m n = (if n div 8 < length m then Some (setBit m n) else None)"

definition clearBlock :: "bytes \<Rightarrow> nat \<Rightarrow> bytes" where
  "clearBlock m n = (if n div 8 < length m mod 2 ^ 32 then clrBit m n else m)"

fun setRun :: "bytes \<Rightarrow> nat list \<Rightarrow> bytes option" where
  "setRun m [] = Some m"
| "setRun m (n # ns) = (case setBlock m n of None \<Rightarrow> None | Some m' \<Rightarrow> setRun m' ns)"

text \<open>The scan of \<^verbatim>\<open>allocContiguous\<close> over the block numbers that are left.\<close>

fun contig_loop :: "bytes \<Rightarrow> nat \<Rightarrow> nat list \<Rightarrow> nat \<Rightarrow> nat \<Rightarrow> nat option" where
  "contig_loop m count [] run start = None"
| "contig_loop m count (n # ns) run start =
     (if testBlock m n then contig_loop m count ns 0 start
      else let start = (if run = 0 then n else start)
           in if run + 1 = count then Some start else contig_loop m count ns (run + 1) start)"

definition allocContiguous :: "u32 \<Rightarrow> (allocator, u32) op" where
  "allocContiguous count a =
     (if count = 0 then (Inr 0, a)
      else case contig_loop (bitmap a) (unat count) [0..<unat (bits a)] 0 0 of
             None \<Rightarrow> (Inl ErrNoSpace, a)
           | Some start \<Rightarrow>
               (case setRun (bitmap a) [start..<start + unat count] of
                  None \<Rightarrow> (Inl Panic, a)
                | Some m \<Rightarrow> (Inr (of_nat start), a\<lparr>bitmap := m\<rparr>)))"

definition freeRun :: "bytes \<Rightarrow> u32 \<Rightarrow> u32 \<Rightarrow> bytes" where
  "freeRun m start count = foldl clearBlock m [unat start..<unat (start + count)]"

text \<open>The variables that \<^verbatim>\<open>allocFragments\<close>' loop and its \<^verbatim>\<open>flush\<close> closure share.\<close>

record fragState =
  fbm :: bytes
  fruns :: "extentDescriptor list"
  remaining :: u32
  runStart :: nat
  runLen :: u32

definition fragFlush :: "fragState \<Rightarrow> fragState option" where
  "fragFlush s =
     (if runLen s > 0 then
        case setRun (fbm s) [runStart s..<runStart s + unat (runLen s)] of
          None \<Rightarrow> None
        | Some m \<Rightarrow>
            Some (s\<lparr>fbm := m,
                    fruns := fruns s @ [\<lparr>StartBlock = of_nat (runStart s), BlockCount = runLen s\<rparr>],
                    remaining := remaining s - runLen s, runLen := 0\<rparr>)
      else Some s)"

fun frag_loop :: "nat list \<Rightarrow> fragState \<Rightarrow> fragState option" where
  "frag_loop [] s = Some s"
| "frag_loop (n # ns) s =
     (if remaining s = 0 then Some s
      else if testBlock (fbm s) n then
        (case fragFlush s of None \<Rightarrow> None | Some s' \<Rightarrow> frag_loop ns s')
      else let s1 = (if runLen s = 0 then s\<lparr>runStart := n\<rparr> else s);
               s2 = s1\<lparr>runLen := runLen s1 + 1\<rparr>
           in if runLen s2 = remaining s2 then fragFlush s2 else frag_loop ns s2)"

definition rollback :: "bytes \<Rightarrow> extentDescriptor list \<Rightarrow> bytes" where
  "rollback m runs = foldl (\<lambda>m r. freeRun m (StartBlock r) (BlockCount r)) m runs"

definition allocFragments :: "u32 \<Rightarrow> (allocator, extentDescriptor list) op" where
  "allocFragments count a =
     (if count = 0 then (Inr [], a)
      else case allocContiguous count a of
             (Inr start, a') \<Rightarrow> (Inr [\<lparr>StartBlock = start, BlockCount = count\<rparr>], a')
           | (Inl _, a1) \<Rightarrow>
               (case frag_loop [0..<unat (bits a1)]
                       \<lparr>fbm = bitmap a1, fruns = [], remaining = count, runStart = 0, runLen = 0\<rparr> of
                  None \<Rightarrow> (Inl Panic, a1)
                | Some s \<Rightarrow>
                    (case fragFlush s of
                       None \<Rightarrow> (Inl Panic, a1)
                     | Some s' \<Rightarrow>
                         if remaining s' > 0
                         then (Inl ErrNoSpace, a1\<lparr>bitmap := rollback (fbm s') (fruns s')\<rparr>)
                         else (Inr (fruns s'), a1\<lparr>bitmap := fbm s'\<rparr>))))"

definition freeCount :: "allocator \<Rightarrow> u32" where
  "freeCount a = of_nat (length (filter (\<lambda>n. \<not> testBlock (bitmap a) n) [0..<unat (bits a)]))"

text \<open>
  \<^verbatim>\<open>flush\<close>: the loop over the allocation file's extents. The lengths were bounded when
  \<^verbatim>\<open>newAllocator\<close> read the same extents, so the sums are exact.
\<close>

fun flush_loop :: "bytes \<Rightarrow> nat \<Rightarrow> extentDescriptor list \<Rightarrow> bytes \<Rightarrow> nat \<Rightarrow> bytes result" where
  "flush_loop m bs [] img written = Inr img"
| "flush_loop m bs (e # es) img written =
     (if BlockCount e = 0 then Inr img
      else let dst = unat (StartBlock e) * bs;
               span = unat (BlockCount e) * bs;
               n = (if written + span > length m then length m - written else span)
           in if dst + n > length img then Inl Panic
              else let img' = overwrite img dst (gslice m written (written + n))
                   in if written + n \<ge> length m then Inr img'
                      else flush_loop m bs es img' (written + n))"

definition setHeaderU32At :: "bytes \<Rightarrow> nat \<Rightarrow> u32 \<Rightarrow> bytes result" where
  "setHeaderU32At img off val =
     (if length img < volumeHeaderOffset + off + 4 \<or> length img < 1024 then Inl Panic
      else Inr (overwrite (overwrite img (volumeHeaderOffset + off) (enc32 val))
                 (length img - 1024 + off) (enc32 val)))"

definition setHeaderFreeBlocks :: "bytes \<Rightarrow> u32 \<Rightarrow> bytes result" where
  "setHeaderFreeBlocks img free = setHeaderU32At img 0x30 free"

definition flushA :: "allocator \<Rightarrow> ('a vol_scheme, unit) op" where
  "flushA a v =
     (case flush_loop (bitmap a) (unat (BlockSize (vh v))) (Extents (AllocationFile (vh v))) (disk v) 0 of
        Inl e \<Rightarrow> (Inl e, v)
      | Inr img \<Rightarrow>
          let v1 = v\<lparr>disk := img, vh := (vh v)\<lparr>FreeBlocks := freeCount a\<rparr>\<rparr>
          in case setHeaderFreeBlocks img (freeCount a) of
               Inl e \<Rightarrow> (Inl e, v1)
             | Inr img' \<Rightarrow> (Inr (), v1\<lparr>disk := img'\<rparr>))"

section \<open>Single blocks\<close>

definition freeSet :: "allocator \<Rightarrow> nat set" where
  "freeSet a = {n. n < unat (bits a) \<and> \<not> testBlock (bitmap a) n}"

lemma free_inMap: "\<not> testBlock m n \<Longrightarrow> inMap m n \<and> n div 8 < length m mod 2 ^ 32 \<and> \<not> getBit m n"
proof -
  assume free: "\<not> testBlock m n"
  moreover have "length m mod 2 ^ 32 \<le> length m" by (rule mod_less_eq_dividend)
  ultimately show ?thesis by (auto simp: testBlock_def inMap_def split: if_splits)
qed

lemma testBlock_setBit: "inMap m n \<Longrightarrow> testBlock (setBit m n) k = (k = n \<and> k div 8 < length m mod 2 ^ 32 \<or> testBlock m k)"
  by (auto simp: testBlock_def getBit_setBit)

lemma setRun_eq: "\<forall>n \<in> set ns. inMap m n \<Longrightarrow> setRun m ns = Some (foldl setBit m ns)"
  by (induction ns arbitrary: m) (auto simp: setBlock_def inMap_def)

lemma length_markrun [simp]: "length (foldl setBit m ns) = length m"
  by (induction ns arbitrary: m) auto

lemma length_clearBlock [simp]: "length (clearBlock m n) = length m"
  by (simp add: clearBlock_def)

lemma length_freerun [simp]: "length (foldl clearBlock m ns) = length m"
  by (induction ns arbitrary: m) auto

lemma testBlock_markrun:
  "\<forall>n \<in> set ns. \<not> testBlock m n \<Longrightarrow> testBlock (foldl setBit m ns) k = (k \<in> set ns \<or> testBlock m k)"
proof (cases "k div 8 < length m mod 2 ^ 32")
  case True
  assume "\<forall>n \<in> set ns. \<not> testBlock m n"
  then have "\<forall>n \<in> set ns. inMap m n" using free_inMap by blast
  moreover have "inMap m k" using True free_inMap [of m k]
    by (auto simp: inMap_def intro: less_le_trans [OF _ mod_less_eq_dividend])
  ultimately show ?thesis using True by (auto simp: testBlock_def bits.test_mark_run)
qed (auto simp: testBlock_def)

lemma clearrun_eq: "\<forall>n \<in> set ns. n div 8 < length m mod 2 ^ 32 \<Longrightarrow> foldl clearBlock m ns = foldl clrBit m ns"
  by (induction ns arbitrary: m) (auto simp: clearBlock_def)

lemma clear_markrun:
  assumes "\<forall>n \<in> set ns. \<not> testBlock m n"
  shows "foldl clearBlock (foldl setBit m ns) ns = m"
proof -
  have "\<forall>n \<in> set ns. inMap m n" "\<forall>n \<in> set ns. n div 8 < length m mod 2 ^ 32" "\<forall>n \<in> set ns. \<not> getBit m n"
    using assms free_inMap by blast+
  then show ?thesis by (simp add: clearrun_eq bits.unmark_mark_run)
qed

section \<open>Contiguous allocation\<close>

definition windowFree :: "bytes \<Rightarrow> nat \<Rightarrow> nat \<Rightarrow> bool" where
  "windowFree m s c \<longleftrightarrow> (\<forall>i \<in> {s..<s + c}. \<not> testBlock m i)"

text \<open>
  Scan invariant at block \<open>n\<close>: the last \<open>run\<close> blocks are free, and no window of the
  wanted length starts before them.
\<close>

lemma contig_loop_spec:
  assumes "windowFree m (n - run) run" "run < count" "run \<le> n" "run > 0 \<longrightarrow> start = n - run"
    and "\<forall>s < n - run. \<not> windowFree m s count" "n \<le> N"
  shows "case contig_loop m count [n..<N] run start of
           None \<Rightarrow> \<forall>s. s + count \<le> N \<longrightarrow> \<not> windowFree m s count
         | Some s \<Rightarrow> s + count \<le> N \<and> windowFree m s count \<and> (\<forall>s' < s. \<not> windowFree m s' count)"
  using assms
proof (induction "N - n" arbitrary: n run start)
  case 0
  then show ?case
    by (auto simp: windowFree_def)
next
  case (Suc k)
  then have n: "n < N" "k = N - Suc n" "[n..<N] = n # [Suc n..<N]" by (auto simp: upt_conv_Cons)
  show ?case
  proof (cases "testBlock m n")
    case True
    have "\<not> windowFree m s count" if "s < Suc n" for s
      using that Suc.prems(2,3,5) True by (cases "s < n - run") (auto simp: windowFree_def)
    then show ?thesis
      using Suc.hyps(1) [of "Suc n" 0 start] Suc.prems n True by (auto simp: windowFree_def)
  next
    case False
    have grow: "windowFree m (n - run) (Suc run)"
      using Suc.prems(1,3) False by (auto simp: windowFree_def less_Suc_eq)
    have st: "(if run = 0 then n else start) = n - run" using Suc.prems(4) by auto
    show ?thesis
    proof (cases "Suc run = count")
      case True
      then show ?thesis using grow st Suc.prems(3,5) n False by auto
    next
      case c: False
      then have "Suc run < count" using Suc.prems(2) by simp
      then have "case contig_loop m count [Suc n..<N] (Suc run) (n - run) of
          None \<Rightarrow> \<forall>s. s + count \<le> N \<longrightarrow> \<not> windowFree m s count
        | Some s \<Rightarrow> s + count \<le> N \<and> windowFree m s count \<and> (\<forall>s' < s. \<not> windowFree m s' count)"
        using Suc.prems(3,5) n(1,2) grow by (intro Suc.hyps(1)) auto
      then show ?thesis unfolding n(3) using False st c by simp
    qed
  qed
qed

lemma contig_Some:
  assumes "contig_loop m count [0..<N] 0 0 = Some s" "0 < count"
  shows "s + count \<le> N" "windowFree m s count" "\<forall>s' < s. \<not> windowFree m s' count"
  using contig_loop_spec [of m 0 0 count 0 N] assms by (auto simp: windowFree_def)

lemma contig_None:
  assumes "contig_loop m count [0..<N] 0 0 = None" "0 < count"
  shows "s + count \<le> N \<Longrightarrow> \<not> windowFree m s count"
  using contig_loop_spec [of m 0 0 count 0 N] assms by (auto simp: windowFree_def)

lemma allocContiguous_cases:
  assumes "count \<noteq> 0"
  obtains (fits) s where "allocContiguous count a
        = (Inr (of_nat s), a\<lparr>bitmap := foldl setBit (bitmap a) [s..<s + unat count]\<rparr>)"
      "s + unat count \<le> unat (bits a)" "windowFree (bitmap a) s (unat count)"
      "\<forall>s' < s. \<not> windowFree (bitmap a) s' (unat count)"
  | (full) "allocContiguous count a = (Inl ErrNoSpace, a)"
      "\<And>s. s + unat count \<le> unat (bits a) \<Longrightarrow> \<not> windowFree (bitmap a) s (unat count)"
proof (cases "contig_loop (bitmap a) (unat count) [0..<unat (bits a)] 0 0")
  case None
  then show thesis
    using assms contig_None [OF None] by (intro full) (auto simp: allocContiguous_def unat_gt_0)
next
  case (Some s)
  have c: "0 < unat count" using assms by (simp add: unat_gt_0)
  note w = contig_Some [OF Some c]
  have "\<forall>n \<in> set [s..<s + unat count]. inMap (bitmap a) n"
    using w(2) free_inMap by (auto simp: windowFree_def)
  then have "setRun (bitmap a) [s..<s + unat count] = Some (foldl setBit (bitmap a) [s..<s + unat count])"
    by (rule setRun_eq)
  then show thesis using assms Some w by (intro fits) (auto simp: allocContiguous_def)
qed

section \<open>Runs of blocks\<close>

definition runBlocks :: "extentDescriptor \<Rightarrow> nat list" where
  "runBlocks r = [unat (StartBlock r)..<unat (StartBlock r) + unat (BlockCount r)]"

definition blocksOf :: "extentDescriptor list \<Rightarrow> nat list" where
  "blocksOf runs = concat (map runBlocks runs)"

lemma freeRun_blocks:
  "unat (StartBlock r) + unat (BlockCount r) < 2 ^ 32 \<Longrightarrow>
   freeRun m (StartBlock r) (BlockCount r) = foldl clearBlock m (runBlocks r)"
  by (simp add: freeRun_def runBlocks_def unat_word_ariths)

lemma rollback_blocks:
  "\<forall>r \<in> set runs. unat (StartBlock r) + unat (BlockCount r) < 2 ^ 32 \<Longrightarrow>
   rollback m runs = foldl clearBlock m (blocksOf runs)"
  by (induction runs arbitrary: m) (auto simp: rollback_def blocksOf_def freeRun_blocks)

lemma blocksOf_append [simp]: "blocksOf (xs @ ys) = blocksOf xs @ blocksOf ys"
  by (simp add: blocksOf_def)

lemma blocksOf_Nil [simp]: "blocksOf [] = []"
  by (simp add: blocksOf_def)

lemma blocksOf_run: "s + unat c < 2 ^ 32 \<Longrightarrow> blocksOf [\<lparr>StartBlock = of_nat s, BlockCount = c\<rparr>] = [s..<s + unat c]"
  by (simp add: blocksOf_def runBlocks_def unat_of_nat)

section \<open>Fragmented allocation\<close>

text \<open>
  Invariant of the scan at block \<open>n\<close>, over the bitmap \<open>m0\<close> it started from: the runs
  taken so far are marked, ascending and were free, the pending run ends at \<open>n\<close>, and every
  free block below \<open>n\<close> is in one of them.
\<close>

definition fragInv :: "bytes \<Rightarrow> nat \<Rightarrow> nat \<Rightarrow> fragState \<Rightarrow> bool" where
  "fragInv m0 C n s \<longleftrightarrow>
     fbm s = foldl setBit m0 (blocksOf (fruns s))
     \<and> (\<forall>r \<in> set (fruns s). unat (StartBlock r) + unat (BlockCount r) < 2 ^ 32)
     \<and> sorted_wrt (<) (blocksOf (fruns s))
     \<and> (\<forall>b \<in> set (blocksOf (fruns s)). \<not> testBlock m0 b \<and> b + unat (runLen s) < n)
     \<and> unat (runLen s) \<le> n \<and> (runLen s \<noteq> 0 \<longrightarrow> runStart s = n - unat (runLen s))
     \<and> windowFree m0 (n - unat (runLen s)) (unat (runLen s))
     \<and> unat (remaining s) + length (blocksOf (fruns s)) = C \<and> runLen s \<le> remaining s
     \<and> (\<forall>b < n. \<not> testBlock m0 b \<longrightarrow> b \<in> set (blocksOf (fruns s)) \<or> n - unat (runLen s) \<le> b)"

lemma fragFlush_inv:
  assumes inv: "fragInv m0 C n s" and n: "n < 2 ^ 32"
  shows "\<exists>s'. fragFlush s = Some s' \<and> fragInv m0 C n s' \<and> runLen s' = 0
       \<and> unat (remaining s') = unat (remaining s) - unat (runLen s)"
proof (cases "runLen s = 0")
  case True
  then show ?thesis using inv by (auto simp: fragFlush_def)
next
  case False
  define l q where "l = unat (runLen s)" and "q = runStart s"
  define r where "r = \<lparr>StartBlock = of_nat (runStart s), BlockCount = runLen s\<rparr>"
  let ?B = "blocksOf (fruns s)" and ?R = "[q..<q + l]"
  have nql: "n = q + l" using inv False by (auto simp: fragInv_def l_def q_def)
  then have r: "blocksOf [r] = ?R" "unat (StartBlock r) + unat (BlockCount r) = n"
    using n blocksOf_run [of q "runLen s"] by (simp_all add: r_def l_def q_def unat_of_nat)
  have free: "\<forall>b \<in> set ?R. \<not> testBlock m0 b"
    using inv nql by (simp add: fragInv_def windowFree_def l_def)
  then have "\<forall>b \<in> set ?R. inMap (fbm s) b"
    using inv free_inMap by (auto simp: fragInv_def inMap_def)
  then have set: "setRun (fbm s) ?R = Some (foldl setBit m0 (?B @ ?R))"
    using inv by (simp add: setRun_eq fragInv_def)
  have sub: "unat (remaining s - runLen s) = unat (remaining s) - l"
    unfolding l_def using inv by (intro unat_sub) (simp add: fragInv_def)
  have le: "l \<le> unat (remaining s)" using inv by (simp add: fragInv_def word_le_nat_alt l_def)
  define s' where "s' = s\<lparr>fbm := foldl setBit m0 (?B @ ?R), fruns := fruns s @ [r],
    remaining := remaining s - runLen s, runLen := 0\<rparr>"
  have "fragFlush s = Some s'"
    using False set by (simp add: fragFlush_def r_def l_def q_def s'_def word_gt_0)
  moreover have "fragInv m0 C n s'"
    using inv free n le nql
    by (auto simp: fragInv_def s'_def r sub sorted_wrt_append windowFree_def l_def [symmetric])
  ultimately show ?thesis by (auto simp: s'_def sub l_def)
qed

lemma fragInv_used:
  assumes "fragInv m0 C n s" "runLen s = 0" "testBlock m0 n"
  shows "fragInv m0 C (Suc n) s"
  using assms by (auto simp: fragInv_def windowFree_def less_Suc_eq)

lemma fragInv_free:
  assumes "fragInv m0 C n s" "runLen s < remaining s" "\<not> testBlock m0 n"
  defines "s1 \<equiv> (if runLen s = 0 then s\<lparr>runStart := n\<rparr> else s)"
  defines "s2 \<equiv> s1\<lparr>runLen := runLen s1 + 1\<rparr>"
  shows "fragInv m0 C (Suc n) s2" "remaining s2 = remaining s"
proof -
  have r: "unat (runLen s + 1) = Suc (unat (runLen s))"
    using assms(2) unsigned_less [of "remaining s", where 'a = nat]
    by (simp add: unat_word_ariths word_less_nat_alt)
  have "runLen s + 1 \<le> remaining s" using assms(2) by (rule inc_le)
  moreover have "fruns s2 = fruns s" "fbm s2 = fbm s" "remaining s2 = remaining s"
    "runLen s2 = runLen s + 1" "runStart s2 = n - unat (runLen s)"
    using assms(1) by (auto simp: s1_def s2_def fragInv_def)
  moreover have "windowFree m0 (n - unat (runLen s)) (Suc (unat (runLen s)))"
    using assms(1,3) by (auto simp: fragInv_def windowFree_def less_Suc_eq)
  moreover have "\<forall>b < Suc n. \<not> testBlock m0 b \<longrightarrow>
      b \<in> set (blocksOf (fruns s)) \<or> n - unat (runLen s) \<le> b"
    using assms(1) by (auto simp: fragInv_def less_Suc_eq)
  ultimately show "fragInv m0 C (Suc n) s2"
    using assms(1) unfolding fragInv_def by (simp add: r)
  show "remaining s2 = remaining s" by (simp add: s1_def s2_def)
qed

lemma fragInv_test: "fragInv m0 C n s \<Longrightarrow> testBlock (fbm s) n = testBlock m0 n"
proof -
  assume inv: "fragInv m0 C n s"
  then have "\<forall>b \<in> set (blocksOf (fruns s)). \<not> testBlock m0 b" "n \<notin> set (blocksOf (fruns s))"
    by (auto simp: fragInv_def)
  then show ?thesis using inv by (simp add: fragInv_def testBlock_markrun)
qed

lemma frag_loop_inv:
  assumes "fragInv m0 C n s" "runLen s < remaining s" "n \<le> N" "N < 2 ^ 32"
  shows "\<exists>s' n'. frag_loop [n..<N] s = Some s' \<and> fragInv m0 C n' s' \<and> n' \<le> N
       \<and> (n' = N \<or> remaining s' = 0)"
  using assms
proof (induction "N - n" arbitrary: n s)
  case 0
  then show ?case by auto
next
  case (Suc k)
  then have n: "n < N" "k = N - Suc n" "[n..<N] = n # [Suc n..<N]" by (auto simp: upt_conv_Cons)
  have rem: "remaining s \<noteq> 0" using Suc.prems(2) by auto
  show ?case
  proof (cases "testBlock m0 n")
    case True
    obtain s' where s': "fragFlush s = Some s'" "fragInv m0 C n s'" "runLen s' = 0"
      "unat (remaining s') = unat (remaining s) - unat (runLen s)"
      using fragFlush_inv [OF Suc.prems(1)] Suc.prems(3,4) by auto
    have "runLen s' < remaining s'" using s' Suc.prems(2) by (simp add: word_less_nat_alt)
    then show ?thesis
      using Suc.hyps(1) [of "Suc n" s'] fragInv_used [OF s'(2,3) True] n Suc.prems rem s'(1) True
      by (simp add: fragInv_test [OF Suc.prems(1)])
  next
    case False
    define s1 where "s1 = (if runLen s = 0 then s\<lparr>runStart := n\<rparr> else s)"
    define s2 where "s2 = s1\<lparr>runLen := runLen s1 + 1\<rparr>"
    have s2: "fragInv m0 C (Suc n) s2"
      using fragInv_free [OF Suc.prems(1,2) False] by (simp add: s1_def s2_def)
    have step: "frag_loop [n..<N] s
        = (if runLen s2 = remaining s2 then fragFlush s2 else frag_loop [Suc n..<N] s2)"
      using n rem False by (simp add: fragInv_test [OF Suc.prems(1)] Let_def s1_def [symmetric] s2_def [symmetric])
        (simp add: s2_def)
    show ?thesis
    proof (cases "runLen s2 = remaining s2")
      case True
      then show ?thesis
        using fragFlush_inv [OF s2] n Suc.prems(4) step
        by (metis Suc_leI diff_self_eq_0 order.strict_trans1 unat_0_iff)
    next
      case neq: False
      moreover have "runLen s2 \<le> remaining s2" using s2 by (simp add: fragInv_def)
      ultimately show ?thesis
        using Suc.hyps(1) [of "Suc n" s2] s2 n Suc.prems(4) step by simp
    qed
  qed
qed

section \<open>The allocator's contract\<close>

lemma finite_freeSet [simp]: "finite (freeSet a)"
  by (simp add: freeSet_def)

lemma freeSet_mark:
  "set ns \<subseteq> freeSet a \<Longrightarrow> freeSet (a\<lparr>bitmap := foldl setBit (bitmap a) ns\<rparr>) = freeSet a - set ns"
  by (auto simp: freeSet_def subset_iff testBlock_markrun)

lemma fragInv_start:
  "fragInv m0 (unat count) 0 \<lparr>fbm = m0, fruns = [], remaining = count, runStart = 0, runLen = 0\<rparr>"
  by (simp add: fragInv_def windowFree_def)

lemma frag_scan:
  assumes "count \<noteq> 0" "N < 2 ^ 32"
  obtains s s' where
    "frag_loop [0..<N] \<lparr>fbm = m0, fruns = [], remaining = count, runStart = 0, runLen = 0\<rparr> = Some s"
    "fragFlush s = Some s'" "fragInv m0 (unat count) N s'
      \<or> remaining s' = 0 \<and> (\<exists>n \<le> N. fragInv m0 (unat count) n s')" "runLen s' = 0"
proof -
  have "(0 :: u32) < count" using assms(1) by (simp add: word_gt_0)
  then obtain s n where s: "frag_loop [0..<N]
        \<lparr>fbm = m0, fruns = [], remaining = count, runStart = 0, runLen = 0\<rparr> = Some s"
      "fragInv m0 (unat count) n s" "n \<le> N" "n = N \<or> remaining s = 0"
    using frag_loop_inv [OF fragInv_start [of m0 count], of N] assms by auto
  then obtain s' where s': "fragFlush s = Some s'" "fragInv m0 (unat count) n s'" "runLen s' = 0"
      "unat (remaining s') = unat (remaining s) - unat (runLen s)"
    using fragFlush_inv [OF s(2)] assms(2) by auto
  then have "remaining s = 0 \<Longrightarrow> remaining s' = 0" by (simp add: unat_eq_0 flip: unat_0_iff)
  then show thesis using s s' by (intro that [of s s']) auto
qed

lemma allocFragments_cases:
  assumes "count \<noteq> 0"
  obtains (fits) runs where
      "allocFragments count a = (Inr runs, a\<lparr>bitmap := foldl setBit (bitmap a) (blocksOf runs)\<rparr>)"
      "sorted_wrt (<) (blocksOf runs)" "length (blocksOf runs) = unat count"
      "set (blocksOf runs) \<subseteq> freeSet a"
      "\<forall>r \<in> set runs. unat (StartBlock r) + unat (BlockCount r) < 2 ^ 32"
  | (full) "allocFragments count a = (Inl ErrNoSpace, a)" "card (freeSet a) < unat count"
  using assms
proof (cases rule: allocContiguous_cases [of count a])
  case (fits s)
  have lt: "s + unat count < 2 ^ 32"
    using fits(2) unsigned_less [of "bits a", where 'a = nat] by simp
  have "set [s..<s + unat count] \<subseteq> freeSet a"
    using fits(2,3) by (auto simp: freeSet_def windowFree_def)
  then show thesis
    using assms fits(1) lt blocksOf_run [OF lt]
    by (intro that(1) [of "[\<lparr>StartBlock = of_nat s, BlockCount = count\<rparr>]"])
      (auto simp: allocFragments_def unat_of_nat)
next
  case full
  let ?N = "unat (bits a)"
  have N: "?N < 2 ^ 32" using unsigned_less [of "bits a", where 'a = nat] by simp
  obtain s s' where s: "frag_loop [0..<?N]
        \<lparr>fbm = bitmap a, fruns = [], remaining = count, runStart = 0, runLen = 0\<rparr> = Some s"
      "fragFlush s = Some s'" "runLen s' = 0"
      and inv: "fragInv (bitmap a) (unat count) ?N s'
        \<or> remaining s' = 0 \<and> (\<exists>n \<le> ?N. fragInv (bitmap a) (unat count) n s')"
    using frag_scan [OF assms N] by metis
  let ?B = "blocksOf (fruns s')"
  from inv obtain n where i: "fragInv (bitmap a) (unat count) n s'" "n \<le> ?N"
      "remaining s' \<noteq> 0 \<Longrightarrow> n = ?N" by blast
  have B: "sorted_wrt (<) ?B" "set ?B \<subseteq> freeSet a" "fbm s' = foldl setBit (bitmap a) ?B"
      "unat (remaining s') + length ?B = unat count"
      "\<forall>r \<in> set (fruns s'). unat (StartBlock r) + unat (BlockCount r) < 2 ^ 32"
    using i(1,2) s(3) by (auto simp: fragInv_def freeSet_def)
  show thesis
  proof (cases "remaining s' = 0")
    case True
    then show thesis
      using B s full(1) assms by (intro that(1) [of "fruns s'"]) (auto simp: allocFragments_def)
  next
    case False
    have "freeSet a \<subseteq> set ?B" using i False s(3) by (auto simp: fragInv_def freeSet_def)
    then have "card (freeSet a) \<le> length ?B"
      by (metis List.finite_set card_length card_mono order_trans)
    moreover have "0 < unat (remaining s')" using False by (simp add: unat_gt_0)
    ultimately have "card (freeSet a) < unat count" using B(4) by linarith
    moreover have "rollback (fbm s') (fruns s') = bitmap a"
      using B(2,3,5) by (auto simp: rollback_blocks freeSet_def subset_iff intro!: clear_markrun)
    ultimately show thesis
      using False s full(1) assms by (intro that(2)) (auto simp: allocFragments_def word_gt_0)
  qed
qed

lemma freeCount_card: "unat (freeCount a) = card (freeSet a)"
proof -
  let ?f = "filter (\<lambda>n. \<not> testBlock (bitmap a) n) [0..<unat (bits a)]"
  have "set ?f = freeSet a" by (auto simp: freeSet_def)
  then have len: "length ?f = card (freeSet a)" by (metis distinct_card distinct_filter distinct_upt)
  have "length ?f \<le> unat (bits a)" using length_filter_le [of _ "[0..<unat (bits a)]"] by simp
  then have "length ?f < 2 ^ 32"
    using unsigned_less [of "bits a", where 'a = nat] by (simp add: order.strict_trans1)
  then show ?thesis by (simp add: freeCount_def len [symmetric] unat_of_nat)
qed

text \<open>
  What users of the allocator rely on, stated without the bitmap: a pool of free blocks,
  \<open>grab\<close> for \<^verbatim>\<open>allocFragments\<close> and \<open>release\<close> for the \<^verbatim>\<open>freeRun\<close> calls on a list of runs.
\<close>

locale block_pool =
  fixes free :: "'p \<Rightarrow> nat set"
    and grab :: "u32 \<Rightarrow> 'p \<Rightarrow> extentDescriptor list result \<times> 'p"
    and release :: "'p \<Rightarrow> extentDescriptor list \<Rightarrow> 'p"
  assumes finite_free: "finite (free p)"
    and grab_ok: "grab c p = (Inr runs, p') \<Longrightarrow>
      set (blocksOf runs) \<subseteq> free p \<and> free p' = free p - set (blocksOf runs)
      \<and> distinct (blocksOf runs) \<and> length (blocksOf runs) = unat c"
    and grab_fail: "grab c p = (Inl e, p') \<Longrightarrow> p' = p \<and> e = ErrNoSpace \<and> card (free p) < unat c"
    and release_grab: "grab c p = (Inr runs, p') \<Longrightarrow> release p' runs = p"
begin

lemma grab_card: "grab c p = (Inr runs, p') \<Longrightarrow> card (free p') = card (free p) - unat c"
  using grab_ok [of c p runs p'] finite_free [of p] by (auto simp: card_Diff_subset distinct_card)

lemma grab_total: "(\<exists>runs p'. grab c p = (Inr runs, p')) \<longleftrightarrow> unat c \<le> card (free p)"
proof
  assume "\<exists>runs p'. grab c p = (Inr runs, p')"
  then obtain runs p' where g: "grab c p = (Inr runs, p')" by blast
  then show "unat c \<le> card (free p)"
    using grab_ok [OF g] card_mono [OF finite_free [of p], of "set (blocksOf runs)"]
    by (simp add: distinct_card)
next
  assume "unat c \<le> card (free p)"
  then show "\<exists>runs p'. grab c p = (Inr runs, p')"
    using grab_fail [of c p] by (cases "grab c p"; cases "fst (grab c p)") fastforce+
qed

lemma grab_disjoint:
  assumes "grab c p = (Inr runs, p')" "grab d p' = (Inr runs', p'')"
  shows "set (blocksOf runs) \<inter> set (blocksOf runs') = {}"
  using grab_ok [OF assms(1)] grab_ok [OF assms(2)] by blast

end

lemma allocFragments_zero: "allocFragments 0 a = (Inr [], a)"
  by (simp add: allocFragments_def)

interpretation pool: block_pool freeSet allocFragments "\<lambda>a runs. a\<lparr>bitmap := rollback (bitmap a) runs\<rparr>"
proof unfold_locales
  fix c a runs a' assume g: "allocFragments c a = (Inr runs, a')"
  show "set (blocksOf runs) \<subseteq> freeSet a \<and> freeSet a' = freeSet a - set (blocksOf runs)
      \<and> distinct (blocksOf runs) \<and> length (blocksOf runs) = unat c"
  proof (cases "c = 0")
    case False
    then show ?thesis using g
      by (cases rule: allocFragments_cases [of c a]) (auto simp: freeSet_mark strict_sorted_iff)
  qed (use g in \<open>auto simp: allocFragments_zero\<close>)
  show "a'\<lparr>bitmap := rollback (bitmap a') runs\<rparr> = a"
  proof (cases "c = 0")
    case False
    then show ?thesis using g
      by (cases rule: allocFragments_cases [of c a])
        (auto simp: rollback_blocks clear_markrun freeSet_def subset_iff)
  qed (use g in \<open>auto simp: allocFragments_zero rollback_def\<close>)
next
  fix c a e a' assume g: "allocFragments c a = (Inl e, a')"
  then have "c \<noteq> 0" by (auto simp: allocFragments_zero)
  then show "a' = a \<and> e = ErrNoSpace \<and> card (freeSet a) < unat c"
    using g by (cases rule: allocFragments_cases [of c a]) auto
qed simp

section \<open>Writing the bitmap back\<close>

lemma flush_loop_spec:
  assumes "list_all (extentInside img bs) es" "\<forall>e \<in> set es. BlockCount e \<noteq> 0" "sorted_wrt apart es"
    and "w \<le> length m" "length m \<le> w + sum_list (map (extentSpan bs) es)"
  shows "\<exists>img'. flush_loop m bs (es @ zs) img w = Inr img' \<and> length img' = length img
     \<and> take (length m - w) (forkContent img' bs es) = drop w m
     \<and> (\<forall>lo hi. (\<forall>e \<in> set es. misses bs lo hi e) \<longrightarrow> gslice img' lo hi = gslice img lo hi)
     \<or> es = []"
  using assms
proof (induction es arbitrary: img w)
  case (Cons e es)
  let ?dst = "unat (StartBlock e) * bs" and ?L = "extentSpan bs e"
  define n where "n = min ?L (length m - w)"
  define img1 where "img1 = overwrite img ?dst (gslice m w (w + n))"
  have inside: "?dst + ?L \<le> length img" using Cons.prems(1) by (simp add: extentInside_def)
  have lg: "length (gslice m w (w + n)) = n" by (simp add: n_def)
  have img1: "length img1 = length img" "take n (extentContent img1 bs e) = gslice m w (w + n)"
    "\<And>lo hi. misses bs lo hi e \<Longrightarrow> gslice img1 lo hi = gslice img lo hi"
    using inside lg gslice_overwrite_misses [of bs _ _ e ?dst "gslice m w (w + n)" img]
      gslice_overwrite_same [of ?dst "gslice m w (w + n)" img "?dst + n"]
    by (auto simp: img1_def n_def extentContent_def gslice_def)
  have step: "flush_loop m bs ((e # es) @ zs) img w
      = (if w + n \<ge> length m then Inr img1 else flush_loop m bs (es @ zs) img1 (w + n))"
    using Cons.prems(2,4) inside
    by (auto simp: Let_def img1_def n_def extentSpan_def min_def)
  show ?case
  proof (cases "w + n \<ge> length m")
    case True
    then have "n = length m - w" using Cons.prems(4) by (simp add: n_def)
    moreover have "n \<le> length (extentContent img1 bs e)"
      using inside img1(1) by (simp add: extentContent_def n_def)
    ultimately show ?thesis
      using True step img1 by (auto simp: forkContent_Cons gslice_def)
  next
    case False
    then have n: "n = ?L" "w + n \<le> length m" by (auto simp: n_def)
    have ins1: "list_all (extentInside img1 bs) es"
      using Cons.prems(1) img1(1) by (auto simp: list_all_iff extentInside_def)
    have "es \<noteq> []" using False Cons.prems(5) n by auto
    then obtain img' where img': "flush_loop m bs (es @ zs) img1 (w + n) = Inr img'"
        "length img' = length img1" "take (length m - (w + n)) (forkContent img' bs es) = drop (w + n) m"
        "\<And>lo hi. \<forall>e \<in> set es. misses bs lo hi e \<Longrightarrow> gslice img' lo hi = gslice img1 lo hi"
      using Cons.IH [OF ins1 _ _ n(2)] Cons.prems n by (auto simp: add.assoc)
    have "\<forall>f \<in> set es. misses bs ?dst (?dst + ?L) f"
      using Cons.prems(3) by (auto simp: apart_def intro!: apart_misses)
    then have "extentContent img' bs e = extentContent img1 bs e"
      using img'(4) by (simp add: extentContent_def)
    moreover have "extentContent img1 bs e = gslice m w (w + n)"
      using img1(1,2) inside n by (simp add: extentContent_def)
    ultimately have "take (length m - w) (forkContent img' bs (e # es)) = drop w m"
      using img'(3) n lg
      by (simp add: forkContent_Cons gslice_def) (metis append_take_drop_id add.commute drop_drop)
    then show ?thesis using False step img' img1 by auto
  qed
qed simp

text \<open>
  A volume whose allocation file the allocator \<open>a\<close> was loaded from: its extents come
  first in the descriptor, lie inside the image, share no block, cover the file, and do
  not touch the \<^verbatim>\<open>freeBlocks\<close> fields of the two volume headers.
\<close>

abbreviation allocExtents :: "'a vol_scheme \<Rightarrow> extentDescriptor list" where
  "allocExtents v \<equiv> takeWhile (\<lambda>e. BlockCount e \<noteq> 0) (Extents (AllocationFile (vh v)))"

definition allocFileOK :: "'a vol_scheme \<Rightarrow> allocator \<Rightarrow> bool" where
  "allocFileOK v a \<longleftrightarrow>
     wr v \<and> goodBlockSize (BlockSize (vh v)) \<and> bits a = vhTotalBlocks (vh v)
     \<and> filter (\<lambda>e. BlockCount e \<noteq> 0) (Extents (AllocationFile (vh v))) = allocExtents v
     \<and> allocExtents v \<noteq> [] \<and> sorted_wrt apart (allocExtents v)
     \<and> list_all (misses (unat (BlockSize (vh v))) 1072 1076) (allocExtents v)
     \<and> list_all (misses (unat (BlockSize (vh v))) (length (disk v) - 976) (length (disk v) - 972)) (allocExtents v)
     \<and> 1076 \<le> length (disk v) \<and> length (disk v) < 2 ^ 63 \<and> fsize (newSpecialFork (AllocationFile (vh v))) = int (length (bitmap a))
     \<and> length (bitmap a) \<le> length (disk v) \<and> int (length (bitmap a)) \<le> maxForkBytes
     \<and> forkOK v (newSpecialFork (AllocationFile (vh v)))"

lemma forkContent_overwrite:
  assumes "list_all (misses bs lo hi) es" "hi = lo + length xs" "hi \<le> length d"
  shows "forkContent (overwrite d lo xs) bs es = forkContent d bs es"
proof -
  have "extentContent (overwrite d lo xs) bs e = extentContent d bs e" if "e \<in> set es" for e
  proof -
    have room: "lo + length xs \<le> length d" using assms by simp
    from assms that have "misses bs lo hi e" by (simp add: list_all_iff)
    then show ?thesis
      using gslice_overwrite_below [OF room] gslice_overwrite_above [OF room] assms(2)
      unfolding misses_def extentContent_def by metis
  qed
  then show ?thesis by (simp add: forkContent_def cong: map_cong)
qed

lemma setHeaderU32At_ok:
  assumes "off + 4 \<le> 512" "1024 + off + 4 \<le> length img"
  shows "setHeaderU32At img off val = Inr (overwrite (overwrite img (1024 + off) (enc32 val))
           (length img - 1024 + off) (enc32 val))"
  using assms by (simp add: setHeaderU32At_def volumeHeaderOffset_def)

lemma flushA_reload:
  assumes ok: "allocFileOK v a" and mk: "envMakeBytes env (int (length (bitmap a)))
        (int (length (disk v)) + blockSizeOf v) = Inr buf"
  obtains v' where "flushA a v = (Inr (), v')" "newAllocator env v' = Inr a"
    "FreeBlocks (vh v') = freeCount a" "be32 (disk v') 1072 = freeCount a \<or> length (disk v) < 2052"
    "be32 (disk v') (length (disk v') - 976) = freeCount a" "length (disk v') = length (disk v)"
proof -
  let ?es = "allocExtents v" and ?bs = "unat (BlockSize (vh v))" and ?m = "bitmap a"
  let ?f = "newSpecialFork (AllocationFile (vh v))" and ?len = "length (disk v)"
  have f: "fextents ?f = ?es" "fsize ?f = int (length ?m)"
    using ok by (simp_all add: allocFileOK_def newSpecialFork_def)
  have fok: "list_all (extentInside (disk v) ?bs) ?es" "sum_list (map (extentSpan ?bs) ?es) < 2 ^ 63"
    "length ?m \<le> sum_list (map (extentSpan ?bs) ?es)"
    using ok f by (auto simp: allocFileOK_def forkOK_def)
  obtain zs where zs: "Extents (AllocationFile (vh v)) = ?es @ zs"
    by (metis takeWhile_dropWhile_id)
  have nz: "\<forall>e \<in> set ?es. BlockCount e \<noteq> 0" by (auto dest: set_takeWhileD)
  obtain img' where img': "flush_loop ?m ?bs (Extents (AllocationFile (vh v))) (disk v) 0 = Inr img'"
      "length img' = ?len" "take (length ?m) (forkContent img' ?bs ?es) = ?m"
    using flush_loop_spec [OF fok(1) nz, of 0 ?m zs] ok fok(3)
    unfolding zs [symmetric] allocFileOK_def by auto
  define img1 where "img1 = overwrite img' 1072 (enc32 (freeCount a))"
  define img2 where "img2 = overwrite img1 (?len - 976) (enc32 (freeCount a))"
  have len: "1076 \<le> ?len" "?len < 2 ^ 63" using ok by (simp_all add: allocFileOK_def)
  have "length img1 = ?len" "length img2 = ?len" using len img'(2) by (simp_all add: img1_def img2_def)
  have miss: "list_all (misses ?bs 1072 1076) ?es"
    "list_all (misses ?bs (?len - 976) (?len - 972)) ?es" using ok unfolding allocFileOK_def by blast+
  have "forkContent img1 ?bs ?es = forkContent img' ?bs ?es"
    unfolding img1_def by (rule forkContent_overwrite [OF miss(1)]) (use len img'(2) in simp_all)
  moreover have "forkContent img2 ?bs ?es = forkContent img1 ?bs ?es"
    unfolding img2_def
    by (rule forkContent_overwrite [OF miss(2)]) (use len \<open>length img1 = ?len\<close> in simp_all)
  ultimately have content: "forkContent img2 ?bs ?es = forkContent img' ?bs ?es" by simp
  define v' where "v' = v\<lparr>disk := img2, vh := (vh v)\<lparr>FreeBlocks := freeCount a\<rparr>\<rparr>"
  have "flushA a v = (Inr (), v')"
    using img' len by (simp add: flushA_def setHeaderFreeBlocks_def setHeaderU32At_ok v'_def img1_def
        img2_def)
  moreover have "newAllocator env v' = Inr a"
  proof -
    have fok': "forkOK v' ?f"
      using ok fok \<open>length img2 = ?len\<close> f
      by (auto simp: forkOK_def v'_def allocFileOK_def list_all_iff extentInside_def)
    have "forkBytes v' ?f = ?m"
      using f content img'(3) by (simp add: forkBytes_def v'_def)
    then have "readAll v' ?f = Inr ?m"
      using ok fok' f \<open>length img2 = ?len\<close>
      by (subst readAll_forkBytes) (auto simp: allocFileOK_def v'_def capacity_def goodBlockSize_def)
    then show ?thesis
      using mk f ok \<open>length img2 = ?len\<close> by (simp add: newAllocator_def v'_def allocFileOK_def)
  qed
  moreover have "be32 img2 (?len - 976) = freeCount a"
    using len \<open>length img1 = ?len\<close> unfolding img2_def by (intro be32_overwrite_same) simp
  moreover have "be32 img2 1072 = freeCount a" if "\<not> ?len < 2052"
  proof -
    have "be32 img2 1072 = be32 img1 1072"
      unfolding img2_def using that \<open>length img1 = ?len\<close> by (intro be32_overwrite_other) auto
    also have "\<dots> = freeCount a"
      unfolding img1_def using len img'(2) by (intro be32_overwrite_same) simp
    finally show ?thesis .
  qed
  ultimately show thesis
    using that [of v'] \<open>length img2 = ?len\<close> by (auto simp: v'_def)
qed

section \<open>Properties\<close>

text \<open>
  C20. \<^verbatim>\<open>allocContiguous\<close> is a complete first-fit search: on success the run was free, lies
  below the block count, is the lowest such run, and exactly its blocks become used; it fails
  only when no run of that length is free, with \<^verbatim>\<open>ErrNoSpace\<close> and the bitmap untouched. It never
  panics.
\<close>

theorem alloc_contiguous_first_fit:
  assumes "count \<noteq> 0"
  shows "case allocContiguous count a of
      (Inr s, a') \<Rightarrow>
        unat s + unat count \<le> unat (bits a) \<and> windowFree (bitmap a) (unat s) (unat count)
        \<and> (\<forall>s' < unat s. \<not> windowFree (bitmap a) s' (unat count))
        \<and> freeSet a' = freeSet a - {unat s..<unat s + unat count} \<and> bits a' = bits a
    | (Inl e, a') \<Rightarrow>
        e = ErrNoSpace \<and> a' = a
        \<and> (\<forall>s. s + unat count \<le> unat (bits a) \<longrightarrow> \<not> windowFree (bitmap a) s (unat count))"
  using assms
proof (cases rule: allocContiguous_cases [of count a])
  case (fits s)
  have "s < 2 ^ 32" using fits(2) unsigned_less [of "bits a", where 'a = nat] by simp
  then have s: "unat (of_nat s :: u32) = s" by (simp add: unat_of_nat)
  have "set [s..<s + unat count] \<subseteq> freeSet a"
    using fits(2,3) by (auto simp: freeSet_def windowFree_def)
  from freeSet_mark [OF this] show ?thesis using fits s by simp
qed simp

text \<open>A 16-block bitmap with blocks 0, 1, 4 and 9 used, for the concrete instances.\<close>

definition sampleAlloc :: allocator where
  "sampleAlloc = \<lparr>bitmap = [0xC8, 0x40], bits = 16\<rparr>"

lemmas sample_eval = sampleAlloc_def upt_conv_Cons testBlock_def getBit_def bitMask_def setBlock_def
  setBit_def

theorem alloc_contiguous_first_fit_witness:
  "allocContiguous 4 sampleAlloc = (Inr 5, \<lparr>bitmap = [0xCF, 0xC0], bits = 16\<rparr>)
   \<and> freeSet \<lparr>bitmap = [0xCF, 0xC0], bits = 16\<rparr> = freeSet sampleAlloc - {5..<9}"
proof -
  have run: "allocContiguous 4 sampleAlloc = (Inr 5, \<lparr>bitmap = [0xCF, 0xC0], bits = 16\<rparr>)"
    by (simp add: allocContiguous_def sample_eval)
  show ?thesis using alloc_contiguous_first_fit [of 4 sampleAlloc] run by simp
qed

text \<open>
  C19. \<^verbatim>\<open>allocFragments\<close> hands out exactly the number of blocks asked for, in ascending runs
  that share no block, all free before and exactly these used afterwards; it fails only when
  fewer blocks are free in total, and then the rollback leaves the allocator as it was.
\<close>

theorem alloc_fragments_exact:
  "case allocFragments count a of
      (Inr runs, a') \<Rightarrow>
        sorted_wrt (<) (blocksOf runs) \<and> length (blocksOf runs) = unat count
        \<and> set (blocksOf runs) \<subseteq> freeSet a \<and> freeSet a' = freeSet a - set (blocksOf runs)
    | (Inl e, a') \<Rightarrow> e = ErrNoSpace \<and> a' = a \<and> card (freeSet a) < unat count"
proof (cases "count = 0")
  case True
  then show ?thesis by (simp add: allocFragments_zero)
next
  case False
  then show ?thesis by (cases rule: allocFragments_cases [of count a]) (auto simp: freeSet_mark)
qed

text \<open>
  C34. Freeing the runs of an allocation (the \<^verbatim>\<open>freeRun\<close> calls of \<^verbatim>\<open>removeFile\<close> and of the
  rollback) restores the bitmap bit for bit, and the free-block count moves by exactly the
  number of blocks allocated.
\<close>

theorem alloc_release_inverse:
  assumes "allocFragments count a = (Inr runs, a')"
  shows "a'\<lparr>bitmap := rollback (bitmap a') runs\<rparr> = a
       \<and> unat (freeCount a') = unat (freeCount a) - unat count \<and> unat count \<le> unat (freeCount a)"
proof -
  have "unat count \<le> card (freeSet a)" using assms pool.grab_total [of count a] by blast
  then show ?thesis
    using pool.release_grab [OF assms] pool.grab_card [OF assms] by (simp add: freeCount_card)
qed

theorem alloc_release_inverse_witness:
  "allocFragments 11 sampleAlloc = (Inr [\<lparr>StartBlock = 2, BlockCount = 2\<rparr>,
      \<lparr>StartBlock = 5, BlockCount = 4\<rparr>, \<lparr>StartBlock = 10, BlockCount = 5\<rparr>],
      \<lparr>bitmap = [0xFF, 0xFE], bits = 16\<rparr>)
   \<and> unat (freeCount \<lparr>bitmap = [0xFF, 0xFE], bits = 16\<rparr>) = unat (freeCount sampleAlloc) - 11"
proof -
  have run: "allocFragments 11 sampleAlloc = (Inr [\<lparr>StartBlock = 2, BlockCount = 2\<rparr>,
      \<lparr>StartBlock = 5, BlockCount = 4\<rparr>, \<lparr>StartBlock = 10, BlockCount = 5\<rparr>],
      \<lparr>bitmap = [0xFF, 0xFE], bits = 16\<rparr>)"
    by (simp add: allocFragments_def allocContiguous_def fragFlush_def sample_eval)
  show ?thesis using alloc_release_inverse [OF run] run by simp
qed

text \<open>
  C29. \<^verbatim>\<open>flush\<close> then \<^verbatim>\<open>newAllocator\<close> is a round trip: the bitmap written over the allocation
  file's extents is read back unchanged, and the free count computed from it is in the parsed
  header and in both on-disk volume headers.
\<close>

theorem alloc_flush_reload:
  assumes "allocFileOK v a" "2052 \<le> length (disk v)"
    and "envMakeBytes env (int (length (bitmap a))) (int (length (disk v)) + blockSizeOf v) = Inr buf"
  shows "\<exists>v'. flushA a v = (Inr (), v') \<and> newAllocator env v' = Inr a
       \<and> FreeBlocks (vh v') = freeCount a \<and> be32 (disk v') (1024 + 0x30) = freeCount a
       \<and> be32 (disk v') (length (disk v') - 1024 + 0x30) = freeCount a"
proof -
  obtain v' where v': "flushA a v = (Inr (), v')" "newAllocator env v' = Inr a"
    "FreeBlocks (vh v') = freeCount a" "be32 (disk v') 1072 = freeCount a \<or> length (disk v) < 2052"
    "be32 (disk v') (length (disk v') - 976) = freeCount a" "length (disk v') = length (disk v)"
    using flushA_reload [OF assms(1,3)] by blast
  then show ?thesis using assms(2) by (intro exI [of _ v']) auto
qed

definition flushVol :: vol where
  "flushVol = \<lparr>disk = replicate 4096 0, vsize = 4096, wr = True, vh = (sampleHeader 512)
     \<lparr>vhTotalBlocks := 16, AllocationFile := \<lparr>LogicalSize = 2, ClumpSize = 512, fdTotalBlocks = 1,
        Extents = \<lparr>StartBlock = 5, BlockCount = 1\<rparr> # replicate 7 \<lparr>StartBlock = 0, BlockCount = 0\<rparr>\<rparr>\<rparr>\<rparr>"

theorem alloc_flush_reload_witness:
  "\<exists>v'. flushA sampleAlloc flushVol = (Inr (), v') \<and> newAllocator sampleEnv v' = Inr sampleAlloc"
proof -
  have "allocFileOK flushVol sampleAlloc"
    by (simp add: allocFileOK_def flushVol_def sampleAlloc_def sampleHeader_def goodBlockSize_def
        newSpecialFork_def misses_def extentSpan_def maxForkBytes_def forkOK_def extentInside_def)
  moreover have "envMakeBytes sampleEnv (int (length (bitmap sampleAlloc)))
      (int (length (disk flushVol)) + blockSizeOf flushVol) = Inr [0, 0]"
    by (simp add: sampleEnv_def sampleAlloc_def flushVol_def numeral_2_eq_2)
  ultimately show ?thesis
    using alloc_flush_reload [of flushVol sampleAlloc sampleEnv "[0, 0]"]
    by (auto simp: flushVol_def)
qed

end
