(* ===== verification/Names.thy ===== *)
theory Names
  imports Bytes "HOL-Library.List_Lexorder" "HOL-Library.Product_Lexorder"
begin

text \<open>
  Names and their order: the UTF-16 codec the driver takes from \<^verbatim>\<open>unicode/utf16\<close>, and the
  comparison routines of \<^verbatim>\<open>catalog_search.go\<close> (\<^verbatim>\<open>foldU16\<close>, \<^verbatim>\<open>nextFolded\<close>,
  \<^verbatim>\<open>fastUnicodeCompare\<close>, \<^verbatim>\<open>compareU16\<close>). A Go string that holds valid UTF-8 is the list of
  its runes. A three-way comparison is an \<open>int\<close> as in Go; the laws a search tree needs of it
  are the locale \<open>key_order\<close>, interpreted on both name orders here and on the key orders of
  the catalog and of the extents file in their theories.
\<close>

type_synonym rune = nat
type_synonym gostring = "rune list"
type_synonym units = "u16 list"

section \<open>UTF-16\<close>

definition validRune :: "rune \<Rightarrow> bool" where
  "validRune r \<longleftrightarrow> r < 0xD800 \<or> 0xE000 \<le> r \<and> r < 0x110000"

definition encodeRune :: "rune \<Rightarrow> units" where
  "encodeRune r =
     (if \<not> validRune r then [0xFFFD]
      else if r < 0x10000 then [of_nat r]
      else [of_nat (0xD800 + (r - 0x10000) div 1024), of_nat (0xDC00 + (r - 0x10000) mod 1024)])"

definition utf16Encode :: "gostring \<Rightarrow> units" where
  "utf16Encode rs = concat (map encodeRune rs)"

fun utf16Decode :: "units \<Rightarrow> gostring" where
  "utf16Decode [] = []"
| "utf16Decode [r] =
     (if unat r < 0xD800 \<or> 0xE000 \<le> unat r then [unat r] else [0xFFFD])"
| "utf16Decode (r # s # us) =
     (if unat r < 0xD800 \<or> 0xE000 \<le> unat r then unat r # utf16Decode (s # us)
      else if unat r < 0xDC00 \<and> 0xDC00 \<le> unat s \<and> unat s < 0xE000
      then (0x10000 + (unat r - 0xD800) * 1024 + (unat s - 0xDC00)) # utf16Decode us
      else 0xFFFD # utf16Decode (s # us))"

section \<open>Comparison\<close>

definition foldU16 :: "u16 \<Rightarrow> u16" where
  "foldU16 c =
     (if c = 0 then 0
      else if 1 \<le> c \<and> c \<le> 0x1F then c
      else if 0x41 \<le> c \<and> c \<le> 0x5A then c + 0x20
      else if 0xC0 \<le> c \<and> c \<le> 0xDE \<and> c \<noteq> 0xD7 then c + 0x20
      else if 0x100 \<le> c \<and> c \<le> 0x17E then if c mod 2 = 0 then c + 1 else c
      else c)"

text \<open>\<^verbatim>\<open>nextFolded(s, &i)\<close> on the rest \<^verbatim>\<open>s[i:]\<close>: the unit found and the new rest.\<close>

fun nextFolded :: "units \<Rightarrow> (u16 \<times> units) option" where
  "nextFolded [] = None"
| "nextFolded (c # cs) = (if foldU16 c \<noteq> 0 then Some (foldU16 c, cs) else nextFolded cs)"

lemma nextFolded_length: "nextFolded s = Some (c, s') \<Longrightarrow> length s' < length s"
  by (induction s) (auto split: if_splits)

function fastUnicodeCompare :: "units \<Rightarrow> units \<Rightarrow> int" where
  "fastUnicodeCompare a b =
     (case (nextFolded a, nextFolded b) of
        (None, None) \<Rightarrow> 0
      | (None, Some _) \<Rightarrow> -1
      | (Some _, None) \<Rightarrow> 1
      | (Some (ca, a'), Some (cb, b')) \<Rightarrow>
          if ca \<noteq> cb then if ca < cb then -1 else 1 else fastUnicodeCompare a' b')"
  by pat_completeness auto
termination
  by (relation "measure (\<lambda>(a, b). length a)") (auto dest!: nextFolded_length [OF sym])

declare fastUnicodeCompare.simps [simp del]

fun compareU16 :: "units \<Rightarrow> units \<Rightarrow> int" where
  "compareU16 [] [] = 0"
| "compareU16 [] (_ # _) = -1"
| "compareU16 (_ # _) [] = 1"
| "compareU16 (x # xs) (y # ys) = (if x \<noteq> y then if x < y then -1 else 1 else compareU16 xs ys)"

section \<open>Lawful three-way comparisons\<close>

definition ordSign :: "'a::linorder \<Rightarrow> 'a \<Rightarrow> int" where
  "ordSign x y = (if x < y then -1 else if x = y then 0 else 1)"

locale key_order =
  fixes cmp :: "'k \<Rightarrow> 'k \<Rightarrow> int"
  assumes cmp_refl: "cmp a a = 0"
    and cmp_swap: "cmp b a = - cmp a b"
    and cmp_trans: "cmp a b \<le> 0 \<Longrightarrow> cmp b c \<le> 0 \<Longrightarrow> cmp a c \<le> 0"
begin

lemma cmp_ge: "0 \<le> cmp a b \<longleftrightarrow> cmp b a \<le> 0"
  using cmp_swap [of a b] by simp

lemma cmp_gt: "0 < cmp a b \<longleftrightarrow> cmp b a < 0"
  using cmp_swap [of a b] by simp

lemma cmp_eq_sym: "cmp a b = 0 \<longleftrightarrow> cmp b a = 0"
  using cmp_swap [of a b] by simp

lemma cmp_le_less: "cmp a b \<le> 0 \<Longrightarrow> cmp b c < 0 \<Longrightarrow> cmp a c < 0"
  using cmp_trans [of a b c] cmp_trans [of c a b] cmp_swap [of a c] cmp_swap [of b c] by linarith

lemma cmp_less_le: "cmp a b < 0 \<Longrightarrow> cmp b c \<le> 0 \<Longrightarrow> cmp a c < 0"
  using cmp_trans [of a b c] cmp_trans [of b c a] cmp_swap [of a c] cmp_swap [of a b] by linarith

lemma cmp_less_trans: "cmp a b < 0 \<Longrightarrow> cmp b c < 0 \<Longrightarrow> cmp a c < 0"
  using cmp_le_less [of a b c] by simp

lemma cmp_cong: "cmp a b = 0 \<Longrightarrow> (cmp a c < 0 \<longleftrightarrow> cmp b c < 0) \<and> (cmp a c \<le> 0 \<longleftrightarrow> cmp b c \<le> 0)"
  using cmp_le_less [of a b c] cmp_le_less [of b a c] cmp_trans [of a b c] cmp_trans [of b a c]
    cmp_eq_sym [of a b] by auto

text \<open>A strictly ascending list has at most one entry that compares equal to a key.\<close>

lemma ascending_unique:
  assumes "sorted_wrt (\<lambda>x y. cmp (key x) (key y) < 0) xs" "x \<in> set xs" "y \<in> set xs"
    "cmp k (key x) = 0" "cmp k (key y) = 0"
  shows "x = y"
  using assms
proof (induction xs)
  case (Cons z zs)
  have "cmp (key x) (key y) = 0" "cmp (key y) (key x) = 0"
    using cmp_trans [of "key x" k "key y"] cmp_trans [of "key y" k "key x"] cmp_swap [of "key x" "key y"]
      cmp_eq_sym [of k] Cons.prems(4,5) by auto
  then show ?case using Cons by auto
qed simp

end

lemma ordSign_key_order: "key_order (\<lambda>a b. ordSign (f a) (f b))"
  by unfold_locales (auto simp: ordSign_def split: if_splits)

lemma ordSign_eq_0 [simp]: "ordSign x y = 0 \<longleftrightarrow> x = y"
  by (auto simp: ordSign_def)

section \<open>The two name orders\<close>

definition foldedUnits :: "units \<Rightarrow> units" where
  "foldedUnits s = filter (\<lambda>c. c \<noteq> 0) (map foldU16 s)"

lemma compareU16_ordSign: "compareU16 a b = ordSign a b"
  by (induction a b rule: compareU16.induct) (auto simp: ordSign_def Cons_less_Cons)

lemma nextFolded_None: "nextFolded s = None \<longleftrightarrow> foldedUnits s = []"
  by (induction s) (auto simp: foldedUnits_def)

lemma nextFolded_Some: "nextFolded s = Some (c, s') \<Longrightarrow> foldedUnits s = c # foldedUnits s'"
  by (induction s) (auto simp: foldedUnits_def split: if_splits)

lemma fastUnicodeCompare_ordSign: "fastUnicodeCompare a b = ordSign (foldedUnits a) (foldedUnits b)"
proof (induction a b rule: fastUnicodeCompare.induct)
  case (1 a b)
  show ?case
  proof (cases "nextFolded a"; cases "nextFolded b")
    fix p q assume p: "nextFolded a = Some p" and q: "nextFolded b = Some q"
    obtain ca a' cb b' where eq: "p = (ca, a')" "q = (cb, b')" by (cases p; cases q)
    have f: "foldedUnits a = ca # foldedUnits a'" "foldedUnits b = cb # foldedUnits b'"
      using p q eq by (simp_all add: nextFolded_Some)
    have "ca = cb \<Longrightarrow> fastUnicodeCompare a' b' = ordSign (foldedUnits a') (foldedUnits b')"
      using 1 [OF refl p eq(1) [symmetric] q eq(2) [symmetric]] by simp
    then show ?thesis
      using p q eq f by (simp add: fastUnicodeCompare.simps [of a b] ordSign_def Cons_less_Cons)
  next
    fix q assume "nextFolded a = None" "nextFolded b = Some q"
    then show ?thesis
      using nextFolded_Some [of b "fst q" "snd q"] nextFolded_None [of a]
      by (simp add: fastUnicodeCompare.simps [of a b] ordSign_def)
  next
    fix p assume "nextFolded a = Some p" "nextFolded b = None"
    then show ?thesis
      using nextFolded_Some [of a "fst p" "snd p"] nextFolded_None [of b]
      by (simp add: fastUnicodeCompare.simps [of a b] ordSign_def)
  next
    assume "nextFolded a = None" "nextFolded b = None"
    then show ?thesis
      using nextFolded_None [of a] nextFolded_None [of b]
      by (simp add: fastUnicodeCompare.simps [of a b] ordSign_def)
  qed
qed

interpretation fastOrder: key_order fastUnicodeCompare
  unfolding fastUnicodeCompare_ordSign by (rule ordSign_key_order)

interpretation unitOrder: key_order compareU16
  unfolding compareU16_ordSign by (rule ordSign_key_order [of "\<lambda>x. x"])

section \<open>Decoding what was encoded\<close>

lemma encodeRune_cases:
  assumes "validRune r"
  obtains (single) "encodeRune r = [of_nat r]" "unat (of_nat r :: u16) = r" "r < 0xD800 \<or> 0xE000 \<le> r"
  | (pair) h l where "encodeRune r = [h, l]" "0xD800 \<le> unat h" "unat h < 0xDC00"
      "0xDC00 \<le> unat l" "unat l < 0xE000"
      "r = 0x10000 + (unat h - 0xD800) * 1024 + (unat l - 0xDC00)"
proof (cases "r < 0x10000")
  case True
  then show thesis using assms single by (simp add: encodeRune_def validRune_def unat_of_nat)
next
  case False
  let ?d = "r - 0x10000"
  have d: "?d < 0x100000" "?d div 1024 < 1024" "?d mod 1024 < 1024"
    using assms False by (auto simp: validRune_def)
  let ?h = "0xD800 + ?d div 1024" and ?l = "0xDC00 + ?d mod 1024"
  have u: "unat (of_nat ?h :: u16) = ?h" "unat (of_nat ?l :: u16) = ?l"
    using d by (simp_all only: unat_of_nat) simp_all
  show thesis
  proof (rule pair)
    show "encodeRune r = [of_nat ?h, of_nat ?l]" using assms False by (simp add: encodeRune_def)
    show "r = 0x10000 + (unat (of_nat ?h :: u16) - 0xD800) * 1024 + (unat (of_nat ?l :: u16) - 0xDC00)"
      unfolding u using False by simp
  qed (unfold u, use d in auto)
qed

lemma utf16Decode_single:
  "unat u < 0xD800 \<or> 0xE000 \<le> unat u \<Longrightarrow> utf16Decode (u # us) = unat u # utf16Decode us"
  by (cases us) auto

lemma utf16Decode_Encode: "list_all validRune rs \<Longrightarrow> utf16Decode (utf16Encode rs) = rs"
proof (induction rs)
  case (Cons r rs)
  then have "validRune r" "utf16Decode (utf16Encode rs) = rs" by auto
  then show ?case
    by (cases rule: encodeRune_cases) (auto simp: utf16Encode_def utf16Decode_single)
qed (simp add: utf16Encode_def)

lemma validRune_FFFD: "validRune 0xFFFD"
  by (simp add: validRune_def)

lemma utf16Decode_valid: "list_all validRune (utf16Decode us)"
proof (induction us rule: utf16Decode.induct)
  case (2 r)
  then show ?case using unsigned_less [of r, where 'a = nat] by (auto simp: validRune_def)
next
  case (3 r s us)
  then show ?case
    using unsigned_less [of r, where 'a = nat] by (auto simp: validRune_def)
qed simp

lemma length_encodeRune: "0 < length (encodeRune r) \<and> length (encodeRune r) \<le> 2"
  by (simp add: encodeRune_def)

section \<open>Properties\<close>

text \<open>
  C33. \<^verbatim>\<open>fastUnicodeCompare\<close> (which skips ignorable units while it walks both names) is the
  lexicographic comparison of the folded names with the ignorable units removed. Hence it is
  a total preorder: names compare equal exactly when their folded units agree, swapping the
  arguments flips the sign, and it is transitive.
\<close>

theorem fast_compare_order:
  "fastUnicodeCompare a b = compareU16 (foldedUnits a) (foldedUnits b)
   \<and> (fastUnicodeCompare a b = 0 \<longleftrightarrow> foldedUnits a = foldedUnits b)
   \<and> fastUnicodeCompare b a = - fastUnicodeCompare a b
   \<and> (fastUnicodeCompare a b \<le> 0 \<and> fastUnicodeCompare b c \<le> 0 \<longrightarrow> fastUnicodeCompare a c \<le> 0)"
  using fastOrder.cmp_swap [of b a] fastOrder.cmp_trans [of a b c]
  by (simp add: fastUnicodeCompare_ordSign compareU16_ordSign)

theorem fast_compare_order_witness:
  "fastUnicodeCompare [0x41, 0, 0x62] [0x61, 0x42] = 0 \<and> fastUnicodeCompare [0x41] [0x42] \<le> 0
   \<and> fastUnicodeCompare [0x42] [0x63] \<le> 0 \<and> fastUnicodeCompare [0x41] [0x63] \<le> 0"
proof -
  have "fastUnicodeCompare [0x41] [0x42] \<le> 0" "fastUnicodeCompare [0x42] [0x63] \<le> 0"
    by (simp_all add: fastUnicodeCompare_ordSign foldedUnits_def foldU16_def ordSign_def)
  then show ?thesis
    using fast_compare_order [of "[0x41]" "[0x42]" "[0x63]"]
      fast_compare_order [of "[0x41, 0, 0x62]" "[0x61, 0x42]" "[]"]
    by (simp add: foldedUnits_def foldU16_def)
qed

section \<open>A defect of the fold table\<close>

text \<open>
  \<^verbatim>\<open>foldU16\<close> pairs every even code unit of Latin Extended-A with its successor, and its comment says so of
  the alphabet. In the stretches where the alphabet pairs odd with even this is wrong in both directions:
  U+0139 and its lower case U+013A compare different, and U+013A and the unrelated U+013B
  compare equal, although neither is the other's case variant.
\<close>

lemma fold_table_mispairs:
  "fastUnicodeCompare [0x139] [0x13A] \<noteq> 0 \<and> fastUnicodeCompare [0x13A] [0x13B] = 0
   \<and> fastUnicodeCompare [0x179] [0x17A] \<noteq> 0 \<and> fastUnicodeCompare [0x17A] [0x17B] = 0"
  by (simp add: fastUnicodeCompare_ordSign foldedUnits_def foldU16_def)

end
