(* ===== verification/BTree.thy ===== *)
theory BTree
  imports Fork Names
begin

text \<open>
  \<^verbatim>\<open>btree.go\<close>: B-tree nodes and their records as the reader sees them, the guarded walk
  along the leaf chain (\<^verbatim>\<open>leafStep\<close>), and the root-to-leaf descent that \<^verbatim>\<open>findLeaf\<close>
  (catalog) and \<^verbatim>\<open>findExtentsLeaf\<close> (extents file) share, with the test of a record's key
  against the search key as a parameter. The second half relates the nodes on disk to an
  abstract search tree and proves, once for both trees, that descent and walk reach exactly
  the leaf records that can match.
\<close>

section \<open>Data\<close>

definition kindLeafNode :: byte where
  "kindLeafNode = -1"

definition kindIndexNode :: byte where
  "kindIndexNode = 0"

definition kindHeaderNode :: byte where
  "kindHeaderNode = 1"

definition kindMapNode :: byte where
  "kindMapNode = 2"

record nodeDescriptor =
  FLink :: u32
  BLink :: u32
  Kind :: byte
  Height :: byte
  NumRecords :: u16

definition nodeDescriptorLen :: nat where
  "nodeDescriptorLen = 14"

record btHeader =
  RootNode :: u32
  FirstLeaf :: u32
  LastLeaf :: u32
  NodeSize :: u16
  KeyCompare :: byte
  btAttributes :: u32

record btree =
  tf :: fork
  theader :: btHeader

definition keyCompareBinary :: byte where
  "keyCompareBinary = 0xBC"

record node =
  desc :: nodeDescriptor
  records :: "bytes list"

section \<open>Operations\<close>

definition parseNodeDescriptor :: "bytes \<Rightarrow> nodeDescriptor" where
  "parseNodeDescriptor b =
     \<lparr>FLink = be32 b 0, BLink = be32 b 4, Kind = b ! 8, Height = b ! 9, NumRecords = be16 b 10\<rparr>"

text \<open>A buffer of \<open>n\<close> zero bytes into which \<open>xs\<close> was read.\<close>

definition filled :: "nat \<Rightarrow> bytes \<Rightarrow> bytes" where
  "filled n xs = xs @ replicate (n - length xs) 0"

definition openBTree :: "'a vol_scheme \<Rightarrow> fork \<Rightarrow> btree result" where
  "openBTree v f =
     (case readAt v f (nodeDescriptorLen + 106) 0 of
        (_, Some e) \<Rightarrow> Inl e
      | (xs, None) \<Rightarrow>
          let buf = filled (nodeDescriptorLen + 106) xs; h = drop nodeDescriptorLen buf
          in if Kind (parseNodeDescriptor buf) \<noteq> kindHeaderNode then Inl ErrCorrupt
             else let hdr = \<lparr>RootNode = be32 h 2, FirstLeaf = be32 h 10, LastLeaf = be32 h 14,
                             NodeSize = be16 h 18, KeyCompare = h ! 37, btAttributes = be32 h 38\<rparr>
                  in if NodeSize hdr < 512 \<or> NodeSize hdr AND (NodeSize hdr - 1) \<noteq> 0 then Inl ErrCorrupt
                     else Inr \<lparr>tf = f, theader = hdr\<rparr>)"

text \<open>
  The records between consecutive offsets. \<^verbatim>\<open>readNode\<close> and \<^verbatim>\<open>loadNode\<close> (\<^verbatim>\<open>btwrite.go\<close>) check
  and cut the same way, so both are \<open>parseNode\<close> of the node's bytes.
\<close>

fun cutRecords :: "nat \<Rightarrow> bytes \<Rightarrow> nat list \<Rightarrow> bytes list option" where
  "cutRecords ns buf (s # e # offs) =
     (if s < nodeDescriptorLen \<or> e > ns \<or> s > e then None
      else case cutRecords ns buf (e # offs) of
             None \<Rightarrow> None
           | Some rs \<Rightarrow> Some (gslice buf s e # rs))"
| "cutRecords ns buf _ = Some []"

definition offsetAt :: "nat \<Rightarrow> bytes \<Rightarrow> nat \<Rightarrow> nat" where
  "offsetAt ns buf i = unat (be16 buf (ns - 2 * (i + 1)))"

definition parseNode :: "nat \<Rightarrow> bytes \<Rightarrow> node result" where
  "parseNode ns buf =
     (let d = parseNodeDescriptor buf; nrec = unat (NumRecords d)
      in if (nrec + 1) * 2 > ns then Inl ErrCorrupt
         else case cutRecords ns buf (map (offsetAt ns buf) [0..<nrec + 1]) of
                None \<Rightarrow> Inl ErrCorrupt
              | Some rs \<Rightarrow> Inr \<lparr>desc = d, records = rs\<rparr>)"

definition readNode :: "'a vol_scheme \<Rightarrow> btree \<Rightarrow> u32 \<Rightarrow> node result" where
  "readNode v t n =
     (let ns = unat (NodeSize (theader t))
      in case readAt v (tf t) ns (uint n * int ns) of
           (_, Some e) \<Rightarrow> Inl e
         | (xs, None) \<Rightarrow> parseNode ns (filled ns xs))"

text \<open>\<^verbatim>\<open>recordKeyLen\<close> returns the key length; \<^verbatim>\<open>keyStart\<close> is always 2.\<close>

definition recordKeyLen :: "bytes \<Rightarrow> nat option" where
  "recordKeyLen rec =
     (if length rec < 2 then None
      else let keyLen = unat (be16 rec 0)
           in if 2 + keyLen > length rec then None else Some keyLen)"

definition recordData :: "bytes \<Rightarrow> bytes option" where
  "recordData rec =
     (case recordKeyLen rec of
        None \<Rightarrow> None
      | Some keyLen \<Rightarrow>
          let dataStart = (if (2 + keyLen) mod 2 \<noteq> 0 then 2 + keyLen + 1 else 2 + keyLen)
          in if dataStart > length rec then None else Some (drop dataStart rec))"

definition indexChild :: "bytes \<Rightarrow> u32 option" where
  "indexChild rec =
     (case recordData rec of
        None \<Rightarrow> None
      | Some data \<Rightarrow> if length data < 4 then None else Some (be32 data 0))"

definition maxNodes :: "'a vol_scheme \<Rightarrow> btree \<Rightarrow> int" where
  "maxNodes v t =
     (let ns = uint (NodeSize (theader t)); span = extentBytes v (tf t); c = capacity v;
          n = (if c \<ge> 0 \<and> c < span then c else span) div ns
      in if ns \<le> 0 then 0 else if n < 1 then 1 else if n > 2 ^ 24 then 2 ^ 24 else n)"

text \<open>The next node number; the caller's \<^verbatim>\<open>steps\<close> counter has been incremented already.\<close>

definition leafStep :: "'a vol_scheme \<Rightarrow> btree \<Rightarrow> u32 \<Rightarrow> nat \<Rightarrow> u32" where
  "leafStep v t next steps = (if int steps \<ge> maxNodes v t then 0 else next)"

text \<open>
  The loop \<^verbatim>\<open>for leaf != 0 { nd := readNode(leaf); ...; leaf = leafStep(...) }\<close> of
  \<^verbatim>\<open>lookup\<close>, \<^verbatim>\<open>listChildren\<close> and \<^verbatim>\<open>overflowExtents\<close>. \<open>body\<close> processes a node's records and
  either returns from the enclosing function (\<open>Inl\<close>) or goes on; \<open>fin\<close> is the code after the
  loop.
\<close>

function leafWalk :: "'v vol_scheme \<Rightarrow> btree \<Rightarrow> (bytes list \<Rightarrow> 'a \<Rightarrow> 'r result + 'a) \<Rightarrow> ('a \<Rightarrow> 'r result)
    \<Rightarrow> u32 \<Rightarrow> nat \<Rightarrow> 'a \<Rightarrow> 'r result" where
  "leafWalk v t body fin leaf steps acc =
     (if leaf = 0 then fin acc
      else case readNode v t leaf of
             Inl e \<Rightarrow> Inl e
           | Inr nd \<Rightarrow>
               (case body (records nd) acc of
                  Inl r \<Rightarrow> r
                | Inr acc' \<Rightarrow>
                    leafWalk v t body fin (leafStep v t (FLink (desc nd)) (steps + 1)) (steps + 1) acc'))"
  by pat_completeness auto
termination
  by (relation "measure (\<lambda>(v, t, body, fin, leaf, steps, acc).
        if leaf = 0 then 0 else Suc (nat (maxNodes v t) - steps))")
    (auto simp: leafStep_def)

declare leafWalk.simps [simp del]

text \<open>
  The descent of \<^verbatim>\<open>findLeaf\<close> and \<^verbatim>\<open>findExtentsLeaf\<close>. \<open>le rec\<close> says whether the key of an index
  record is at most the search key, \<open>None\<close> when the key cannot be decoded and the record is
  skipped; \<open>pickChild\<close> is the loop over the index records.
\<close>

fun pickChild :: "(bytes \<Rightarrow> bool option) \<Rightarrow> bytes list \<Rightarrow> u32 option \<Rightarrow> u32 option" where
  "pickChild le [] child = child"
| "pickChild le (rec # recs) child =
     (case le rec of
        None \<Rightarrow> pickChild le recs child
      | Some True \<Rightarrow>
          pickChild le recs (case indexChild rec of Some c \<Rightarrow> Some c | None \<Rightarrow> child)
      | Some False \<Rightarrow> child)"

definition chooseChild :: "(bytes \<Rightarrow> bool option) \<Rightarrow> bytes list \<Rightarrow> u32 option" where
  "chooseChild le recs =
     (case pickChild le recs None of
        Some c \<Rightarrow> Some c
      | None \<Rightarrow> if recs = [] then None else indexChild (hd recs))"

fun descendLeaf :: "'a vol_scheme \<Rightarrow> btree \<Rightarrow> (bytes \<Rightarrow> bool option) \<Rightarrow> nat \<Rightarrow> u32 \<Rightarrow> u32 result" where
  "descendLeaf v t le 0 cur = Inl ErrCorrupt"
| "descendLeaf v t le (Suc depth) cur =
     (case readNode v t cur of
        Inl e \<Rightarrow> Inl e
      | Inr nd \<Rightarrow>
          if Kind (desc nd) = kindLeafNode then Inr cur
          else if Kind (desc nd) \<noteq> kindIndexNode then Inl ErrCorrupt
          else case chooseChild le (records nd) of
                 None \<Rightarrow> Inl ErrCorrupt
               | Some child \<Rightarrow> descendLeaf v t le depth child)"

definition findLeafBy :: "'a vol_scheme \<Rightarrow> btree \<Rightarrow> (bytes \<Rightarrow> bool option) \<Rightarrow> u32 result" where
  "findLeafBy v t le =
     (if RootNode (theader t) = 0 then Inr (FirstLeaf (theader t))
      else descendLeaf v t le 64 (RootNode (theader t)))"


text \<open>
  A loop over a node's records that may return from the function it is in: \<open>f\<close> gives the
  result to return (\<open>Inl\<close>) or the loop variables to go on with.
\<close>

fun scanRecs :: "(bytes \<Rightarrow> 'a \<Rightarrow> 'r + 'a) \<Rightarrow> bytes list \<Rightarrow> 'a \<Rightarrow> 'r + 'a" where
  "scanRecs f [] acc = Inr acc"
| "scanRecs f (rec # recs) acc =
     (case f rec acc of Inl r \<Rightarrow> Inl r | Inr acc' \<Rightarrow> scanRecs f recs acc')"

section \<open>The walk along the leaf chain\<close>

text \<open>The nodes a walk reads when its body never returns early, and how the walk ends.\<close>

function leafTrace :: "'v vol_scheme \<Rightarrow> btree \<Rightarrow> u32 \<Rightarrow> nat \<Rightarrow> node list \<times> err option" where
  "leafTrace v t leaf steps =
     (if leaf = 0 then ([], None)
      else case readNode v t leaf of
             Inl e \<Rightarrow> ([], Some e)
           | Inr nd \<Rightarrow>
               (case leafTrace v t (leafStep v t (FLink (desc nd)) (steps + 1)) (steps + 1) of
                  (nds, e) \<Rightarrow> (nd # nds, e)))"
  by pat_completeness auto
termination
  by (relation "measure (\<lambda>(v, t, leaf, steps). if leaf = 0 then 0 else Suc (nat (maxNodes v t) - steps))")
    (auto simp: leafStep_def)

declare leafTrace.simps [simp del]

fun runTrace :: "(bytes list \<Rightarrow> 'a \<Rightarrow> 'r result + 'a) \<Rightarrow> ('a \<Rightarrow> 'r result) \<Rightarrow> node list \<Rightarrow> err option
    \<Rightarrow> 'a \<Rightarrow> 'r result" where
  "runTrace body fin [] None acc = fin acc"
| "runTrace body fin [] (Some e) acc = Inl e"
| "runTrace body fin (nd # nds) e acc =
     (case body (records nd) acc of Inl r \<Rightarrow> r | Inr acc' \<Rightarrow> runTrace body fin nds e acc')"

lemma leafWalk_trace:
  "leafWalk v t body fin leaf steps acc
   = runTrace body fin (fst (leafTrace v t leaf steps)) (snd (leafTrace v t leaf steps)) acc"
proof (induction v t body fin leaf steps acc rule: leafWalk.induct)
  case (1 v t body fin leaf steps acc)
  show ?case
    using 1 by (simp add: leafWalk.simps [of v t body fin leaf] leafTrace.simps [of v t leaf]
        split: sum.split prod.split)
qed

lemma leafTrace_bound:
  "steps < nat (maxNodes v t) \<or> leaf = 0 \<Longrightarrow> length (fst (leafTrace v t leaf steps)) \<le> nat (maxNodes v t) - steps"
proof (induction v t leaf steps rule: leafTrace.induct)
  case (1 v t leaf steps)
  show ?case
  proof (cases "leaf = 0")
    case False
    then have lt: "steps < nat (maxNodes v t)" using "1.prems" by simp
    show ?thesis
    proof (cases "readNode v t leaf")
      case (Inr nd)
      let ?n = "leafStep v t (FLink (desc nd)) (steps + 1)"
      have "steps + 1 < nat (maxNodes v t) \<or> ?n = 0" by (auto simp: leafStep_def)
      from "1.IH" [OF False Inr this] lt show ?thesis
        using False Inr by (subst leafTrace.simps) (auto split: prod.split)
    qed (use False in \<open>simp add: leafTrace.simps [of v t leaf]\<close>)
  qed (simp add: leafTrace.simps [of v t 0])
qed

section \<open>The tree behind the nodes\<close>

datatype tnode = TLeaf u32 "bytes list" | TIndex u32 "(bytes \<times> tnode) list"

fun nodeNum :: "tnode \<Rightarrow> u32" where
  "nodeNum (TLeaf n _) = n"
| "nodeNum (TIndex n _) = n"

fun treeHeight :: "tnode \<Rightarrow> nat" where
  "treeHeight (TLeaf n rs) = 1"
| "treeHeight (TIndex n cs) = Suc (foldr max (map (\<lambda>p. treeHeight (snd p)) cs) 0)"

fun leavesOf :: "tnode \<Rightarrow> (u32 \<times> bytes list) list" where
  "leavesOf (TLeaf n rs) = [(n, rs)]"
| "leavesOf (TIndex n cs) = concat (map (\<lambda>p. leavesOf (snd p)) cs)"

definition treeRecs :: "tnode \<Rightarrow> bytes list" where
  "treeRecs tr = concat (map snd (leavesOf tr))"

text \<open>The nodes that \<open>read\<close> returns are those of the tree.\<close>

fun storedTree :: "(u32 \<Rightarrow> node result) \<Rightarrow> tnode \<Rightarrow> bool" where
  "storedTree read (TLeaf n rs) =
     (case read n of Inl _ \<Rightarrow> False | Inr nd \<Rightarrow> Kind (desc nd) = kindLeafNode \<and> records nd = rs)"
| "storedTree read (TIndex n cs) =
     ((case read n of Inl _ \<Rightarrow> False | Inr nd \<Rightarrow> Kind (desc nd) = kindIndexNode \<and> records nd = map fst cs)
      \<and> (\<forall>p \<in> set cs. indexChild (fst p) = Some (nodeNum (snd p)) \<and> storedTree read (snd p)))"

text \<open>The leaves are linked in order and the last link is 0.\<close>

fun chained :: "(u32 \<Rightarrow> node result) \<Rightarrow> (u32 \<times> bytes list) list \<Rightarrow> bool" where
  "chained read [] = True"
| "chained read ((n, rs) # ls) =
     (n \<noteq> 0
      \<and> (case read n of Inl _ \<Rightarrow> False
         | Inr nd \<Rightarrow> records nd = rs \<and> FLink (desc nd) = (case ls of [] \<Rightarrow> 0 | (m, _) # _ \<Rightarrow> m))
      \<and> chained read ls)"

definition keyHolds :: "(bytes \<Rightarrow> 'k option) \<Rightarrow> ('k \<Rightarrow> bool) \<Rightarrow> bytes \<Rightarrow> bool" where
  "keyHolds keyOf P rec = (case keyOf rec of None \<Rightarrow> True | Some k \<Rightarrow> P k)"

lemma keyHolds_mono: "keyHolds keyOf P rec \<Longrightarrow> (\<And>k. P k \<Longrightarrow> Q k) \<Longrightarrow> keyHolds keyOf Q rec"
  by (auto simp: keyHolds_def split: option.splits)

text \<open>The key of an index record separates its subtree from the subtrees before it.\<close>

definition separates :: "(bytes \<Rightarrow> 'k option) \<Rightarrow> ('k \<Rightarrow> 'k \<Rightarrow> int) \<Rightarrow> bytes \<times> tnode \<Rightarrow> bytes \<times> tnode \<Rightarrow> bool" where
  "separates keyOf cmp p q =
     (case keyOf (fst q) of
        None \<Rightarrow> False
      | Some k \<Rightarrow> keyHolds keyOf (\<lambda>k'. cmp k' k < 0) (fst p)
          \<and> list_all (keyHolds keyOf (\<lambda>k'. cmp k' k < 0)) (treeRecs (snd p))
          \<and> list_all (keyHolds keyOf (\<lambda>k'. cmp k k' \<le> 0)) (treeRecs (snd q)))"

fun searchable :: "(bytes \<Rightarrow> 'k option) \<Rightarrow> ('k \<Rightarrow> 'k \<Rightarrow> int) \<Rightarrow> tnode \<Rightarrow> bool" where
  "searchable keyOf cmp (TLeaf n rs) = True"
| "searchable keyOf cmp (TIndex n cs) =
     (cs \<noteq> [] \<and> sorted_wrt (separates keyOf cmp) cs
      \<and> (\<forall>p \<in> set cs. keyOf (fst p) \<noteq> None \<and> searchable keyOf cmp (snd p)))"

definition leTest :: "(bytes \<Rightarrow> 'k option) \<Rightarrow> ('k \<Rightarrow> 'k \<Rightarrow> int) \<Rightarrow> 'k \<Rightarrow> bytes \<Rightarrow> bool option" where
  "leTest keyOf cmp k rec = map_option (\<lambda>k'. cmp k' k \<le> 0) (keyOf rec)"

lemma treeRecs_simps [simp]:
  "treeRecs (TLeaf n rs) = rs" "treeRecs (TIndex n cs) = concat (map (\<lambda>p. treeRecs (snd p)) cs)"
  by (induction cs) (simp_all add: treeRecs_def)

section \<open>Descent\<close>

lemma pickChild_split:
  assumes "\<forall>p \<in> set (as @ bs). indexChild (fst p) = Some (nodeNum (snd p))"
    and "\<forall>p \<in> set as. le (fst p) = Some True" "bs \<noteq> [] \<longrightarrow> le (fst (hd bs)) = Some False"
  shows "pickChild le (map fst (as @ bs)) acc = (if as = [] then acc else Some (nodeNum (snd (last as))))"
  using assms
proof (induction as arbitrary: acc)
  case Nil
  then show ?case by (cases bs) auto
qed auto

lemma chooseChild_split:
  assumes "\<forall>p \<in> set cs. indexChild (fst p) = Some (nodeNum (snd p)) \<and> le (fst p) \<noteq> None" "cs \<noteq> []"
  obtains (first) p ys where "cs = p # ys" "chooseChild le (map fst cs) = Some (nodeNum (snd p))"
      "le (fst p) = Some False"
  | (later) xs p ys where "cs = xs @ p # ys" "chooseChild le (map fst cs) = Some (nodeNum (snd p))"
      "le (fst p) = Some True" "ys \<noteq> [] \<Longrightarrow> le (fst (hd ys)) = Some False"
proof -
  define as bs where "as = takeWhile (\<lambda>p. le (fst p) = Some True) cs"
    and "bs = dropWhile (\<lambda>p. le (fst p) = Some True) cs"
  have cs: "cs = as @ bs" by (simp add: as_def bs_def)
  have as: "\<forall>p \<in> set as. le (fst p) = Some True" by (auto simp: as_def dest: set_takeWhileD)
  have bs: "bs \<noteq> [] \<Longrightarrow> le (fst (hd bs)) = Some False"
  proof -
    assume ne: "bs \<noteq> []"
    then have "\<not> le (fst (hd bs)) = Some True" unfolding bs_def by (rule hd_dropWhile)
    moreover have "hd bs \<in> set cs" using ne cs by simp
    ultimately show ?thesis using assms(1) by (cases "le (fst (hd bs))") auto
  qed
  have pick: "pickChild le (map fst cs) None = (if as = [] then None else Some (nodeNum (snd (last as))))"
    unfolding cs by (rule pickChild_split) (use assms(1) as bs cs in auto)
  show thesis
  proof (cases "as = []")
    case True
    then obtain p ys where "cs = p # ys" "bs = p # ys" using assms(2) cs by (cases cs) auto
    then show thesis using pick True bs assms by (intro first [of p ys]) (auto simp: chooseChild_def)
  next
    case False
    then show thesis
      using pick as bs cs by (intro later [of "butlast as" "last as" bs]) (auto simp: chooseChild_def)
  qed
qed

lemma treeHeight_child: "p \<in> set cs \<Longrightarrow> treeHeight (snd p) < treeHeight (TIndex n cs)"
proof -
  assume "p \<in> set cs"
  then have "treeHeight (snd p) \<le> foldr max (map (\<lambda>p. treeHeight (snd p)) cs) 0"
    by (induction cs) auto
  then show ?thesis by simp
qed

section \<open>Walking a chained list of leaves\<close>

lemma scanRecs_append:
  "scanRecs f (xs @ ys) acc = (case scanRecs f xs acc of Inl r \<Rightarrow> Inl r | Inr a \<Rightarrow> scanRecs f ys a)"
  by (induction xs arbitrary: acc) (auto split: sum.splits)

lemma scanRecs_skip: "\<forall>x \<in> set xs. f x acc = Inr acc \<Longrightarrow> scanRecs f xs acc = Inr acc"
  by (induction xs) auto

definition firstNum :: "(u32 \<times> bytes list) list \<Rightarrow> u32" where
  "firstNum ls = (case ls of [] \<Rightarrow> 0 | (m, _) # _ \<Rightarrow> m)"

lemma firstNum_Cons [simp]: "firstNum ((n, rs) # ls) = n"
  by (simp add: firstNum_def)

definition endScan :: "('a \<Rightarrow> 'r result) \<Rightarrow> 'r result + 'a \<Rightarrow> 'r result" where
  "endScan fin r = (case r of Inl x \<Rightarrow> x | Inr a \<Rightarrow> fin a)"

lemma chained_suffix: "chained read (xs @ ys) \<Longrightarrow> chained read ys"
  by (induction xs) auto

lemma leafWalk_chain:
  assumes "chained (readNode v t) ls" "int (steps + length ls) \<le> maxNodes v t"
  shows "leafWalk v t (scanRecs f) fin (firstNum ls) steps acc
    = endScan fin (scanRecs f (concat (map snd ls)) acc)"
  using assms
proof (induction ls arbitrary: steps acc)
  case Nil
  then show ?case by (simp add: leafWalk.simps firstNum_def endScan_def)
next
  case (Cons l ls)
  obtain n rs where l: "l = (n, rs)" by (cases l)
  with Cons.prems(1) obtain nd where nd: "n \<noteq> 0" "readNode v t n = Inr nd" "records nd = rs"
      "FLink (desc nd) = firstNum ls"
    by (auto simp: firstNum_def split: sum.splits)
  have "leafStep v t (firstNum ls) (steps + 1) = firstNum ls"
    using Cons.prems(2) by (cases ls) (auto simp: leafStep_def firstNum_def)
  moreover have "leafWalk v t (scanRecs f) fin (firstNum ls) (steps + 1) a
      = endScan fin (scanRecs f (concat (map snd ls)) a)" for a
    using Cons.prems l by (intro Cons.IH) auto
  ultimately show ?case
    using nd l
    by (simp add: leafWalk.simps [of v t "scanRecs f" fin n] firstNum_Cons
        scanRecs_append endScan_def split: sum.split)
qed

section \<open>Search\<close>

definition holdsTree :: "(bytes \<Rightarrow> 'k option) \<Rightarrow> ('k \<Rightarrow> 'k \<Rightarrow> int) \<Rightarrow> 'a vol_scheme \<Rightarrow> btree \<Rightarrow> tnode option
    \<Rightarrow> bool" where
  "holdsTree keyOf cmp v t tr =
     (case tr of
        None \<Rightarrow> RootNode (theader t) = 0 \<and> FirstLeaf (theader t) = 0
      | Some tr \<Rightarrow> nodeNum tr \<noteq> 0 \<and> RootNode (theader t) = nodeNum tr
          \<and> storedTree (readNode v t) tr \<and> searchable keyOf cmp tr \<and> treeHeight tr \<le> 64
          \<and> chained (readNode v t) (leavesOf tr) \<and> int (length (leavesOf tr)) \<le> maxNodes v t)"

definition recsOf :: "tnode option \<Rightarrow> bytes list" where
  "recsOf tr = (case tr of None \<Rightarrow> [] | Some tr \<Rightarrow> treeRecs tr)"

text \<open>What a search tree needs: a lawful order on the keys that its records carry.\<close>

locale search_tree = key_order cmp for cmp :: "'k \<Rightarrow> 'k \<Rightarrow> int" +
  fixes keyOf :: "bytes \<Rightarrow> 'k option"
begin

abbreviation below :: "'k \<Rightarrow> bytes \<Rightarrow> bool" where
  "below k \<equiv> keyHolds keyOf (\<lambda>k'. cmp k' k < 0)"

abbreviation above :: "'k \<Rightarrow> bytes \<Rightarrow> bool" where
  "above k \<equiv> keyHolds keyOf (\<lambda>k'. cmp k k' < 0)"

lemma separates_below:
  assumes "separates keyOf cmp p q" "leTest keyOf cmp k (fst q) = Some True"
  shows "list_all (below k) (treeRecs (snd p))"
proof -
  obtain kq where q: "keyOf (fst q) = Some kq" "cmp kq k \<le> 0" using assms(2) by (auto simp: leTest_def)
  then have "list_all (below kq) (treeRecs (snd p))" using assms(1) by (simp add: separates_def)
  then show ?thesis
    using cmp_less_le [OF _ q(2)] by (auto elim!: list.pred_mono_strong keyHolds_mono)
qed

lemma separates_above:
  assumes "separates keyOf cmp p q" "leTest keyOf cmp k (fst q) = Some False"
  shows "list_all (above k) (treeRecs (snd q))"
proof -
  obtain kq where q: "keyOf (fst q) = Some kq" "cmp k kq < 0"
    using assms(2) cmp_gt by (auto simp: leTest_def not_le)
  then have "list_all (keyHolds keyOf (\<lambda>k'. cmp kq k' \<le> 0)) (treeRecs (snd q))"
    using assms(1) by (simp add: separates_def)
  then show ?thesis
    using cmp_less_le [OF q(2)] by (auto elim!: list.pred_mono_strong keyHolds_mono)
qed

lemma separates_False:
  assumes "separates keyOf cmp p q" "leTest keyOf cmp k (fst p) = Some False"
  shows "leTest keyOf cmp k (fst q) = Some False"
proof -
  obtain kp where p: "keyOf (fst p) = Some kp" "\<not> cmp kp k \<le> 0"
    using assms(2) by (auto simp: leTest_def)
  then obtain kq where q: "keyOf (fst q) = Some kq" "cmp kp kq < 0"
    using assms(1) by (auto simp: separates_def keyHolds_def split: option.splits)
  then have "\<not> cmp kq k \<le> 0" using cmp_less_le [of kp kq k] p by auto
  then show ?thesis using q by (simp add: leTest_def)
qed

lemma after_above:
  assumes "sorted_wrt (separates keyOf cmp) (p # ys)"
    "leTest keyOf cmp k (fst p) = Some False \<or> (ys \<noteq> [] \<longrightarrow> leTest keyOf cmp k (fst (hd ys)) = Some False)"
  shows "list_all (above k) (concat (map (\<lambda>p. treeRecs (snd p)) ys))"
proof -
  have "list_all (above k) (treeRecs (snd y))" if "y \<in> set ys" for y
  proof (rule separates_above [of p])
    show "separates keyOf cmp p y" using assms(1) that by simp
    show "leTest keyOf cmp k (fst y) = Some False"
    proof (cases "leTest keyOf cmp k (fst p) = Some False")
      case True
      then show ?thesis using separates_False [of p y] assms(1) that by simp
    next
      case False
      then have "leTest keyOf cmp k (fst (hd ys)) = Some False" using assms(2) that by auto
      moreover have "y = hd ys \<or> separates keyOf cmp (hd ys) y"
        using assms(1) that by (cases ys) auto
      ultimately show ?thesis using separates_False by blast
    qed
  qed
  then show ?thesis by (auto simp: list_all_iff)
qed

text \<open>
  The descent ends in a leaf such that every key in an earlier leaf is below the search key
  and every key in a later leaf above it.
\<close>

lemma descendLeaf_finds:
  assumes "storedTree (readNode v t) tr" "searchable keyOf cmp tr" "treeHeight tr \<le> d"
  shows "\<exists>pre n rs post. descendLeaf v t (leTest keyOf cmp k) d (nodeNum tr) = Inr n
     \<and> leavesOf tr = pre @ (n, rs) # post
     \<and> list_all (below k) (concat (map snd pre)) \<and> list_all (above k) (concat (map snd post))"
  using assms
proof (induction tr arbitrary: d)
  case (TLeaf n rs)
  then obtain d' where "d = Suc d'" by (cases d) auto
  then show ?case
    using TLeaf by (intro exI [of _ "[]"] exI [of _ n] exI [of _ rs]) (auto split: sum.splits)
next
  case (TIndex n cs)
  let ?le = "leTest keyOf cmp k"
  from TIndex.prems(3) obtain d' where d: "d = Suc d'" by (cases d) auto
  have ok: "\<forall>p \<in> set cs. indexChild (fst p) = Some (nodeNum (snd p)) \<and> ?le (fst p) \<noteq> None" "cs \<noteq> []"
    and srt: "sorted_wrt (separates keyOf cmp) cs"
    using TIndex.prems(1,2) by (auto simp: leTest_def)
  obtain xs p ys where split: "cs = xs @ p # ys" "chooseChild ?le (map fst cs) = Some (nodeNum (snd p))"
    and lo: "list_all (below k) (concat (map (\<lambda>p. treeRecs (snd p)) xs))"
    and hi: "list_all (above k) (concat (map (\<lambda>p. treeRecs (snd p)) ys))"
    using ok
  proof (cases rule: chooseChild_split)
    case (first p ys)
    then show thesis using after_above [of p ys k] srt by (intro that [of "[]" p ys]) auto
  next
    case (later xs p ys)
    have "\<forall>x \<in> set xs. separates keyOf cmp x p" "sorted_wrt (separates keyOf cmp) (p # ys)"
      using srt later(1) by (auto simp: sorted_wrt_append)
    then show thesis
      using after_above [of p ys k] separates_below [OF _ later(3)] later
      by (intro that [of xs p ys]) (auto simp: list_all_iff)
  qed
  have p: "p \<in> set cs" using split(1) by simp
  have "treeHeight (snd p) \<le> d'" using treeHeight_child [OF p, of n] TIndex.prems(3) d by simp
  moreover have "storedTree (readNode v t) (snd p)" "searchable keyOf cmp (snd p)"
    using TIndex.prems(1,2) p by auto
  ultimately obtain pre m rs post where r: "descendLeaf v t ?le d' (nodeNum (snd p)) = Inr m"
    "leavesOf (snd p) = pre @ (m, rs) # post"
    "list_all (below k) (concat (map snd pre))" "list_all (above k) (concat (map snd post))"
    using TIndex.IH [OF p, of "snd p" d'] by (cases p) (auto simp: snds.simps)
  have "descendLeaf v t ?le d n = Inr m"
    using TIndex.prems(1) d split r(1)
    by (auto split: sum.splits simp: kindIndexNode_def kindLeafNode_def)
  moreover have "leavesOf (TIndex n cs) = (concat (map (\<lambda>p. leavesOf (snd p)) xs) @ pre) @ (m, rs) #
      post @ concat (map (\<lambda>p. leavesOf (snd p)) ys)"
    using split r(2) by simp
  moreover have "concat (map snd (concat (map (\<lambda>p. leavesOf (snd p)) zs)))
      = concat (map (\<lambda>p. treeRecs (snd p)) zs)" for zs :: "(bytes \<times> tnode) list"
    by (induction zs) (auto simp: treeRecs_def)
  ultimately show ?case
    using r(3,4) lo hi
    by (intro exI [of _ "concat (map (\<lambda>p. leavesOf (snd p)) xs) @ pre"] exI [of _ m] exI [of _ rs]
        exI [of _ "post @ concat (map (\<lambda>p. leavesOf (snd p)) ys)"]) simp
qed


text \<open>
  A search that skips the records below its key sees the same as a scan of all the leaf
  records of the tree, in order.
\<close>

lemma search_scan:
  assumes ok: "holdsTree keyOf cmp v t tr"
    and skip: "\<And>rec. rec \<in> set (recsOf tr) \<Longrightarrow> below k rec \<Longrightarrow> f rec acc = Inr acc"
  shows "bindR (findLeafBy v t (leTest keyOf cmp k)) (\<lambda>n. leafWalk v t (scanRecs f) fin n 0 acc)
    = endScan fin (scanRecs f (recsOf tr) acc)"
proof (cases tr)
  case None
  then show ?thesis
    using ok by (simp add: holdsTree_def findLeafBy_def recsOf_def leafWalk.simps [of v t _ _ 0] endScan_def)
next
  case (Some r)
  note ok = ok [unfolded holdsTree_def Some option.case]
  obtain pre n rs post where d: "descendLeaf v t (leTest keyOf cmp k) 64 (nodeNum r) = Inr n"
    "leavesOf r = pre @ (n, rs) # post" "list_all (below k) (concat (map snd pre))"
    using descendLeaf_finds [of v t r 64 k] ok by blast
  have "chained (readNode v t) (pre @ (n, rs) # post)" using ok d(2) by metis
  then have "chained (readNode v t) ((n, rs) # post)" by (rule chained_suffix)
  then have walk: "leafWalk v t (scanRecs f) fin n 0 acc
      = endScan fin (scanRecs f (concat (map snd ((n, rs) # post))) acc)"
    using leafWalk_chain [of v t "(n, rs) # post" 0 f fin acc] ok d(2) by (simp add: firstNum_def)
  have all: "treeRecs r = concat (map snd pre) @ concat (map snd ((n, rs) # post))"
    using d(2) by (simp add: treeRecs_def)
  have "scanRecs f (concat (map snd pre)) acc = Inr acc"
    using d(3) all Some by (intro scanRecs_skip ballI skip) (auto simp: list_all_iff recsOf_def)
  then have "scanRecs f (treeRecs r) acc = scanRecs f (concat (map snd ((n, rs) # post))) acc"
    unfolding all by (simp only: scanRecs_append sum.case)
  then show ?thesis
    using Some ok d(1) walk by (simp add: findLeafBy_def recsOf_def)
qed

end

section \<open>Records\<close>

lemma recordKeyLen_Some: "recordKeyLen rec = Some n \<Longrightarrow> n = unat (be16 rec 0) \<and> 2 + n \<le> length rec"
  by (auto simp: recordKeyLen_def Let_def split: if_splits)

lemma cutRecords_inside:
  "cutRecords ns buf offs = Some rs \<Longrightarrow> length buf = ns \<Longrightarrow>
   length rs = length offs - 1 \<and> (\<forall>r \<in> set rs. length r + nodeDescriptorLen \<le> ns)"
  by (induction ns buf offs arbitrary: rs rule: cutRecords.induct) (auto split: if_splits option.splits)

lemma length_filled [simp]: "length xs \<le> n \<Longrightarrow> length (filled n xs) = n"
  by (simp add: filled_def)

lemma parseNode_records:
  "parseNode ns buf = Inr nd \<Longrightarrow> length buf = ns \<Longrightarrow>
   length (records nd) = unat (NumRecords (desc nd)) \<and> (\<forall>r \<in> set (records nd). length r + 14 \<le> ns)"
  by (auto simp: parseNode_def Let_def nodeDescriptorLen_def dest!: cutRecords_inside
      split: if_splits option.splits)

section \<open>Properties\<close>

text \<open>
  C25. A walk along the leaf chain ends on every image, also when \<^verbatim>\<open>FLink\<close>s form a cycle: the
  loop is determined by a list of nodes that is never longer than \<^verbatim>\<open>maxNodes\<close>. So it reads at most as
  many nodes as the extents of the tree's file cover, at most as many as the image has room for where its size
  is known (one node is always allowed), and at most \<open>2 ^ 24\<close>.
\<close>

theorem leaf_walk_bounded:
  fixes v :: "'v vol_scheme" and leaf :: u32
  assumes "NodeSize (theader t) \<noteq> 0"
  defines "nodes \<equiv> fst (leafTrace v t leaf 0)" and "ns \<equiv> uint (NodeSize (theader t))"
  shows "leafWalk v t body fin leaf 0 acc = runTrace body fin nodes (snd (leafTrace v t leaf 0)) acc
    \<and> int (length nodes) \<le> maxNodes v t
    \<and> int (length nodes) \<le> max 1 (extentBytes v (tf t) div ns)
    \<and> (0 \<le> capacity v \<longrightarrow> int (length nodes) \<le> max 1 (capacity v div ns))
    \<and> length nodes \<le> 2 ^ 24"
proof -
  have ns: "0 < ns" using assms(1) uint_ge_0 [of "NodeSize (theader t)"] by (simp add: ns_def less_le uint_0_iff)
  have m: "0 < maxNodes v t" "maxNodes v t \<le> 2 ^ 24"
    using ns by (auto simp: maxNodes_def Let_def ns_def)
  have "length nodes \<le> nat (maxNodes v t)"
    using leafTrace_bound [of 0 v t leaf] m(1) by (simp add: nodes_def)
  then have len: "int (length nodes) \<le> maxNodes v t" using m(1) by simp
  have "maxNodes v t \<le> max 1 (extentBytes v (tf t) div ns)"
    using ns zdiv_mono1 [of "capacity v" "extentBytes v (tf t)" ns] by (auto simp: maxNodes_def Let_def ns_def)
  moreover have "maxNodes v t \<le> max 1 (capacity v div ns)" if "0 \<le> capacity v"
    using ns that zdiv_mono1 [of "extentBytes v (tf t)" "capacity v" ns] by (auto simp: maxNodes_def Let_def ns_def)
  moreover have "length nodes \<le> 2 ^ 24" using len m(2) by simp
  ultimately show ?thesis using len leafWalk_trace unfolding nodes_def by auto
qed

theorem leaf_walk_bounded_witness:
  "\<forall>leaf. length (fst (leafTrace (bigVol\<lparr>wr := True\<rparr>) \<lparr>tf = bigFork, theader = \<lparr>RootNode = 1,
      FirstLeaf = 1, LastLeaf = 1, NodeSize = 512, KeyCompare = 0, btAttributes = 0\<rparr>\<rparr> leaf 0)) \<le> 2"
proof
  fix leaf
  let ?t = "\<lparr>tf = bigFork, theader = \<lparr>RootNode = 1, FirstLeaf = 1, LastLeaf = 1, NodeSize = 512,
    KeyCompare = 0, btAttributes = 0\<rparr>\<rparr>"
  have cap: "capacity (bigVol\<lparr>wr := True\<rparr>) = 1024" by (simp add: capacity_def bigVol_def)
  have "NodeSize (theader ?t) \<noteq> 0" by simp
  from leaf_walk_bounded [OF this, where v = "bigVol\<lparr>wr := True\<rparr>" and leaf = leaf and body = "\<lambda>_ _. Inr ()" and fin = Inr and acc = "()"] cap
  show "length (fst (leafTrace (bigVol\<lparr>wr := True\<rparr>) ?t leaf 0)) \<le> 2" by simp
qed

end
