(* ===== verification/Catalog.thy ===== *)
theory Catalog
  imports BTree
begin

text \<open>
  \<^verbatim>\<open>catalog.go\<close>: catalog keys and records as the reader decodes them, with the encoders of
  \<^verbatim>\<open>mkfs.go\<close> that the formatter and the write path use (\<^verbatim>\<open>encodeCatalogKey\<close>,
  \<^verbatim>\<open>encodeFolderRecord\<close>, \<^verbatim>\<open>encodeFileRecord\<close>, \<^verbatim>\<open>encodeThreadRecord\<close>,
  \<^verbatim>\<open>assembleCatalogRecord\<close>). The lemmas are the round trips between the two.
\<close>

section \<open>Data\<close>

definition cnidRootParent :: u32 where "cnidRootParent = 1"
definition cnidRootFolder :: u32 where "cnidRootFolder = 2"

definition recordFolder :: u16 where "recordFolder = 1"
definition recordFile :: u16 where "recordFile = 2"
definition recordFolderThread :: u16 where "recordFolderThread = 3"
definition recordFileThread :: u16 where "recordFileThread = 4"

lemmas record_consts = recordFolder_def recordFile_def recordFolderThread_def recordFileThread_def
  cnidRootParent_def cnidRootFolder_def

text \<open>\<^verbatim>\<open>nameU16\<close> is \<^verbatim>\<open>nil\<close> (\<open>None\<close>) in keys that the program builds from a name.\<close>

record catalogKey =
  parentID :: u32
  cname :: gostring
  nameU16 :: "units option"

record catalogFolder =
  folderID :: u32
  valence :: u32
  cfoFlags :: u16

record catalogFile =
  fileID :: u32
  cfiFlags :: u16
  dataFork :: forkData
  rsrcFork :: forkData
  permMode :: u16

record catalogRecord =
  recType :: u16
  cfolder :: "catalogFolder option"
  cfile :: "catalogFile option"
  threadName :: gostring
  threadParent :: u32

definition zeroForkData :: forkData where
  "zeroForkData = \<lparr>LogicalSize = 0, ClumpSize = 0, fdTotalBlocks = 0,
     Extents = replicate numInlineExtents \<lparr>StartBlock = 0, BlockCount = 0\<rparr>\<rparr>"

lemma wf_zeroForkData [simp]: "wf_forkData zeroForkData"
  by (simp add: wf_forkData_def zeroForkData_def)

section \<open>Decoding\<close>

text \<open>The loop over the name's code units: strict in keys, truncating in thread records.\<close>

fun readUnits :: "bytes \<Rightarrow> nat \<Rightarrow> nat \<Rightarrow> units option" where
  "readUnits b off 0 = Some []"
| "readUnits b off (Suc n) =
     (if off + 2 > length b then None
      else map_option (\<lambda>us. be16 b off # us) (readUnits b (off + 2) n))"

fun readUnitsUpTo :: "bytes \<Rightarrow> nat \<Rightarrow> nat \<Rightarrow> units" where
  "readUnitsUpTo b off 0 = []"
| "readUnitsUpTo b off (Suc n) =
     (if off + 2 \<le> length b then be16 b off # readUnitsUpTo b (off + 2) n else [])"

definition parseCatalogKey :: "bytes \<Rightarrow> catalogKey option" where
  "parseCatalogKey b =
     (if length b < 6 then None
      else case readUnits b 6 (unat (be16 b 4)) of
             None \<Rightarrow> None
           | Some us \<Rightarrow> Some \<lparr>parentID = be32 b 0, cname = utf16Decode us, nameU16 = Some us\<rparr>)"

definition keyFromRecord :: "bytes \<Rightarrow> catalogKey option" where
  "keyFromRecord rec =
     (case recordKeyLen rec of
        None \<Rightarrow> None
      | Some keyLen \<Rightarrow> parseCatalogKey (gslice rec 2 (2 + keyLen)))"

definition parseCatalogRecord :: "bytes \<Rightarrow> catalogRecord option" where
  "parseCatalogRecord data =
     (if length data < 2 then None
      else let rt = be16 data 0;
               bare = \<lparr>recType = rt, cfolder = None, cfile = None, threadName = [], threadParent = 0\<rparr>
        in if rt = recordFolder then
             if length data < 14 then None
             else Some (bare\<lparr>cfolder := Some \<lparr>folderID = be32 data 8, valence = be32 data 4,
                                              cfoFlags = be16 data 2\<rparr>\<rparr>)
           else if rt = recordFile then
             if length data < 88 + forkDataLen then None
             else Some (bare\<lparr>cfile := Some
                    \<lparr>fileID = be32 data 8, cfiFlags = be16 data 2,
                     dataFork = parseForkData (gslice data 88 (88 + forkDataLen)),
                     rsrcFork = (if length data \<ge> 168 + forkDataLen
                                 then parseForkData (gslice data 168 (168 + forkDataLen))
                                 else zeroForkData),
                     permMode = be16 data 42\<rparr>\<rparr>)
           else if rt = recordFolderThread \<or> rt = recordFileThread then
             if length data < 10 then None
             else Some (bare\<lparr>threadParent := be32 data 4,
                    threadName := utf16Decode (readUnitsUpTo data 10 (unat (be16 data 8)))\<rparr>)
           else Some bare)"

section \<open>Encoding\<close>

definition encodeUnits :: "units \<Rightarrow> bytes" where
  "encodeUnits us = concat (map enc16 us)"

definition encodeCatalogKey :: "u32 \<Rightarrow> gostring \<Rightarrow> bytes" where
  "encodeCatalogKey parent name =
     (let us = utf16Encode name
      in enc16 (of_nat (4 + 2 + 2 * length us)) @ enc32 parent @ enc16 (of_nat (length us)) @ encodeUnits us)"

text \<open>\<open>padEven\<close> is the padding step of \<^verbatim>\<open>assembleCatalogRecord\<close>, \<^verbatim>\<open>assembleRecord\<close>,
  \<^verbatim>\<open>assembleProbe\<close> and \<^verbatim>\<open>indexRecordFor\<close>.\<close>

definition padEven :: "bytes \<Rightarrow> bytes" where
  "padEven key = (if length key mod 2 \<noteq> 0 then key @ [0] else key)"

definition assembleCatalogRecord :: "bytes \<Rightarrow> bytes \<Rightarrow> bytes" where
  "assembleCatalogRecord key data = padEven key @ data"

text \<open>Writes into a fresh buffer, in program order.\<close>

definition puts :: "bytes \<Rightarrow> (nat \<times> bytes) list \<Rightarrow> bytes" where
  "puts buf ws = foldl (\<lambda>b w. overwrite b (fst w) (snd w)) buf ws"

definition macEpochOffset :: int where
  "macEpochOffset = 2082844800"

definition hfsTime :: "int \<Rightarrow> u32" where
  "hfsTime t = word_of_int (t + macEpochOffset)"

definition catalogFolderLen :: nat where "catalogFolderLen = 88"
definition catalogFileLen :: nat where "catalogFileLen = 248"
text \<open>\<^verbatim>\<open>0o755\<close> is \<open>0x1ED\<close>.\<close>

definition sIFDIR :: u16 where "sIFDIR = 0x4000"
definition kHFSThreadExistsMask :: u16 where "kHFSThreadExistsMask = 2"
definition kHFSHasFolderCountMask :: u16 where "kHFSHasFolderCountMask = 0x10"

definition encodeFolderRecord :: "u32 \<Rightarrow> int \<Rightarrow> u32 \<Rightarrow> bytes" where
  "encodeFolderRecord fid t val =
     puts (replicate catalogFolderLen 0)
       [(0, enc16 recordFolder), (2, enc16 0), (4, enc32 val), (8, enc32 fid), (12, enc32 (hfsTime t)),
        (16, enc32 (hfsTime t)), (20, enc32 (hfsTime t)), (24, enc32 0), (28, enc32 (hfsTime t)),
        (42, enc16 (sIFDIR OR 0x1ED))]"

definition encodeFileRecord :: "u32 \<Rightarrow> int \<Rightarrow> u16 \<Rightarrow> forkData \<Rightarrow> bytes" where
  "encodeFileRecord fid t mode df =
     puts (replicate catalogFileLen 0)
       [(0, enc16 recordFile), (2, enc16 kHFSThreadExistsMask), (8, enc32 fid), (12, enc32 (hfsTime t)),
        (16, enc32 (hfsTime t)), (20, enc32 (hfsTime t)), (24, enc32 0), (28, enc32 (hfsTime t)),
        (42, enc16 mode), (88, encodeForkInto (replicate forkDataLen 0) df)]"

definition setHasFolderCount :: "bytes \<Rightarrow> u32 \<Rightarrow> bytes" where
  "setHasFolderCount folder count =
     puts folder [(2, enc16 (be16 folder 2 OR kHFSHasFolderCountMask)), (84, enc32 count)]"

definition encodeThreadRecord :: "u16 \<Rightarrow> u32 \<Rightarrow> gostring \<Rightarrow> bytes" where
  "encodeThreadRecord rt parent name =
     (let us = utf16Encode name
      in enc16 rt @ [0, 0] @ enc32 parent @ enc16 (of_nat (length us)) @ encodeUnits us)"

definition encodeFolderThreadRecord :: "u32 \<Rightarrow> gostring \<Rightarrow> bytes" where
  "encodeFolderThreadRecord parent name = encodeThreadRecord recordFolderThread parent name"

definition encodeFileThreadRecord :: "u32 \<Rightarrow> gostring \<Rightarrow> bytes" where
  "encodeFileThreadRecord parent name = encodeThreadRecord recordFileThread parent name"

section \<open>Round trips\<close>

lemma length_encodeUnits [simp]: "length (encodeUnits us) = 2 * length us"
  by (induction us) (auto simp: encodeUnits_def)

lemma encodeUnits_Cons: "encodeUnits (u # us) = enc16 u @ encodeUnits us"
  by (simp add: encodeUnits_def)

lemma readUnits_encode:
  "readUnits (xs @ encodeUnits us @ ys) (length xs) (length us) = Some us"
proof (induction us arbitrary: xs)
  case (Cons u us)
  have "readUnits ((xs @ enc16 u) @ encodeUnits us @ ys) (length (xs @ enc16 u)) (length us) = Some us"
    by (rule Cons.IH)
  then show ?case
    by (simp add: encodeUnits_Cons be16_append_right be16_append_left be16_enc16)
qed simp

lemma readUnitsUpTo_readUnits: "readUnits b off n = Some us \<Longrightarrow> readUnitsUpTo b off n = us"
  by (induction b off n arbitrary: us rule: readUnits.induct) (auto split: if_splits)

lemma be16_at: "be16 (xs @ enc16 u @ ys) (length xs) = u"
  by (simp add: be16_append_right be16_append_left be16_enc16)

lemma be32_at: "be32 (xs @ enc32 u @ ys) (length xs) = u"
  by (simp add: be32_append_right be32_append_left be32_enc32)

lemma parse_encode_key:
  assumes "2 * length (utf16Encode name) + 6 < 2 ^ 16"
  shows "parseCatalogKey (drop 2 (encodeCatalogKey p name))
    = Some \<lparr>parentID = p, cname = utf16Decode (utf16Encode name), nameU16 = Some (utf16Encode name)\<rparr>"
proof -
  let ?us = "utf16Encode name" and ?n = "of_nat (length (utf16Encode name)) :: u16"
  have b: "drop 2 (encodeCatalogKey p name) = enc32 p @ enc16 ?n @ encodeUnits ?us"
    by (simp add: encodeCatalogKey_def Let_def)
  have len: "unat ?n = length ?us" using assms by (simp add: unat_of_nat)
  have "readUnits ((enc32 p @ enc16 ?n) @ encodeUnits ?us @ []) (length (enc32 p @ enc16 ?n)) (length ?us)
      = Some ?us" by (rule readUnits_encode)
  then have "readUnits (enc32 p @ enc16 ?n @ encodeUnits ?us) 6 (length ?us) = Some ?us" by simp
  moreover have "be16 (enc32 p @ enc16 ?n @ encodeUnits ?us) 4 = ?n"
    using be16_at [of "enc32 p" ?n] by simp
  ultimately show ?thesis
    unfolding b parseCatalogKey_def by (simp add: len be32_append_left be32_enc32)
qed

lemma length_encodeCatalogKey: "length (encodeCatalogKey p name) = 8 + 2 * length (utf16Encode name)"
  by (simp add: encodeCatalogKey_def Let_def)

lemma padEven_key [simp]: "padEven (encodeCatalogKey p name) = encodeCatalogKey p name"
  by (simp add: padEven_def length_encodeCatalogKey)

text \<open>\<open>fitName\<close>: the name's key length fits the 16-bit prefix, and the name is valid.\<close>

definition fitName :: "gostring \<Rightarrow> bool" where
  "fitName name \<longleftrightarrow> list_all validRune name \<and> 2 * length (utf16Encode name) + 6 < 2 ^ 16"

lemma recordKeyLen_catalog:
  assumes "2 * length (utf16Encode name) + 6 < 2 ^ 16"
  shows "recordKeyLen (encodeCatalogKey p name @ data) = Some (6 + 2 * length (utf16Encode name))"
proof -
  let ?n = "6 + 2 * length (utf16Encode name)"
  have "be16 (encodeCatalogKey p name @ data) 0 = of_nat ?n"
    by (simp add: encodeCatalogKey_def Let_def be16_append_left be16_enc16)
  moreover have "unat (of_nat ?n :: u16) = ?n" using assms by (simp only: unat_of_nat) simp
  ultimately show ?thesis by (simp add: recordKeyLen_def length_encodeCatalogKey)
qed

lemma record_of_key:
  assumes "fitName name"
  shows "keyFromRecord (assembleCatalogRecord (encodeCatalogKey p name) data)
      = Some \<lparr>parentID = p, cname = name, nameU16 = Some (utf16Encode name)\<rparr>"
    and "recordData (assembleCatalogRecord (encodeCatalogKey p name) data) = Some data"
proof -
  let ?L = "6 + 2 * length (utf16Encode name)" and ?k = "encodeCatalogKey p name"
  have len: "2 * length (utf16Encode name) + 6 < 2 ^ 16" using assms by (simp add: fitName_def)
  note kl = recordKeyLen_catalog [OF len, of p data]
  have "gslice (?k @ data) 2 (2 + ?L) = drop 2 ?k"
    by (simp add: gslice_def length_encodeCatalogKey)
  then show "keyFromRecord (assembleCatalogRecord ?k data)
      = Some \<lparr>parentID = p, cname = name, nameU16 = Some (utf16Encode name)\<rparr>"
    using kl parse_encode_key [OF len, of p] assms
    by (simp add: keyFromRecord_def assembleCatalogRecord_def utf16Decode_Encode fitName_def)
  show "recordData (assembleCatalogRecord ?k data) = Some data"
    using kl by (simp add: recordData_def assembleCatalogRecord_def length_encodeCatalogKey)
qed

lemma puts_simps [simp]: "puts b [] = b" "puts b (w # ws) = puts (overwrite b (fst w) (snd w)) ws"
  by (simp_all add: puts_def)

lemmas encoder_consts = catalogFolderLen_def catalogFileLen_def header_consts

lemma length_encodeFolderRecord [simp]: "length (encodeFolderRecord fid t val) = 88"
  by (simp add: encodeFolderRecord_def encoder_consts)

lemma length_encodeFileRecord [simp]: "length (encodeFileRecord fid t mode df) = 248"
  by (simp add: encodeFileRecord_def encoder_consts)

lemma folder_fields:
  "be16 (encodeFolderRecord fid t val) 0 = recordFolder" "be16 (encodeFolderRecord fid t val) 2 = 0"
  "be32 (encodeFolderRecord fid t val) 4 = val" "be32 (encodeFolderRecord fid t val) 8 = fid"
  by (simp_all add: encodeFolderRecord_def encoder_consts codec_simps)

lemma parse_folder:
  "parseCatalogRecord (encodeFolderRecord fid t val)
   = Some \<lparr>recType = recordFolder, cfolder = Some \<lparr>folderID = fid, valence = val, cfoFlags = 0\<rparr>,
           cfile = None, threadName = [], threadParent = 0\<rparr>"
  by (simp add: parseCatalogRecord_def folder_fields)

lemma file_fields:
  "be16 (encodeFileRecord fid t mode df) 0 = recordFile"
  "be16 (encodeFileRecord fid t mode df) 2 = kHFSThreadExistsMask"
  "be32 (encodeFileRecord fid t mode df) 8 = fid" "be16 (encodeFileRecord fid t mode df) 42 = mode"
  by (simp_all add: encodeFileRecord_def encoder_consts codec_simps)

lemma file_forks:
  "gslice (encodeFileRecord fid t mode df) 88 168 = encodeForkInto (replicate forkDataLen 0) df"
  "gslice (encodeFileRecord fid t mode df) 168 248 = replicate forkDataLen 0"
  by (simp_all add: encodeFileRecord_def encoder_consts slice_simps) (simp_all add: gslice_def)

lemma parseForkData_zero: "parseForkData (replicate forkDataLen 0) = zeroForkData"
proof -
  have "map (\<lambda>i. parseExtent (replicate forkDataLen 0) (16 + 8 * i)) [0..<numInlineExtents]
      = replicate numInlineExtents \<lparr>StartBlock = 0, BlockCount = 0\<rparr>"
    by (rule nth_equalityI) (simp_all add: parseExtent_def header_consts)
  then show ?thesis by (simp add: parseForkData_def zeroForkData_def header_consts)
qed

lemma parse_file:
  assumes "wf_forkData df"
  shows "parseCatalogRecord (encodeFileRecord fid t mode df)
   = Some \<lparr>recType = recordFile, cfolder = None, cfile = Some \<lparr>fileID = fid, cfiFlags = kHFSThreadExistsMask,
             dataFork = df, rsrcFork = zeroForkData, permMode = mode\<rparr>,
           threadName = [], threadParent = 0\<rparr>"
  using assms
  by (simp add: parseCatalogRecord_def file_fields record_consts forkDataLen_def numInlineExtents_def
      file_forks parse_encode_fork parseForkData_zero [unfolded forkDataLen_def numInlineExtents_def, simplified])

lemma parse_thread:
  assumes "fitName name" "rt = recordFolderThread \<or> rt = recordFileThread"
  shows "parseCatalogRecord (encodeThreadRecord rt p name)
   = Some \<lparr>recType = rt, cfolder = None, cfile = None, threadName = name, threadParent = p\<rparr>"
proof -
  let ?us = "utf16Encode name" and ?n = "of_nat (length (utf16Encode name)) :: u16"
  let ?b = "encodeThreadRecord rt p name"
  have b: "?b = (enc16 rt @ [0, 0] @ enc32 p @ enc16 ?n) @ encodeUnits ?us @ []"
    by (simp add: encodeThreadRecord_def Let_def)
  have "unat ?n = length ?us" using assms by (simp add: unat_of_nat fitName_def)
  moreover have "readUnits ?b (length (enc16 rt @ [0, 0] @ enc32 p @ enc16 ?n)) (length ?us) = Some ?us"
    unfolding b by (rule readUnits_encode)
  ultimately have us: "readUnitsUpTo ?b 10 (unat ?n) = ?us" by (simp add: readUnitsUpTo_readUnits)
  have f: "be16 ?b 0 = rt" "be32 ?b 4 = p" "be16 ?b 8 = ?n" "10 \<le> length ?b"
    using be32_at [of "enc16 rt @ [0, 0]" p] be16_at [of "enc16 rt @ [0, 0] @ enc32 p" ?n]
    by (simp_all add: encodeThreadRecord_def Let_def be16_append_left be16_enc16)
  show ?thesis
    using assms f us by (auto simp: parseCatalogRecord_def Let_def record_consts fitName_def utf16Decode_Encode)
qed

section \<open>Properties\<close>

text \<open>
  C31. Catalog leaf records survive the disk: whatever name, parent and data the write path
  assembles into a record, the reader finds that parent, that name and those code units in
  its key and exactly that data after it.
\<close>

theorem catalog_record_roundtrip:
  assumes "fitName name"
  shows "keyFromRecord (assembleCatalogRecord (encodeCatalogKey p name) data)
        = Some \<lparr>parentID = p, cname = name, nameU16 = Some (utf16Encode name)\<rparr>
    \<and> recordData (assembleCatalogRecord (encodeCatalogKey p name) data) = Some data"
  using record_of_key [OF assms] by blast

theorem catalog_record_roundtrip_witness:
  "keyFromRecord (assembleCatalogRecord (encodeCatalogKey 2 [0x61, 0x1F600]) [7, 8])
      = Some \<lparr>parentID = 2, cname = [0x61, 0x1F600], nameU16 = Some [0x61, 0xD83D, 0xDE00]\<rparr>"
  using catalog_record_roundtrip [of "[0x61, 0x1F600]" 2 "[7, 8]"]
  by (simp add: fitName_def validRune_def utf16Encode_def encodeRune_def)

text \<open>
  C32. The data of all three kinds of catalog records survives the disk: decoding an encoded
  folder, file or thread record gives the identifiers, counts, mode, flags, data fork and
  name that were encoded, and an empty resource fork.
\<close>

theorem catalog_data_roundtrip:
  assumes "wf_forkData df" "fitName name" "rt = recordFolderThread \<or> rt = recordFileThread"
  shows "parseCatalogRecord (encodeFolderRecord fid t val)
        = Some \<lparr>recType = recordFolder, cfolder = Some \<lparr>folderID = fid, valence = val, cfoFlags = 0\<rparr>,
                cfile = None, threadName = [], threadParent = 0\<rparr>
    \<and> parseCatalogRecord (encodeFileRecord fid t mode df)
        = Some \<lparr>recType = recordFile, cfolder = None, cfile = Some \<lparr>fileID = fid, cfiFlags = kHFSThreadExistsMask,
                  dataFork = df, rsrcFork = zeroForkData, permMode = mode\<rparr>,
                threadName = [], threadParent = 0\<rparr>
    \<and> parseCatalogRecord (encodeThreadRecord rt p name)
        = Some \<lparr>recType = rt, cfolder = None, cfile = None, threadName = name, threadParent = p\<rparr>"
  using parse_folder parse_file [OF assms(1)] parse_thread [OF assms(2,3)] by blast

theorem catalog_data_roundtrip_witness:
  "parseCatalogRecord (encodeFileRecord 17 0 0x81A4 zeroForkData)
     = Some \<lparr>recType = recordFile, cfolder = None, cfile = Some \<lparr>fileID = 17, cfiFlags = kHFSThreadExistsMask,
               dataFork = zeroForkData, rsrcFork = zeroForkData, permMode = 0x81A4\<rparr>,
             threadName = [], threadParent = 0\<rparr>
   \<and> parseCatalogRecord (encodeThreadRecord recordFileThread 2 [0x61])
     = Some \<lparr>recType = recordFileThread, cfolder = None, cfile = None, threadName = [0x61], threadParent = 2\<rparr>"
proof -
  note wf_zeroForkData
  moreover have "fitName [0x61]" by (simp add: fitName_def validRune_def utf16Encode_def encodeRune_def)
  ultimately show ?thesis
    using catalog_data_roundtrip [of zeroForkData "[0x61]" recordFileThread 17 0 0 "0x81A4" 2] by simp
qed

end
