(* ===== verification/NodeCodec.thy ===== *)
theory NodeCodec
  imports BTree
begin

text \<open>
  How a B-tree node is laid out in its bytes: \<^verbatim>\<open>writeNodeDescriptor\<close> and
  \<^verbatim>\<open>writeOffsetTable\<close> of \<^verbatim>\<open>mkfs.go\<close> and the packing loop of \<^verbatim>\<open>btreeWriter.storeNode\<close>
  (\<^verbatim>\<open>btwrite.go\<close>). The main lemma is that \<open>parseNode\<close> reads back the records that were packed,
  for every list of records that \<^verbatim>\<open>recordsFit\<close> accepts.
\<close>

section \<open>Operations\<close>

definition encodeDescriptor :: "nodeDescriptor \<Rightarrow> bytes" where
  "encodeDescriptor d = enc32 (FLink d) @ enc32 (BLink d) @ [Kind d, Height d] @ enc16 (NumRecords d)"

definition writeNodeDescriptor :: "bytes \<Rightarrow> nodeDescriptor \<Rightarrow> bytes" where
  "writeNodeDescriptor b d = overwrite b 0 (encodeDescriptor d)"

definition writeOffsetTable :: "bytes \<Rightarrow> u16 list \<Rightarrow> bytes" where
  "writeOffsetTable b offs =
     foldl (\<lambda>b p. overwrite b (length b - 2 * (fst p + 1)) (enc16 (snd p))) b (enumerate 0 offs)"

text \<open>
  \<^verbatim>\<open>usedBytes\<close> and \<^verbatim>\<open>recordsFit\<close>: descriptor, records, and one offset per record plus the
  free-space pointer.
\<close>

definition usedBytes :: "bytes list \<Rightarrow> nat" where
  "usedBytes recs = nodeDescriptorLen + 2 * (length recs + 1) + sum_list (map length recs)"

definition recordsFit :: "nat \<Rightarrow> bytes list \<Rightarrow> bool" where
  "recordsFit ns recs \<longleftrightarrow> usedBytes recs \<le> ns"

text \<open>
  The loop of \<^verbatim>\<open>storeNode\<close>: \<open>cnt\<close> is \<^verbatim>\<open>len(en.records)\<close>. The flag says whether all records went
  in; on overflow the node keeps what was copied so far.
\<close>

fun fillRecords :: "nat \<Rightarrow> nat \<Rightarrow> bytes \<Rightarrow> nat \<Rightarrow> u16 list \<Rightarrow> bytes list \<Rightarrow> bool \<times> bytes \<times> u16 list" where
  "fillRecords ns cnt b off offs [] = (True, b, offs)"
| "fillRecords ns cnt b off offs (r # rs) =
     (if off + length r > ns - 2 * (cnt + 1) then (False, b, offs)
      else fillRecords ns cnt (overwrite b off r) (off + length r) (offs @ [of_nat (off + length r)]) rs)"

text \<open>The bytes \<^verbatim>\<open>storeNode\<close> leaves in the node, and whether it succeeded.\<close>

definition packNode :: "nat \<Rightarrow> nodeDescriptor \<Rightarrow> bytes list \<Rightarrow> bool \<times> bytes" where
  "packNode ns d recs =
     (case fillRecords ns (length recs) (replicate ns 0) nodeDescriptorLen [of_nat nodeDescriptorLen] recs of
        (False, b, _) \<Rightarrow> (False, b)
      | (True, b, offs) \<Rightarrow>
          (True, writeOffsetTable (writeNodeDescriptor b (d\<lparr>NumRecords := of_nat (length recs)\<rparr>)) offs))"

section \<open>The offset table\<close>

lemma length_encodeDescriptor [simp]: "length (encodeDescriptor d) = 12"
  by (simp add: encodeDescriptor_def)

lemma length_writeNodeDescriptor [simp]: "12 \<le> length b \<Longrightarrow> length (writeNodeDescriptor b d) = length b"
  by (simp add: writeNodeDescriptor_def)

lemma writeOffsetTable_Nil [simp]: "writeOffsetTable b [] = b"
  by (simp add: writeOffsetTable_def)

lemma writeOffsetTable_snoc:
  "writeOffsetTable b (offs @ [u]) =
   overwrite (writeOffsetTable b offs) (length (writeOffsetTable b offs) - 2 * (length offs + 1)) (enc16 u)"
  by (simp add: writeOffsetTable_def enumerate_append_eq)

lemma length_writeOffsetTable: "2 * length offs \<le> length b \<Longrightarrow> length (writeOffsetTable b offs) = length b"
proof (induction offs rule: rev_induct)
  case (snoc u offs)
  then have "length (writeOffsetTable b offs) = length b" by simp
  with snoc.prems show ?case by (simp add: writeOffsetTable_snoc)
qed simp

lemma writeOffsetTable_nth:
  "2 * length offs \<le> length b \<Longrightarrow> i < length offs \<Longrightarrow>
   be16 (writeOffsetTable b offs) (length b - 2 * (i + 1)) = offs ! i"
proof (induction offs arbitrary: i rule: rev_induct)
  case (snoc u offs)
  have len: "length (writeOffsetTable b offs) = length b"
    using snoc.prems by (intro length_writeOffsetTable) simp
  show ?case
  proof (cases "i = length offs")
    case True
    then show ?thesis
      using snoc.prems unfolding writeOffsetTable_snoc len by (simp add: be16_overwrite_same len)
  next
    case False
    with snoc.prems have i: "i < length offs" by simp
    then have "be16 (overwrite (writeOffsetTable b offs) (length b - 2 * (length offs + 1)) (enc16 u))
        (length b - 2 * (i + 1)) = be16 (writeOffsetTable b offs) (length b - 2 * (i + 1))"
      using snoc.prems len by (intro be16_overwrite_other) auto
    then show ?thesis using snoc i by (simp add: writeOffsetTable_snoc len nth_append)
  qed
qed simp

lemma writeOffsetTable_below:
  "2 * length offs \<le> length b \<Longrightarrow> hi \<le> length b - 2 * length offs \<Longrightarrow>
   gslice (writeOffsetTable b offs) lo hi = gslice b lo hi"
proof (induction offs rule: rev_induct)
  case (snoc u offs)
  have len: "length (writeOffsetTable b offs) = length b"
    using snoc.prems by (intro length_writeOffsetTable) simp
  have "gslice (writeOffsetTable b (offs @ [u])) lo hi = gslice (writeOffsetTable b offs) lo hi"
    unfolding writeOffsetTable_snoc len using snoc.prems len by (intro gslice_overwrite_below) auto
  then show ?case using snoc by simp
qed simp

section \<open>Packing\<close>

fun offsFrom :: "nat \<Rightarrow> bytes list \<Rightarrow> nat list" where
  "offsFrom s [] = [s]"
| "offsFrom s (r # rs) = s # offsFrom (s + length r) rs"

lemma length_offsFrom [simp]: "length (offsFrom s rs) = Suc (length rs)"
  by (induction rs arbitrary: s) auto

lemma offsFrom_bounds: "k \<in> set (offsFrom s rs) \<Longrightarrow> s \<le> k \<and> k \<le> s + sum_list (map length rs)"
  by (induction rs arbitrary: s) fastforce+

lemma offsFrom_hd: "offsFrom s rs = s # tl (offsFrom s rs)"
  by (cases rs) auto

lemma length_concat_sum: "length (concat rs) = sum_list (map length rs)"
  by (induction rs) auto

lemma cutRecords_offsFrom:
  assumes "nodeDescriptorLen \<le> s" "s + sum_list (map length rs) \<le> ns"
    "gslice b s (s + sum_list (map length rs)) = concat rs"
  shows "cutRecords ns b (offsFrom s rs) = Some rs"
  using assms
proof (induction rs arbitrary: s)
  case (Cons r rs)
  let ?m = "s + length r" and ?T = "sum_list (map length rs)"
  have "gslice b s ?m @ gslice b ?m (?m + ?T) = r @ concat rs"
    using Cons.prems(3) gslice_append_split [of s ?m "?m + ?T" b] by (simp add: add.assoc)
  moreover have "length (gslice b s ?m) = length r"
  proof -
    have "length (gslice b s (s + (length r + ?T))) = length r + ?T"
      using Cons.prems(3) by (simp add: length_concat_sum)
    then show ?thesis by (cases "length r = 0") (auto simp: min_def split: if_splits)
  qed
  ultimately have cut: "gslice b s ?m = r" "gslice b ?m (?m + ?T) = concat rs" by auto
  obtain os where os: "offsFrom ?m rs = ?m # os" using offsFrom_hd by blast
  have "cutRecords ns b (offsFrom ?m rs) = Some rs"
    using Cons.IH [of ?m] Cons.prems cut(2) by (simp add: add.assoc)
  then show ?case
    using Cons.prems(1,2) cut(1) by (simp add: os)
qed simp

lemma fillRecords_fits:
  assumes "length pre + sum_list (map length rs) \<le> ns - 2 * (cnt + 1)"
  shows "fillRecords ns cnt (pre @ replicate (ns - length pre) 0) (length pre) offs rs
    = (True, pre @ concat rs @ replicate (ns - length pre - length (concat rs)) 0,
       offs @ map of_nat (tl (offsFrom (length pre) rs)))"
  using assms
proof (induction rs arbitrary: pre offs)
  case (Cons r rs)
  have "overwrite (pre @ replicate (ns - length pre) 0) (length pre) r
      = (pre @ r) @ replicate (ns - length (pre @ r)) 0"
    by (simp add: overwrite_def)
  moreover have "fillRecords ns cnt ((pre @ r) @ replicate (ns - length (pre @ r)) 0) (length (pre @ r))
      (offs @ [of_nat (length (pre @ r))]) rs
    = (True, (pre @ r) @ concat rs @ replicate (ns - length (pre @ r) - length (concat rs)) 0,
       (offs @ [of_nat (length (pre @ r))]) @ map of_nat (tl (offsFrom (length (pre @ r)) rs)))"
    using Cons.prems by (intro Cons.IH) simp
  moreover obtain os where "offsFrom (length pre + length r) rs = (length pre + length r) # os"
    using offsFrom_hd by blast
  ultimately show ?case using Cons.prems by simp
qed simp

lemma recordsFit_alt:
  "recordsFit ns recs \<longleftrightarrow> nodeDescriptorLen + sum_list (map length recs) + 2 * (length recs + 1) \<le> ns"
  by (auto simp: recordsFit_def usedBytes_def)

definition nodeBody :: "nat \<Rightarrow> bytes list \<Rightarrow> bytes" where
  "nodeBody ns recs = replicate nodeDescriptorLen 0 @ concat recs
     @ replicate (ns - nodeDescriptorLen - length (concat recs)) 0"

lemma packNode_fits:
  assumes "recordsFit ns recs"
  shows "packNode ns d recs = (True, writeOffsetTable
      (writeNodeDescriptor (nodeBody ns recs) (d\<lparr>NumRecords := of_nat (length recs)\<rparr>))
      (map of_nat (offsFrom nodeDescriptorLen recs)))"
proof -
  have "replicate ns (0::byte) = replicate nodeDescriptorLen 0 @ replicate (ns - nodeDescriptorLen) 0"
    using assms by (simp add: recordsFit_alt flip: replicate_add)
  then have "fillRecords ns (length recs) (replicate ns 0) nodeDescriptorLen [of_nat nodeDescriptorLen] recs
      = (True, nodeBody ns recs, map of_nat (offsFrom nodeDescriptorLen recs))"
    using fillRecords_fits [of "replicate nodeDescriptorLen 0" recs ns "length recs"
        "[of_nat nodeDescriptorLen]"] assms offsFrom_hd [of nodeDescriptorLen recs]
    by (simp add: recordsFit_alt nodeBody_def) (metis list.map(2))
  then show ?thesis by (simp add: packNode_def)
qed

lemma packNode_overflow:
  assumes "\<not> recordsFit ns recs" "nodeDescriptorLen + 2 * (length recs + 1) \<le> ns"
  shows "fst (packNode ns d recs) = False"
proof -
  have fails: "fst (fillRecords ns cnt b off offs rs) = False"
    if "off + sum_list (map length rs) > ns - 2 * (cnt + 1)" "off \<le> ns - 2 * (cnt + 1)" for cnt b off offs rs
    using that by (induction rs arbitrary: b off offs) (auto simp: add.assoc)
  have "fst (fillRecords ns (length recs) (replicate ns 0) nodeDescriptorLen [of_nat nodeDescriptorLen] recs) = False"
    using assms by (intro fails) (auto simp: recordsFit_alt)
  then show ?thesis
    by (cases "fillRecords ns (length recs) (replicate ns 0) nodeDescriptorLen [of_nat nodeDescriptorLen] recs")
      (simp add: packNode_def)
qed

lemma length_nodeBody: "recordsFit ns recs \<Longrightarrow> length (nodeBody ns recs) = ns"
  by (simp add: nodeBody_def recordsFit_alt length_concat_sum)

lemma length_packNode: "recordsFit ns recs \<Longrightarrow> length (snd (packNode ns d recs)) = ns"
  by (subst packNode_fits)
    (simp_all add: length_writeOffsetTable length_nodeBody recordsFit_alt nodeDescriptorLen_def)

lemma fillRecords_shape:
  assumes "length b = ns" "nodeDescriptorLen \<le> off" "fillRecords ns cnt b off offs rs = (ok, b', offs')"
  shows "length b' = ns \<and> (ok \<longrightarrow> length offs' = length offs + length rs \<and> (rs \<noteq> [] \<longrightarrow> 2 * (cnt + 1) \<le> ns))"
  using assms
proof (induction rs arbitrary: b off offs)
  case (Cons r rs)
  show ?case
  proof (cases "off + length r > ns - 2 * (cnt + 1)")
    case False
    then have "off + length r \<le> ns" by simp
    moreover have "2 * (cnt + 1) \<le> ns" using False Cons.prems(2) by (simp add: nodeDescriptorLen_def)
    ultimately show ?thesis using Cons.IH [of "overwrite b off r" "off + length r"] Cons.prems False by auto
  qed (use Cons.prems in auto)
qed auto

text \<open>A node keeps its size, whether or not the records fit.\<close>

lemma length_packNode_any: "16 \<le> ns \<Longrightarrow> length (snd (packNode ns d recs)) = ns"
proof -
  assume ns: "16 \<le> ns"
  obtain ok b offs where f: "fillRecords ns (length recs) (replicate ns 0) nodeDescriptorLen [of_nat nodeDescriptorLen] recs
      = (ok, b, offs)" by (metis prod_cases3)
  have sh: "length b = ns" "ok \<Longrightarrow> length offs = 1 + length recs" "ok \<Longrightarrow> recs \<noteq> [] \<Longrightarrow> 2 * (length recs + 1) \<le> ns"
    using fillRecords_shape [OF _ _ f] by (auto simp: nodeDescriptorLen_def)
  show ?thesis
  proof (cases ok)
    case True
    then have "2 * length offs \<le> ns" using sh ns by (cases "recs = []") auto
    then show ?thesis using f sh True ns by (simp add: packNode_def length_writeOffsetTable)
  qed (use f sh in \<open>simp add: packNode_def\<close>)
qed

lemma parse_descriptor:
  fixes d :: nodeDescriptor
  shows "parseNodeDescriptor (encodeDescriptor d @ xs) = d"
proof -
  have "be32 (encodeDescriptor d @ xs) 0 = FLink d" "be32 (encodeDescriptor d @ xs) 4 = BLink d"
    by (simp_all add: encodeDescriptor_def be32_append_left be32_append_right codec_simps)
  moreover have "be16 (encodeDescriptor d @ xs) 10 = NumRecords d"
    using be16_append_right [of "enc32 (FLink d) @ enc32 (BLink d) @ [Kind d, Height d]" 10
        "enc16 (NumRecords d) @ xs"]
    by (simp add: encodeDescriptor_def be16_append_left be16_enc16)
  moreover have "(encodeDescriptor d @ xs) ! 8 = Kind d" "(encodeDescriptor d @ xs) ! 9 = Height d"
    by (simp_all add: encodeDescriptor_def nth_append)
  ultimately show ?thesis by (simp add: parseNodeDescriptor_def)
qed

lemma parseNodeDescriptor_prefix:
  "12 \<le> length b \<Longrightarrow> 12 \<le> n \<Longrightarrow> parseNodeDescriptor (take n b) = parseNodeDescriptor b"
  by (simp add: parseNodeDescriptor_def be32_def be16_def)

lemma node_roundtrip:
  assumes fit: "recordsFit ns recs" and ns: "ns < 2 ^ 16"
  shows "parseNode ns (snd (packNode ns d recs))
    = Inr \<lparr>desc = d\<lparr>NumRecords := of_nat (length recs)\<rparr>, records = recs\<rparr>"
proof -
  define d' where "d' = d\<lparr>NumRecords := of_nat (length recs)\<rparr>"
  define b where "b = writeNodeDescriptor (nodeBody ns recs) d'"
  define offs where "offs = offsFrom nodeDescriptorLen recs"
  let ?buf = "writeOffsetTable b (map of_nat offs)"
  have room: "14 + sum_list (map length recs) + 2 * (length recs + 1) \<le> ns"
    using fit by (simp add: recordsFit_alt nodeDescriptorLen_def)
  have lb: "length b = ns" using room length_nodeBody [OF fit] by (simp add: b_def)
  have lo: "2 * length (map of_nat offs :: u16 list) \<le> length b" using room lb by (simp add: offs_def)
  have len: "length ?buf = ns" using length_writeOffsetTable [OF lo] lb by simp
  have below: "gslice ?buf lo hi = gslice b lo hi" if "hi \<le> 14 + sum_list (map length recs)" for lo hi
    using that room lb by (intro writeOffsetTable_below [OF lo]) (simp add: offs_def)
  have "take 14 ?buf = take 14 b" using below [of 14 0] by (simp add: gslice_def)
  then have "parseNodeDescriptor ?buf = parseNodeDescriptor b"
    using parseNodeDescriptor_prefix [of ?buf 14] parseNodeDescriptor_prefix [of b 14] len lb room by simp
  also have "\<dots> = d'"
    unfolding b_def writeNodeDescriptor_def overwrite_def using parse_descriptor by simp
  finally have desc: "parseNodeDescriptor ?buf = d'" .
  have nrec: "unat (NumRecords d') = length recs" using room ns by (simp add: d'_def unat_of_nat)
  have "offsetAt ns ?buf i = offs ! i" if "i < length offs" for i
  proof -
    have "offs ! i \<le> 14 + sum_list (map length recs)"
      using offsFrom_bounds [of "offs ! i" nodeDescriptorLen recs] that
      by (simp add: offs_def nodeDescriptorLen_def)
    moreover have "be16 ?buf (ns - 2 * (i + 1)) = of_nat (offs ! i)"
      using writeOffsetTable_nth [OF lo, of i] that lb by simp
    ultimately show ?thesis using room ns by (simp add: offsetAt_def unat_of_nat)
  qed
  then have "map (offsetAt ns ?buf) [0..<length recs + 1] = offs"
    by (intro nth_equalityI) (auto simp: offs_def simp del: upt_Suc)
  moreover have "cutRecords ns ?buf (offsFrom nodeDescriptorLen recs) = Some recs"
  proof (rule cutRecords_offsFrom)
    have "gslice b 14 (14 + sum_list (map length recs)) = gslice (nodeBody ns recs) 14 (14 + sum_list (map length recs))"
      unfolding b_def writeNodeDescriptor_def using length_nodeBody [OF fit] room
      by (intro gslice_overwrite_above) auto
    also have "\<dots> = concat recs"
      by (simp add: nodeBody_def nodeDescriptorLen_def gslice_def length_concat_sum)
    finally show "gslice ?buf nodeDescriptorLen (nodeDescriptorLen + sum_list (map length recs)) = concat recs"
      using below [of "14 + sum_list (map length recs)" 14] by (simp add: nodeDescriptorLen_def)
  qed (use room in \<open>auto simp: nodeDescriptorLen_def\<close>)
  ultimately have "parseNode ns ?buf = Inr \<lparr>desc = d', records = recs\<rparr>"
    using desc nrec room by (simp add: parseNode_def Let_def offs_def del: upt_Suc)
  then show ?thesis using packNode_fits [OF fit, of d] by (simp add: b_def d'_def offs_def)
qed

section \<open>Nodes of a fork\<close>

lemma readNode_slice:
  fixes v :: "'a vol_scheme"
  assumes "forkOK v (tf t)" "ns = unat (NodeSize (theader t))" "0 < ns"
    "int (unat n * ns + ns) \<le> fsize (tf t)"
  shows "readNode v t n = parseNode ns (gslice (forkBytes v (tf t)) (unat n * ns) (unat n * ns + ns))"
proof -
  have off: "uint n * int ns = int (unat n * ns)" by simp
  have "readAt v (tf t) ns (int k) = (take ns (drop k (forkBytes v (tf t))), None)"
    if "int (k + ns) \<le> fsize (tf t)" for k
    using readAt_window [OF assms(1), of "int k" ns] assms(3) that by simp
  from this [OF assms(4)] have "readAt v (tf t) ns (int (unat n * ns))
      = (take ns (drop (unat n * ns) (forkBytes v (tf t))), None)" .
  moreover have "length (forkBytes v (tf t)) \<ge> unat n * ns + ns"
    using length_forkBytes [OF assms(1)] assms(4) by linarith
  ultimately show ?thesis
    unfolding readNode_def assms(2) [symmetric] Let_def off
    by (simp add: gslice_def filled_def)
qed

text \<open>A volume that is nothing but a run of 512-byte nodes, and a tree over it, for concrete instances.\<close>

definition nodeVol :: "bytes list \<Rightarrow> vol" where
  "nodeVol nodes = \<lparr>disk = concat nodes, vsize = -1, wr = True, vh = sampleHeader 512\<rparr>"

definition nodeTree :: "u32 \<Rightarrow> u32 \<Rightarrow> byte \<Rightarrow> bytes list \<Rightarrow> btree" where
  "nodeTree root first cmp nodes =
     \<lparr>tf = \<lparr>fsize = int (512 * length nodes),
            fextents = [\<lparr>StartBlock = 0, BlockCount = of_nat (length nodes)\<rparr>]\<rparr>,
      theader = \<lparr>RootNode = root, FirstLeaf = first, LastLeaf = 0, NodeSize = 512, KeyCompare = cmp,
                 btAttributes = 0\<rparr>\<rparr>"

lemma length_concat_nodes: "\<forall>b \<in> set nodes. length b = w \<Longrightarrow> length (concat nodes) = w * length nodes"
  by (induction nodes) auto

lemma gslice_concat_nodes:
  "\<forall>b \<in> set nodes. length b = w \<Longrightarrow> i < length nodes \<Longrightarrow> gslice (concat nodes) (i * w) (i * w + w) = nodes ! i"
  using concat_fixed_nth [of "length nodes" "\<lambda>i. nodes ! i" w i]
  by (simp add: gslice_def mult.commute map_nth)

lemma nodeVol_fork:
  assumes "\<forall>b \<in> set nodes. length b = 512" "length nodes < 2 ^ 20"
  shows "forkOK (nodeVol nodes) (tf (nodeTree root first cmp nodes))"
    "forkBytes (nodeVol nodes) (tf (nodeTree root first cmp nodes)) = concat nodes"
proof -
  have u: "unat (of_nat (length nodes) :: u32) = length nodes" using assms(2) by (simp add: unat_of_nat)
  show "forkOK (nodeVol nodes) (tf (nodeTree root first cmp nodes))"
    using assms u length_concat_nodes [OF assms(1)]
    by (simp add: forkOK_def nodeVol_def nodeTree_def sampleHeader_def extentInside_def extentSpan_def)
  show "forkBytes (nodeVol nodes) (tf (nodeTree root first cmp nodes)) = concat nodes"
    using assms u length_concat_nodes [OF assms(1)]
    by (simp add: forkBytes_def nodeVol_def nodeTree_def sampleHeader_def forkContent_def
        extentContent_def extentSpan_def gslice_def)
qed

lemma readNode_nodeVol:
  assumes "\<forall>b \<in> set nodes. length b = 512" "length nodes < 2 ^ 20" "unat n < length nodes"
  shows "readNode (nodeVol nodes) (nodeTree root first cmp nodes) n = parseNode 512 (nodes ! unat n)"
proof -
  have "unat n * 512 + 512 \<le> 512 * length nodes" using assms(3) by simp
  then have "int (unat n * 512 + 512) \<le> int (512 * length nodes)" by (simp only: of_nat_le_iff)
  then show ?thesis
    using readNode_slice [OF nodeVol_fork(1) [OF assms(1,2)], of 512 root first cmp n]
      nodeVol_fork(2) [OF assms(1,2)] gslice_concat_nodes [OF assms(1,3)]
    by (simp add: nodeTree_def)
qed

lemma maxNodes_nodeVol:
  assumes "\<forall>b \<in> set nodes. length b = 512" "length nodes < 2 ^ 20" "nodes \<noteq> []"
  shows "maxNodes (nodeVol nodes) (nodeTree root first cmp nodes) = int (length nodes)"
proof -
  have u: "uint (of_nat (length nodes) :: u32) = int (length nodes)"
    using assms(2) by (simp add: unsigned_of_nat take_bit_nat_eq_self_iff)
  show ?thesis
    using assms u length_concat_nodes [OF assms(1)]
    by (simp add: maxNodes_def extentBytes_def capacity_def nodeVol_def nodeTree_def sampleHeader_def
        maxForkBytes_def Suc_le_eq)
qed

section \<open>Properties\<close>

text \<open>
  C21. A node survives the disk: for every descriptor and every list of records that
  \<^verbatim>\<open>recordsFit\<close> accepts (nodes are smaller than 64 KiB), \<^verbatim>\<open>storeNode\<close> succeeds, leaves a node
  of the same size, and \<^verbatim>\<open>readNode\<close> and \<^verbatim>\<open>loadNode\<close> cut exactly those records and that
  descriptor out of it, with the record count set.
\<close>

theorem node_store_load:
  assumes "recordsFit ns recs" "ns < 2 ^ 16"
  shows "fst (packNode ns d recs) \<and> length (snd (packNode ns d recs)) = ns
    \<and> parseNode ns (snd (packNode ns d recs))
        = Inr \<lparr>desc = d\<lparr>NumRecords := of_nat (length recs)\<rparr>, records = recs\<rparr>"
  using packNode_fits [OF assms(1), of d] length_packNode [OF assms(1), of d] node_roundtrip [OF assms, of d]
  by (metis fst_conv)

theorem node_store_load_witness:
  "parseNode 512 (snd (packNode 512 \<lparr>FLink = 7, BLink = 3, Kind = kindLeafNode, Height = 1, NumRecords = 0\<rparr>
      [[0, 1, 9], replicate 300 5, []]))
   = Inr \<lparr>desc = \<lparr>FLink = 7, BLink = 3, Kind = kindLeafNode, Height = 1, NumRecords = 3\<rparr>,
          records = [[0, 1, 9], replicate 300 5, []]\<rparr>"
  using node_store_load [of 512 "[[0, 1, 9], replicate 300 5, []]"
      "\<lparr>FLink = 7, BLink = 3, Kind = kindLeafNode, Height = 1, NumRecords = 0\<rparr>"]
  by (simp add: recordsFit_alt nodeDescriptorLen_def)

end
