(* ===== verification/CatalogSearch.thy ===== *)
theory CatalogSearch
  imports Catalog NodeCodec
begin

text \<open>
  \<^verbatim>\<open>catalog_search.go\<close>: the order on catalog keys, the test for equal names, and the two
  searches of the catalog tree, \<^verbatim>\<open>lookup\<close> and \<^verbatim>\<open>listChildren\<close>. Both are proved equal to a
  scan of all the records of the tree, so neither the descent nor the early exits lose or
  add an entry.
\<close>

section \<open>Keys\<close>

definition keyUnits :: "catalogKey \<Rightarrow> units" where
  "keyUnits k =
     (case nameU16 k of Some us \<Rightarrow> us | None \<Rightarrow> if cname k = [] then [] else utf16Encode (cname k))"

definition compareCatalogKey :: "btree \<Rightarrow> catalogKey \<Rightarrow> catalogKey \<Rightarrow> int" where
  "compareCatalogKey t a b =
     (if parentID a \<noteq> parentID b then if parentID a < parentID b then -1 else 1
      else if KeyCompare (theader t) = keyCompareBinary then compareU16 (keyUnits a) (keyUnits b)
      else fastUnicodeCompare (keyUnits a) (keyUnits b))"

text \<open>
  \<^verbatim>\<open>strings.EqualFold\<close> compares rune by rune up to simple case folding; \<open>envFold\<close> picks one
  representative of each case orbit.
\<close>

definition nameEqual :: "env \<Rightarrow> btree \<Rightarrow> gostring \<Rightarrow> gostring \<Rightarrow> bool" where
  "nameEqual env t a b =
     (if KeyCompare (theader t) = keyCompareBinary then a = b
      else map (envFold env) a = map (envFold env) b)"

section \<open>Searches\<close>

definition findLeaf :: "'a vol_scheme \<Rightarrow> btree \<Rightarrow> catalogKey \<Rightarrow> u32 result" where
  "findLeaf v t key = findLeafBy v t (leTest keyFromRecord (compareCatalogKey t) key)"

definition decodeRecord :: "bytes \<Rightarrow> catalogRecord result" where
  "decodeRecord rec =
     (case recordData rec of
        None \<Rightarrow> Inl ErrCorrupt
      | Some data \<Rightarrow>
          (case parseCatalogRecord data of None \<Rightarrow> Inl ErrCorrupt | Some cr \<Rightarrow> Inr cr))"

text \<open>The body of \<^verbatim>\<open>lookup\<close>'s loop; \<open>Inr None\<close> is the result \<^verbatim>\<open>(_, false, nil)\<close>.\<close>

definition lookupStep :: "env \<Rightarrow> btree \<Rightarrow> catalogKey \<Rightarrow> bytes \<Rightarrow> unit \<Rightarrow> catalogRecord option result + unit" where
  "lookupStep env t key rec acc =
     (case keyFromRecord rec of
        None \<Rightarrow> Inr ()
      | Some k \<Rightarrow>
          if parentID k = parentID key \<and> nameEqual env t (cname k) (cname key)
          then Inl (bindR (decodeRecord rec) (\<lambda>cr. Inr (Some cr)))
          else if parentID k > parentID key then Inl (Inr None)
          else Inr ())"

definition lookup :: "env \<Rightarrow> 'a vol_scheme \<Rightarrow> btree \<Rightarrow> catalogKey \<Rightarrow> catalogRecord option result" where
  "lookup env v t key =
     bindR (findLeaf v t key)
       (\<lambda>leaf. leafWalk v t (scanRecs (lookupStep env t key)) (\<lambda>_. Inr None) leaf 0 ())"

record childEntry =
  ckey :: catalogKey
  crec :: catalogRecord

definition childStep :: "u32 \<Rightarrow> bytes \<Rightarrow> childEntry list \<Rightarrow> childEntry list result + childEntry list" where
  "childStep pid rec out =
     (case keyFromRecord rec of
        None \<Rightarrow> Inr out
      | Some k \<Rightarrow>
          if parentID k < pid then Inr out
          else if parentID k > pid then Inl (Inr out)
          else case recordData rec of
                 None \<Rightarrow> Inr out
               | Some data \<Rightarrow>
                   (case parseCatalogRecord data of
                      None \<Rightarrow> Inr out
                    | Some cr \<Rightarrow>
                        if recType cr = recordFolderThread \<or> recType cr = recordFileThread then Inr out
                        else Inr (out @ [\<lparr>ckey = k, crec = cr\<rparr>])))"

definition listChildren :: "'a vol_scheme \<Rightarrow> btree \<Rightarrow> u32 \<Rightarrow> childEntry list result" where
  "listChildren v t pid =
     bindR (findLeaf v t \<lparr>parentID = pid, cname = [], nameU16 = None\<rparr>)
       (\<lambda>leaf. leafWalk v t (scanRecs (childStep pid)) Inr leaf 0 [])"

section \<open>The key order\<close>

definition sortUnits :: "btree \<Rightarrow> catalogKey \<Rightarrow> units" where
  "sortUnits t k = (if KeyCompare (theader t) = keyCompareBinary then keyUnits k else foldedUnits (keyUnits k))"

lemma compareCatalogKey_ordSign:
  "compareCatalogKey t a b = ordSign (parentID a, sortUnits t a) (parentID b, sortUnits t b)"
  by (auto simp: compareCatalogKey_def sortUnits_def compareU16_ordSign fastUnicodeCompare_ordSign
      ordSign_def less_prod_def)

interpretation catOrder: key_order "compareCatalogKey t" for t
  unfolding compareCatalogKey_ordSign by (rule ordSign_key_order)

interpretation catTree: search_tree "compareCatalogKey t" keyFromRecord for t ..

lemma compareCatalogKey_parent: "compareCatalogKey t a b \<le> 0 \<Longrightarrow> parentID a \<le> parentID b"
  by (auto simp: compareCatalogKey_ordSign ordSign_def less_prod_def split: if_splits)

lemma above_parent:
  assumes "\<forall>r \<in> set recs. keyHolds keyFromRecord (\<lambda>k'. compareCatalogKey t k k' < 0) r" "x < parentID k"
  shows "list_all (keyHolds keyFromRecord (\<lambda>k'. x < parentID k')) recs"
proof -
  have "x < parentID k'" if "compareCatalogKey t k k' < 0" for k'
    using compareCatalogKey_parent [of t k k'] that assms(2) by simp
  then show ?thesis using assms(1) unfolding list_all_iff by (blast intro: keyHolds_mono)
qed

section \<open>Searching is scanning\<close>

text \<open>The keys of the records ascend strictly.\<close>

definition ascending :: "(bytes \<Rightarrow> 'k option) \<Rightarrow> ('k \<Rightarrow> 'k \<Rightarrow> int) \<Rightarrow> bytes list \<Rightarrow> bool" where
  "ascending keyOf cmp recs = sorted_wrt (\<lambda>a b. cmp a b < 0) (List.map_filter keyOf recs)"

lemma map_filter_Cons:
  "List.map_filter f (x # xs) = (case f x of None \<Rightarrow> List.map_filter f xs | Some y \<Rightarrow> y # List.map_filter f xs)"
  by (auto simp: List.map_filter_def split: option.split)

lemma map_filter_Nil [simp]: "List.map_filter f [] = []"
  by (simp add: List.map_filter_def)

lemma set_map_filter: "y \<in> set (List.map_filter f xs) \<longleftrightarrow> (\<exists>x \<in> set xs. f x = Some y)"
  by (auto simp: List.map_filter_def) force

lemma ascending_Cons:
  "ascending keyOf cmp (rec # recs) \<longleftrightarrow> ascending keyOf cmp recs
   \<and> (case keyOf rec of None \<Rightarrow> True | Some k \<Rightarrow> \<forall>r \<in> set recs. keyHolds keyOf (\<lambda>k'. cmp k k' < 0) r)"
  by (auto simp: ascending_def map_filter_Cons keyHolds_def set_map_filter Ball_def split: option.splits)

definition keyMatches :: "env \<Rightarrow> btree \<Rightarrow> catalogKey \<Rightarrow> bytes \<Rightarrow> bool" where
  "keyMatches env t key rec =
     (case keyFromRecord rec of
        None \<Rightarrow> False
      | Some k \<Rightarrow> parentID k = parentID key \<and> nameEqual env t (cname k) (cname key))"

definition lookupSpec :: "env \<Rightarrow> btree \<Rightarrow> catalogKey \<Rightarrow> bytes list \<Rightarrow> catalogRecord option result" where
  "lookupSpec env t key recs =
     (case find (keyMatches env t key) recs of
        None \<Rightarrow> Inr None
      | Some rec \<Rightarrow> bindR (decodeRecord rec) (\<lambda>cr. Inr (Some cr)))"

text \<open>
  \<^verbatim>\<open>nameEqual\<close> and the tree's order are two notions of equal names; a search works when they
  agree on the search key and the keys of the tree.
\<close>

definition namesAgree :: "env \<Rightarrow> btree \<Rightarrow> catalogKey \<Rightarrow> bytes list \<Rightarrow> bool" where
  "namesAgree env t key recs \<longleftrightarrow>
     list_all (keyHolds keyFromRecord (\<lambda>k. parentID k = parentID key \<longrightarrow>
       (nameEqual env t (cname k) (cname key) \<longleftrightarrow> compareCatalogKey t k key = 0))) recs"

lemma find_None_above:
  assumes "list_all (keyHolds keyFromRecord (\<lambda>k. parentID key < parentID k)) recs"
  shows "find (keyMatches env t key) recs = None"
  using assms by (induction recs) (auto simp: keyHolds_def keyMatches_def split: option.splits)

lemma lookup_scan:
  "ascending keyFromRecord (compareCatalogKey t) recs \<Longrightarrow>
   endScan (\<lambda>_. Inr None) (scanRecs (lookupStep env t key) recs ()) = lookupSpec env t key recs"
proof (induction recs)
  case Nil
  then show ?case by (simp add: endScan_def lookupSpec_def)
next
  case (Cons rec recs)
  note asc = Cons.prems [unfolded ascending_Cons]
  show ?case
  proof (cases "keyFromRecord rec")
    case None
    then show ?thesis
      using Cons asc by (simp add: lookupStep_def lookupSpec_def keyMatches_def)
  next
    case (Some k)
    consider "keyMatches env t key rec" | "\<not> keyMatches env t key rec" "parentID key < parentID k"
      | "\<not> keyMatches env t key rec" "\<not> parentID key < parentID k" by blast
    then show ?thesis
    proof cases
      case 1
      then show ?thesis using Some by (simp add: lookupStep_def lookupSpec_def keyMatches_def endScan_def)
    next
      case 2
      have "list_all (keyHolds keyFromRecord (\<lambda>k'. parentID key < parentID k')) recs"
        using asc Some 2(2) by (intro above_parent [of _ t k]) auto
      then have "find (keyMatches env t key) (rec # recs) = None"
        using 2 by (simp add: find_None_above)
      moreover have "scanRecs (lookupStep env t key) (rec # recs) () = Inl (Inr None)"
        using 2 Some by (simp add: lookupStep_def keyMatches_def) auto
      ultimately show ?thesis by (simp only: endScan_def lookupSpec_def sum.case option.case)
    next
      case 3
      then show ?thesis
        using Cons asc Some by (auto simp: lookupStep_def lookupSpec_def keyMatches_def)
    qed
  qed
qed

lemma lookup_refines:
  assumes "holdsTree keyFromRecord (compareCatalogKey t) v t tr"
    "ascending keyFromRecord (compareCatalogKey t) (recsOf tr)" "namesAgree env t key (recsOf tr)"
  shows "lookup env v t key = lookupSpec env t key (recsOf tr)"
proof -
  have "lookupStep env t key rec () = Inr ()"
    if "rec \<in> set (recsOf tr)" "keyHolds keyFromRecord (\<lambda>k'. compareCatalogKey t k' key < 0) rec" for rec
  proof (cases "keyFromRecord rec")
    case (Some k)
    then have lt: "compareCatalogKey t k key < 0" using that(2) by (simp add: keyHolds_def)
    have "parentID k = parentID key \<Longrightarrow> \<not> nameEqual env t (cname k) (cname key)"
      using assms(3) that(1) Some lt by (auto simp: namesAgree_def list_all_iff keyHolds_def)
    then show ?thesis using Some compareCatalogKey_parent [of t k key] lt by (auto simp: lookupStep_def)
  qed (simp add: lookupStep_def)
  with assms(1) have "bindR (findLeafBy v t (leTest keyFromRecord (compareCatalogKey t) key))
      (\<lambda>n. leafWalk v t (scanRecs (lookupStep env t key)) (\<lambda>_. Inr None) n 0 ())
    = endScan (\<lambda>_. Inr None) (scanRecs (lookupStep env t key) (recsOf tr) ())"
    by (rule catTree.search_scan)
  then show ?thesis using lookup_scan [OF assms(2)] by (simp add: lookup_def findLeaf_def)
qed

definition childOf :: "u32 \<Rightarrow> bytes \<Rightarrow> childEntry option" where
  "childOf pid rec =
     (case keyFromRecord rec of
        None \<Rightarrow> None
      | Some k \<Rightarrow>
          if parentID k \<noteq> pid then None
          else case decodeRecord rec of
                 Inl _ \<Rightarrow> None
               | Inr cr \<Rightarrow>
                   if recType cr \<in> {recordFolderThread, recordFileThread} then None
                   else Some \<lparr>ckey = k, crec = cr\<rparr>)"

lemma childOf_above:
  "list_all (keyHolds keyFromRecord (\<lambda>k. pid < parentID k)) recs \<Longrightarrow> List.map_filter (childOf pid) recs = []"
  by (induction recs) (auto simp: map_filter_Cons childOf_def keyHolds_def split: option.splits)

lemma childStep_childOf:
  "keyFromRecord rec = Some k \<Longrightarrow> \<not> pid < parentID k \<Longrightarrow>
   childStep pid rec out = Inr (out @ (case childOf pid rec of None \<Rightarrow> [] | Some c \<Rightarrow> [c]))"
  by (auto simp: childStep_def childOf_def decodeRecord_def split: option.splits)

lemma children_scan:
  "ascending keyFromRecord (compareCatalogKey t) recs \<Longrightarrow>
   endScan Inr (scanRecs (childStep pid) recs out) = Inr (out @ List.map_filter (childOf pid) recs)"
proof (induction recs arbitrary: out)
  case Nil
  then show ?case by (simp add: endScan_def)
next
  case (Cons rec recs)
  note asc = Cons.prems [unfolded ascending_Cons]
  show ?case
  proof (cases "keyFromRecord rec")
    case None
    then show ?thesis using Cons asc by (simp add: childStep_def map_filter_Cons childOf_def)
  next
    case (Some k)
    show ?thesis
    proof (cases "pid < parentID k")
      case True
      have "list_all (keyHolds keyFromRecord (\<lambda>k'. pid < parentID k')) recs"
        using asc Some True by (intro above_parent [of _ t k]) auto
      then have "List.map_filter (childOf pid) (rec # recs) = []"
        using Some True by (auto simp: map_filter_Cons childOf_above childOf_def)
      moreover have "scanRecs (childStep pid) (rec # recs) out = Inl (Inr out)"
        using Some True by (auto simp: childStep_def)
      ultimately show ?thesis by (simp add: endScan_def)
    next
      case False
      then show ?thesis
        using Cons.IH asc childStep_childOf [OF Some False]
        by (simp add: map_filter_Cons split: option.split)
    qed
  qed
qed

lemma children_refines:
  assumes "holdsTree keyFromRecord (compareCatalogKey t) v t tr"
    "ascending keyFromRecord (compareCatalogKey t) (recsOf tr)"
  shows "listChildren v t pid = Inr (List.map_filter (childOf pid) (recsOf tr))"
proof -
  let ?start = "\<lparr>parentID = pid, cname = [], nameU16 = None\<rparr>"
  have low: "compareCatalogKey t k ?start < 0 \<Longrightarrow> parentID k < pid" for k
    by (auto simp: compareCatalogKey_ordSign ordSign_def less_prod_def sortUnits_def keyUnits_def
        foldedUnits_def split: if_splits)
  have "childStep pid rec [] = Inr []"
    if "rec \<in> set (recsOf tr)" "keyHolds keyFromRecord (\<lambda>k'. compareCatalogKey t k' ?start < 0) rec" for rec
  proof (cases "keyFromRecord rec")
    case (Some k)
    then have "parentID k < pid" using that(2) low [of k] by (simp add: keyHolds_def)
    then show ?thesis using Some by (simp add: childStep_def)
  qed (simp add: childStep_def)
  with assms(1) have "bindR (findLeafBy v t (leTest keyFromRecord (compareCatalogKey t) ?start))
      (\<lambda>n. leafWalk v t (scanRecs (childStep pid)) Inr n 0 [])
    = endScan Inr (scanRecs (childStep pid) (recsOf tr) [])"
    by (rule catTree.search_scan)
  then show ?thesis using children_scan [OF assms(2)] by (simp add: listChildren_def findLeaf_def)
qed

section \<open>A concrete tree\<close>

text \<open>
  A case-sensitive catalog of height two: node 1 is an index node over the leaves 2 and 3.
  Folder \<open>A\<close> (identifier 16) of the root holds the file \<open>b\<close> (identifier 17), whose three bytes
  are in block 4.
\<close>

definition sampleData :: forkData where
  "sampleData = \<lparr>LogicalSize = 3, ClumpSize = 0, fdTotalBlocks = 1,
     Extents = \<lparr>StartBlock = 4, BlockCount = 1\<rparr> # replicate 7 \<lparr>StartBlock = 0, BlockCount = 0\<rparr>\<rparr>"

definition fileRec :: bytes where
  "fileRec = assembleCatalogRecord (encodeCatalogKey 16 [0x62]) (encodeFileRecord 17 0 0x81A4 sampleData)"

definition folderRec :: bytes where
  "folderRec = assembleCatalogRecord (encodeCatalogKey 2 [0x41]) (encodeFolderRecord 16 0 1)"

definition threadRec :: bytes where
  "threadRec = assembleCatalogRecord (encodeCatalogKey 16 []) (encodeFolderThreadRecord 2 [0x41])"

definition indexRec :: "u32 \<Rightarrow> gostring \<Rightarrow> u32 \<Rightarrow> bytes" where
  "indexRec p name child = assembleCatalogRecord (encodeCatalogKey p name) (enc32 child)"

definition sampleTree :: tnode where
  "sampleTree = TIndex 1 [(indexRec 2 [0x41] 2, TLeaf 2 [folderRec]),
     (indexRec 16 [] 3, TLeaf 3 [threadRec, fileRec])]"

definition sampleDesc :: "byte \<Rightarrow> u32 \<Rightarrow> nodeDescriptor" where
  "sampleDesc k next = \<lparr>FLink = next, BLink = 0, Kind = k, Height = 1, NumRecords = 0\<rparr>"

definition sampleNodes :: "bytes list" where
  "sampleNodes = [replicate 512 0,
     snd (packNode 512 (sampleDesc kindIndexNode 0) [indexRec 2 [0x41] 2, indexRec 16 [] 3]),
     snd (packNode 512 (sampleDesc kindLeafNode 3) [folderRec]),
     snd (packNode 512 (sampleDesc kindLeafNode 0) [threadRec, fileRec]),
     [7, 8, 9] @ replicate 509 0]"

definition sampleCat :: btree where
  "sampleCat = nodeTree 1 2 keyCompareBinary sampleNodes"

lemma fitName_ascii: "list_all (\<lambda>c. c < 128) name \<Longrightarrow> length name < 256 \<Longrightarrow> fitName name"
proof -
  assume a: "list_all (\<lambda>c. c < 128) name" "length name < 256"
  have "length (utf16Encode name) = length name"
    using a(1) by (induction name) (auto simp: utf16Encode_def encodeRune_def validRune_def)
  moreover have "list_all validRune name" using a(1) by (auto simp: list_all_iff validRune_def)
  ultimately show ?thesis using a(2) by (simp add: fitName_def)
qed

lemma wf_sampleData [simp]: "wf_forkData sampleData"
  by (simp add: wf_forkData_def sampleData_def numInlineExtents_def)

lemma sample_keys:
  "keyFromRecord fileRec = Some \<lparr>parentID = 16, cname = [0x62], nameU16 = Some [0x62]\<rparr>"
  "keyFromRecord folderRec = Some \<lparr>parentID = 2, cname = [0x41], nameU16 = Some [0x41]\<rparr>"
  "keyFromRecord threadRec = Some \<lparr>parentID = 16, cname = [], nameU16 = Some []\<rparr>"
  "keyFromRecord (indexRec 2 [0x41] c) = Some \<lparr>parentID = 2, cname = [0x41], nameU16 = Some [0x41]\<rparr>"
  "keyFromRecord (indexRec 16 [] c) = Some \<lparr>parentID = 16, cname = [], nameU16 = Some []\<rparr>"
  by (simp_all add: fileRec_def folderRec_def threadRec_def indexRec_def record_of_key fitName_ascii)
    (simp_all add: utf16Encode_def encodeRune_def validRune_def)

lemma sample_children: "indexChild (indexRec 2 [0x41] c) = Some c" "indexChild (indexRec 16 [] c) = Some c"
  by (simp_all add: indexChild_def indexRec_def record_of_key fitName_ascii be32_enc32)

lemma sample_lengths:
  "length fileRec = 258" "length folderRec = 98" "length threadRec = 20"
  "length (indexRec 2 [0x41] c) = 14" "length (indexRec 16 [] c) = 12"
  by (simp_all add: fileRec_def folderRec_def threadRec_def indexRec_def assembleCatalogRecord_def
      length_encodeCatalogKey encodeFolderThreadRecord_def encodeThreadRecord_def)
    (simp_all add: utf16Encode_def encodeRune_def validRune_def)

lemma sample_fit:
  "recordsFit 512 [indexRec 2 [0x41] 2, indexRec 16 [] 3]" "recordsFit 512 [folderRec]"
  "recordsFit 512 [threadRec, fileRec]"
  by (simp_all add: recordsFit_alt nodeDescriptorLen_def sample_lengths)

lemma sample_sizes: "\<forall>b \<in> set sampleNodes. length b = 512" "length sampleNodes = 5"
  by (simp_all add: sampleNodes_def length_packNode sample_fit)

lemma sample_nodes:
  "readNode (nodeVol sampleNodes) sampleCat 1 = Inr \<lparr>desc = sampleDesc kindIndexNode 0\<lparr>NumRecords := 2\<rparr>,
     records = [indexRec 2 [0x41] 2, indexRec 16 [] 3]\<rparr>"
  "readNode (nodeVol sampleNodes) sampleCat 2 = Inr \<lparr>desc = sampleDesc kindLeafNode 3\<lparr>NumRecords := 1\<rparr>,
     records = [folderRec]\<rparr>"
  "readNode (nodeVol sampleNodes) sampleCat 3 = Inr \<lparr>desc = sampleDesc kindLeafNode 0\<lparr>NumRecords := 2\<rparr>,
     records = [threadRec, fileRec]\<rparr>"
  unfolding sampleCat_def
  by (simp_all add: readNode_nodeVol sample_sizes, simp_all add: sampleNodes_def node_roundtrip sample_fit)

lemma sample_holds: "holdsTree keyFromRecord (compareCatalogKey sampleCat) (nodeVol sampleNodes) sampleCat (Some sampleTree)"
proof -
  have cmp: "compareCatalogKey sampleCat a b = ordSign (parentID a, keyUnits a) (parentID b, keyUnits b)" for a b
    by (simp add: compareCatalogKey_ordSign sortUnits_def sampleCat_def nodeTree_def)
  have "maxNodes (nodeVol sampleNodes) sampleCat = 5"
    unfolding sampleCat_def using maxNodes_nodeVol [OF sample_sizes(1)] sample_sizes(2)
    by (cases "sampleNodes = []") simp_all
  then show ?thesis
    by (simp add: holdsTree_def sampleTree_def sample_nodes sample_children separates_def keyHolds_def
        sample_keys cmp ordSign_def keyUnits_def sampleDesc_def less_prod_def)
      (simp add: sampleCat_def nodeTree_def)
qed

lemma sample_recs: "recsOf (Some sampleTree) = [folderRec, threadRec, fileRec]"
  by (simp add: recsOf_def sampleTree_def)

lemma sample_ascending: "ascending keyFromRecord (compareCatalogKey sampleCat) (recsOf (Some sampleTree))"
  by (simp add: sample_recs ascending_def map_filter_Cons sample_keys compareCatalogKey_ordSign ordSign_def
      less_prod_def sortUnits_def sampleCat_def nodeTree_def keyUnits_def)

section \<open>Properties\<close>

text \<open>
  C16. \<^verbatim>\<open>lookup\<close> is complete and correct: on a well-formed catalog tree (searchable nodes of
  any shape up to 64 levels, leaves chained, keys ascending) it returns exactly the record
  that a scan of all leaf records finds for the key, or reports absence when there is none,
  although it reads only one path and stops early. The hypothesis \<open>namesAgree\<close> says that
  \<^verbatim>\<open>nameEqual\<close> and the tree's order agree on the names in question.
\<close>

theorem catalog_lookup_correct:
  assumes "holdsTree keyFromRecord (compareCatalogKey t) v t tr"
    "ascending keyFromRecord (compareCatalogKey t) (recsOf tr)" "namesAgree env t key (recsOf tr)"
  shows "lookup env v t key = lookupSpec env t key (recsOf tr)"
  using assms by (rule lookup_refines)

theorem catalog_lookup_correct_witness:
  "lookup sampleEnv (nodeVol sampleNodes) sampleCat
     \<lparr>parentID = 16, cname = [0x62], nameU16 = None\<rparr>
   = Inr (Some \<lparr>recType = recordFile, cfolder = None, cfile = Some \<lparr>fileID = 17, cfiFlags = kHFSThreadExistsMask,
                  dataFork = sampleData, rsrcFork = zeroForkData, permMode = 0x81A4\<rparr>,
                threadName = [], threadParent = 0\<rparr>)"
proof -
  let ?key = "\<lparr>parentID = 16, cname = [0x62], nameU16 = None\<rparr> :: catalogKey"
  have bin: "KeyCompare (theader sampleCat) = keyCompareBinary" by (simp add: sampleCat_def nodeTree_def)
  have "namesAgree sampleEnv sampleCat ?key (recsOf (Some sampleTree))"
    by (simp add: namesAgree_def sample_recs keyHolds_def sample_keys nameEqual_def bin
        compareCatalogKey_ordSign ordSign_def sortUnits_def keyUnits_def)
      (simp add: utf16Encode_def encodeRune_def validRune_def)
  from catalog_lookup_correct [OF sample_holds sample_ascending this]
  have "lookup sampleEnv (nodeVol sampleNodes) sampleCat ?key
      = lookupSpec sampleEnv sampleCat ?key [folderRec, threadRec, fileRec]" by (simp add: sample_recs)
  also have "\<dots> = bindR (decodeRecord fileRec) (\<lambda>cr. Inr (Some cr))"
    by (simp add: lookupSpec_def keyMatches_def sample_keys nameEqual_def bin)
  also have "recordData fileRec = Some (encodeFileRecord 17 0 0x81A4 sampleData)"
    by (simp add: fileRec_def record_of_key fitName_ascii)
  then have "decodeRecord fileRec = Inr (the (parseCatalogRecord (encodeFileRecord 17 0 0x81A4 sampleData)))"
    by (simp add: decodeRecord_def parse_file)
  finally show ?thesis by (simp add: parse_file)
qed

text \<open>
  C17. \<^verbatim>\<open>listChildren\<close> is complete and correct: on a well-formed catalog tree it returns, in
  key order, exactly the file and folder records of the whole tree whose parent is the given
  directory: no entry is lost, repeated or invented, and thread records are left out.
\<close>

theorem list_children_complete:
  assumes "holdsTree keyFromRecord (compareCatalogKey t) v t tr"
    "ascending keyFromRecord (compareCatalogKey t) (recsOf tr)"
  shows "listChildren v t pid = Inr (List.map_filter (childOf pid) (recsOf tr))"
  using assms by (rule children_refines)

theorem list_children_complete_witness:
  "map_sum id (map ckey) (listChildren (nodeVol sampleNodes) sampleCat 16)
   = Inr [\<lparr>parentID = 16, cname = [0x62], nameU16 = Some [0x62]\<rparr>]"
proof -
  have "recordData fileRec = Some (encodeFileRecord 17 0 0x81A4 sampleData)"
    "recordData threadRec = Some (encodeFolderThreadRecord 2 [0x41])"
    by (simp_all add: fileRec_def threadRec_def record_of_key fitName_ascii)
  then show ?thesis
    using list_children_complete [OF sample_holds sample_ascending, of 16]
    by (simp add: sample_recs map_filter_Cons childOf_def sample_keys decodeRecord_def parse_file
        encodeFolderThreadRecord_def parse_thread fitName_ascii
        record_consts)
qed

end
