(* ===== verification/Extents.thy ===== *)
theory Extents
  imports CatalogSearch
begin

text \<open>
  \<^verbatim>\<open>extents.go\<close>: keys of the extents-overflow tree, the search for a fork's continuation
  extents and the assembly of a fork's complete extent list, with the encoders of
  \<^verbatim>\<open>extwrite.go\<close>. The lemmas show that the search is a scan of the tree's records, and that a
  fork written with \<^verbatim>\<open>insertExtentRecords\<close> is resolved to exactly its extents.
\<close>

section \<open>Data\<close>

definition forkTypeData :: byte where "forkTypeData = 0"

record extentsKey =
  exForkType :: byte
  exFileID :: u32
  exStartBlock :: u32

section \<open>Operations\<close>

definition parseExtentsKey :: "bytes \<Rightarrow> extentsKey option" where
  "parseExtentsKey b =
     (if length b < 10 then None
      else Some \<lparr>exForkType = b ! 0, exFileID = be32 b 2, exStartBlock = be32 b 6\<rparr>)"

definition compareExtentsKey :: "extentsKey \<Rightarrow> extentsKey \<Rightarrow> int" where
  "compareExtentsKey a b =
     (if exFileID a \<noteq> exFileID b then if exFileID a < exFileID b then -1 else 1
      else if exForkType a \<noteq> exForkType b then if exForkType a < exForkType b then -1 else 1
      else if exStartBlock a \<noteq> exStartBlock b then if exStartBlock a < exStartBlock b then -1 else 1
      else 0)"

definition extentsKeyOfRecord :: "bytes \<Rightarrow> extentsKey option" where
  "extentsKeyOfRecord rec =
     (case recordKeyLen rec of
        None \<Rightarrow> None
      | Some kl \<Rightarrow> parseExtentsKey (gslice rec 2 (2 + kl)))"

definition findExtentsLeaf :: "'a vol_scheme \<Rightarrow> btree \<Rightarrow> extentsKey \<Rightarrow> u32 result" where
  "findExtentsLeaf v t key = findLeafBy v t (leTest extentsKeyOfRecord compareExtentsKey key)"

text \<open>The descriptors at the front of a record's data, at most \<open>n\<close>, up to the first empty one.\<close>

fun readExts :: "nat \<Rightarrow> bytes \<Rightarrow> extentDescriptor list" where
  "readExts 0 data = []"
| "readExts (Suc n) data =
     (if length data < 8 \<or> BlockCount (parseExtent data 0) = 0 then []
      else parseExtent data 0 # readExts n (drop 8 data))"

definition overflowStep :: "u32 \<Rightarrow> byte \<Rightarrow> u32 \<Rightarrow> bytes \<Rightarrow> extentDescriptor list
    \<Rightarrow> extentDescriptor list result + extentDescriptor list" where
  "overflowStep fid ft startBlock rec out =
     (case extentsKeyOfRecord rec of
        None \<Rightarrow> Inr out
      | Some k \<Rightarrow>
          if exFileID k \<noteq> fid \<or> exForkType k \<noteq> ft
          then if exFileID k > fid then Inl (Inr out) else Inr out
          else if exStartBlock k < startBlock then Inr out
          else case recordData rec of
                 None \<Rightarrow> Inr out
               | Some data \<Rightarrow> Inr (out @ readExts numInlineExtents data))"

definition overflowExtents :: "'a vol_scheme \<Rightarrow> btree \<Rightarrow> u32 \<Rightarrow> byte \<Rightarrow> u32 \<Rightarrow> extentDescriptor list result" where
  "overflowExtents v t fid ft startBlock =
     bindR (findExtentsLeaf v t \<lparr>exForkType = ft, exFileID = fid, exStartBlock = startBlock\<rparr>)
       (\<lambda>leaf. leafWalk v t (scanRecs (overflowStep fid ft startBlock)) Inr leaf 0 [])"

text \<open>The two loops of \<^verbatim>\<open>resolveForkExtents\<close>.\<close>

fun inlineExtents :: "extentDescriptor list \<Rightarrow> u32 \<Rightarrow> extentDescriptor list \<times> u32" where
  "inlineExtents [] covered = ([], covered)"
| "inlineExtents (e # es) covered =
     (if BlockCount e = 0 then ([], covered)
      else case inlineExtents es (covered + BlockCount e) of (xs, c) \<Rightarrow> (e # xs, c))"

fun takeCovering :: "u32 \<Rightarrow> u32 \<Rightarrow> extentDescriptor list \<Rightarrow> extentDescriptor list" where
  "takeCovering tot covered [] = []"
| "takeCovering tot covered (e # es) =
     (if covered + BlockCount e \<ge> tot then [e]
      else e # takeCovering tot (covered + BlockCount e) es)"

definition resolveForkExtents :: "'a vol_scheme \<Rightarrow> btree option \<Rightarrow> u32 \<Rightarrow> byte \<Rightarrow> forkData
    \<Rightarrow> extentDescriptor list result" where
  "resolveForkExtents v extentsTree fid ft fd =
     (case inlineExtents (Extents fd) 0 of
        (exts, covered) \<Rightarrow>
          (case extentsTree of
             None \<Rightarrow> Inr exts
           | Some t \<Rightarrow>
               if covered \<ge> fdTotalBlocks fd then Inr exts
               else bindR (overflowExtents v t fid ft covered)
                      (\<lambda>more. Inr (exts @ takeCovering (fdTotalBlocks fd) covered more))))"

definition newSpecialForkResolved :: "'a vol_scheme \<Rightarrow> btree option \<Rightarrow> u32 \<Rightarrow> forkData \<Rightarrow> fork result" where
  "newSpecialForkResolved v extentsTree fid fd =
     bindR (resolveForkExtents v extentsTree fid forkTypeData fd)
       (\<lambda>exts. Inr \<lparr>fsize = sint (LogicalSize fd), fextents = exts\<rparr>)"

definition extentsForkNeedsOverflow :: "forkData \<Rightarrow> bool" where
  "extentsForkNeedsOverflow fd \<longleftrightarrow> sum_list (map BlockCount (Extents fd)) < fdTotalBlocks fd"

section \<open>Encoders\<close>

definition encodeExtentsKey :: "byte \<Rightarrow> u32 \<Rightarrow> u32 \<Rightarrow> bytes" where
  "encodeExtentsKey ft fid startBlock = enc16 10 @ [ft, 0] @ enc32 fid @ enc32 startBlock"

definition encodeExtentRecord :: "extentDescriptor list \<Rightarrow> bytes" where
  "encodeExtentRecord exts =
     concat (map encodeExtent (take numInlineExtents exts))
       @ replicate (8 * (numInlineExtents - length exts)) 0"

definition assembleRecord :: "bytes \<Rightarrow> bytes \<Rightarrow> bytes" where
  "assembleRecord key data = padEven key @ data"

text \<open>The records of \<^verbatim>\<open>insertExtentRecords\<close>' loop, in the order in which it inserts them.\<close>

function extentRecords :: "byte \<Rightarrow> u32 \<Rightarrow> u32 \<Rightarrow> extentDescriptor list \<Rightarrow> bytes list" where
  "extentRecords ft fid block exts =
     (if exts = [] then []
      else let group = take numInlineExtents exts
           in assembleRecord (encodeExtentsKey ft fid block) (encodeExtentRecord group)
              # extentRecords ft fid (block + sum_list (map BlockCount group)) (drop numInlineExtents exts))"
  by pat_completeness auto
termination
  by (relation "measure (\<lambda>(_, _, _, exts). length exts)") (auto simp: numInlineExtents_def)

declare extentRecords.simps [simp del]

section \<open>The key order\<close>

lemma compareExtentsKey_ordSign:
  "compareExtentsKey a b
   = ordSign (exFileID a, exForkType a, exStartBlock a) (exFileID b, exForkType b, exStartBlock b)"
  by (auto simp: compareExtentsKey_def ordSign_def less_prod_def)

interpretation extOrder: key_order compareExtentsKey
  unfolding compareExtentsKey_ordSign by (rule ordSign_key_order)

interpretation extTree: search_tree compareExtentsKey extentsKeyOfRecord ..

section \<open>Searching is scanning\<close>

text \<open>The extents that a record contributes to a fork from a given block on.\<close>

definition extentsFor :: "u32 \<Rightarrow> byte \<Rightarrow> u32 \<Rightarrow> bytes \<Rightarrow> extentDescriptor list" where
  "extentsFor fid ft startBlock rec =
     (case extentsKeyOfRecord rec of
        None \<Rightarrow> []
      | Some k \<Rightarrow>
          if exFileID k = fid \<and> exForkType k = ft \<and> startBlock \<le> exStartBlock k
          then case recordData rec of None \<Rightarrow> [] | Some data \<Rightarrow> readExts numInlineExtents data
          else [])"

lemma overflowStep_extentsFor:
  "extentsKeyOfRecord rec = Some k \<Longrightarrow> \<not> fid < exFileID k \<Longrightarrow>
   overflowStep fid ft startBlock rec out = Inr (out @ extentsFor fid ft startBlock rec)"
  by (auto simp: overflowStep_def extentsFor_def split: option.splits)

lemma overflow_scan:
  "ascending extentsKeyOfRecord compareExtentsKey recs \<Longrightarrow>
   endScan Inr (scanRecs (overflowStep fid ft startBlock) recs out)
   = Inr (out @ concat (map (extentsFor fid ft startBlock) recs))"
proof (induction recs arbitrary: out)
  case Nil
  then show ?case by (simp add: endScan_def)
next
  case (Cons rec recs)
  note asc = Cons.prems [unfolded ascending_Cons]
  show ?case
  proof (cases "extentsKeyOfRecord rec")
    case None
    then show ?thesis using Cons.IH asc by (simp add: overflowStep_def extentsFor_def)
  next
    case (Some k)
    show ?thesis
    proof (cases "fid < exFileID k")
      case True
      have "extentsFor fid ft startBlock r = []" if "r \<in> set recs" for r
      proof (cases "extentsKeyOfRecord r")
        case (Some k')
        then have "compareExtentsKey k k' < 0"
          using asc that \<open>extentsKeyOfRecord rec = Some k\<close> by (auto simp: keyHolds_def)
        then have "exFileID k \<le> exFileID k'"
          by (auto simp: compareExtentsKey_ordSign ordSign_def less_prod_def split: if_splits)
        then show ?thesis using Some True by (auto simp: extentsFor_def)
      qed (simp add: extentsFor_def)
      then show ?thesis
        using Some True by (auto simp: overflowStep_def extentsFor_def endScan_def)
    next
      case False
      then show ?thesis using Cons.IH asc overflowStep_extentsFor [OF Some False] by simp
    qed
  qed
qed

lemma overflow_refines:
  assumes "holdsTree extentsKeyOfRecord compareExtentsKey v t tr"
    "ascending extentsKeyOfRecord compareExtentsKey (recsOf tr)"
  shows "overflowExtents v t fid ft startBlock = Inr (concat (map (extentsFor fid ft startBlock) (recsOf tr)))"
proof -
  let ?key = "\<lparr>exForkType = ft, exFileID = fid, exStartBlock = startBlock\<rparr>"
  have "overflowStep fid ft startBlock rec [] = Inr []"
    if "rec \<in> set (recsOf tr)" "keyHolds extentsKeyOfRecord (\<lambda>k. compareExtentsKey k ?key < 0) rec" for rec
  proof (cases "extentsKeyOfRecord rec")
    case (Some k)
    then show ?thesis
      using that(2) by (auto simp: keyHolds_def overflowStep_def compareExtentsKey_ordSign ordSign_def
          less_prod_def split: if_splits)
  qed (simp add: overflowStep_def)
  with assms(1) have "bindR (findLeafBy v t (leTest extentsKeyOfRecord compareExtentsKey ?key))
      (\<lambda>n. leafWalk v t (scanRecs (overflowStep fid ft startBlock)) Inr n 0 [])
    = endScan Inr (scanRecs (overflowStep fid ft startBlock) (recsOf tr) [])"
    by (rule extTree.search_scan)
  then show ?thesis using overflow_scan [OF assms(2)] by (simp add: overflowExtents_def findExtentsLeaf_def)
qed

section \<open>Encoded records\<close>

lemma extents_record_key:
  "extentsKeyOfRecord (assembleRecord (encodeExtentsKey ft fid b) data)
     = Some \<lparr>exForkType = ft, exFileID = fid, exStartBlock = b\<rparr>"
  "recordData (assembleRecord (encodeExtentsKey ft fid b) data) = Some data"
proof -
  let ?r = "encodeExtentsKey ft fid b @ data"
  have asm: "assembleRecord (encodeExtentsKey ft fid b) data = ?r"
    by (simp add: assembleRecord_def padEven_def encodeExtentsKey_def)
  have "be16 ?r 0 = 10" by (simp add: encodeExtentsKey_def be16_append_left be16_enc16)
  then have kl: "recordKeyLen ?r = Some 10" by (simp add: recordKeyLen_def) (simp add: encodeExtentsKey_def)
  have "gslice ?r 2 12 = [ft, 0] @ enc32 fid @ enc32 b"
    by (simp add: gslice_def encodeExtentsKey_def)
  moreover have "be32 ([ft, 0] @ enc32 fid @ enc32 b) 2 = fid"
    using be32_at [of "[ft, 0]" fid "enc32 b"] by (simp add: numeral_2_eq_2)
  moreover have "be32 ([ft, 0] @ enc32 fid @ enc32 b) 6 = b"
    using be32_at [of "[ft, 0] @ enc32 fid" b "[]"] by simp
  ultimately show "extentsKeyOfRecord (assembleRecord (encodeExtentsKey ft fid b) data)
     = Some \<lparr>exForkType = ft, exFileID = fid, exStartBlock = b\<rparr>"
    using kl asm by (simp add: extentsKeyOfRecord_def parseExtentsKey_def)
  show "recordData (assembleRecord (encodeExtentsKey ft fid b) data) = Some data"
    using kl asm by (simp add: recordData_def encodeExtentsKey_def)
qed

lemma readExts_encode:
  assumes "\<forall>e \<in> set es. BlockCount e \<noteq> 0" "length es \<le> n"
  shows "readExts n (concat (map encodeExtent es) @ replicate (8 * (n - length es)) 0) = es"
  using assms
proof (induction es arbitrary: n)
  case Nil
  then show ?case by (cases n) (auto simp: parseExtent_def)
next
  case (Cons e es)
  then obtain m where n: "n = Suc m" by (cases n) auto
  have "parseExtent (encodeExtent e @ xs) 0 = e" for xs
    using parseExtent_encodeExtent [of e] by (simp add: parseExtent_def be32_append_left)
  then show ?case using Cons n by simp
qed

lemma readExts_record:
  "\<forall>e \<in> set es. BlockCount e \<noteq> 0 \<Longrightarrow> length es \<le> numInlineExtents \<Longrightarrow>
   readExts numInlineExtents (encodeExtentRecord es) = es"
  using readExts_encode [of es numInlineExtents] by (simp add: encodeExtentRecord_def)

section \<open>Resolving a fork\<close>

abbreviation countSum :: "extentDescriptor list \<Rightarrow> nat" where
  "countSum es \<equiv> sum_list (map (\<lambda>e. unat (BlockCount e)) es)"

lemma unat_add_small: "unat (a::u32) + unat b < 2 ^ 32 \<Longrightarrow> unat (a + b) = unat a + unat b"
  by (simp add: unat_word_ariths)

lemma unat_sum_list: "countSum es < 2 ^ 32 \<Longrightarrow> unat (sum_list (map BlockCount es)) = countSum es"
  by (induction es) (auto simp: unat_word_ariths)

lemma countSum_pos: "\<forall>e \<in> set es. BlockCount e \<noteq> 0 \<Longrightarrow> es \<noteq> [] \<Longrightarrow> 0 < countSum es"
  by (cases es) (auto simp: unat_gt_0)

lemma extentRecords_extents:
  assumes "\<forall>e \<in> set es. BlockCount e \<noteq> 0" "unat block + countSum es < 2 ^ 32" "unat lo \<le> unat block"
  shows "concat (map (extentsFor fid ft lo) (extentRecords ft fid block es)) = es"
  using assms
proof (induction "length es" arbitrary: es block rule: less_induct)
  case less
  show ?case
  proof (cases "es = []")
    case True
    then show ?thesis by (simp add: extentRecords.simps)
  next
    case False
    let ?g = "take numInlineExtents es" and ?r = "drop numInlineExtents es"
    have sum: "countSum es = countSum ?g + countSum ?r"
      by (metis append_take_drop_id map_append sum_list_append)
    have "unat (sum_list (map BlockCount ?g)) = countSum ?g"
      using less.prems(2) sum by (intro unat_sum_list) simp
    then have b': "unat (block + sum_list (map BlockCount ?g)) = unat block + countSum ?g"
      using less.prems(2) sum by (subst unat_add_small) auto
    have shorter: "length ?r < length es" using False by (simp add: numInlineExtents_def)
    have "concat (map (extentsFor fid ft lo) (extentRecords ft fid (block + sum_list (map BlockCount ?g)) ?r)) = ?r"
      by (rule less.hyps [OF shorter])
        (use less.prems b' sum in \<open>auto dest: in_set_dropD\<close>)
    moreover have "readExts numInlineExtents (encodeExtentRecord ?g) = ?g"
      using less.prems(1) by (intro readExts_record) (auto dest: in_set_takeD)
    then have "extentsFor fid ft lo (assembleRecord (encodeExtentsKey ft fid block) (encodeExtentRecord ?g)) = ?g"
      using less.prems(3) by (simp add: extentsFor_def extents_record_key word_le_nat_alt)
    ultimately show ?thesis
      using False by (simp add: extentRecords.simps [of ft fid block es] Let_def)
  qed
qed

lemma inlineExtents_prefix:
  assumes "\<forall>e \<in> set es. BlockCount e \<noteq> 0" "zs = [] \<or> BlockCount (hd zs) = 0"
  shows "inlineExtents (es @ zs) c = (es, c + sum_list (map BlockCount es))"
  using assms
proof (induction es arbitrary: c)
  case Nil
  then show ?case by (cases zs) auto
qed (auto simp: add.assoc)

lemma takeCovering_all:
  assumes "\<forall>e \<in> set es. BlockCount e \<noteq> 0" "unat c + countSum es = unat tot"
  shows "takeCovering tot c es = es"
  using assms
proof (induction es arbitrary: c)
  case (Cons e es)
  have lt: "unat c + unat (BlockCount e) + countSum es < 2 ^ 32"
    using Cons.prems(2) unsigned_less [of tot, where 'a = nat] by simp
  then have u: "unat (c + BlockCount e) = unat c + unat (BlockCount e)" by (intro unat_add_small) simp
  have "c + BlockCount e \<ge> tot \<Longrightarrow> es = []"
    using Cons.prems u countSum_pos [of es] by (fastforce simp: word_le_nat_alt)
  moreover have "takeCovering tot (c + BlockCount e) es = es"
    using Cons.prems u by (intro Cons.IH) auto
  ultimately show ?case by auto
qed simp

text \<open>A fork descriptor with the first eight extents inline, as the write path builds it.\<close>

definition inlineOf :: "extentDescriptor list \<Rightarrow> extentDescriptor list" where
  "inlineOf es = take numInlineExtents es
     @ replicate (numInlineExtents - length es) \<lparr>StartBlock = 0, BlockCount = 0\<rparr>"

lemma length_inlineOf [simp]: "length (inlineOf es) = numInlineExtents"
  by (simp add: inlineOf_def)

lemma resolve_written:
  assumes tree: "holdsTree extentsKeyOfRecord compareExtentsKey v t tr"
      "ascending extentsKeyOfRecord compareExtentsKey (recsOf tr)"
    and es: "\<forall>e \<in> set es. BlockCount e \<noteq> 0" "countSum es < 2 ^ 32"
    and fd: "Extents fd = inlineOf es" "fdTotalBlocks fd = sum_list (map BlockCount es)"
    and recs: "filter (\<lambda>r. extentsFor fid ft 0 r \<noteq> []) (recsOf tr)
      = extentRecords ft fid (sum_list (map BlockCount (take numInlineExtents es))) (drop numInlineExtents es)"
  shows "resolveForkExtents v (Some t) fid ft fd = Inr es"
proof -
  let ?g = "take numInlineExtents es" and ?r = "drop numInlineExtents es"
  let ?c = "sum_list (map BlockCount ?g)"
  have sum: "countSum es = countSum ?g + countSum ?r"
    by (metis append_take_drop_id map_append sum_list_append)
  have u: "unat ?c = countSum ?g" "unat (fdTotalBlocks fd) = countSum es"
    unfolding fd(2) by (rule unat_sum_list, use es(2) sum in simp)+
  have inl: "inlineExtents (Extents fd) 0 = (?g, ?c)"
    unfolding fd(1) inlineOf_def
    using es(1) inlineExtents_prefix [of ?g "replicate (numInlineExtents - length es) \<lparr>StartBlock = 0, BlockCount = 0\<rparr>" 0]
    by (cases "numInlineExtents - length es") (auto dest: in_set_takeD)
  have flt: "concat (map (extentsFor fid ft lo) xs) = concat (map (extentsFor fid ft lo)
      (filter (\<lambda>r. extentsFor fid ft 0 r \<noteq> []) xs))" for lo xs
    by (induction xs) (auto simp: extentsFor_def split: option.splits if_splits)
  have "concat (map (extentsFor fid ft ?c) (recsOf tr)) = ?r"
    by (subst flt [of ?c "recsOf tr"], subst recs, rule extentRecords_extents) (use es sum u(1) in \<open>auto dest: in_set_dropD\<close>)
  then have more: "overflowExtents v t fid ft ?c = Inr ?r"
    using overflow_refines [OF tree] by simp
  show ?thesis
  proof (cases "?r = []")
    case True
    then have "fdTotalBlocks fd \<le> ?c" unfolding word_le_nat_alt u using sum by simp
    moreover have "?g = es" using True append_take_drop_id [of numInlineExtents es] by simp
    ultimately show ?thesis using inl by (simp add: resolveForkExtents_def)
  next
    case False
    have "takeCovering (fdTotalBlocks fd) ?c ?r = ?r"
      using es(1) u sum by (intro takeCovering_all) (auto dest: in_set_dropD)
    moreover have "0 < countSum ?r"
      using False es(1) by (intro countSum_pos) (auto dest: in_set_dropD)
    then have "\<not> fdTotalBlocks fd \<le> ?c" unfolding word_le_nat_alt u using sum by linarith
    ultimately show ?thesis using inl more by (simp add: resolveForkExtents_def)
  qed
qed

section \<open>Properties\<close>

text \<open>
  A fork of ten extents: eight inline, two in one record of an extents tree whose single
  leaf also holds records of other files.
\<close>

definition tenExtents :: "extentDescriptor list" where
  "tenExtents = map (\<lambda>i. \<lparr>StartBlock = of_nat (100 + 2 * i), BlockCount = 1\<rparr>) [0..<10]"

definition overflowRecs :: "bytes list" where
  "overflowRecs =
     [assembleRecord (encodeExtentsKey 0 16 8) (encodeExtentRecord [\<lparr>StartBlock = 50, BlockCount = 3\<rparr>]),
      assembleRecord (encodeExtentsKey 0 17 8) (encodeExtentRecord (drop 8 tenExtents)),
      assembleRecord (encodeExtentsKey 0 18 8) (encodeExtentRecord [\<lparr>StartBlock = 60, BlockCount = 3\<rparr>])]"

definition overflowNodes :: "bytes list" where
  "overflowNodes = [replicate 512 0, snd (packNode 512 (sampleDesc kindLeafNode 0) overflowRecs)]"

definition overflowTree :: btree where
  "overflowTree = nodeTree 1 1 0 overflowNodes"

lemma ten: "length tenExtents = 10" "take 8 tenExtents = map (\<lambda>i. \<lparr>StartBlock = of_nat (100 + 2 * i), BlockCount = 1\<rparr>) [0..<8]"
  "drop 8 tenExtents = [\<lparr>StartBlock = 116, BlockCount = 1\<rparr>, \<lparr>StartBlock = 118, BlockCount = 1\<rparr>]"
  by (simp_all add: tenExtents_def take_map drop_map)

lemma overflow_keys:
  "map extentsKeyOfRecord overflowRecs
     = map (\<lambda>f. Some \<lparr>exForkType = 0, exFileID = f, exStartBlock = 8\<rparr>) [16, 17, 18]"
  by (simp add: overflowRecs_def extents_record_key)

lemma overflow_sizes: "\<forall>b \<in> set overflowNodes. length b = 512" "length overflowNodes = 2" "recordsFit 512 overflowRecs"
proof -
  show fit: "recordsFit 512 overflowRecs"
    by (simp add: recordsFit_alt overflowRecs_def assembleRecord_def padEven_def encodeExtentsKey_def
        encodeExtentRecord_def ten numInlineExtents_def nodeDescriptorLen_def)
  show "\<forall>b \<in> set overflowNodes. length b = 512" "length overflowNodes = 2"
    by (simp_all add: overflowNodes_def length_packNode fit)
qed

lemma overflow_node:
  "readNode (nodeVol overflowNodes) overflowTree 1
   = Inr \<lparr>desc = sampleDesc kindLeafNode 0\<lparr>NumRecords := 3\<rparr>, records = overflowRecs\<rparr>"
  unfolding overflowTree_def
  by (simp add: readNode_nodeVol overflow_sizes) (simp add: overflowNodes_def node_roundtrip overflow_sizes, simp add: overflowRecs_def)

lemma overflow_holds:
  "holdsTree extentsKeyOfRecord compareExtentsKey (nodeVol overflowNodes) overflowTree (Some (TLeaf 1 overflowRecs))"
proof -
  have "maxNodes (nodeVol overflowNodes) overflowTree = 2"
    unfolding overflowTree_def using maxNodes_nodeVol [OF overflow_sizes(1)] overflow_sizes(2)
    by (cases "overflowNodes = []") simp_all
  then show ?thesis
    by (simp add: holdsTree_def overflow_node sampleDesc_def) (simp add: overflowTree_def nodeTree_def)
qed

lemma overflow_ascending: "ascending extentsKeyOfRecord compareExtentsKey overflowRecs"
  by (simp add: overflowRecs_def ascending_def map_filter_Cons extents_record_key compareExtentsKey_ordSign
      ordSign_def less_prod_def)

text \<open>
  C30. \<^verbatim>\<open>overflowExtents\<close> is complete and correct: on a well-formed extents tree it returns the
  descriptors of all records of the given file and fork from the given block on, in key
  order, and nothing of any other fork.
\<close>

theorem overflow_extents_correct:
  assumes "holdsTree extentsKeyOfRecord compareExtentsKey v t tr"
    "ascending extentsKeyOfRecord compareExtentsKey (recsOf tr)"
  shows "overflowExtents v t fid ft startBlock = Inr (concat (map (extentsFor fid ft startBlock) (recsOf tr)))"
  using assms by (rule overflow_refines)

theorem overflow_extents_correct_witness:
  "overflowExtents (nodeVol overflowNodes) overflowTree 16 0 8 = Inr [\<lparr>StartBlock = 50, BlockCount = 3\<rparr>]"
proof -
  have "readExts 8 (encodeExtentRecord [\<lparr>StartBlock = 50, BlockCount = 3\<rparr>]) = [\<lparr>StartBlock = 50, BlockCount = 3\<rparr>]"
    using readExts_record [of "[\<lparr>StartBlock = 50, BlockCount = 3\<rparr>]"] by (simp add: numInlineExtents_def)
  then show ?thesis
    using overflow_extents_correct [OF overflow_holds, of 16 0 8] overflow_ascending
    by (simp add: recsOf_def overflowRecs_def extentsFor_def extents_record_key numInlineExtents_def)
qed

text \<open>
  C18. A fragmented fork survives the disk: when the first eight extents of a fork are in its
  descriptor and the records that \<^verbatim>\<open>insertExtentRecords\<close> builds for the others are the fork's
  records in a well-formed extents tree, \<^verbatim>\<open>resolveForkExtents\<close> returns exactly the fork's
  extents, in order, however many there are.
\<close>

theorem fragmented_fork_roundtrip:
  assumes "holdsTree extentsKeyOfRecord compareExtentsKey v t tr"
      "ascending extentsKeyOfRecord compareExtentsKey (recsOf tr)"
    and "\<forall>e \<in> set es. BlockCount e \<noteq> 0" "sum_list (map (\<lambda>e. unat (BlockCount e)) es) < 2 ^ 32"
    and "Extents fd = inlineOf es" "fdTotalBlocks fd = sum_list (map BlockCount es)"
    and "filter (\<lambda>r. extentsFor fid ft 0 r \<noteq> []) (recsOf tr)
      = extentRecords ft fid (sum_list (map BlockCount (take numInlineExtents es))) (drop numInlineExtents es)"
  shows "resolveForkExtents v (Some t) fid ft fd = Inr es"
  using assms by (rule resolve_written)

theorem fragmented_fork_roundtrip_witness:
  "resolveForkExtents (nodeVol overflowNodes) (Some overflowTree) 17 0
     \<lparr>LogicalSize = 5000, ClumpSize = 0, fdTotalBlocks = 10, Extents = take 8 tenExtents\<rparr> = Inr tenExtents"
proof (rule fragmented_fork_roundtrip [OF overflow_holds])
  have rd: "readExts numInlineExtents (encodeExtentRecord (drop 8 tenExtents)) = drop 8 tenExtents"
    by (rule readExts_record) (simp_all add: ten numInlineExtents_def)
  have sum8: "sum_list (map BlockCount (take 8 tenExtents)) = 8" by (simp add: ten upt_8)
  show "filter (\<lambda>r. extentsFor 17 0 0 r \<noteq> []) (recsOf (Some (TLeaf 1 overflowRecs)))
      = extentRecords 0 17 (sum_list (map BlockCount (take numInlineExtents tenExtents)))
          (drop numInlineExtents tenExtents)"
    using rd sum8
    by (simp add: recsOf_def overflowRecs_def extentsFor_def extents_record_key numInlineExtents_def
        extentRecords.simps ten)
qed (simp_all add: recsOf_def overflow_ascending inlineOf_def ten numInlineExtents_def,
     simp_all add: tenExtents_def upt_conv_Cons)

end
