(* ===== verification/Volume.thy ===== *)
theory Volume
  imports Extents
begin

text \<open>
  \<^verbatim>\<open>hfsplus.go\<close>, \<^verbatim>\<open>openfile.go\<close> and \<^verbatim>\<open>openreader.go\<close>: opening a volume from the bytes of an
  image and the reading half of its interface. The record \<open>Volume\<close> extends \<open>vol\<close> by the two
  trees. \<^verbatim>\<open>rs\<close> is the image's bytes; a \<^verbatim>\<open>*os.File\<close> answers \<^verbatim>\<open>ReadAt\<close> as \<^verbatim>\<open>bytesReaderAt\<close> does.
  The constructors \<^verbatim>\<open>NewDirEntry\<close> and \<^verbatim>\<open>NewStat\<close> of the interface package are the records of
  their arguments. Opening the file, \<^verbatim>\<open>Sync\<close> and \<^verbatim>\<open>Close\<close> are operating-system calls and not
  modelled.
\<close>

section \<open>Data\<close>

record Volume = vol +
  catalogTree :: btree
  extentsTree :: "btree option"

definition sIFREG :: u16 where "sIFREG = 0x8000"
definition sIFLNK :: u16 where "sIFLNK = 0xA000"
definition modeDirDefault :: u16 where "modeDirDefault = sIFDIR OR 0x1ED"
definition modeFileDefault :: u16 where "modeFileDefault = sIFREG OR 0x1A4"
definition ftRegular :: byte where "ftRegular = 1"
definition ftDir :: byte where "ftDir = 2"
definition ftSymlink :: byte where "ftSymlink = 7"

definition kHFSExtentsFileID :: u32 where "kHFSExtentsFileID = 3"
definition kHFSCatalogFileID :: u32 where "kHFSCatalogFileID = 4"

record DirEntry =
  deInode :: u64
  deName :: gostring
  deType :: byte

record FileStat =
  stMode :: u16
  stSize :: u64
  stInode :: u64

record resolved =
  rrec :: catalogRecord
  rcnid :: u32

section \<open>Opening\<close>

text \<open>
  \<^verbatim>\<open>openTrees\<close>: the extents tree from its inline extents, then, where these do not cover the
  file, through itself. An error on this part is dropped by the code.
\<close>

definition openExtentsTree :: "'a vol_scheme \<Rightarrow> btree option" where
  "openExtentsTree v =
     (let ef = newSpecialFork (ExtentsFile (vh v));
          first = (if fsize ef > 0 then case openBTree v ef of Inr bt \<Rightarrow> Some bt | Inl _ \<Rightarrow> None else None)
      in case first of
           None \<Rightarrow> None
         | Some t \<Rightarrow>
             if extentsForkNeedsOverflow (ExtentsFile (vh v)) then
               case newSpecialForkResolved v (Some t) kHFSExtentsFileID (ExtentsFile (vh v)) of
                 Inl _ \<Rightarrow> Some t
               | Inr ef' \<Rightarrow> (case openBTree v ef' of Inl _ \<Rightarrow> Some t | Inr bt \<Rightarrow> Some bt)
             else Some t)"

definition openTrees :: "(Volume, unit) op" where
  "openTrees v =
     (let v1 = v\<lparr>extentsTree := openExtentsTree v\<rparr>
      in case newSpecialForkResolved v1 (extentsTree v1) kHFSCatalogFileID (CatalogFile (vh v1)) of
           Inl e \<Rightarrow> (Inl e, v1)
         | Inr cf \<Rightarrow>
             if fsize cf = 0 then (Inl ErrCorrupt, v1)
             else case openBTree v1 cf of
                    Inl e \<Rightarrow> (Inl e, v1)
                  | Inr bt \<Rightarrow> (Inr (), v1\<lparr>catalogTree := bt\<rparr>))"

text \<open>A placeholder for the \<^verbatim>\<open>nil\<close> tree of a volume that is being opened.\<close>

definition nilTree :: btree where
  "nilTree = \<lparr>tf = \<lparr>fsize = 0, fextents = []\<rparr>, theader = \<lparr>RootNode = 0, FirstLeaf = 0, LastLeaf = 0,
     NodeSize = 0, KeyCompare = 0, btAttributes = 0\<rparr>\<rparr>"

definition Open :: "bytes \<Rightarrow> int \<Rightarrow> Volume result" where
  "Open rs sz =
     bindR (readVolumeHeader rs)
       (\<lambda>h. case openTrees \<lparr>disk = rs, vsize = sz, wr = False, vh = h, catalogTree = nilTree,
                extentsTree = None\<rparr> of
              (Inl e, _) \<Rightarrow> Inl e
            | (Inr _, v) \<Rightarrow> Inr v)"

definition OpenReader :: "bytes \<Rightarrow> int \<Rightarrow> Volume result" where
  "OpenReader r sz = (case Open r sz of Inl e \<Rightarrow> Inl e | Inr fs \<Rightarrow> Inr fs)"

definition OpenWritable :: "bytes \<Rightarrow> Volume result" where
  "OpenWritable img = bindR (Open img (int (length img))) (\<lambda>v. Inr (v\<lparr>wr := True\<rparr>))"

definition reopen :: "(Volume, unit) op" where
  "reopen v =
     (case readVolumeHeader (disk v) of
        Inl e \<Rightarrow> (Inl e, v)
      | Inr h \<Rightarrow> openTrees (v\<lparr>vh := h\<rparr>))"

definition CaseSensitive :: "Volume \<Rightarrow> bool" where
  "CaseSensitive v \<longleftrightarrow> KeyCompare (theader (catalogTree v)) = keyCompareBinary"

section \<open>Paths\<close>

fun splitOn :: "rune \<Rightarrow> gostring \<Rightarrow> gostring list" where
  "splitOn c [] = [[]]"
| "splitOn c (x # xs) =
     (if x = c then [] # splitOn c xs
      else case splitOn c xs of [] \<Rightarrow> [[x]] | p # ps \<Rightarrow> (x # p) # ps)"

definition splitPath :: "gostring \<Rightarrow> gostring list" where
  "splitPath p = filter (\<lambda>s. s \<noteq> [] \<and> s \<noteq> [0x2E]) (splitOn 0x2F p)"

definition rootRecord :: catalogRecord where
  "rootRecord = \<lparr>recType = recordFolder,
     cfolder = Some \<lparr>folderID = cnidRootFolder, valence = 0, cfoFlags = 0\<rparr>, cfile = None,
     threadName = [], threadParent = 0\<rparr>"

text \<open>The loop of \<^verbatim>\<open>lookupPath\<close>, with the catalog search as a parameter.\<close>

fun walkPath :: "(u32 \<Rightarrow> gostring \<Rightarrow> catalogRecord option result) \<Rightarrow> gostring list \<Rightarrow> u32 \<Rightarrow> catalogRecord
    \<Rightarrow> resolved result" where
  "walkPath look [] parent lastRec = Inr \<lparr>rrec = lastRec, rcnid = parent\<rparr>"
| "walkPath look (name # rest) parent lastRec =
     (case look parent name of
        Inl e \<Rightarrow> Inl e
      | Inr None \<Rightarrow> Inl ErrNotFound
      | Inr (Some cr) \<Rightarrow>
          (case cfolder cr of
             Some fo \<Rightarrow> walkPath look rest (folderID fo) cr
           | None \<Rightarrow>
               (case cfile cr of
                  Some fi \<Rightarrow> if rest \<noteq> [] then Inl ErrNotDirectory else walkPath look rest (fileID fi) cr
                | None \<Rightarrow> Inl ErrCorrupt)))"

definition lookupPath :: "env \<Rightarrow> Volume \<Rightarrow> gostring \<Rightarrow> resolved result" where
  "lookupPath env v path =
     walkPath (\<lambda>parent name. lookup env v (catalogTree v) \<lparr>parentID = parent, cname = name, nameU16 = None\<rparr>)
       (splitPath path) cnidRootFolder rootRecord"

section \<open>The reading interface\<close>

definition isSymlinkMode :: "u16 \<Rightarrow> bool" where
  "isSymlinkMode mode \<longleftrightarrow> mode AND 0xF000 = sIFLNK"

definition isCompressed :: "u16 \<Rightarrow> bool" where
  "isCompressed flags \<longleftrightarrow> flags AND 0x20 \<noteq> 0"

definition dirEntryOf :: "childEntry \<Rightarrow> DirEntry option" where
  "dirEntryOf c =
     (case cfolder (crec c) of
        Some fo \<Rightarrow> Some \<lparr>deInode = ucast (folderID fo), deName = cname (ckey c), deType = ftDir\<rparr>
      | None \<Rightarrow>
          (case cfile (crec c) of
             Some fi \<Rightarrow> Some \<lparr>deInode = ucast (fileID fi), deName = cname (ckey c),
                             deType = (if isSymlinkMode (permMode fi) then ftSymlink else ftRegular)\<rparr>
           | None \<Rightarrow> None))"

definition ListDir :: "env \<Rightarrow> Volume \<Rightarrow> gostring \<Rightarrow> DirEntry list result" where
  "ListDir env v path =
     bindR (lookupPath env v path)
       (\<lambda>r. case cfolder (rrec r) of
              None \<Rightarrow> Inl ErrNotDirectory
            | Some fo \<Rightarrow>
                bindR (listChildren v (catalogTree v) (folderID fo))
                  (\<lambda>children. Inr (List.map_filter dirEntryOf children)))"

definition Stat :: "env \<Rightarrow> Volume \<Rightarrow> gostring \<Rightarrow> FileStat result" where
  "Stat env v path =
     bindR (lookupPath env v path)
       (\<lambda>r. case cfolder (rrec r) of
              Some fo \<Rightarrow> Inr \<lparr>stMode = modeDirDefault, stSize = 0, stInode = ucast (folderID fo)\<rparr>
            | None \<Rightarrow>
                (case cfile (rrec r) of
                   Some fi \<Rightarrow> Inr \<lparr>stMode = (if permMode fi = 0 then modeFileDefault else permMode fi),
                                  stSize = LogicalSize (dataFork fi), stInode = ucast (fileID fi)\<rparr>
                 | None \<Rightarrow> Inl ErrCorrupt))"

definition dataForkFor :: "Volume \<Rightarrow> catalogFile \<Rightarrow> fork result" where
  "dataForkFor v cf =
     bindR (resolveForkExtents v (extentsTree v) (fileID cf) forkTypeData (dataFork cf))
       (\<lambda>exts. Inr \<lparr>fsize = sint (LogicalSize (dataFork cf)), fextents = exts\<rparr>)"

definition ReadFile :: "env \<Rightarrow> Volume \<Rightarrow> gostring \<Rightarrow> bytes result" where
  "ReadFile env v path =
     bindR (lookupPath env v path)
       (\<lambda>r. case cfile (rrec r) of
              None \<Rightarrow> Inl ErrNotRegular
            | Some fi \<Rightarrow>
                if isCompressed (cfiFlags fi) then Inl ErrUnsupported
                else bindR (dataForkFor v fi) (readAll v))"

definition ReadLink :: "env \<Rightarrow> Volume \<Rightarrow> gostring \<Rightarrow> bytes result" where
  "ReadLink env v path =
     bindR (lookupPath env v path)
       (\<lambda>r. case cfile (rrec r) of
              None \<Rightarrow> Inl ErrNotSymlink
            | Some fi \<Rightarrow>
                if \<not> isSymlinkMode (permMode fi) then Inl ErrNotSymlink
                else bindR (dataForkFor v fi) (readAll v))"

text \<open>\<^verbatim>\<open>Volume.OpenFile\<close> of \<^verbatim>\<open>openfile.go\<close>; \<open>ErrTooLarge\<close> is its unnamed error.\<close>

definition OpenFork :: "env \<Rightarrow> Volume \<Rightarrow> gostring \<Rightarrow> fork result" where
  "OpenFork env v path =
     bindR (lookupPath env v path)
       (\<lambda>r. case cfile (rrec r) of
              None \<Rightarrow> Inl ErrNotRegular
            | Some fi \<Rightarrow>
                if isCompressed (cfiFlags fi) then Inl ErrUnsupported
                else bindR (dataForkFor v fi) (\<lambda>f. if fsize f < 0 then Inl ErrTooLarge else Inr f))"

definition forkFileReadAt :: "Volume \<Rightarrow> fork \<Rightarrow> nat \<Rightarrow> int \<Rightarrow> bytes \<times> err option" where
  "forkFileReadAt v f n off =
     (case readAt v f n off of
        (xs, None) \<Rightarrow> if length xs < n then (xs, Some EOF) else (xs, None)
      | r \<Rightarrow> r)"

section \<open>No panic on any image\<close>

definition saneTree :: "btree \<Rightarrow> bool" where
  "saneTree t \<longleftrightarrow> fsize (tf t) < 2 ^ 63"

definition saneVolume :: "Volume \<Rightarrow> bool" where
  "saneVolume v \<longleftrightarrow> goodBlockSize (BlockSize (vh v)) \<and> saneTree (catalogTree v)
     \<and> (case extentsTree v of None \<Rightarrow> True | Some t \<Rightarrow> saneTree t)"

lemma sint64_less: "sint (x :: u64) < 2 ^ 63"
  using sint_lt [of x] by simp

text \<open>\<open>calm r\<close>: the result is not a panic.\<close>

definition calm :: "'a result \<Rightarrow> bool" where
  "calm r \<longleftrightarrow> r \<noteq> Inl Panic"

lemma calm_simps [simp]: "calm (Inr x)" "calm (Inl e) \<longleftrightarrow> e \<noteq> Panic"
  by (auto simp: calm_def)

lemma calm_bindR: "calm r \<Longrightarrow> (\<And>x. r = Inr x \<Longrightarrow> calm (f x)) \<Longrightarrow> calm (bindR r f)"
  by (cases r) auto

lemma bindR_noPanic: "r \<noteq> Inl Panic \<Longrightarrow> (\<And>x. r = Inr x \<Longrightarrow> f x \<noteq> Inl Panic) \<Longrightarrow> bindR r f \<noteq> Inl Panic"
  by (cases r) auto

lemma readAt_noPanic:
  "goodBlockSize (BlockSize (vh v)) \<Longrightarrow> fsize f < 2 ^ 63 \<Longrightarrow> readAt v f n off = (xs, Some e) \<Longrightarrow> e \<noteq> Panic"
  using readAt_safe [of f v n off] goodBlockSize_le by auto

lemma parseNode_noPanic: "parseNode ns buf \<noteq> Inl Panic"
  by (auto simp: parseNode_def Let_def split: option.split)

lemma readNode_noPanic:
  "goodBlockSize (BlockSize (vh v)) \<Longrightarrow> saneTree t \<Longrightarrow> readNode v t n \<noteq> Inl Panic"
  by (auto simp: readNode_def Let_def saneTree_def parseNode_noPanic dest: readAt_noPanic
      split: prod.split option.split)

lemma leafWalk_noPanic:
  assumes "goodBlockSize (BlockSize (vh v))" "saneTree t"
    and "\<And>rs acc. body rs acc \<noteq> Inl (Inl Panic)" "\<And>acc. fin acc \<noteq> Inl Panic"
  shows "leafWalk v t body fin leaf steps acc \<noteq> Inl Panic"
  using assms
proof (induction v t body fin leaf steps acc rule: leafWalk.induct)
  case (1 v t body fin leaf steps acc)
  show ?case
    using 1 readNode_noPanic [OF 1(2,3), of leaf]
    by (subst leafWalk.simps) (auto split: sum.split)
qed

lemma scanRecs_noPanic: "(\<And>rec acc. f rec acc \<noteq> Inl x) \<Longrightarrow> scanRecs f recs acc \<noteq> Inl x"
  by (induction recs arbitrary: acc) (auto split: sum.split)

lemma findLeafBy_noPanic:
  assumes "goodBlockSize (BlockSize (vh v))" "saneTree t"
  shows "findLeafBy v t le \<noteq> Inl Panic"
proof -
  have "descendLeaf v t le d n \<noteq> Inl Panic" for d n
    using readNode_noPanic [OF assms]
    by (induction d arbitrary: n) (auto split: sum.split option.split)
  then show ?thesis by (simp add: findLeafBy_def)
qed

lemma decodeRecord_noPanic: "decodeRecord rec \<noteq> Inl Panic"
  by (auto simp: decodeRecord_def split: option.split)

lemma lookup_noPanic:
  assumes "goodBlockSize (BlockSize (vh v))" "saneTree t"
  shows "lookup env v t key \<noteq> Inl Panic"
proof -
  have "lookupStep env t key rec acc \<noteq> Inl (Inl Panic)" for rec acc
    using bindR_noPanic [OF decodeRecord_noPanic, of rec "\<lambda>cr. Inr (Some cr)"]
    by (auto simp: lookupStep_def split: option.split)
  then show ?thesis
    unfolding lookup_def findLeaf_def
    by (intro bindR_noPanic findLeafBy_noPanic leafWalk_noPanic scanRecs_noPanic assms) auto
qed

lemma listChildren_noPanic:
  assumes "goodBlockSize (BlockSize (vh v))" "saneTree t"
  shows "listChildren v t pid \<noteq> Inl Panic"
  unfolding listChildren_def findLeaf_def
  by (intro bindR_noPanic findLeafBy_noPanic leafWalk_noPanic scanRecs_noPanic assms)
    (auto simp: childStep_def split: option.split)

lemma overflowExtents_noPanic:
  assumes "goodBlockSize (BlockSize (vh v))" "saneTree t"
  shows "overflowExtents v t fid ft b \<noteq> Inl Panic"
  unfolding overflowExtents_def findExtentsLeaf_def
  by (intro bindR_noPanic findLeafBy_noPanic leafWalk_noPanic scanRecs_noPanic assms)
    (auto simp: overflowStep_def split: option.split)

lemma resolve_noPanic:
  assumes "goodBlockSize (BlockSize (vh v))" "case et of None \<Rightarrow> True | Some t \<Rightarrow> saneTree t"
  shows "resolveForkExtents v et fid ft fd \<noteq> Inl Panic"
  using assms overflowExtents_noPanic [of v _ fid ft]
  by (auto simp: resolveForkExtents_def bindR_def split: prod.split option.splits sum.splits)

lemma openBTree_sane:
  assumes "goodBlockSize (BlockSize (vh v))" "fsize f < 2 ^ 63"
  shows "openBTree v f \<noteq> Inl Panic" "openBTree v f = Inr t \<Longrightarrow> saneTree t"
  using assms
  by (auto simp: openBTree_def Let_def saneTree_def dest: readAt_noPanic
      split: prod.splits option.splits if_splits)

lemma newSpecialForkResolved_sane:
  assumes "goodBlockSize (BlockSize (vh v))" "case et of None \<Rightarrow> True | Some t \<Rightarrow> saneTree t"
  shows "newSpecialForkResolved v et fid fd \<noteq> Inl Panic"
    "newSpecialForkResolved v et fid fd = Inr f \<Longrightarrow> fsize f < 2 ^ 63"
  using resolve_noPanic [OF assms] sint64_less
  by (auto simp: newSpecialForkResolved_def bindR_def split: sum.splits)

lemma openExtentsTree_sane:
  assumes "goodBlockSize (BlockSize (vh v))"
  shows "case openExtentsTree v of None \<Rightarrow> True | Some t \<Rightarrow> saneTree t"
proof -
  let ?ef = "newSpecialFork (ExtentsFile (vh v))"
  have ef: "fsize ?ef < 2 ^ 63" using sint64_less by (simp add: newSpecialFork_def)
  have first: "saneTree t" if "openBTree v ?ef = Inr t" for t
    using openBTree_sane(2) [OF assms ef that] .
  have "saneTree bt" if "openBTree v ?ef = Inr t" "newSpecialForkResolved v (Some t) i fd = Inr f"
      "openBTree v f = Inr bt" for t i fd f bt
    using openBTree_sane(2) [OF assms _ that(3)] newSpecialForkResolved_sane(2) [OF assms, of "Some t"]
      first that by simp
  then show ?thesis
    using first by (auto simp: openExtentsTree_def Let_def split: option.splits sum.splits if_splits)
qed

lemma openTrees_sane:
  assumes "goodBlockSize (BlockSize (vh v))"
  shows "fst (openTrees v) \<noteq> Inl Panic" "fst (openTrees v) = Inr () \<Longrightarrow> saneVolume (snd (openTrees v))"
proof -
  define v1 where "v1 = v\<lparr>extentsTree := openExtentsTree v\<rparr>"
  have bs: "goodBlockSize (BlockSize (vh v1))" using assms by (simp add: v1_def)
  have et: "case extentsTree v1 of None \<Rightarrow> True | Some t \<Rightarrow> saneTree t"
    using openExtentsTree_sane [OF assms] by (simp add: v1_def)
  note res = newSpecialForkResolved_sane [OF bs et]
  have step: "openTrees v =
      (case newSpecialForkResolved v1 (extentsTree v1) kHFSCatalogFileID (CatalogFile (vh v1)) of
         Inl e \<Rightarrow> (Inl e, v1)
       | Inr cf \<Rightarrow> if fsize cf = 0 then (Inl ErrCorrupt, v1)
           else case openBTree v1 cf of Inl e \<Rightarrow> (Inl e, v1) | Inr bt \<Rightarrow> (Inr (), v1\<lparr>catalogTree := bt\<rparr>))"
    by (simp add: openTrees_def Let_def v1_def [symmetric])
  show "fst (openTrees v) \<noteq> Inl Panic"
    unfolding step using res openBTree_sane(1) [OF bs] by (auto split: sum.splits)
  show "fst (openTrees v) = Inr () \<Longrightarrow> saneVolume (snd (openTrees v))"
    unfolding step using openBTree_sane(2) [OF bs res(2)] bs et
    by (auto simp: saneVolume_def split: sum.splits if_splits)
qed

lemma Open_sane: "case Open rs sz of Inl e \<Rightarrow> e \<noteq> Panic | Inr v \<Rightarrow> saneVolume v"
proof (cases "readVolumeHeader rs")
  case (Inl e)
  then have "e \<noteq> Panic" by (cases "length rs < 1536") (auto simp: readVolumeHeader_short readVolumeHeader_long split: if_splits)
  then show ?thesis using Inl by (simp add: Open_def)
next
  case (Inr h)
  let ?v = "\<lparr>disk = rs, vsize = sz, wr = False, vh = h, catalogTree = nilTree, extentsTree = None\<rparr>"
  have "goodBlockSize (BlockSize (vh ?v))" using readVolumeHeader_Inr(3) [OF Inr] by simp
  note s = openTrees_sane [OF this]
  show ?thesis using Inr s by (cases "openTrees ?v"; cases "fst (openTrees ?v)") (auto simp: Open_def)
qed

lemma readGrow_noPanic:
  assumes "goodBlockSize (BlockSize (vh v))" "fsize f < 2 ^ 63"
  shows "readGrow_loop v f buf \<noteq> Inl Panic"
  using assms
proof (induction v f buf rule: readGrow_loop.induct)
  case (1 v f buf)
  show ?case
    using 1 readAt_safe [of f v _ "int (length buf)"] goodBlockSize_le [OF 1(2)]
    by (subst readGrow_loop.simps) (auto simp: Let_def)
qed

lemma readAll_noPanic:
  assumes "goodBlockSize (BlockSize (vh v))" "fsize f < 2 ^ 63"
  shows "readAll v f \<noteq> Inl Panic"
proof -
  have "checkExtents_loop bs cap sz es l \<noteq> Some Panic" for bs cap sz es l
    by (induction bs cap sz es l rule: checkExtents_loop.induct) (auto simp: Let_def)
  then have "checkExtentsInside v f c \<noteq> Some Panic" for c
    by (simp add: checkExtentsInside_def)
  moreover have "readGrow v f \<noteq> Inl Panic" using readGrow_noPanic [OF assms] by (simp add: readGrow_def)
  ultimately show ?thesis
    using readAt_noPanic [OF assms]
    by (auto simp: readAll_def split: option.splits prod.splits if_splits)
qed

lemma lookupPath_noPanic:
  assumes "saneVolume v"
  shows "lookupPath env v path \<noteq> Inl Panic"
proof -
  have "walkPath look parts p r \<noteq> Inl Panic" if "\<And>p n. look p n \<noteq> Inl Panic" for look parts p r
    using that by (induction look parts p r rule: walkPath.induct) (auto split: sum.split option.split)
  moreover have "lookup env v (catalogTree v) k \<noteq> Inl Panic" for k
    using assms by (intro lookup_noPanic) (simp_all add: saneVolume_def)
  ultimately show ?thesis unfolding lookupPath_def by metis
qed

lemma dataForkFor_sane:
  assumes "saneVolume v"
  shows "dataForkFor v fi \<noteq> Inl Panic" "dataForkFor v fi = Inr f \<Longrightarrow> fsize f < 2 ^ 63"
  using assms resolve_noPanic [of v "extentsTree v"] sint64_less
  by (auto simp: dataForkFor_def saneVolume_def bindR_def split: sum.splits)

lemma read_noPanic:
  assumes "saneVolume v"
  shows "ReadFile env v path \<noteq> Inl Panic" "ReadLink env v path \<noteq> Inl Panic"
    "OpenFork env v path \<noteq> Inl Panic" "ListDir env v path \<noteq> Inl Panic" "Stat env v path \<noteq> Inl Panic"
proof -
  note path = lookupPath_noPanic [OF assms] and fork = dataForkFor_sane [OF assms]
  have ok: "goodBlockSize (BlockSize (vh v))" "saneTree (catalogTree v)"
    using assms by (simp_all add: saneVolume_def)
  have calm: "calm (lookupPath env v path)" "calm (dataForkFor v fi)" "calm (listChildren v (catalogTree v) pid)"
    "dataForkFor v fi = Inr f \<Longrightarrow> calm (readAll v f)" for fi f pid
    using path fork readAll_noPanic [OF ok(1)] listChildren_noPanic [OF ok] by (auto simp: calm_def)
  have "calm (ReadFile env v path)" "calm (ReadLink env v path)" "calm (OpenFork env v path)"
    "calm (ListDir env v path)" "calm (Stat env v path)"
    unfolding ReadFile_def ReadLink_def OpenFork_def ListDir_def Stat_def
    using calm by (auto intro!: calm_bindR split: option.split)
  then show "ReadFile env v path \<noteq> Inl Panic" "ReadLink env v path \<noteq> Inl Panic"
    "OpenFork env v path \<noteq> Inl Panic" "ListDir env v path \<noteq> Inl Panic" "Stat env v path \<noteq> Inl Panic"
    by (simp_all add: calm_def)
qed

section \<open>The name space of a volume\<close>

definition nameSpace :: "env \<Rightarrow> btree \<Rightarrow> bytes list \<Rightarrow> u32 \<Rightarrow> gostring \<Rightarrow> catalogRecord option result" where
  "nameSpace env t recs p name = lookupSpec env t \<lparr>parentID = p, cname = name, nameU16 = None\<rparr> recs"

text \<open>
  A volume whose catalog is a well-formed tree with ascending keys. On \<open>names\<close>, below any folder, the two notions
  of equal names (the order of the tree and \<^verbatim>\<open>nameEqual\<close>) agree.
\<close>

definition catalogHolds :: "Volume \<Rightarrow> tnode option \<Rightarrow> bool" where
  "catalogHolds v tr \<longleftrightarrow>
     holdsTree keyFromRecord (compareCatalogKey (catalogTree v)) v (catalogTree v) tr
     \<and> ascending keyFromRecord (compareCatalogKey (catalogTree v)) (recsOf tr)"

definition pathAgrees :: "env \<Rightarrow> btree \<Rightarrow> gostring list \<Rightarrow> bytes list \<Rightarrow> bool" where
  "pathAgrees env t names recs \<longleftrightarrow>
     (\<forall>name \<in> set names. \<forall>p. namesAgree env t \<lparr>parentID = p, cname = name, nameU16 = None\<rparr> recs)"

text \<open>
  Paths as the user means them: segments joined by slashes, of which the empty ones and \<open>.\<close> do not count.
\<close>

fun joinSlash :: "gostring list \<Rightarrow> gostring" where
  "joinSlash [] = []"
| "joinSlash [s] = s"
| "joinSlash (s # ss) = s @ 0x2F # joinSlash ss"

definition pathNames :: "gostring list \<Rightarrow> gostring list" where
  "pathNames segs = filter (\<lambda>s. s \<noteq> [] \<and> s \<noteq> [0x2E]) segs"

lemma splitOn_noSep: "c \<notin> set s \<Longrightarrow> splitOn c s = [s]"
  by (induction s) auto

lemma splitOn_append: "c \<notin> set s \<Longrightarrow> splitOn c (s @ c # t) = s # splitOn c t"
  by (induction s) auto

lemma splitPath_join:
  assumes "segs \<noteq> []" "\<forall>s \<in> set segs. 0x2F \<notin> set s"
  shows "splitPath (joinSlash segs) = pathNames segs"
proof -
  have "splitOn 0x2F (joinSlash segs) = segs"
    using assms by (induction segs rule: joinSlash.induct) (auto simp: splitOn_noSep splitOn_append)
  then show ?thesis by (simp add: splitPath_def pathNames_def)
qed

text \<open>\<open>folderAt look p names q\<close>: from the folder \<open>p\<close>, \<open>names\<close> is a chain of folders that ends in \<open>q\<close>.\<close>

inductive folderAt :: "(u32 \<Rightarrow> gostring \<Rightarrow> catalogRecord option result) \<Rightarrow> u32 \<Rightarrow> gostring list \<Rightarrow> u32 \<Rightarrow> bool" for look p where
  here: "folderAt look p [] p"
| down: "folderAt look p names q \<Longrightarrow> look q name = Inr (Some cr) \<Longrightarrow> cfolder cr = Some fo \<Longrightarrow>
    folderAt look p (names @ [name]) (folderID fo)"

text \<open>The object a path leads to, and the errors of one that leads nowhere.\<close>

definition objectOf :: "catalogRecord \<Rightarrow> u32 option" where
  "objectOf cr = (case cfolder cr of Some fo \<Rightarrow> Some (folderID fo) | None \<Rightarrow> map_option fileID (cfile cr))"

definition entryAt :: "(u32 \<Rightarrow> gostring \<Rightarrow> catalogRecord option result) \<Rightarrow> u32 \<Rightarrow> catalogRecord \<Rightarrow> gostring list \<Rightarrow> resolved \<Rightarrow> bool" where
  "entryAt look p rr names r \<longleftrightarrow>
     names = [] \<and> r = \<lparr>rrec = rr, rcnid = p\<rparr>
     \<or> (\<exists>init name q. names = init @ [name] \<and> folderAt look p init q
          \<and> look q name = Inr (Some (rrec r)) \<and> objectOf (rrec r) = Some (rcnid r))"

definition stopsAt :: "(u32 \<Rightarrow> gostring \<Rightarrow> catalogRecord option result) \<Rightarrow> u32 \<Rightarrow> gostring list \<Rightarrow> err \<Rightarrow> bool" where
  "stopsAt look p names e \<longleftrightarrow>
     (\<exists>init name rest q. names = init @ name # rest \<and> folderAt look p init q
        \<and> (look q name = Inl e \<or> look q name = Inr None \<and> e = ErrNotFound
           \<or> (\<exists>cr. look q name = Inr (Some cr) \<and> cfolder cr = None
                \<and> (cfile cr = None \<and> e = ErrCorrupt \<or> cfile cr \<noteq> None \<and> rest \<noteq> [] \<and> e = ErrNotDirectory))))"

lemma folderAt_Cons:
  assumes "look p name = Inr (Some cr)" "cfolder cr = Some fo" "folderAt look (folderID fo) names q"
  shows "folderAt look p (name # names) q"
  using assms(3)
proof (induction rule: folderAt.induct)
  case here
  show ?case using folderAt.down [OF folderAt.here [of look p] assms(1,2)] by simp
next
  case (down names q name' cr' fo')
  show ?case using folderAt.down [OF down.IH down.hyps(2,3)] by simp
qed

lemma entryAt_Cons:
  assumes "look p name = Inr (Some cr)" "cfolder cr = Some fo" "entryAt look (folderID fo) cr names r"
  shows "entryAt look p rr (name # names) r"
  using assms(3) unfolding entryAt_def
proof (elim disjE conjE exE)
  assume "names = []" "r = \<lparr>rrec = cr, rcnid = folderID fo\<rparr>"
  then show "name # names = [] \<and> r = \<lparr>rrec = rr, rcnid = p\<rparr> \<or> (\<exists>init name' q. name # names = init @ [name']
      \<and> folderAt look p init q \<and> look q name' = Inr (Some (rrec r)) \<and> objectOf (rrec r) = Some (rcnid r))"
    using assms(1,2) folderAt.here [of look p] by (intro disjI2 exI [of _ "[]"] exI [of _ name] exI [of _ p]) (simp add: objectOf_def)
next
  fix init last q
  assume "names = init @ [last]" "folderAt look (folderID fo) init q" "look q last = Inr (Some (rrec r))" "objectOf (rrec r) = Some (rcnid r)"
  then show "name # names = [] \<and> r = \<lparr>rrec = rr, rcnid = p\<rparr> \<or> (\<exists>init name' q. name # names = init @ [name']
      \<and> folderAt look p init q \<and> look q name' = Inr (Some (rrec r)) \<and> objectOf (rrec r) = Some (rcnid r))"
    using folderAt_Cons [of look p name cr fo, OF assms(1,2)]
    by (intro disjI2 exI [of _ "name # init"] exI [of _ last] exI [of _ q]) simp
qed

lemma stopsAt_Cons:
  assumes "look p name = Inr (Some cr)" "cfolder cr = Some fo" "stopsAt look (folderID fo) names e"
  shows "stopsAt look p (name # names) e"
proof -
  obtain init name' rest q where s: "names = init @ name' # rest" "folderAt look (folderID fo) init q"
    "look q name' = Inl e \<or> look q name' = Inr None \<and> e = ErrNotFound \<or> (\<exists>cr. look q name' = Inr (Some cr) \<and> cfolder cr = None
      \<and> (cfile cr = None \<and> e = ErrCorrupt \<or> cfile cr \<noteq> None \<and> rest \<noteq> [] \<and> e = ErrNotDirectory))"
    using assms(3) unfolding stopsAt_def by blast
  show ?thesis
    unfolding stopsAt_def using s folderAt_Cons [OF assms(1,2) s(2)]
    by (intro exI [of _ "name # init"] exI [of _ name'] exI [of _ rest] exI [of _ q]) simp
qed

text \<open>The walk gives the object or the error; both are unique, so each describes it completely.\<close>

lemma walkPath_verdict:
  "case walkPath look names p rr of Inr r \<Rightarrow> entryAt look p rr names r | Inl e \<Rightarrow> stopsAt look p names e"
proof (induction look names p rr rule: walkPath.induct)
  case (1 look p rr)
  show ?case by (simp add: entryAt_def)
next
  case (2 look name rest p rr)
  have stop: "stopsAt look p (name # rest) e"
    if "look p name = Inl e \<or> look p name = Inr None \<and> e = ErrNotFound \<or> (\<exists>cr. look p name = Inr (Some cr) \<and> cfolder cr = None
      \<and> (cfile cr = None \<and> e = ErrCorrupt \<or> cfile cr \<noteq> None \<and> rest \<noteq> [] \<and> e = ErrNotDirectory))" for e
    unfolding stopsAt_def using that folderAt.here [of look p] by (intro exI [of _ "[]"] exI [of _ name] exI [of _ rest] exI [of _ p]) simp
  show ?case
  proof (cases "look p name")
    case (Inr found)
    show ?thesis
    proof (cases found)
      case cr: (Some cr)
      note look = Inr [unfolded cr]
      show ?thesis
      proof (cases "cfolder cr")
        case fo: (Some fo)
        then have "walkPath look (name # rest) p rr = walkPath look rest (folderID fo) cr" using look by simp
        then show ?thesis
          using "2.IH"(2) [OF Inr cr fo] entryAt_Cons [of look p name cr fo, OF look fo] stopsAt_Cons [of look p name cr fo, OF look fo] by (auto split: sum.splits)
      next
        case None
        show ?thesis
        proof (cases "cfile cr")
          case fi: (Some fi)
          show ?thesis
          proof (cases "rest = []")
            case True
            have "entryAt look p rr [name] \<lparr>rrec = cr, rcnid = fileID fi\<rparr>"
              unfolding entryAt_def using look None fi folderAt.here [of look p]
              by (intro disjI2 exI [of _ "[]"] exI [of _ name] exI [of _ p]) (simp add: objectOf_def)
            then show ?thesis using True look None fi by simp
          qed (use look None fi stop in auto)
        qed (use look None stop in auto)
      qed
    qed (use Inr stop in auto)
  qed (use stop in auto)
qed

text \<open>A chain of folders is followed by the walk.\<close>

lemma walkPath_folders:
  "folderAt look p names q \<Longrightarrow> \<exists>rr'. walkPath look (names @ rest) p rr = walkPath look rest q rr'"
proof (induction arbitrary: rest rule: folderAt.induct)
  case (down names q name cr fo)
  obtain rr' where "walkPath look (names @ name # rest) p rr = walkPath look (name # rest) q rr'" using down.IH by blast
  then show ?case using down.hyps(2,3) by auto
qed auto

lemma walkPath_entry: "entryAt look p rr names r \<Longrightarrow> walkPath look names p rr = Inr r"
  unfolding entryAt_def
proof (elim disjE conjE exE)
  fix init name q
  assume r: "names = init @ [name]" "folderAt look p init q" "look q name = Inr (Some (rrec r))" "objectOf (rrec r) = Some (rcnid r)"
  obtain rr' where "walkPath look names p rr = walkPath look [name] q rr'" using walkPath_folders [OF r(2)] r(1) by blast
  then show "walkPath look names p rr = Inr r" using r(3,4) by (auto simp: objectOf_def split: option.splits)
qed simp

lemma walkPath_stops: "stopsAt look p names e \<Longrightarrow> walkPath look names p rr = Inl e"
  unfolding stopsAt_def
proof (elim exE conjE)
  fix init name rest q
  assume r: "names = init @ name # rest" "folderAt look p init q"
    "look q name = Inl e \<or> look q name = Inr None \<and> e = ErrNotFound \<or> (\<exists>cr. look q name = Inr (Some cr) \<and> cfolder cr = None
      \<and> (cfile cr = None \<and> e = ErrCorrupt \<or> cfile cr \<noteq> None \<and> rest \<noteq> [] \<and> e = ErrNotDirectory))"
  obtain rr' where "walkPath look names p rr = walkPath look (name # rest) q rr'" using walkPath_folders [OF r(2)] r(1) by blast
  then show "walkPath look names p rr = Inl e" using r(3) by (auto split: option.splits)
qed

lemma walkPath_iff:
  "walkPath look names p rr = Inr r \<longleftrightarrow> entryAt look p rr names r"
  "walkPath look names p rr = Inl e \<longleftrightarrow> stopsAt look p names e"
proof -
  note verdict = walkPath_verdict [where look = look and names = names and p = p and rr = rr]
  have "entryAt look p rr names r" if "walkPath look names p rr = Inr r" using verdict that by simp
  then show "walkPath look names p rr = Inr r \<longleftrightarrow> entryAt look p rr names r" using walkPath_entry by blast
  have "stopsAt look p names e" if "walkPath look names p rr = Inl e" using verdict that by simp
  then show "walkPath look names p rr = Inl e \<longleftrightarrow> stopsAt look p names e" using walkPath_stops by blast
qed

lemma walkPath_cong:
  "\<forall>p \<in> set parts. \<forall>q. look q p = look' q p \<Longrightarrow> walkPath look parts parent r = walkPath look' parts parent r"
  by (induction look parts parent r rule: walkPath.induct) (auto split: sum.split option.split)

lemma lookupPath_nameSpace:
  assumes "catalogHolds v tr" "segs \<noteq> []" "\<forall>s \<in> set segs. 0x2F \<notin> set s"
    and "pathAgrees env (catalogTree v) (pathNames segs) (recsOf tr)"
  shows "lookupPath env v (joinSlash segs)
    = walkPath (nameSpace env (catalogTree v) (recsOf tr)) (pathNames segs) cnidRootFolder rootRecord"
  unfolding lookupPath_def splitPath_join [OF assms(2,3)]
proof (rule walkPath_cong, intro ballI allI)
  fix p q assume "p \<in> set (pathNames segs)"
  then show "lookup env v (catalogTree v) \<lparr>parentID = q, cname = p, nameU16 = None\<rparr>
      = nameSpace env (catalogTree v) (recsOf tr) q p"
    using assms(1,4) by (simp add: nameSpace_def catalogHolds_def pathAgrees_def lookup_refines)
qed

section \<open>A concrete volume\<close>

text \<open>The sample catalog as a case-insensitive one, on a volume opened for reading through a reader of unknown size.\<close>

definition foldCat :: btree where
  "foldCat = nodeTree 1 2 0xCF sampleNodes"

definition sampleVolume :: Volume where
  "sampleVolume = \<lparr>disk = concat sampleNodes, vsize = -1, wr = False, vh = sampleHeader 512,
     catalogTree = foldCat, extentsTree = None\<rparr>"

lemma foldCat_fields: "tf foldCat = tf sampleCat" "NodeSize (theader foldCat) = NodeSize (theader sampleCat)"
  "KeyCompare (theader foldCat) \<noteq> keyCompareBinary" "RootNode (theader foldCat) = 1"
  by (simp_all add: foldCat_def sampleCat_def nodeTree_def keyCompareBinary_def)

lemma sampleVolume_read: "readNode sampleVolume foldCat n = readNode (nodeVol sampleNodes) sampleCat n"
  by (simp add: readNode_def foldCat_fields readAt_def sampleVolume_def nodeVol_def Let_def)

lemma sampleVolume_nodes: "maxNodes sampleVolume foldCat = 5"
proof -
  have len: "length sampleNodes = 5" "\<forall>b \<in> set sampleNodes. length b = 512" using sample_sizes by simp_all
  have "extentBytes sampleVolume (tf foldCat) = 512 * 5"
    using len by (simp add: extentBytes_def sampleVolume_def foldCat_def nodeTree_def sampleHeader_def maxForkBytes_def)
  then show ?thesis by (simp add: maxNodes_def Let_def capacity_def) (simp add: sampleVolume_def foldCat_def nodeTree_def)
qed

lemma sample_foldCompare:
  "compareCatalogKey foldCat a b = ordSign (parentID a, foldedUnits (keyUnits a)) (parentID b, foldedUnits (keyUnits b))"
  by (simp add: compareCatalogKey_ordSign sortUnits_def foldCat_fields(3))

lemma sample_folded: "foldedUnits [0x41] = [0x61]" "foldedUnits [0x61] = [0x61]" "foldedUnits [0x42] = [0x62]" "foldedUnits [0x62] = [0x62]"
  "foldedUnits [] = []"
  by (simp_all add: foldedUnits_def foldU16_def)

lemma sampleVolume_holds: "catalogHolds sampleVolume (Some sampleTree)"
proof -
  have [simp]: "catalogTree sampleVolume = foldCat" by (simp add: sampleVolume_def)
  have "holdsTree keyFromRecord (compareCatalogKey foldCat) sampleVolume foldCat (Some sampleTree)"
    by (simp add: holdsTree_def sampleTree_def sampleVolume_read sample_nodes sample_children separates_def keyHolds_def sampleVolume_nodes
        sample_keys sample_foldCompare ordSign_def keyUnits_def sampleDesc_def less_prod_def foldCat_fields(4) sample_folded)
  moreover have "ascending keyFromRecord (compareCatalogKey foldCat) (recsOf (Some sampleTree))"
    by (simp add: sample_recs ascending_def map_filter_Cons sample_keys sample_foldCompare ordSign_def
        less_prod_def keyUnits_def sample_folded)
  ultimately show ?thesis by (simp add: catalogHolds_def)
qed

text \<open>The path \<open>/a/B\<close> leads to the file \<open>b\<close> in the folder \<open>A\<close>.\<close>

definition sampleSegs :: "gostring list" where
  "sampleSegs = [[], [0x61], [0x42]]"

lemma sampleSegs_facts: "joinSlash sampleSegs = [0x2F, 0x61, 0x2F, 0x42]" "pathNames sampleSegs = [[0x61], [0x42]]"
  "sampleSegs \<noteq> []" "\<forall>s \<in> set sampleSegs. 0x2F \<notin> set s"
  by (simp_all add: sampleSegs_def pathNames_def)

lemma sampleSegs_agree: "pathAgrees sampleEnv (catalogTree sampleVolume) (pathNames sampleSegs) (recsOf (Some sampleTree))"
  by (simp add: pathAgrees_def namesAgree_def sampleSegs_facts(2) sample_recs keyHolds_def sample_keys nameEqual_def foldCat_fields(3)
      sampleVolume_def sample_foldCompare ordSign_def keyUnits_def sample_folded utf16Encode_def encodeRune_def validRune_def sampleEnv_def)

lemma sample_path:
  "entryAt (nameSpace sampleEnv (catalogTree sampleVolume) (recsOf (Some sampleTree))) cnidRootFolder rootRecord (pathNames sampleSegs)
   \<lparr>rrec = \<lparr>recType = recordFile, cfolder = None, cfile = Some \<lparr>fileID = 17,
        cfiFlags = kHFSThreadExistsMask, dataFork = sampleData, rsrcFork = zeroForkData, permMode = 0x81A4\<rparr>,
        threadName = [], threadParent = 0\<rparr>, rcnid = 17\<rparr>"
proof -
  have fold: "KeyCompare (theader (catalogTree sampleVolume)) \<noteq> keyCompareBinary"
    by (simp add: sampleVolume_def foldCat_fields(3))
  have "recordData fileRec = Some (encodeFileRecord 17 0 0x81A4 sampleData)"
    "recordData folderRec = Some (encodeFolderRecord 16 0 1)"
    by (simp_all add: fileRec_def folderRec_def record_of_key fitName_ascii)
  then have dec: "decodeRecord fileRec = Inr \<lparr>recType = recordFile, cfolder = None, cfile = Some \<lparr>fileID = 17,
        cfiFlags = kHFSThreadExistsMask, dataFork = sampleData, rsrcFork = zeroForkData, permMode = 0x81A4\<rparr>,
        threadName = [], threadParent = 0\<rparr>"
    "decodeRecord folderRec = Inr \<lparr>recType = recordFolder, cfolder = Some \<lparr>folderID = 16, valence = 1,
        cfoFlags = 0\<rparr>, cfile = None, threadName = [], threadParent = 0\<rparr>"
    by (simp_all add: decodeRecord_def parse_file parse_folder)
  show ?thesis
    by (simp add: walkPath_iff(1) [symmetric] sampleSegs_facts(2) nameSpace_def lookupSpec_def sample_recs keyMatches_def sample_keys
        nameEqual_def fold dec cnidRootFolder_def sampleEnv_def)
qed

section \<open>Properties\<close>

text \<open>
  C26. Path resolution, completely: on a well-formed catalog, for the path with the segments \<open>segs\<close> between slashes (those that
  are empty or \<open>.\<close> do not count), on whose names the tree's order and \<^verbatim>\<open>nameEqual\<close> agree, \<^verbatim>\<open>lookupPath\<close> returns an object exactly when
  it is the last of a chain in which every name has a record below the one before and all but the last are folders; and an
  error exactly when the chain breaks at a name: \<^verbatim>\<open>ErrNotFound\<close> where the folder has no such record, \<^verbatim>\<open>ErrNotDirectory\<close> at a
  file with names after it, \<^verbatim>\<open>ErrCorrupt\<close> at a record that is neither file nor folder or cannot be decoded.
\<close>

theorem path_lookup_refines:
  fixes v tr env defines "look \<equiv> nameSpace env (catalogTree v) (recsOf tr)"
  assumes "catalogHolds v tr" "segs \<noteq> []" "\<forall>s \<in> set segs. 0x2F \<notin> set s"
    and "pathAgrees env (catalogTree v) (pathNames segs) (recsOf tr)"
  shows "(lookupPath env v (joinSlash segs) = Inr r \<longleftrightarrow> entryAt look cnidRootFolder rootRecord (pathNames segs) r)
    \<and> (lookupPath env v (joinSlash segs) = Inl e \<longleftrightarrow> stopsAt look cnidRootFolder (pathNames segs) e)"
  unfolding look_def lookupPath_nameSpace [OF assms(2-5)] by (simp add: walkPath_iff)

theorem path_lookup_refines_witness:
  "map_sum id rcnid (lookupPath sampleEnv sampleVolume [0x2F, 0x61, 0x2F, 0x42]) = Inr 17"
  using path_lookup_refines [OF sampleVolume_holds sampleSegs_facts(3,4) sampleSegs_agree, THEN conjunct1, THEN iffD2, OF sample_path]
  by (simp add: sampleSegs_facts(1))





end
