(* ===== verification/Reopen.thy ===== *)
theory Reopen
  imports Volume
begin

text \<open>
  The parsed view of a volume is a function of its image: reading depends on the volume only
  through the bytes, the header and the capacity, so \<^verbatim>\<open>reopen\<close> (\<^verbatim>\<open>hfsplus.go\<close>) ends in the state in which
  \<^verbatim>\<open>OpenWritable\<close> of the same bytes ends. \<open>opened\<close> is that state.
\<close>

section \<open>What reading depends on\<close>

definition sameView :: "'a vol_scheme \<Rightarrow> 'b vol_scheme \<Rightarrow> bool" where
  "sameView v v' \<longleftrightarrow> disk v = disk v' \<and> vh v = vh v' \<and> capacity v = capacity v'"

named_theorems view_simps "operations that read the same from volumes with the same view"

lemma readAt_view [view_simps]: "sameView v v' \<Longrightarrow> readAt v f n off = readAt v' f n off"
  by (simp add: sameView_def readAt_def)

lemma openBTree_view [view_simps]: "sameView v v' \<Longrightarrow> openBTree v f = openBTree v' f"
  unfolding openBTree_def by (simp add: view_simps)

lemma readNode_view [view_simps]: "sameView v v' \<Longrightarrow> readNode v t n = readNode v' t n"
  unfolding readNode_def by (simp add: view_simps)

lemma maxNodes_view [view_simps]: "sameView v v' \<Longrightarrow> maxNodes v t = maxNodes v' t"
  by (simp add: sameView_def maxNodes_def extentBytes_def)

lemma leafTrace_view: "sameView v v' \<Longrightarrow> leafTrace v t leaf steps = leafTrace v' t leaf steps"
proof (induction v t leaf steps rule: leafTrace.induct)
  case (1 v t leaf steps)
  show ?case
    using 1 by (simp add: leafTrace.simps [of v t leaf] leafTrace.simps [of v' t leaf] view_simps leafStep_def
        split: sum.split)
qed

lemma leafWalk_view [view_simps]:
  "sameView v v' \<Longrightarrow> leafWalk v t body fin leaf steps acc = leafWalk v' t body fin leaf steps acc"
  by (simp add: leafWalk_trace leafTrace_view)

lemma descendLeaf_view: "sameView v v' \<Longrightarrow> descendLeaf v t le depth cur = descendLeaf v' t le depth cur"
  by (induction depth arbitrary: cur) (simp_all add: view_simps split: sum.split option.split)

lemma findLeafBy_view [view_simps]: "sameView v v' \<Longrightarrow> findLeafBy v t le = findLeafBy v' t le"
  by (simp add: findLeafBy_def descendLeaf_view)

lemma overflowExtents_view [view_simps]:
  "sameView v v' \<Longrightarrow> overflowExtents v t fid ft b = overflowExtents v' t fid ft b"
  by (simp add: overflowExtents_def findExtentsLeaf_def view_simps)

lemma resolveForkExtents_view [view_simps]:
  assumes "sameView v v'" shows "resolveForkExtents v et fid ft fd = resolveForkExtents v' et fid ft fd"
  unfolding resolveForkExtents_def view_simps [OF assms] ..

lemma newSpecialForkResolved_view [view_simps]:
  "sameView v v' \<Longrightarrow> newSpecialForkResolved v et fid fd = newSpecialForkResolved v' et fid fd"
  by (simp add: newSpecialForkResolved_def view_simps)

lemma openExtentsTree_view [view_simps]:
  assumes "sameView v v'" shows "openExtentsTree v = openExtentsTree v'"
proof -
  have "vh v = vh v'" using assms by (simp add: sameView_def)
  then show ?thesis unfolding openExtentsTree_def view_simps [OF assms] by (rule arg_cong)
qed

section \<open>Reopening\<close>

definition opened :: "Volume \<Rightarrow> bool" where
  "opened v \<longleftrightarrow> OpenWritable (disk v) = Inr v"

text \<open>The two steps of \<^verbatim>\<open>openTrees\<close> as equations.\<close>

lemma openTrees_Inr:
  "openTrees v = (Inr (), v') \<longleftrightarrow>
   (\<exists>cf bt. newSpecialForkResolved v (openExtentsTree v) kHFSCatalogFileID (CatalogFile (vh v)) = Inr cf
      \<and> fsize cf \<noteq> 0 \<and> openBTree v cf = Inr bt
      \<and> v' = v\<lparr>extentsTree := openExtentsTree v, catalogTree := bt\<rparr>)"
proof -
  have view: "sameView (v\<lparr>extentsTree := x\<rparr>) v" for x by (simp add: sameView_def capacity_def)
  show ?thesis
    by (auto simp: openTrees_def Let_def view_simps [OF view] split: sum.splits if_splits)
qed

lemma reopen_opened:
  assumes r: "reopen v = (Inr (), v')" and v: "wr v" "vsize v = int (length (disk v))"
  shows "opened v'" "disk v' = disk v"
proof -
  obtain h where h: "readVolumeHeader (disk v) = Inr h" and o: "openTrees (v\<lparr>vh := h\<rparr>) = (Inr (), v')"
    using r by (auto simp: reopen_def split: sum.splits)
  let ?w = "v\<lparr>vh := h\<rparr>"
  let ?z = "\<lparr>disk = disk v, vsize = int (length (disk v)), wr = False, vh = h, catalogTree = nilTree, extentsTree = None\<rparr>"
  have "length (disk v) \<noteq> 0" using readVolumeHeader_short [of "disk v"] h by (cases "length (disk v) < 1536") auto
  then have view: "sameView ?w ?z" using v by (simp add: sameView_def capacity_def)
  from o obtain cf bt where cf: "newSpecialForkResolved ?w (openExtentsTree ?w) kHFSCatalogFileID (CatalogFile h) = Inr cf"
    "fsize cf \<noteq> 0" "openBTree ?w cf = Inr bt" and v': "v' = ?w\<lparr>extentsTree := openExtentsTree ?w, catalogTree := bt\<rparr>"
    unfolding openTrees_Inr by auto
  then show "disk v' = disk v" by simp
  have "openTrees ?z = (Inr (), ?z\<lparr>extentsTree := openExtentsTree ?z, catalogTree := bt\<rparr>)"
    unfolding openTrees_Inr using cf by (simp add: view_simps [OF view])
  then have "OpenWritable (disk v) = Inr (?z\<lparr>extentsTree := openExtentsTree ?z, catalogTree := bt, wr := True\<rparr>)"
    using h by (simp add: OpenWritable_def Open_def)
  also have "?z\<lparr>extentsTree := openExtentsTree ?z, catalogTree := bt, wr := True\<rparr> = v'"
    using v v' by (simp add: view_simps [OF view])
  finally show "opened v'" using v' by (simp add: opened_def)
qed

lemma openBTree_nodeSize: "openBTree v f = Inr bt \<Longrightarrow> 512 \<le> NodeSize (theader bt)"
  by (auto simp: openBTree_def Let_def split: prod.splits option.splits if_splits)

lemma openExtentsTree_nodeSize: "openExtentsTree v = Some t \<Longrightarrow> 512 \<le> NodeSize (theader t)"
  by (auto simp: openExtentsTree_def Let_def split: option.splits sum.splits if_splits dest: openBTree_nodeSize)

lemma opened_facts:
  assumes "opened v"
  shows "wr v" "vsize v = int (length (disk v))" "readVolumeHeader (disk v) = Inr (vh v)"
    "512 \<le> NodeSize (theader (catalogTree v))" "extentsTree v = Some t \<Longrightarrow> 512 \<le> NodeSize (theader t)" "saneVolume v"
proof -
  define d where "d = disk v"
  let ?z = "\<lambda>h. \<lparr>disk = d, vsize = int (length d), wr = False, vh = h, catalogTree = nilTree, extentsTree = None\<rparr>"
  from assms obtain h w where h: "readVolumeHeader d = Inr h" and w: "openTrees (?z h) = (Inr (), w)" and v: "v = w\<lparr>wr := True\<rparr>"
    by (auto simp: opened_def OpenWritable_def Open_def bindR_def d_def split: sum.splits prod.splits)
  from w obtain cf bt where bt: "openBTree (?z h) cf = Inr bt"
    and w': "w = (?z h)\<lparr>extentsTree := openExtentsTree (?z h), catalogTree := bt\<rparr>"
    unfolding openTrees_Inr by auto
  have d: "disk v = d" by (simp add: d_def)
  show "wr v" "vsize v = int (length (disk v))" "readVolumeHeader (disk v) = Inr (vh v)"
    unfolding d using h v w' by simp_all
  show "512 \<le> NodeSize (theader (catalogTree v))"
    using v w' openBTree_nodeSize [OF bt] by simp
  show "512 \<le> NodeSize (theader t)" if "extentsTree v = Some t"
    using v w' that openExtentsTree_nodeSize [of "?z h"] by simp
  have "Open d (int (length d)) = Inr w" using h w by (simp add: Open_def)
  then show "saneVolume v" using Open_sane [of d "int (length d)"] v by (simp add: saneVolume_def)
qed

end
