(* ===== verification/BTWrite.thy ===== *)
theory BTWrite
  imports Alloc Reopen
begin

text \<open>
  \<^verbatim>\<open>btwrite.go\<close> and \<^verbatim>\<open>btmap.go\<close>: the mutable view of the two B-trees, header-node accessors,
  \<^verbatim>\<open>loadNode\<close>, \<^verbatim>\<open>storeNode\<close>, and the node-allocation bitmap. The state \<open>wst\<close> of a mutation
  holds the volume, the shared allocator and the two writers; Go's pointers from a writer to
  the volume, to the allocator and to the volume's cached tree are the other fields of the
  same record, selected by \<open>treeSel\<close> (\<^verbatim>\<open>forkIdx\<close>). A slice returned by \<^verbatim>\<open>nodeBytes\<close> aliases
  the image: reading one is \<open>nodeBytes\<close>, assigning through one is \<open>putNode\<close>.
\<close>

section \<open>Data\<close>

datatype treeSel = forkExtentsFile | forkCatalogFile

definition forkIndex :: "treeSel \<Rightarrow> nat" where
  "forkIndex sel = (case sel of forkExtentsFile \<Rightarrow> 1 | forkCatalogFile \<Rightarrow> 2)"

record btreeWriter =
  nodeSize :: nat
  bwExtents :: "extentDescriptor list"
  bwBs :: int

record wst =
  wvol :: Volume
  walc :: allocator
  wcat :: btreeWriter
  wext :: btreeWriter

definition writerOf :: "treeSel \<Rightarrow> wst \<Rightarrow> btreeWriter" where
  "writerOf sel s = (case sel of forkExtentsFile \<Rightarrow> wext s | forkCatalogFile \<Rightarrow> wcat s)"

definition setWriter :: "treeSel \<Rightarrow> btreeWriter \<Rightarrow> wst \<Rightarrow> wst" where
  "setWriter sel w s = (case sel of forkExtentsFile \<Rightarrow> s\<lparr>wext := w\<rparr> | forkCatalogFile \<Rightarrow> s\<lparr>wcat := w\<rparr>)"

definition setDisk :: "bytes \<Rightarrow> wst \<Rightarrow> wst" where
  "setDisk d s = s\<lparr>wvol := (wvol s)\<lparr>disk := d\<rparr>\<rparr>"

record editNode =
  num :: u32
  edesc :: nodeDescriptor
  erecs :: "bytes list"

definition specialFork :: "Volume \<Rightarrow> treeSel \<Rightarrow> forkData" where
  "specialFork v sel = (case sel of forkExtentsFile \<Rightarrow> ExtentsFile (vh v) | forkCatalogFile \<Rightarrow> CatalogFile (vh v))"

definition specialFileID :: "treeSel \<Rightarrow> u32" where
  "specialFileID sel = (case sel of forkExtentsFile \<Rightarrow> kHFSExtentsFileID | forkCatalogFile \<Rightarrow> kHFSCatalogFileID)"

section \<open>Writers and node addresses\<close>

definition newBTreeWriter :: "Volume \<Rightarrow> btree \<Rightarrow> treeSel \<Rightarrow> btreeWriter result" where
  "newBTreeWriter v tree sel =
     (let fd = specialFork v sel
      in if BlockCount (Extents fd ! 0) = 0 then Inl ErrCorrupt
         else bindR (resolveForkExtents v (extentsTree v) (specialFileID sel) forkTypeData fd)
                (\<lambda>exts. Inr \<lparr>nodeSize = unat (NodeSize (theader tree)), bwExtents = exts, bwBs = blockSizeOf v\<rparr>))"

text \<open>The loop of \<^verbatim>\<open>nodeBytes\<close>: the absolute offset of the node, \<open>None\<close> for the \<^verbatim>\<open>nil\<close> result.\<close>

fun nodeOffset :: "int \<Rightarrow> extentDescriptor list \<Rightarrow> int \<Rightarrow> int \<Rightarrow> int option" where
  "nodeOffset bs [] logical base = None"
| "nodeOffset bs (e # es) logical base =
     (let span = uint (BlockCount e) * bs
      in if logical < wrap64 (base + span)
         then Some (wrap64 (uint (StartBlock e) * bs + wrap64 (logical - base)))
         else nodeOffset bs es logical (wrap64 (base + span)))"

definition nodeAddr :: "treeSel \<Rightarrow> u32 \<Rightarrow> wst \<Rightarrow> nat option result" where
  "nodeAddr sel n s =
     (let w = writerOf sel s
      in case nodeOffset (bwBs w) (bwExtents w) (uint n * int (nodeSize w)) 0 of
           None \<Rightarrow> Inr None
         | Some a \<Rightarrow>
             if a < 0 \<or> a + int (nodeSize w) > int (length (disk (wvol s))) then Inl Panic
             else Inr (Some (nat a)))"

definition nodeBytes :: "treeSel \<Rightarrow> u32 \<Rightarrow> (wst, bytes option) op" where
  "nodeBytes sel n =
     liftR (\<lambda>s. bindR (nodeAddr sel n s)
       (\<lambda>a. Inr (map_option (\<lambda>a. gslice (disk (wvol s)) a (a + nodeSize (writerOf sel s))) a)))"

text \<open>Assignments through a slice that \<^verbatim>\<open>nodeBytes\<close> returned; writing through \<^verbatim>\<open>nil\<close> panics.\<close>

definition putNode :: "treeSel \<Rightarrow> u32 \<Rightarrow> bytes \<Rightarrow> (wst, unit) op" where
  "putNode sel n b s =
     (case nodeAddr sel n s of
        Inl e \<Rightarrow> (Inl e, s)
      | Inr None \<Rightarrow> (Inl Panic, s)
      | Inr (Some a) \<Rightarrow> (Inr (), setDisk (overwrite (disk (wvol s)) a b) s))"

definition nodeSizeOf :: "treeSel \<Rightarrow> (wst, nat) op" where
  "nodeSizeOf sel = getS (\<lambda>s. nodeSize (writerOf sel s))"

text \<open>\<^verbatim>\<open>nodeBytes(n)\<close> used without a check for \<^verbatim>\<open>nil\<close>.\<close>

definition liveNode :: "treeSel \<Rightarrow> u32 \<Rightarrow> (wst, bytes) op" where
  "liveNode sel n = bnd (nodeBytes sel n) (\<lambda>b. case b of None \<Rightarrow> raise Panic | Some b \<Rightarrow> ret b)"

definition forkBlocks :: "btreeWriter \<Rightarrow> u32" where
  "forkBlocks w = sum_list (map BlockCount (bwExtents w))"

section \<open>Header-node accessors\<close>

definition hdrU16 :: "treeSel \<Rightarrow> nat \<Rightarrow> (wst, u16) op" where
  "hdrU16 sel off = bnd (liveNode sel 0) (\<lambda>b. ret (be16 b (nodeDescriptorLen + off)))"

definition hdrU32 :: "treeSel \<Rightarrow> nat \<Rightarrow> (wst, u32) op" where
  "hdrU32 sel off = bnd (liveNode sel 0) (\<lambda>b. ret (be32 b (nodeDescriptorLen + off)))"

definition putHdr :: "treeSel \<Rightarrow> nat \<Rightarrow> bytes \<Rightarrow> (wst, unit) op" where
  "putHdr sel off xs = bnd (liveNode sel 0) (\<lambda>b. putNode sel 0 (overwrite b (nodeDescriptorLen + off) xs))"

definition cacheHeader :: "treeSel \<Rightarrow> (btHeader \<Rightarrow> btHeader) \<Rightarrow> wst \<Rightarrow> wst" where
  "cacheHeader sel f s =
     (case sel of
        forkCatalogFile \<Rightarrow> s\<lparr>wvol := (wvol s)\<lparr>catalogTree := (catalogTree (wvol s))\<lparr>theader := f (theader (catalogTree (wvol s)))\<rparr>\<rparr>\<rparr>
      | forkExtentsFile \<Rightarrow> s\<lparr>wvol := (wvol s)\<lparr>extentsTree := map_option (\<lambda>t. t\<lparr>theader := f (theader t)\<rparr>) (extentsTree (wvol s))\<rparr>\<rparr>)"

definition treeDepth :: "treeSel \<Rightarrow> (wst, u16) op" where "treeDepth sel = hdrU16 sel 0"
definition setTreeDepth :: "treeSel \<Rightarrow> u16 \<Rightarrow> (wst, unit) op" where "setTreeDepth sel d = putHdr sel 0 (enc16 d)"
definition rootNode :: "treeSel \<Rightarrow> (wst, u32) op" where "rootNode sel = hdrU32 sel 2"
definition leafRecords :: "treeSel \<Rightarrow> (wst, u32) op" where "leafRecords sel = hdrU32 sel 6"
definition setLeafRecords :: "treeSel \<Rightarrow> u32 \<Rightarrow> (wst, unit) op" where "setLeafRecords sel n = putHdr sel 6 (enc32 n)"
definition firstLeaf :: "treeSel \<Rightarrow> (wst, u32) op" where "firstLeaf sel = hdrU32 sel 10"
definition totalNodes :: "treeSel \<Rightarrow> (wst, u32) op" where "totalNodes sel = hdrU32 sel 22"
definition setTotalNodes :: "treeSel \<Rightarrow> u32 \<Rightarrow> (wst, unit) op" where "setTotalNodes sel n = putHdr sel 22 (enc32 n)"
definition freeNodes :: "treeSel \<Rightarrow> (wst, u32) op" where "freeNodes sel = hdrU32 sel 26"
definition setFreeNodes :: "treeSel \<Rightarrow> u32 \<Rightarrow> (wst, unit) op" where "setFreeNodes sel n = putHdr sel 26 (enc32 n)"

definition setRootNode :: "treeSel \<Rightarrow> u32 \<Rightarrow> (wst, unit) op" where
  "setRootNode sel n = bnd (putHdr sel 2 (enc32 n)) (\<lambda>_. modS (cacheHeader sel (\<lambda>h. h\<lparr>RootNode := n\<rparr>)))"

definition setFirstLeaf :: "treeSel \<Rightarrow> u32 \<Rightarrow> (wst, unit) op" where
  "setFirstLeaf sel n = bnd (putHdr sel 10 (enc32 n)) (\<lambda>_. modS (cacheHeader sel (\<lambda>h. h\<lparr>FirstLeaf := n\<rparr>)))"

definition setLastLeaf :: "treeSel \<Rightarrow> u32 \<Rightarrow> (wst, unit) op" where
  "setLastLeaf sel n = bnd (putHdr sel 14 (enc32 n)) (\<lambda>_. modS (cacheHeader sel (\<lambda>h. h\<lparr>LastLeaf := n\<rparr>)))"

section \<open>Nodes\<close>

definition loadNode :: "treeSel \<Rightarrow> u32 \<Rightarrow> (wst, editNode) op" where
  "loadNode sel n =
     bnd (nodeBytes sel n)
       (\<lambda>b s. case b of
          None \<Rightarrow> (Inl ErrCorrupt, s)
        | Some b \<Rightarrow>
            (case parseNode (nodeSize (writerOf sel s)) b of
               Inl e \<Rightarrow> (Inl e, s)
             | Inr nd \<Rightarrow> (Inr \<lparr>num = n, edesc = desc nd, erecs = records nd\<rparr>, s)))"

definition storeNode :: "treeSel \<Rightarrow> editNode \<Rightarrow> (wst, unit) op" where
  "storeNode sel en =
     bnd (nodeBytes sel (num en))
       (\<lambda>b s. case b of
          None \<Rightarrow> (Inl ErrCorrupt, s)
        | Some _ \<Rightarrow>
            (case packNode (nodeSize (writerOf sel s)) (edesc en) (erecs en) of
               (ok, b') \<Rightarrow> bnd (putNode sel (num en) b') (\<lambda>_. if ok then ret () else raise ErrNodeFull) s))"

text \<open>Zeroing a node; the flag is false when \<^verbatim>\<open>nodeBytes\<close> returned \<^verbatim>\<open>nil\<close>.\<close>

definition eraseNode :: "treeSel \<Rightarrow> u32 \<Rightarrow> (wst, bool) op" where
  "eraseNode sel n =
     bnd (nodeBytes sel n)
       (\<lambda>b. case b of
          None \<Rightarrow> ret False
        | Some b \<Rightarrow> bnd (putNode sel n (replicate (length b) 0)) (\<lambda>_. ret True))"

section \<open>The node bitmap\<close>

record stretch =
  stNode :: u32
  stLo :: nat
  stBytes :: bytes

definition headerMapSlice :: "treeSel \<Rightarrow> (wst, stretch) op" where
  "headerMapSlice sel =
     bnd (nodeBytes sel 0)
       (\<lambda>b s. let ns = nodeSize (writerOf sel s)
        in case b of
             None \<Rightarrow> (Inl ErrCorrupt, s)
           | Some b \<Rightarrow>
               let nrec = unat (NumRecords (parseNodeDescriptor b))
               in if nrec < 3 then (Inl ErrCorrupt, s)
                  else if ns < 2 * (nrec + 1) then (Inl Panic, s)
                  else let rec2 = offsetAt ns b 2; free = offsetAt ns b nrec
                       in if rec2 < nodeDescriptorLen \<or> free > ns \<or> rec2 > free then (Inl ErrCorrupt, s)
                          else (Inr \<lparr>stNode = 0, stLo = rec2, stBytes = gslice b rec2 free\<rparr>, s))"

definition mapNodeSlice :: "treeSel \<Rightarrow> u32 \<Rightarrow> (wst, stretch) op" where
  "mapNodeSlice sel n =
     bnd (nodeBytes sel n)
       (\<lambda>b s. let ns = nodeSize (writerOf sel s)
        in case b of
             None \<Rightarrow> (Inl ErrCorrupt, s)
           | Some b \<Rightarrow>
               let rec0 = offsetAt ns b 0; rec1 = offsetAt ns b 1
               in if rec0 < nodeDescriptorLen \<or> rec1 > ns \<or> rec0 > rec1 then (Inl ErrCorrupt, s)
                  else (Inr \<lparr>stNode = n, stLo = rec0, stBytes = gslice b rec0 rec1\<rparr>, s))"

text \<open>
  \<^verbatim>\<open>walkMap\<close>: the callback gets the bit offset of a stretch, its bytes and the captured
  variables, and says whether to stop; where it stopped is part of the result, because
  \<^verbatim>\<open>setNodeBit\<close> writes there. The chain of map nodes is followed without a guard in the code;
  the fuel \<open>2 ^ 32\<close> exceeds the number of node numbers, so running out of it means that the
  chain is a cycle and the loop does not end.
\<close>

primrec walkChain :: "nat \<Rightarrow> treeSel \<Rightarrow> (u32 \<Rightarrow> bytes \<Rightarrow> 'a \<Rightarrow> bool \<times> 'a) \<Rightarrow> u32 \<Rightarrow> u32 \<Rightarrow> 'a
    \<Rightarrow> (wst, 'a \<times> stretch option) op" where
  "walkChain 0 sel fn cur bitBase acc = raise NoReturn"
| "walkChain (Suc fuel) sel fn cur bitBase acc =
     (if cur = 0 then ret (acc, None)
      else bnd (mapNodeSlice sel cur)
             (\<lambda>m. case fn bitBase (stBytes m) acc of
                (stop, acc') \<Rightarrow>
                  if stop then ret (acc', Some m)
                  else bnd (liveNode sel cur)
                         (\<lambda>b. walkChain fuel sel fn (FLink (parseNodeDescriptor b))
                                (bitBase + of_nat (length (stBytes m)) * 8) acc')))"

definition walkMap :: "treeSel \<Rightarrow> (u32 \<Rightarrow> bytes \<Rightarrow> 'a \<Rightarrow> bool \<times> 'a) \<Rightarrow> 'a \<Rightarrow> (wst, 'a \<times> stretch option) op" where
  "walkMap sel fn acc =
     bnd (headerMapSlice sel)
       (\<lambda>m. case fn 0 (stBytes m) acc of
          (stop, acc') \<Rightarrow>
            if stop then ret (acc', Some m)
            else bnd (liveNode sel 0)
                   (\<lambda>b. walkChain (2 ^ 32) sel fn (FLink (parseNodeDescriptor b))
                          (of_nat (length (stBytes m)) * 8) acc'))"

definition mapCapacityBits :: "treeSel \<Rightarrow> (wst, u32) op" where
  "mapCapacityBits sel =
     bnd (walkMap sel (\<lambda>_ m cap. (False, cap + of_nat (length m) * 8)) 0) (\<lambda>r. ret (fst r))"

definition inStretch :: "u32 \<Rightarrow> u32 \<Rightarrow> bytes \<Rightarrow> bool" where
  "inStretch n bitBase m \<longleftrightarrow> \<not> (n < bitBase \<or> n \<ge> bitBase + of_nat (length m) * 8)"

definition setNodeBit :: "treeSel \<Rightarrow> u32 \<Rightarrow> bool \<Rightarrow> (wst, unit) op" where
  "setNodeBit sel n used =
     bnd (walkMap sel (\<lambda>bitBase m acc. (inStretch n bitBase m, bitBase)) 0)
       (\<lambda>r. case snd r of
              None \<Rightarrow> raise ErrCorrupt
            | Some m \<Rightarrow>
                let rel = unat (n - fst r);
                    m' = (if used then setBit (stBytes m) rel else clrBit (stBytes m) rel)
                in bnd (liveNode sel (stNode m)) (\<lambda>b. putNode sel (stNode m) (overwrite b (stLo m) m')))"

text \<open>The callback of \<^verbatim>\<open>firstFreeNode\<close> (and of \<^verbatim>\<open>addMapNode\<close>): the first clear bit below \<open>limit\<close>.\<close>

fun scanBits :: "bytes \<Rightarrow> u32 \<Rightarrow> u32 \<Rightarrow> nat list \<Rightarrow> bool \<times> u32 option" where
  "scanBits m bitBase limit [] = (False, None)"
| "scanBits m bitBase limit (i # is) =
     (let n = bitBase + of_nat i
      in if n \<ge> limit then (True, None)
         else if \<not> getBit m i then (True, Some n)
         else scanBits m bitBase limit is)"

definition freeSlot :: "treeSel \<Rightarrow> u32 \<Rightarrow> (wst, u32 option) op" where
  "freeSlot sel limit =
     bnd (walkMap sel (\<lambda>bitBase m _. scanBits m bitBase limit [0..<length m * 8]) None) (\<lambda>r. ret (fst r))"

definition firstFreeNode :: "treeSel \<Rightarrow> (wst, u32 option) op" where
  "firstFreeNode sel = bnd (totalNodes sel) (freeSlot sel)"

section \<open>What no edit changes\<close>

text \<open>Operations that only read.\<close>

lemma quiet_nodeBytes [quiet_rules]: "quiet (nodeBytes sel n)"
  unfolding nodeBytes_def by (intro quiet_rules)

lemma quiet_nodeSizeOf [quiet_rules]: "quiet (nodeSizeOf sel)"
  unfolding nodeSizeOf_def by (intro quiet_rules)

lemma quiet_liveNode [quiet_rules]: "quiet (liveNode sel n)"
  unfolding liveNode_def by (intro quiet_rules)

lemma quiet_hdr [quiet_rules]:
  "quiet (hdrU16 sel off)" "quiet (hdrU32 sel off)" "quiet (treeDepth sel)" "quiet (rootNode sel)"
  "quiet (leafRecords sel)" "quiet (firstLeaf sel)" "quiet (totalNodes sel)" "quiet (freeNodes sel)"
  unfolding hdrU16_def hdrU32_def treeDepth_def rootNode_def leafRecords_def firstLeaf_def totalNodes_def
    freeNodes_def by (intro quiet_rules)+

lemma quiet_loadNode [quiet_rules]: "quiet (loadNode sel n)"
  unfolding loadNode_def by (intro quiet_rules) (auto simp: quiet_def split: option.split sum.split)

lemma quiet_slices [quiet_rules]: "quiet (headerMapSlice sel)" "quiet (mapNodeSlice sel n)"
  unfolding headerMapSlice_def mapNodeSlice_def
  by (intro quiet_rules; auto simp: quiet_def Let_def split: option.split)+

lemma quiet_walkChain [quiet_rules]: "quiet (walkChain fuel sel fn cur bitBase acc)"
proof (induction fuel arbitrary: cur bitBase acc)
  case 0
  show ?case by (simp add: quiet_raise)
next
  case (Suc fuel)
  show ?case unfolding walkChain.simps by (intro quiet_rules Suc.IH)
qed

lemma quiet_walkMap [quiet_rules]: "quiet (walkMap sel fn acc)"
  unfolding walkMap_def by (intro quiet_rules)

lemma quiet_map [quiet_rules]: "quiet (mapCapacityBits sel)" "quiet (freeSlot sel limit)" "quiet (firstFreeNode sel)"
  unfolding mapCapacityBits_def freeSlot_def firstFreeNode_def by (intro quiet_rules)+

declare quiet_nodeSizeOf [THEN quiet_keeps, keeps_rules]
  quiet_nodeBytes [THEN quiet_keeps, keeps_rules] quiet_liveNode [THEN quiet_keeps, keeps_rules]
  quiet_hdr [THEN quiet_keeps, keeps_rules] quiet_loadNode [THEN quiet_keeps, keeps_rules]
  quiet_slices [THEN quiet_keeps, keeps_rules] quiet_walkMap [THEN quiet_keeps, keeps_rules]
  quiet_map [THEN quiet_keeps, keeps_rules]

text \<open>The size of the image, the mode it was opened in, and the node sizes: of the trees of a volume, and
  of the two writers of a transaction.\<close>

definition usable :: "nat \<Rightarrow> Volume \<Rightarrow> bool" where
  "usable n v \<longleftrightarrow> length (disk v) = n \<and> vsize v = int n \<and> wr v \<and> 512 \<le> NodeSize (theader (catalogTree v))
     \<and> (\<forall>t. extentsTree v = Some t \<longrightarrow> 512 \<le> NodeSize (theader t))"

definition steady :: "nat \<Rightarrow> wst \<Rightarrow> bool" where
  "steady n s \<longleftrightarrow> usable n (wvol s) \<and> 512 \<le> nodeSize (wcat s) \<and> 512 \<le> nodeSize (wext s)"

lemma steady_nodeSize: "steady n s \<Longrightarrow> 512 \<le> nodeSize (writerOf sel s)"
  by (cases sel) (auto simp: steady_def writerOf_def)

lemma writerOf_simps [simp]:
  "writerOf sel (setDisk d s) = writerOf sel s" "writerOf sel (cacheHeader sel' f s) = writerOf sel s"
  "disk (wvol (setDisk d s)) = d" "disk (wvol (cacheHeader sel' f s)) = disk (wvol s)"
  by (cases sel; cases sel'; simp add: writerOf_def setDisk_def cacheHeader_def)+

lemma nodeAddr_inside: "nodeAddr sel n s = Inr (Some a) \<Longrightarrow> a + nodeSize (writerOf sel s) \<le> length (disk (wvol s))"
  by (auto simp: nodeAddr_def Let_def split: option.splits if_splits)

lemma nodeBytes_length: "nodeBytes sel n s = (Inr (Some b), s') \<Longrightarrow> length b = nodeSize (writerOf sel s)"
  using nodeAddr_inside [of sel n s] by (auto simp: nodeBytes_def liftR_def bindR_def split: sum.splits)

lemma liveNode_eq: "liveNode sel n s = (Inr b, s') \<longleftrightarrow> nodeBytes sel n s = (Inr (Some b), s')"
  by (auto simp: liveNode_def bnd_def ret_def raise_def split: sum.splits prod.splits option.splits)

lemma liveNode_length: "liveNode sel n s = (Inr b, s') \<Longrightarrow> length b = nodeSize (writerOf sel s)"
  unfolding liveNode_eq by (rule nodeBytes_length)

text \<open>A frame of tree edits: what holds across a write of a node, which does not change the size of the
  image, and a change of a cached header. Every edit of a tree keeps such a property.\<close>

locale edit_frame =
  fixes I :: "wst \<Rightarrow> bool"
  assumes I_disk: "I s \<Longrightarrow> length d = length (disk (wvol s)) \<Longrightarrow> I (setDisk d s)"
    and I_cache: "I s \<Longrightarrow> (\<And>h. NodeSize (f h) = NodeSize h) \<Longrightarrow> I (cacheHeader sel f s)"
    and I_nodeSize: "I s \<Longrightarrow> 512 \<le> nodeSize (writerOf sel s)"
begin

lemma I_putNode: "I s \<Longrightarrow> length b = nodeSize (writerOf sel s) \<Longrightarrow> I (snd (putNode sel k b s))"
  using nodeAddr_inside [of sel k s] by (auto simp: putNode_def I_disk split: sum.split option.split)

lemma keeps_putHdr [keeps_rules]:
  assumes "off + length xs \<le> 400" shows "keeps I (putHdr sel off xs)"
  unfolding putHdr_def
proof (rule keeps_bnd_run)
  fix s0 b s assume st: "I s0" "I s" and l: "liveNode sel 0 s0 = (Inr b, s)"
  then have "s = s0" using quietD quiet_liveNode by metis
  moreover have "length b = nodeSize (writerOf sel s0)" using l liveNode_length by metis
  ultimately show "I (snd (putNode sel 0 (overwrite b (nodeDescriptorLen + off) xs) s))"
    using assms I_nodeSize [OF st(1), of sel] st(1)
    by (intro I_putNode) (simp_all add: nodeDescriptorLen_def)
qed (intro keeps_rules)

lemma keeps_setters [keeps_rules]:
  "keeps I (setTreeDepth sel d)" "keeps I (setLeafRecords sel k)"
  "keeps I (setTotalNodes sel k)" "keeps I (setFreeNodes sel k)"
  "keeps I (setRootNode sel k)" "keeps I (setFirstLeaf sel k)" "keeps I (setLastLeaf sel k)"
  unfolding setTreeDepth_def setLeafRecords_def setTotalNodes_def setFreeNodes_def setRootNode_def
    setFirstLeaf_def setLastLeaf_def
  by (intro keeps_rules; simp add: I_cache)+

lemma keeps_storeNode [keeps_rules]: "keeps I (storeNode sel en)"
  unfolding storeNode_def
proof (rule keeps_bnd_run)
  fix s0 x s assume "I s0" and st: "I s"
  let ?ns = "nodeSize (writerOf sel s)"
  obtain ok b' where p: "packNode ?ns (edesc en) (erecs en) = (ok, b')" by fastforce
  then have "length b' = ?ns" using length_packNode_any [of ?ns "edesc en" "erecs en"] I_nodeSize [OF st, of sel] by simp
  then have "I (snd (putNode sel (num en) b' s))" by (rule I_putNode [OF st])
  then show "I (snd (case x of None \<Rightarrow> (Inl ErrCorrupt, s) | Some _ \<Rightarrow>
       case packNode ?ns (edesc en) (erecs en) of (ok, b') \<Rightarrow>
         bnd (putNode sel (num en) b') (\<lambda>_. if ok then ret () else raise ErrNodeFull) s))"
    using st p by (auto simp: bnd_def ret_def raise_def split: option.split prod.split sum.split)
qed (intro keeps_rules)

lemma keeps_eraseNode [keeps_rules]: "keeps I (eraseNode sel k)"
  unfolding eraseNode_def
proof (rule keeps_bnd_run)
  fix s0 x s assume st: "I s0" "I s" and b: "nodeBytes sel k s0 = (Inr x, s)"
  then have "s = s0" using quietD quiet_nodeBytes by metis
  then have "I (snd (putNode sel k (replicate (length b') 0) s))" if "x = Some b'" for b'
    using b st that nodeBytes_length by (intro I_putNode) auto
  then show "I (snd ((case x of None \<Rightarrow> ret False
       | Some b \<Rightarrow> bnd (putNode sel k (replicate (length b) 0)) (\<lambda>_. ret True)) s))"
    using st by (cases x) (auto simp: bnd_def ret_def split: prod.split sum.split)
qed (intro keeps_rules)

end

text \<open>A stretch of the bitmap lies inside its node.\<close>

lemma stretch_inside:
  "headerMapSlice sel s = (Inr m, s') \<Longrightarrow> stLo m + length (stBytes m) \<le> nodeSize (writerOf sel s)"
  "mapNodeSlice sel n s = (Inr m, s') \<Longrightarrow> stLo m + length (stBytes m) \<le> nodeSize (writerOf sel s)"
  by (auto simp: headerMapSlice_def mapNodeSlice_def bnd_eq_Inr Let_def dest!: quietD [OF quiet_nodeBytes]
      split: option.splits if_splits)

lemma walkChain_inside:
  "walkChain fuel sel fn cur bitBase acc s = (Inr (a, Some m), s') \<Longrightarrow>
   stLo m + length (stBytes m) \<le> nodeSize (writerOf sel s)"
proof (induction fuel arbitrary: cur bitBase acc s)
  case (Suc fuel)
  then have "cur \<noteq> 0" by (auto simp: ret_def)
  with Suc.prems obtain x s1 where x: "mapNodeSlice sel cur s = (Inr x, s1)" and
    r: "(case fn bitBase (stBytes x) acc of (stop, acc') \<Rightarrow> if stop then ret (acc', Some x)
        else bnd (liveNode sel cur) (\<lambda>b. walkChain fuel sel fn (FLink (parseNodeDescriptor b))
               (bitBase + of_nat (length (stBytes x)) * 8) acc')) s1 = (Inr (a, Some m), s')"
    unfolding walkChain.simps by (auto simp: bnd_eq_Inr)
  have s1: "s1 = s" using x quietD quiet_slices(2) by metis
  obtain stop acc' where f: "fn bitBase (stBytes x) acc = (stop, acc')" by fastforce
  show ?case
  proof (cases stop)
    case True
    then show ?thesis using r f x stretch_inside(2) [OF x] by (simp add: ret_def)
  next
    case False
    with r f obtain b s2 where "liveNode sel cur s1 = (Inr b, s2)"
      "walkChain fuel sel fn (FLink (parseNodeDescriptor b)) (bitBase + of_nat (length (stBytes x)) * 8) acc' s2 = (Inr (a, Some m), s')"
      by (auto simp: bnd_eq_Inr)
    then show ?thesis using Suc.IH s1 quietD quiet_liveNode by metis
  qed
qed (simp add: raise_def)

lemma walkMap_inside:
  assumes "walkMap sel fn acc s = (Inr (a, Some m), s')"
  shows "stLo m + length (stBytes m) \<le> nodeSize (writerOf sel s)"
proof -
  from assms obtain x s1 where x: "headerMapSlice sel s = (Inr x, s1)" and
    r: "(case fn 0 (stBytes x) acc of (stop, acc') \<Rightarrow> if stop then ret (acc', Some x)
        else bnd (liveNode sel 0) (\<lambda>b. walkChain (2 ^ 32) sel fn (FLink (parseNodeDescriptor b))
               (of_nat (length (stBytes x)) * 8) acc')) s1 = (Inr (a, Some m), s')"
    unfolding walkMap_def by (auto simp: bnd_eq_Inr)
  have s1: "s1 = s" using x quietD quiet_slices(1) by metis
  obtain stop acc' where f: "fn 0 (stBytes x) acc = (stop, acc')" by fastforce
  show ?thesis
  proof (cases stop)
    case True
    then show ?thesis using r f x stretch_inside(1) [OF x] by (simp add: ret_def)
  next
    case False
    with r f obtain b s2 where "liveNode sel 0 s1 = (Inr b, s2)"
      "walkChain (2 ^ 32) sel fn (FLink (parseNodeDescriptor b)) (of_nat (length (stBytes x)) * 8) acc' s2 = (Inr (a, Some m), s')"
      by (auto simp: bnd_eq_Inr)
    then show ?thesis using walkChain_inside s1 quietD quiet_liveNode by metis
  qed
qed

context edit_frame
begin

lemma keeps_setNodeBit [keeps_rules]: "keeps I (setNodeBit sel k used)"
  unfolding setNodeBit_def
proof (rule keeps_bnd_run)
  fix s0 r s
  assume st: "I s0" "I s" and w: "walkMap sel (\<lambda>bitBase m acc. (inStretch k bitBase m, bitBase)) 0 s0 = (Inr r, s)"
  have s: "s = s0" by (rule quietD [OF quiet_walkMap w])
  have step: "I (snd (bnd (liveNode sel (stNode m)) (\<lambda>b. putNode sel (stNode m) (overwrite b (stLo m) m')) s))"
    if "snd r = Some m" "length m' = length (stBytes m)" for m m'
  proof -
    have inside: "stLo m + length m' \<le> nodeSize (writerOf sel s)"
      using w that s by (cases r) (auto dest: walkMap_inside)
    have "I (snd (putNode sel (stNode m) (overwrite b (stLo m) m') s))" if "length b = nodeSize (writerOf sel s)" for b
      using inside that st by (intro I_putNode) auto
    moreover obtain r' t where l: "liveNode sel (stNode m) s = (r', t)" by fastforce
    moreover have "t = s" using l quietD quiet_liveNode by metis
    ultimately show ?thesis using st liveNode_length [of sel "stNode m" s] by (cases r') (auto simp: bnd_def)
  qed
  show "I (snd ((case snd r of None \<Rightarrow> raise ErrCorrupt | Some m \<Rightarrow>
      let rel = unat (k - fst r); m' = if used then setBit (stBytes m) rel else clrBit (stBytes m) rel
      in bnd (liveNode sel (stNode m)) (\<lambda>b. putNode sel (stNode m) (overwrite b (stLo m) m'))) s))"
    using step st by (cases "snd r") (auto simp: raise_def Let_def)
qed (intro keeps_rules)

end

interpretation frame: edit_frame "steady n" for n
proof
  fix s sel f d assume st: "steady n s"
  then show "512 \<le> nodeSize (writerOf sel s)" by (rule steady_nodeSize)
  show "steady n (cacheHeader sel f s)" if "\<And>h. NodeSize (f h) = NodeSize h"
    using st that by (cases sel) (auto simp: steady_def usable_def cacheHeader_def)
  show "steady n (setDisk d s)" if "length d = length (disk (wvol s))" using st that by (simp add: steady_def usable_def setDisk_def)
qed

end
