(* ===== verification/BTOps.thy ===== *)
theory BTOps
  imports BTWrite
begin

text \<open>
  \<^verbatim>\<open>btops.go\<close> with the key helpers of \<^verbatim>\<open>catwrite.go\<close>: descent to a leaf, sorted insertion,
  splits of leaves and index nodes, growth of the root. \<^verbatim>\<open>allocNode\<close> (\<^verbatim>\<open>btgrow.go\<close>) is a
  parameter \<open>al\<close> of these operations, because growing a tree's file inserts into the
  extents-overflow tree; \<open>BTGrow\<close> ties the knot. \<^verbatim>\<open>treeOps\<close> is the choice of the key decoder
  and order by \<open>treeSel\<close>.
\<close>

section \<open>Keys\<close>

definition compareRecords :: "treeSel \<Rightarrow> wst \<Rightarrow> bytes \<Rightarrow> bytes \<Rightarrow> int" where
  "compareRecords sel s a b =
     (case sel of
        forkCatalogFile \<Rightarrow>
          (case (keyFromRecord a, keyFromRecord b) of
             (Some ka, Some kb) \<Rightarrow> compareCatalogKey (catalogTree (wvol s)) ka kb
           | _ \<Rightarrow> 0)
      | forkExtentsFile \<Rightarrow>
          (case (extentsKeyOfRecord a, extentsKeyOfRecord b) of
             (Some ka, Some kb) \<Rightarrow> compareExtentsKey ka kb
           | _ \<Rightarrow> 0))"

definition indexRecordFor :: "bytes \<Rightarrow> u32 \<Rightarrow> bytes" where
  "indexRecordFor firstKey child = padEven firstKey @ enc32 child"

definition keyBytesOf :: "bytes \<Rightarrow> bytes" where
  "keyBytesOf rec = (case recordKeyLen rec of None \<Rightarrow> [] | Some keyLen \<Rightarrow> gslice rec 0 (2 + keyLen))"

section \<open>Descent\<close>

text \<open>The loop that chooses a child: the last record of the leading run whose keys are at most the
  probe's, or the first record.\<close>

definition chooseIdx :: "(bytes \<Rightarrow> int) \<Rightarrow> bytes list \<Rightarrow> nat" where
  "chooseIdx cmp recs = length (takeWhile (\<lambda>r. cmp r \<le> 0) recs) - 1"

primrec descend_loop :: "nat \<Rightarrow> treeSel \<Rightarrow> bytes \<Rightarrow> u32 \<Rightarrow> u32 list \<Rightarrow> nat list
    \<Rightarrow> (wst, u32 list \<times> nat list) op" where
  "descend_loop 0 sel probe cur path childIdx = raise ErrCorrupt"
| "descend_loop (Suc depth) sel probe cur path childIdx =
     bnd (loadNode sel cur) (\<lambda>en. bnd (getS (compareRecords sel)) (\<lambda>cmp.
       if Kind (edesc en) = kindLeafNode then ret (path @ [cur], childIdx)
       else if Kind (edesc en) \<noteq> kindIndexNode \<or> erecs en = [] then raise ErrCorrupt
       else let chosen = chooseIdx (\<lambda>r. cmp r probe) (erecs en)
            in case indexChild (erecs en ! chosen) of
                 None \<Rightarrow> raise ErrCorrupt
               | Some c \<Rightarrow> descend_loop depth sel probe c (path @ [cur]) (childIdx @ [chosen])))"

definition descend :: "treeSel \<Rightarrow> bytes \<Rightarrow> (wst, u32 list \<times> nat list) op" where
  "descend sel probe =
     bnd (rootNode sel) (\<lambda>cur. if cur = 0 then raise ErrCorrupt else descend_loop 64 sel probe cur [] [])"

section \<open>Insertion\<close>

text \<open>\<^verbatim>\<open>sort.Search\<close>: binary search for the least index in \<open>[i, j)\<close> at which \<open>f\<close> holds.\<close>

function sortSearch :: "(nat \<Rightarrow> bool) \<Rightarrow> nat \<Rightarrow> nat \<Rightarrow> nat" where
  "sortSearch f i j =
     (if i < j then let h = (i + j) div 2 in if f h then sortSearch f i h else sortSearch f (h + 1) j
      else i)"
  by pat_completeness auto
termination by (relation "measure (\<lambda>(f, i, j). j - i)") auto

declare sortSearch.simps [simp del]

definition insertSorted :: "(bytes \<Rightarrow> bytes \<Rightarrow> int) \<Rightarrow> bytes list \<Rightarrow> bytes \<Rightarrow> bytes list" where
  "insertSorted cmp recs rec =
     (let idx = sortSearch (\<lambda>i. cmp (recs ! i) rec \<ge> 0) 0 (length recs)
      in take idx recs @ rec # drop idx recs)"

definition setNodeBLink :: "treeSel \<Rightarrow> u32 \<Rightarrow> u32 \<Rightarrow> (wst, unit) op" where
  "setNodeBLink sel n b =
     bnd (loadNode sel n) (\<lambda>nf. storeNode sel (nf\<lparr>edesc := (edesc nf)\<lparr>BLink := b\<rparr>\<rparr>))"

text \<open>\<^verbatim>\<open>splitLeaf\<close> and \<^verbatim>\<open>splitIndex\<close> return the first key and the number of the new right node.\<close>

definition splitLeaf :: "(wst, u32) op \<Rightarrow> treeSel \<Rightarrow> editNode \<Rightarrow> (wst, bytes \<times> u32) op" where
  "splitLeaf al sel en =
     bnd al (\<lambda>right.
       let mid = length (erecs en) div 2;
           rightRecs = drop mid (erecs en);
           oldF = FLink (edesc en);
           rightEN = \<lparr>num = right,
                      edesc = \<lparr>FLink = oldF, BLink = num en, Kind = kindLeafNode, Height = 1, NumRecords = 0\<rparr>,
                      erecs = rightRecs\<rparr>;
           en = en\<lparr>erecs := take mid (erecs en), edesc := (edesc en)\<lparr>FLink := right\<rparr>\<rparr>
       in bnd (if oldF \<noteq> 0 then setNodeBLink sel oldF right else setLastLeaf sel right)
            (\<lambda>_. bnd (storeNode sel en)
              (\<lambda>_. bnd (storeNode sel rightEN)
                (\<lambda>_. ret (keyBytesOf (hd rightRecs), right)))))"

definition splitIndex :: "(wst, u32) op \<Rightarrow> treeSel \<Rightarrow> editNode \<Rightarrow> (wst, bytes \<times> u32) op" where
  "splitIndex al sel en =
     bnd al (\<lambda>right.
       let mid = length (erecs en) div 2;
           rightRecs = drop mid (erecs en);
           oldF = FLink (edesc en);
           rightEN = \<lparr>num = right,
                      edesc = \<lparr>FLink = oldF, BLink = num en, Kind = kindIndexNode, Height = Height (edesc en),
                               NumRecords = 0\<rparr>,
                      erecs = rightRecs\<rparr>;
           en = en\<lparr>erecs := take mid (erecs en), edesc := (edesc en)\<lparr>FLink := right\<rparr>\<rparr>
       in bnd (if oldF \<noteq> 0 then setNodeBLink sel oldF right else ret ())
            (\<lambda>_. bnd (storeNode sel en)
              (\<lambda>_. bnd (storeNode sel rightEN)
                (\<lambda>_. ret (keyBytesOf (hd rightRecs), right)))))"

text \<open>The result \<open>([], 0)\<close> says that the leaf was not split.\<close>

definition insertIntoLeaf :: "(wst, u32) op \<Rightarrow> treeSel \<Rightarrow> u32 \<Rightarrow> bytes \<Rightarrow> (wst, bytes \<times> u32) op" where
  "insertIntoLeaf al sel n rec =
     bnd (loadNode sel n) (\<lambda>en. bnd (getS (compareRecords sel)) (\<lambda>cmp. bnd (nodeSizeOf sel) (\<lambda>ns.
       let en = en\<lparr>erecs := insertSorted cmp (erecs en) rec\<rparr>
       in if recordsFit ns (erecs en) then bnd (storeNode sel en) (\<lambda>_. ret ([], 0))
          else splitLeaf al sel en)))"

definition growRoot :: "(wst, u32) op \<Rightarrow> treeSel \<Rightarrow> u32 \<Rightarrow> bytes \<Rightarrow> u32 \<Rightarrow> (wst, unit) op" where
  "growRoot al sel oldRoot splitKey splitChild =
     bnd al (\<lambda>newRoot.
       bnd (loadNode sel oldRoot) (\<lambda>oldEN.
         if erecs oldEN = [] then raise Panic
         else let rec0 = indexRecordFor (keyBytesOf (hd (erecs oldEN))) oldRoot;
                  rec1 = indexRecordFor splitKey splitChild
              in bnd (treeDepth sel) (\<lambda>d.
                   bnd (storeNode sel
                          \<lparr>num = newRoot,
                           edesc = \<lparr>FLink = 0, BLink = 0, Kind = kindIndexNode, Height = ucast (d + 1), NumRecords = 0\<rparr>,
                           erecs = [rec0, rec1]\<rparr>) (\<lambda>_.
                     bnd (setRootNode sel newRoot) (\<lambda>_.
                       bnd (treeDepth sel) (\<lambda>d. setTreeDepth sel (d + 1)))))))"

text \<open>The loop of \<^verbatim>\<open>propagateSplit\<close> over the index nodes of the path, from the leaf's parent up.\<close>

fun propagate_loop :: "(wst, u32) op \<Rightarrow> treeSel \<Rightarrow> u32 list \<Rightarrow> bytes \<Rightarrow> u32 \<Rightarrow> (wst, unit) op" where
  "propagate_loop al sel [] splitKey splitChild = ret ()"
| "propagate_loop al sel (parent # ups) splitKey splitChild =
     bnd (loadNode sel parent) (\<lambda>en. bnd (getS (compareRecords sel)) (\<lambda>cmp. bnd (nodeSizeOf sel) (\<lambda>ns.
       let en = en\<lparr>erecs := insertSorted cmp (erecs en) (indexRecordFor splitKey splitChild)\<rparr>
       in if recordsFit ns (erecs en) then storeNode sel en
          else bnd (splitIndex al sel en)
                 (\<lambda>(nk, nc). if ups = [] then growRoot al sel parent nk nc
                             else propagate_loop al sel ups nk nc))))"

definition propagateSplit :: "(wst, u32) op \<Rightarrow> treeSel \<Rightarrow> u32 list \<Rightarrow> bytes \<Rightarrow> u32 \<Rightarrow> (wst, unit) op" where
  "propagateSplit al sel path splitKey splitChild = propagate_loop al sel (rev (butlast path)) splitKey splitChild"

definition insertFirst :: "(wst, u32) op \<Rightarrow> treeSel \<Rightarrow> bytes \<Rightarrow> (wst, unit) op" where
  "insertFirst al sel rec =
     bnd al (\<lambda>leaf.
       bnd (storeNode sel
              \<lparr>num = leaf,
               edesc = \<lparr>FLink = 0, BLink = 0, Kind = kindLeafNode, Height = 1, NumRecords = 0\<rparr>,
               erecs = [rec]\<rparr>)
         (\<lambda>_. bnd (setRootNode sel leaf)
           (\<lambda>_. bnd (setFirstLeaf sel leaf)
             (\<lambda>_. bnd (setLastLeaf sel leaf)
               (\<lambda>_. bnd (setTreeDepth sel 1) (\<lambda>_. setLeafRecords sel 1))))))"

definition insertBy :: "(wst, u32) op \<Rightarrow> treeSel \<Rightarrow> bytes \<Rightarrow> (wst, unit) op" where
  "insertBy al sel rec =
     bnd (rootNode sel)
       (\<lambda>root. if root = 0 then insertFirst al sel rec
          else bnd (descend sel rec)
            (\<lambda>(path, _). bnd (insertIntoLeaf al sel (last path) rec)
              (\<lambda>(splitKey, splitChild). bnd (leafRecords sel)
                (\<lambda>k. bnd (setLeafRecords sel (k + 1))
                  (\<lambda>_. if splitChild = 0 then ret ()
                       else if length path = 1 then growRoot al sel (hd path) splitKey splitChild
                       else propagateSplit al sel path splitKey splitChild)))))"

section \<open>What insertion keeps\<close>

lemma quiet_descend_loop [quiet_rules]: "quiet (descend_loop depth sel probe cur path childIdx)"
proof (induction depth arbitrary: cur path childIdx)
  case 0
  show ?case by (simp add: quiet_raise)
next
  case (Suc depth)
  show ?case unfolding descend_loop.simps Let_def by (intro quiet_rules Suc.IH)
qed

lemma quiet_descend [quiet_rules]: "quiet (descend sel probe)"
  unfolding descend_def by (intro quiet_rules)

declare quiet_descend [THEN quiet_keeps, keeps_rules]

context edit_frame
begin

lemma keeps_setNodeBLink [keeps_rules]: "keeps I (setNodeBLink sel k b)"
  unfolding setNodeBLink_def by (intro keeps_rules)

end

text \<open>What insertion asks of the allocator of nodes: that it respects the frame.\<close>

locale node_source = edit_frame +
  fixes al :: "(wst, u32) op"
  assumes al_keeps: "keeps I al"
begin

lemma keeps_splitLeaf: "keeps I (splitLeaf al sel en)"
  unfolding splitLeaf_def Let_def by (intro keeps_rules al_keeps)

lemma keeps_splitIndex: "keeps I (splitIndex al sel en)"
  unfolding splitIndex_def Let_def by (intro keeps_rules al_keeps)

lemma keeps_growRoot: "keeps I (growRoot al sel oldRoot k c)"
  unfolding growRoot_def Let_def by (intro keeps_rules al_keeps)

lemma keeps_insertIntoLeaf: "keeps I (insertIntoLeaf al sel k rec)"
  unfolding insertIntoLeaf_def Let_def by (intro keeps_rules keeps_splitLeaf)

lemma keeps_propagate_loop: "keeps I (propagate_loop al sel ups k c)"
proof (induction ups arbitrary: k c)
  case (Cons parent ups)
  show ?case unfolding propagate_loop.simps Let_def
    by (intro keeps_rules keeps_splitIndex keeps_growRoot Cons.IH)
qed (simp add: keeps_ret)

lemma keeps_insertBy: "keeps I (insertBy al sel rec)"
  unfolding insertBy_def insertFirst_def propagateSplit_def
  by (intro keeps_rules al_keeps keeps_insertIntoLeaf keeps_growRoot keeps_propagate_loop)

end

end
