(* ===== verification/BTDelete.thy ===== *)
theory BTDelete
  imports BTOps
begin

text \<open>
  \<^verbatim>\<open>btdelete.go\<close> (with \<^verbatim>\<open>freeNode\<close> of \<^verbatim>\<open>btgrow.go\<close>): removal of a leaf record, rebalancing by
  merging with or borrowing from a sibling, repair of the keys on the path, collapse of a root
  with one child. \<open>path\<close> and \<open>childIdx\<close> are what \<^verbatim>\<open>descend\<close> returned; \<^verbatim>\<open>merge\<close> and \<^verbatim>\<open>rebalance\<close>
  call each other one level up, which is recursion on \<open>level\<close>.
\<close>

section \<open>Freeing a node\<close>

definition freeNode :: "treeSel \<Rightarrow> u32 \<Rightarrow> (wst, unit) op" where
  "freeNode sel n =
     bnd (setNodeBit sel n False) (\<lambda>_.
       bnd (eraseNode sel n) (\<lambda>_.
         bnd (freeNodes sel) (\<lambda>k. setFreeNodes sel (k + 1))))"

text \<open>
  \<^verbatim>\<open>maybeShrinkRoot\<close>. Each turn erases the old root; the fuel is the number of node numbers, and
  \<open>NoReturn\<close> is the outcome of a loop longer than that.
\<close>

primrec shrink_loop :: "nat \<Rightarrow> treeSel \<Rightarrow> (wst, unit) op" where
  "shrink_loop 0 sel = raise NoReturn"
| "shrink_loop (Suc fuel) sel =
     bnd (rootNode sel)
       (\<lambda>root. if root = 0 then ret ()
          else bnd (loadNode sel root)
            (\<lambda>en. if Kind (edesc en) \<noteq> kindIndexNode \<or> length (erecs en) \<noteq> 1 then ret ()
               else case indexChild (hd (erecs en)) of
                      None \<Rightarrow> raise ErrCorrupt
                    | Some only \<Rightarrow>
                        bnd (setRootNode sel only) (\<lambda>_.
                          bnd (treeDepth sel) (\<lambda>d.
                            bnd (setTreeDepth sel (d - 1)) (\<lambda>_.
                              bnd (freeNode sel root) (\<lambda>_. shrink_loop fuel sel))))))"

definition maybeShrinkRoot :: "treeSel \<Rightarrow> (wst, unit) op" where
  "maybeShrinkRoot sel = shrink_loop (2 ^ 32) sel"

section \<open>Fill\<close>

definition assembleProbe :: "bytes \<Rightarrow> bytes" where
  "assembleProbe key = padEven key"

definition minFill :: "nat \<Rightarrow> nat" where
  "minFill ns = ns div 2"

definition underflows :: "nat \<Rightarrow> bytes list \<Rightarrow> bool" where
  "underflows ns recs \<longleftrightarrow> usedBytes recs < minFill ns"

definition combinedFits :: "nat \<Rightarrow> bytes list \<Rightarrow> bytes list \<Rightarrow> bool" where
  "combinedFits ns a b \<longleftrightarrow>
     nodeDescriptorLen + 2 * (length a + length b + 1) + sum_list (map length a) + sum_list (map length b) \<le> ns"

definition canSpare :: "nat \<Rightarrow> bytes list \<Rightarrow> bytes list \<Rightarrow> bool" where
  "canSpare ns donor recv \<longleftrightarrow>
     \<not> length donor \<le> 1 \<and>
     nodeDescriptorLen + 2 * (length recv + 1 + 1) + length (last donor) + sum_list (map length recv) \<le> ns"

section \<open>Keys on the path\<close>

text \<open>Assignment to \<^verbatim>\<open>parent.records[i]\<close>; an index out of range is a panic.\<close>

definition setRecord :: "nat \<Rightarrow> bytes \<Rightarrow> editNode \<Rightarrow> (wst, editNode) op" where
  "setRecord i r en = (if i < length (erecs en) then ret (en\<lparr>erecs := (erecs en)[i := r]\<rparr>) else raise Panic)"

primrec updateParentKey :: "treeSel \<Rightarrow> u32 list \<Rightarrow> nat list \<Rightarrow> nat \<Rightarrow> (wst, unit) op" where
  "updateParentKey sel path childIdx 0 = ret ()"
| "updateParentKey sel path childIdx (Suc lv) =
     bnd (loadNode sel (path ! Suc lv))
       (\<lambda>child. if erecs child = [] then ret ()
          else bnd (loadNode sel (path ! lv))
            (\<lambda>parent. let myIdx = childIdx ! lv
               in if myIdx \<ge> length (erecs parent) then raise ErrCorrupt
                  else bnd (setRecord myIdx (indexRecordFor (keyBytesOf (hd (erecs child))) (path ! Suc lv)) parent)
                    (\<lambda>parent. bnd (storeNode sel parent)
                      (\<lambda>_. if myIdx \<noteq> 0 then ret () else updateParentKey sel path childIdx lv))))"

section \<open>Borrowing and merging\<close>

text \<open>\<open>lv\<close> is \<^verbatim>\<open>level-1\<close>, the level of the parent.\<close>

definition rotateFromLeft :: "treeSel \<Rightarrow> u32 list \<Rightarrow> nat list \<Rightarrow> nat \<Rightarrow> editNode \<Rightarrow> editNode \<Rightarrow> editNode
    \<Rightarrow> (wst, unit) op" where
  "rotateFromLeft sel path childIdx lv parent left en =
     (let moved = last (erecs left);
          left = left\<lparr>erecs := butlast (erecs left)\<rparr>;
          en = en\<lparr>erecs := moved # erecs en\<rparr>;
          myIdx = childIdx ! lv
      in bnd (storeNode sel left) (\<lambda>_.
           bnd (storeNode sel en) (\<lambda>_.
             bnd (setRecord myIdx (indexRecordFor (keyBytesOf (hd (erecs en))) (num en)) parent) (\<lambda>parent.
               bnd (storeNode sel parent) (\<lambda>_.
                 if myIdx = 0 then updateParentKey sel path childIdx lv else ret ())))))"

definition rotateFromRight :: "treeSel \<Rightarrow> nat list \<Rightarrow> nat \<Rightarrow> editNode \<Rightarrow> editNode \<Rightarrow> editNode \<Rightarrow> (wst, unit) op" where
  "rotateFromRight sel childIdx lv parent en right =
     (let moved = hd (erecs right);
          right = right\<lparr>erecs := tl (erecs right)\<rparr>;
          en = en\<lparr>erecs := erecs en @ [moved]\<rparr>;
          rightIdx = childIdx ! lv + 1
      in bnd (storeNode sel en) (\<lambda>_.
           bnd (storeNode sel right) (\<lambda>_.
             bnd (setRecord rightIdx (indexRecordFor (keyBytesOf (hd (erecs right))) (num right)) parent)
               (storeNode sel))))"

text \<open>\<^verbatim>\<open>merge\<close>; \<open>up\<close> is the call \<^verbatim>\<open>rebalance(path, childIdx, level-1)\<close>.\<close>

definition merge :: "(wst, unit) op \<Rightarrow> treeSel \<Rightarrow> nat \<Rightarrow> editNode \<Rightarrow> editNode \<Rightarrow> editNode \<Rightarrow> nat \<Rightarrow> (wst, unit) op" where
  "merge up sel lv parent left right sepIdx =
     (let left = left\<lparr>erecs := erecs left @ erecs right, edesc := (edesc left)\<lparr>FLink := FLink (edesc right)\<rparr>\<rparr>;
          nxt = FLink (edesc right)
      in bnd (if nxt \<noteq> 0 then setNodeBLink sel nxt (num left)
              else if Kind (edesc left) = kindLeafNode then setLastLeaf sel (num left)
              else ret ()) (\<lambda>_.
         bnd (storeNode sel left) (\<lambda>_.
         bnd (freeNode sel (num right)) (\<lambda>_.
         if length (erecs parent) < sepIdx + 2 \<or> erecs left = [] then raise Panic
         else bnd (setRecord sepIdx (indexRecordFor (keyBytesOf (hd (erecs left))) (num left))
                     (parent\<lparr>erecs := take (sepIdx + 1) (erecs parent) @ drop (sepIdx + 2) (erecs parent)\<rparr>)) (\<lambda>parent.
              bnd (storeNode sel parent) (\<lambda>_. bnd (nodeSizeOf sel) (\<lambda>ns.
                if lv = 0 then maybeShrinkRoot sel
                else if underflows ns (erecs parent) then up
                else ret ())))))))"

text \<open>Loading the sibling that \<^verbatim>\<open>parent.records[i]\<close> points to; an undecodable record gives node 0.\<close>

definition loadSibling :: "treeSel \<Rightarrow> editNode \<Rightarrow> nat \<Rightarrow> (wst, editNode) op" where
  "loadSibling sel parent i =
     (if i < length (erecs parent)
      then loadNode sel (case indexChild (erecs parent ! i) of Some c \<Rightarrow> c | None \<Rightarrow> 0)
      else raise Panic)"

text \<open>The choice among the siblings, once they are loaded.\<close>

definition rebalanceWith :: "(wst, unit) op \<Rightarrow> treeSel \<Rightarrow> u32 list \<Rightarrow> nat list \<Rightarrow> nat \<Rightarrow> editNode \<Rightarrow> editNode
    \<Rightarrow> editNode option \<Rightarrow> editNode option \<Rightarrow> (wst, unit) op" where
  "rebalanceWith up sel path childIdx lv parent en left right =
     bnd (nodeSizeOf sel) (\<lambda>ns.
      let fits = (\<lambda>o1 o2. case (o1, o2) of (Some a, Some b) \<Rightarrow> combinedFits ns (erecs a) (erecs b) | _ \<Rightarrow> False);
          spare = (\<lambda>o1. case o1 of Some d \<Rightarrow> canSpare ns (erecs d) (erecs en) | None \<Rightarrow> False)
      in if fits left (Some en) then merge up sel lv parent (the left) en (childIdx ! lv - 1)
          else if fits (Some en) right then merge up sel lv parent en (the right) (childIdx ! lv)
          else if spare left then rotateFromLeft sel path childIdx lv parent (the left) en
          else if spare right then rotateFromRight sel childIdx lv parent en (the right)
          else maybeShrinkRoot sel)"

primrec rebalance :: "treeSel \<Rightarrow> u32 list \<Rightarrow> nat list \<Rightarrow> nat \<Rightarrow> (wst, unit) op" where
  "rebalance sel path childIdx 0 = maybeShrinkRoot sel"
| "rebalance sel path childIdx (Suc lv) =
     bnd (loadNode sel (path ! Suc lv)) (\<lambda>en. bnd (nodeSizeOf sel) (\<lambda>ns.
          if \<not> underflows ns (erecs en) then ret ()
          else bnd (loadNode sel (path ! lv)) (\<lambda>parent.
            let myIdx = childIdx ! lv
            in bnd (if myIdx > 0 then bnd (loadSibling sel parent (myIdx - 1)) (\<lambda>n. ret (Some n)) else ret None) (\<lambda>left.
               bnd (if myIdx + 1 < length (erecs parent)
                    then bnd (loadSibling sel parent (myIdx + 1)) (\<lambda>n. ret (Some n)) else ret None) (\<lambda>right.
                 rebalanceWith (rebalance sel path childIdx lv) sel path childIdx lv parent en left right)))))"

section \<open>Deletion\<close>

text \<open>The result says whether \<^verbatim>\<open>match\<close> held for a record.\<close>

definition deleteByKey :: "treeSel \<Rightarrow> bytes \<Rightarrow> (wst \<Rightarrow> bytes \<Rightarrow> bool) \<Rightarrow> (wst, bool) op" where
  "deleteByKey sel probeKey match =
     bnd (rootNode sel) (\<lambda>root.
       if root = 0 then ret False
       else bnd (descend sel (assembleProbe probeKey)) (\<lambda>(path, childIdx).
         bnd (loadNode sel (last path)) (\<lambda>en. bnd (getS match) (\<lambda>test.
           let idx = length (takeWhile (\<lambda>r. \<not> test r) (erecs en))
           in if idx \<ge> length (erecs en) then ret False
              else let en = en\<lparr>erecs := take idx (erecs en) @ drop (idx + 1) (erecs en)\<rparr>
                   in bnd (leafRecords sel) (\<lambda>k.
                      bnd (setLeafRecords sel (k - 1)) (\<lambda>_.
                      bnd (storeNode sel en) (\<lambda>_.
                      bnd (if length path = 1 then
                             if erecs en = [] then
                               bnd (freeNode sel (last path)) (\<lambda>_.
                               bnd (setRootNode sel 0) (\<lambda>_.
                               bnd (setFirstLeaf sel 0) (\<lambda>_.
                               bnd (setLastLeaf sel 0) (\<lambda>_. setTreeDepth sel 0))))
                             else ret ()
                           else bnd (if idx = 0 \<and> erecs en \<noteq> [] then updateParentKey sel path childIdx (length path - 1)
                                     else ret ()) (\<lambda>_.
                                rebalance sel path childIdx (length path - 1)))
                        (\<lambda>_. ret True))))))))"

section \<open>What deletion keeps\<close>

lemma quiet_setRecord [quiet_rules]: "quiet (setRecord i r en)"
  unfolding setRecord_def by (intro quiet_rules)

lemma quiet_loadSibling [quiet_rules]: "quiet (loadSibling sel parent i)"
  unfolding loadSibling_def by (intro quiet_rules)

declare quiet_setRecord [THEN quiet_keeps, keeps_rules] quiet_loadSibling [THEN quiet_keeps, keeps_rules]

context edit_frame
begin

lemma keeps_freeNode [keeps_rules]: "keeps I (freeNode sel k)"
  unfolding freeNode_def by (intro keeps_rules)

lemma keeps_shrink_loop: "keeps I (shrink_loop fuel sel)"
proof (induction fuel)
  case (Suc fuel)
  show ?case unfolding shrink_loop.simps by (intro keeps_rules Suc.IH)
qed (simp add: keeps_raise)

lemma keeps_maybeShrinkRoot [keeps_rules]: "keeps I (maybeShrinkRoot sel)"
  unfolding maybeShrinkRoot_def by (rule keeps_shrink_loop)

lemma keeps_updateParentKey [keeps_rules]: "keeps I (updateParentKey sel path childIdx lv)"
proof (induction lv)
  case (Suc lv)
  show ?case unfolding updateParentKey.simps Let_def by (intro keeps_rules Suc.IH)
qed (simp add: keeps_ret)

lemma keeps_rotate [keeps_rules]:
  "keeps I (rotateFromLeft sel path childIdx lv parent left en)"
  "keeps I (rotateFromRight sel childIdx lv parent en right)"
  unfolding rotateFromLeft_def rotateFromRight_def Let_def by (intro keeps_rules)+

lemma keeps_merge: "keeps I up \<Longrightarrow> keeps I (merge up sel lv parent left right sepIdx)"
  unfolding merge_def Let_def by (intro keeps_rules)

lemma keeps_rebalance [keeps_rules]: "keeps I (rebalance sel path childIdx lv)"
proof (induction lv)
  case 0
  show ?case unfolding rebalance.simps by (intro keeps_rules)
next
  case (Suc lv)
  show ?case unfolding rebalance.simps rebalanceWith_def Let_def by (intro keeps_rules keeps_merge Suc.IH)
qed

lemma keeps_deleteByKey [keeps_rules]: "keeps I (deleteByKey sel probe match)"
  unfolding deleteByKey_def Let_def by (intro keeps_rules)

end

end
