(* ===== verification/ExtWrite.thy ===== *)
theory ExtWrite
  imports BTDelete
begin

text \<open>
  \<^verbatim>\<open>extwrite.go\<close>: insertion of continuation records into the extents-overflow tree and their
  removal. The allocator of tree nodes is a parameter \<open>al\<close>, as in \<open>BTOps\<close>.
\<close>

definition newExtentsWriter :: "Volume \<Rightarrow> btreeWriter result" where
  "newExtentsWriter v =
     (case extentsTree v of
        None \<Rightarrow> Inl ErrCorrupt
      | Some t \<Rightarrow> newBTreeWriter v t forkExtentsFile)"

definition deleteKey :: "extentsKey \<Rightarrow> (wst, unit) op" where
  "deleteKey key =
     bnd (deleteByKey forkExtentsFile (encodeExtentsKey (exForkType key) (exFileID key) (exStartBlock key))
            (\<lambda>_ rec. case extentsKeyOfRecord rec of None \<Rightarrow> False | Some k \<Rightarrow> compareExtentsKey k key = 0))
       (\<lambda>_. ret ())"

definition insertOrReplace :: "(wst, u32) op \<Rightarrow> bytes \<Rightarrow> (wst, unit) op" where
  "insertOrReplace al rec =
     (case extentsKeyOfRecord rec of
        None \<Rightarrow> raise ErrCorrupt
      | Some key \<Rightarrow> bnd (deleteKey key) (\<lambda>_. insertBy al forkExtentsFile rec))"

text \<open>The records of the loop (\<open>extentRecords\<close>) do not depend on the state.\<close>

primrec insertAllRecords :: "(wst, u32) op \<Rightarrow> bytes list \<Rightarrow> (wst, unit) op" where
  "insertAllRecords al [] = ret ()"
| "insertAllRecords al (rec # recs) = bnd (insertOrReplace al rec) (\<lambda>_. insertAllRecords al recs)"

definition insertExtentRecords :: "(wst, u32) op \<Rightarrow> u32 \<Rightarrow> byte \<Rightarrow> u32 \<Rightarrow> extentDescriptor list \<Rightarrow> (wst, unit) op" where
  "insertExtentRecords al fid ft startBlock exts = insertAllRecords al (extentRecords ft fid startBlock exts)"

text \<open>
  The first loop of \<^verbatim>\<open>deleteAllForFork\<close>: keys and extents of the fork, over all leaves. The chain is
  followed without a guard; the fuel exceeds the number of node numbers, so \<open>NoReturn\<close> is a
  cyclic chain. The extents of a record are read up to its length, not only the first eight.
\<close>

definition collectStep :: "u32 \<Rightarrow> byte \<Rightarrow> bytes \<Rightarrow> extentsKey list \<times> extentDescriptor list
    \<Rightarrow> extentsKey list \<times> extentDescriptor list" where
  "collectStep fid ft rec acc =
     (case extentsKeyOfRecord rec of
        None \<Rightarrow> acc
      | Some k \<Rightarrow>
          if exFileID k \<noteq> fid \<or> exForkType k \<noteq> ft then acc
          else (fst acc @ [k],
                case recordData rec of
                  None \<Rightarrow> snd acc
                | Some data \<Rightarrow> snd acc @ readExts (length data div 8) data))"

primrec collect_loop :: "nat \<Rightarrow> u32 \<Rightarrow> byte \<Rightarrow> u32 \<Rightarrow> extentsKey list \<times> extentDescriptor list
    \<Rightarrow> (wst, extentsKey list \<times> extentDescriptor list) op" where
  "collect_loop 0 fid ft leaf acc = raise NoReturn"
| "collect_loop (Suc fuel) fid ft leaf acc =
     (if leaf = 0 then ret acc
      else bnd (loadNode forkExtentsFile leaf)
             (\<lambda>en. collect_loop fuel fid ft (FLink (edesc en)) (fold (collectStep fid ft) (erecs en) acc)))"

primrec deleteKeys :: "extentsKey list \<Rightarrow> (wst, unit) op" where
  "deleteKeys [] = ret ()"
| "deleteKeys (k # ks) = bnd (deleteKey k) (\<lambda>_. deleteKeys ks)"

text \<open>Keys that \<^verbatim>\<open>compareExtentsKey\<close> finds equal are equal, so sorting is sorting by the fields.\<close>

definition sortKeys :: "extentsKey list \<Rightarrow> extentsKey list" where
  "sortKeys = sort_key (\<lambda>k. (exFileID k, exForkType k, exStartBlock k))"

definition deleteAllForFork :: "u32 \<Rightarrow> byte \<Rightarrow> (wst, extentDescriptor list) op" where
  "deleteAllForFork fid ft =
     bnd (rootNode forkExtentsFile) (\<lambda>root.
       if root = 0 then ret []
       else bnd (firstLeaf forkExtentsFile) (\<lambda>leaf.
         bnd (collect_loop (2 ^ 32) fid ft leaf ([], [])) (\<lambda>(keys, freed).
           bnd (deleteKeys (sortKeys keys)) (\<lambda>_. ret freed))))"

section \<open>What the extents writer keeps\<close>

lemma quiet_collect_loop [quiet_rules]: "quiet (collect_loop fuel fid ft leaf acc)"
proof (induction fuel arbitrary: leaf acc)
  case (Suc fuel)
  show ?case unfolding collect_loop.simps by (intro quiet_rules Suc.IH)
qed (simp add: quiet_raise)

context edit_frame
begin

lemma keeps_deleteKey [keeps_rules]: "keeps I (deleteKey key)"
  unfolding deleteKey_def by (intro keeps_rules)

lemma keeps_deleteKeys [keeps_rules]: "keeps I (deleteKeys ks)"
proof (induction ks)
  case (Cons k ks)
  show ?case unfolding deleteKeys.simps by (intro keeps_rules Cons.IH)
qed (simp add: keeps_ret)

lemma keeps_deleteAllForFork [keeps_rules]: "keeps I (deleteAllForFork fid ft)"
  unfolding deleteAllForFork_def by (intro keeps_rules quiet_collect_loop [THEN quiet_keeps])

end

context node_source
begin

lemma keeps_insertAllRecords: "keeps I (insertAllRecords al recs)"
proof (induction recs)
  case (Cons rec recs)
  show ?case unfolding insertAllRecords.simps insertOrReplace_def by (intro keeps_rules keeps_insertBy Cons.IH)
qed (simp add: keeps_ret)

lemma keeps_insertExtentRecords: "keeps I (insertExtentRecords al fid ft b exts)"
  unfolding insertExtentRecords_def by (rule keeps_insertAllRecords)

end

end
