(* ===== verification/BTGrow.thy ===== *)
theory BTGrow
  imports ExtWrite
begin

text \<open>
  \<^verbatim>\<open>btgrow.go\<close>: allocation of tree nodes and growth of a tree's file: more allocation blocks, the
  fork descriptor in both volume headers, continuation records in the extents-overflow tree,
  and map nodes for the node bitmap. Growing the extents tree may insert into the extents tree
  itself, which is recursion through \<^verbatim>\<open>allocNode\<close>. Every level of it takes at least one free
  allocation block before it recurses, so the number of free blocks bounds the depth:
  \<open>allocNodeF\<close> recurses on that bound, and \<open>GrowBound\<close> shows that more fuel changes nothing.
\<close>

section \<open>Map nodes\<close>

text \<open>Go's division truncates towards zero. A divisor 0 panics; callers pass a node or block size.\<close>

definition goDiv :: "int \<Rightarrow> int \<Rightarrow> int" where
  "goDiv a b = sgn a * (\<bar>a\<bar> div b)"

definition forkNodes :: "btreeWriter \<Rightarrow> u32" where
  "forkNodes w = word_of_int (goDiv (wrap64 (uint (forkBlocks w) * bwBs w)) (int (nodeSize w)))"

primrec lastMap_loop :: "nat \<Rightarrow> treeSel \<Rightarrow> u32 \<Rightarrow> u32 \<Rightarrow> (wst, u32) op" where
  "lastMap_loop 0 sel lst cur = raise NoReturn"
| "lastMap_loop (Suc fuel) sel lst cur =
     (if cur = 0 then ret lst
      else bnd (liveNode sel cur) (\<lambda>b. lastMap_loop fuel sel cur (FLink (parseNodeDescriptor b))))"

definition mapNodeImage :: "nat \<Rightarrow> bytes" where
  "mapNodeImage ns =
     writeOffsetTable
       (writeNodeDescriptor (replicate ns 0)
          \<lparr>FLink = 0, BLink = 0, Kind = kindMapNode, Height = 0, NumRecords = 1\<rparr>)
       [of_nat nodeDescriptorLen, of_nat (ns - 4)]"

definition initMapNode :: "treeSel \<Rightarrow> u32 \<Rightarrow> (wst, unit) op" where
  "initMapNode sel slot =
     bnd (nodeBytes sel slot)
       (\<lambda>b. case b of None \<Rightarrow> raise ErrCorrupt | Some b \<Rightarrow> putNode sel slot (mapNodeImage (length b)))"

definition linkMapNode :: "treeSel \<Rightarrow> u32 \<Rightarrow> u32 \<Rightarrow> (wst, unit) op" where
  "linkMapNode sel lst slot =
     bnd (liveNode sel lst)
       (\<lambda>lb. putNode sel lst (writeNodeDescriptor lb ((parseNodeDescriptor lb)\<lparr>FLink := slot\<rparr>)))"

definition addMapNode :: "treeSel \<Rightarrow> (wst, unit) op" where
  "addMapNode sel =
     bnd (getS (\<lambda>s. forkNodes (writerOf sel s))) (\<lambda>cap.
     bnd (liveNode sel 0) (\<lambda>hb.
     bnd (lastMap_loop (2 ^ 32) sel 0 (FLink (parseNodeDescriptor hb))) (\<lambda>lst.
     bnd (freeSlot sel cap) (\<lambda>slot.
       case slot of
         None \<Rightarrow> raise ErrNoSpace
       | Some slot \<Rightarrow>
           bnd (initMapNode sel slot) (\<lambda>_.
           bnd (linkMapNode sel lst slot) (\<lambda>_. setNodeBit sel slot True))))))"

text \<open>The loop ends when the bitmap addresses \<open>tot\<close> nodes; each turn adds a whole map node, so the
  fuel covers every count.\<close>

primrec ensure_loop :: "nat \<Rightarrow> treeSel \<Rightarrow> u32 \<Rightarrow> u32 \<Rightarrow> (wst, u32) op" where
  "ensure_loop 0 sel tot added = raise NoReturn"
| "ensure_loop (Suc fuel) sel tot added =
     bnd (mapCapacityBits sel) (\<lambda>cap.
       if cap \<ge> tot then ret added
       else bnd (addMapNode sel) (\<lambda>_. ensure_loop fuel sel tot (added + 1)))"

definition ensureMapCapacity :: "treeSel \<Rightarrow> u32 \<Rightarrow> (wst, u32) op" where
  "ensureMapCapacity sel tot = ensure_loop (2 ^ 32) sel tot 0"

section \<open>Growing the file\<close>

definition refreshHeader :: "(wst, unit) op" where
  "refreshHeader s =
     (case readVolumeHeader (disk (wvol s)) of
        Inl e \<Rightarrow> (Inl e, s)
      | Inr h \<Rightarrow> (Inr (), s\<lparr>wvol := (wvol s)\<lparr>vh := h\<rparr>\<rparr>))"

definition spillForkOverflow :: "(wst, u32) op \<Rightarrow> treeSel \<Rightarrow> extentDescriptor list \<Rightarrow> (wst, unit) op" where
  "spillForkOverflow al sel exts =
     insertExtentRecords al (specialFileID sel) forkTypeData
       (sum_list (map BlockCount (take numInlineExtents exts))) (drop numInlineExtents exts)"

text \<open>\<open>grownFork\<close> is the fork descriptor after the runs were appended, \<open>putForkDescriptor\<close> its copy
  into both headers (\<^verbatim>\<open>encodeForkDescriptor\<close> writes what \<^verbatim>\<open>encodeForkInto\<close> writes).\<close>

definition grownFork :: "int \<Rightarrow> extentDescriptor list \<Rightarrow> extentDescriptor list \<Rightarrow> forkData \<Rightarrow> forkData" where
  "grownFork bs exts runs fd =
     (let tot = fdTotalBlocks fd + sum_list (map BlockCount runs)
      in fd\<lparr>fdTotalBlocks := tot, LogicalSize := ucast tot * word_of_int bs, Extents := inlineOf exts\<rparr>)"

definition putForkDescriptor :: "nat \<Rightarrow> forkData \<Rightarrow> bytes \<Rightarrow> bytes" where
  "putForkDescriptor off fd img =
     (let img1 = overwrite img (volumeHeaderOffset + off)
                   (encodeForkInto (gslice img (volumeHeaderOffset + off) (volumeHeaderOffset + off + forkDataLen)) fd);
          alt = length img1 - 1024 + off
      in overwrite img1 alt (encodeForkInto (gslice img1 alt (alt + forkDataLen)) fd))"

definition appendForkExtents :: "(wst, u32) op \<Rightarrow> treeSel \<Rightarrow> extentDescriptor list \<Rightarrow> (wst, unit) op" where
  "appendForkExtents al sel runs s =
     (let img = disk (wvol s);
          off = specialBase + forkIndex sel * forkDataLen
      in if length img < volumeHeaderOffset + 512 then (Inl Panic, s)
         else let fd = parseForkData (gslice img (volumeHeaderOffset + off) (volumeHeaderOffset + off + forkDataLen));
                  w = writerOf sel s;
                  exts = bwExtents w @ runs;
                  fd' = grownFork (bwBs w) exts runs fd;
                  s1 = setDisk (putForkDescriptor off fd' img) (setWriter sel (w\<lparr>bwExtents := exts\<rparr>) s)
              in bnd (if length exts > numInlineExtents then spillForkOverflow al sel exts else ret ())
                     (\<lambda>_. refreshHeader) s1)"

text \<open>\<^verbatim>\<open>bw.alc.allocFragments\<close>, on the allocator that the writers share.\<close>

definition allocBlocks :: "u32 \<Rightarrow> (wst, extentDescriptor list) op" where
  "allocBlocks count s = (case allocFragments count (walc s) of (r, a) \<Rightarrow> (r, s\<lparr>walc := a\<rparr>))"

definition growNodes :: int where "growNodes = 8"

definition growBlocks :: "btreeWriter \<Rightarrow> u32" where
  "growBlocks w =
     (let n = word_of_int (goDiv (growNodes * int (nodeSize w) + bwBs w - 1) (bwBs w)) in if n = 0 then 1 else n)"

definition growForkBy :: "(wst, u32) op \<Rightarrow> treeSel \<Rightarrow> (wst, unit) op" where
  "growForkBy al sel =
     bnd (getS (writerOf sel)) (\<lambda>w.
     if bwBs w = 0 \<or> nodeSize w = 0 then raise Panic
     else bnd (allocBlocks (growBlocks w)) (\<lambda>runs.
     bnd (appendForkExtents al sel runs) (\<lambda>_.
     bnd (getS (\<lambda>s. forkNodes (writerOf sel s))) (\<lambda>newTotal.
     bnd (totalNodes sel) (\<lambda>oldTotal.
     let added = newTotal - oldTotal
     in if added = 0 then raise ErrNoSpace
        else bnd (ensureMapCapacity sel newTotal) (\<lambda>mapNodesAdded.
             bnd (setTotalNodes sel newTotal) (\<lambda>_.
             bnd (freeNodes sel) (\<lambda>k. setFreeNodes sel (k + added - mapNodesAdded)))))))))"

section \<open>Allocating a node\<close>

definition claimNode :: "treeSel \<Rightarrow> u32 \<Rightarrow> (wst, u32) op" where
  "claimNode sel n =
     bnd (setNodeBit sel n True) (\<lambda>_.
     bnd (freeNodes sel) (\<lambda>k.
     bnd (setFreeNodes sel (k - 1)) (\<lambda>_.
     bnd (eraseNode sel n) (\<lambda>ok. if ok then ret n else raise ErrCorrupt))))"

definition allocNodeBy :: "(wst, unit) op \<Rightarrow> treeSel \<Rightarrow> (wst, u32) op" where
  "allocNodeBy grow sel =
     bnd (firstFreeNode sel) (\<lambda>slot.
       case slot of
         Some n \<Rightarrow> claimNode sel n
       | None \<Rightarrow>
           bnd grow (\<lambda>_.
           bnd (firstFreeNode sel) (\<lambda>slot.
             case slot of Some n \<Rightarrow> claimNode sel n | None \<Rightarrow> raise ErrNoSpace)))"

primrec allocNodeF :: "nat \<Rightarrow> treeSel \<Rightarrow> (wst, u32) op" where
  "allocNodeF 0 sel = raise NoReturn"
| "allocNodeF (Suc fuel) sel = allocNodeBy (growForkBy (allocNodeF fuel forkExtentsFile) sel) sel"

definition freeBlocks :: "wst \<Rightarrow> nat" where
  "freeBlocks s = length (filter (\<lambda>n. \<not> testBlock (bitmap (walc s)) n) [0..<unat (bits (walc s))])"

definition allocNode :: "treeSel \<Rightarrow> (wst, u32) op" where
  "allocNode sel s = allocNodeF (Suc (freeBlocks s)) sel s"

definition insert_rec :: "treeSel \<Rightarrow> bytes \<Rightarrow> (wst, unit) op" where
  "insert_rec sel rec = insertBy (allocNode sel) sel rec"

section \<open>What growth keeps\<close>

lemma quiet_lastMap_loop [quiet_rules]: "quiet (lastMap_loop fuel sel lst cur)"
proof (induction fuel arbitrary: lst cur)
  case (Suc fuel)
  show ?case unfolding lastMap_loop.simps by (intro quiet_rules Suc.IH)
qed (simp add: quiet_raise)

lemma length_mapNodeImage: "16 \<le> ns \<Longrightarrow> length (mapNodeImage ns) = ns"
  by (simp add: mapNodeImage_def length_writeOffsetTable)

context edit_frame
begin

lemma keeps_linkMapNode [keeps_rules]: "keeps I (linkMapNode sel lst slot)"
  unfolding linkMapNode_def
proof (rule keeps_bnd_run)
  fix s0 b s assume st: "I s0" "I s" and l: "liveNode sel lst s0 = (Inr b, s)"
  have "s = s0" by (rule quietD [OF quiet_liveNode l])
  then show "I (snd (putNode sel lst (writeNodeDescriptor b ((parseNodeDescriptor b)\<lparr>FLink := slot\<rparr>)) s))"
    using st liveNode_length [OF l] I_nodeSize [OF st(1), of sel] by (intro I_putNode) simp_all
qed (intro keeps_rules)

lemma keeps_initMapNode [keeps_rules]: "keeps I (initMapNode sel k)"
  unfolding initMapNode_def
proof (rule keeps_bnd_run)
  fix s0 b s assume st: "I s0" "I s" and l: "nodeBytes sel k s0 = (Inr b, s)"
  have "s = s0" by (rule quietD [OF quiet_nodeBytes l])
  then have "I (snd (putNode sel k (mapNodeImage (length b')) s))" if "b = Some b'" for b'
    using that l st nodeBytes_length [of sel k s0 b' s] I_nodeSize [OF st(1), of sel]
    by (intro I_putNode) (simp_all add: length_mapNodeImage)
  then show "I (snd ((case b of None \<Rightarrow> raise ErrCorrupt
      | Some b \<Rightarrow> putNode sel k (mapNodeImage (length b))) s))"
    using st by (cases b) (simp_all add: raise_def)
qed (intro keeps_rules)

lemma keeps_addMapNode [keeps_rules]: "keeps I (addMapNode sel)"
  unfolding addMapNode_def by (intro keeps_rules quiet_lastMap_loop [THEN quiet_keeps])

lemma keeps_ensure_loop: "keeps I (ensure_loop fuel sel tot added)"
proof (induction fuel arbitrary: added)
  case (Suc fuel)
  show ?case unfolding ensure_loop.simps by (intro keeps_rules Suc.IH)
qed (simp add: keeps_raise)

lemma keeps_ensureMapCapacity [keeps_rules]: "keeps I (ensureMapCapacity sel tot)"
  unfolding ensureMapCapacity_def by (rule keeps_ensure_loop)

lemma keeps_claimNode [keeps_rules]: "keeps I (claimNode sel k)"
  unfolding claimNode_def by (intro keeps_rules)

lemma keeps_allocNodeBy: "keeps I grow \<Longrightarrow> keeps I (allocNodeBy grow sel)"
  unfolding allocNodeBy_def by (intro keeps_rules)

end

lemma length_putForkDescriptor:
  "volumeHeaderOffset + 512 \<le> length img \<Longrightarrow> off + forkDataLen \<le> 512 \<Longrightarrow> length (putForkDescriptor off fd img) = length img"
  by (simp add: putForkDescriptor_def Let_def header_consts)

text \<open>Growth also takes blocks, extends the writer's list of extents and reads the header again.\<close>

locale grow_frame = edit_frame +
  assumes I_extents: "I s \<Longrightarrow> I (setWriter sel ((writerOf sel s)\<lparr>bwExtents := exts\<rparr>) s)"
    and I_header: "I s \<Longrightarrow> I (s\<lparr>wvol := (wvol s)\<lparr>vh := h\<rparr>\<rparr>)"
    and I_blocks: "keeps I (allocBlocks count)"
begin

lemma keeps_refreshHeader [keeps_rules]: "keeps I refreshHeader"
  by (rule keepsI) (auto simp: refreshHeader_def I_header split: sum.split)

text \<open>The state in which \<^verbatim>\<open>appendForkExtents\<close> spills the extents that are not inline.\<close>

lemma I_appended:
  assumes "I s" "\<not> length (disk (wvol s)) < volumeHeaderOffset + 512"
  shows "I (setDisk (putForkDescriptor (specialBase + forkIndex sel * forkDataLen) fd (disk (wvol s)))
    (setWriter sel ((writerOf sel s)\<lparr>bwExtents := exts\<rparr>) s))"
proof (rule I_disk [OF I_extents [OF assms(1)]])
  have "specialBase + forkIndex sel * forkDataLen + forkDataLen \<le> 512"
    by (cases sel) (simp_all add: forkIndex_def header_consts)
  then show "length (putForkDescriptor (specialBase + forkIndex sel * forkDataLen) fd (disk (wvol s)))
      = length (disk (wvol (setWriter sel ((writerOf sel s)\<lparr>bwExtents := exts\<rparr>) s)))"
    using length_putForkDescriptor assms(2) by (cases sel) (simp_all add: setWriter_def)
qed

end

locale growing_source = grow_frame + node_source
begin

lemma keeps_appendForkExtents: "keeps I (appendForkExtents al sel runs)"
proof (rule keepsI)
  fix s assume st: "I s"
  have rest: "keeps I (bnd (if b then spillForkOverflow al sel exts else ret ()) (\<lambda>_. refreshHeader))" for b exts
    unfolding spillForkOverflow_def by (intro keeps_rules keeps_insertExtentRecords)
  show "I (snd (appendForkExtents al sel runs s))"
  proof (cases "length (disk (wvol s)) < volumeHeaderOffset + 512")
    case False
    then show ?thesis
      using I_appended [OF st] keepsD [OF rest] unfolding appendForkExtents_def Let_def
      by (simp del: bnd_ret cong del: if_weak_cong)
  qed (use st in \<open>simp add: appendForkExtents_def\<close>)
qed

lemma keeps_growForkBy: "keeps I (growForkBy al sel)"
  unfolding growForkBy_def Let_def by (intro keeps_rules I_blocks keeps_appendForkExtents)

end

context grow_frame
begin

lemma keeps_allocNodeF: "keeps I (allocNodeF fuel sel)"
proof (induction fuel arbitrary: sel)
  case (Suc fuel)
  have "growing_source I (allocNodeF fuel forkExtentsFile)" by unfold_locales (rule Suc.IH)
  then show ?case unfolding allocNodeF.simps by (intro keeps_allocNodeBy growing_source.keeps_growForkBy)
qed (simp add: keeps_raise)

lemma keeps_allocNode [keeps_rules]: "keeps I (allocNode sel)"
  by (rule keepsI, unfold allocNode_def, rule keepsD [OF keeps_allocNodeF])

end

sublocale grow_frame \<subseteq> nodes: growing_source I "allocNode sel" for sel
  by unfold_locales (rule keeps_allocNode)

context grow_frame
begin

declare I_blocks [keeps_rules]

lemma keeps_insert_rec [keeps_rules]: "keeps I (insert_rec sel rec)"
  unfolding insert_rec_def by (rule nodes.keeps_insertBy)

end

interpretation frame: grow_frame "steady n" for n
proof
  fix s sel exts h assume st: "steady n s"
  show "steady n (setWriter sel ((writerOf sel s)\<lparr>bwExtents := exts\<rparr>) s)"
    using st by (cases sel) (auto simp: steady_def usable_def setWriter_def writerOf_def)
  show "steady n (s\<lparr>wvol := (wvol s)\<lparr>vh := h\<rparr>\<rparr>)" using st by (simp add: steady_def usable_def)
next
  show "keeps (steady n) (allocBlocks count)" for count
    by (rule keepsI) (auto simp: allocBlocks_def steady_def usable_def split: prod.split)
qed

end
