(* ===== verification/GrowBound.thy ===== *)
theory GrowBound
  imports BTGrow
begin

text \<open>
  The recursion of \<^verbatim>\<open>allocNode\<close> through the extents tree is bounded. Each level takes blocks from the
  allocator before it recurses and nothing returns blocks during growth, so the number of free
  blocks is a measure: two runs with different recursion budgets above it agree on every state.
\<close>

section \<open>Agreeing operations\<close>

text \<open>The operations agree on the states of the invariant and stay in them.\<close>

definition agree :: "('s \<Rightarrow> bool) \<Rightarrow> ('s, 'a) op \<Rightarrow> ('s, 'a) op \<Rightarrow> bool" where
  "agree I m m' \<longleftrightarrow> (\<forall>s. I s \<longrightarrow> m s = m' s \<and> I (snd (m s)))"

named_theorems agree_rules "operations that agree when their parameters do"

lemma agree_keeps: "keeps I m \<Longrightarrow> agree I m m"
  by (simp add: agree_def keeps_def keepsAt_def)

lemma agreeD: "agree I m m' \<Longrightarrow> I s \<Longrightarrow> m s = m' s" "agree I m m' \<Longrightarrow> I s \<Longrightarrow> I (snd (m' s))"
  unfolding agree_def by metis+

lemma agree_bnd [agree_rules]:
  assumes "agree I m m'" "\<And>x. agree I (f x) (f' x)"
  shows "agree I (bnd m f) (bnd m' f')"
  unfolding agree_def
proof (intro allI impI)
  fix s assume I: "I s"
  obtain r t where m: "m s = (r, t)" by fastforce
  then have "m' s = (r, t)" "I t" using assms(1) I by (auto simp: agree_def)
  then show "bnd m f s = bnd m' f' s \<and> I (snd (bnd m f s))"
    using agreeD [OF assms(2)] m by (cases r) (auto simp: bnd_def)
qed

lemma agree_if [agree_rules]: "agree I m m' \<Longrightarrow> agree I k k' \<Longrightarrow> agree I (if b then m else k) (if b then m' else k')"
  by simp

lemma agree_option [agree_rules]:
  "agree I m m' \<Longrightarrow> (\<And>x. agree I (f x) (f' x)) \<Longrightarrow>
   agree I (case z of None \<Rightarrow> m | Some x \<Rightarrow> f x) (case z of None \<Rightarrow> m' | Some x \<Rightarrow> f' x)"
  by (cases z) auto

lemma agree_prod [agree_rules]:
  "(\<And>x y. agree I (f x y) (f' x y)) \<Longrightarrow> agree I (case z of (x, y) \<Rightarrow> f x y) (case z of (x, y) \<Rightarrow> f' x y)"
  by (cases z) auto

section \<open>Insertion depends on the allocator only where it is called\<close>

locale two_sources = grow_frame +
  fixes al al' :: "(wst, u32) op"
  assumes al_agree: "agree I al al'"
begin

lemma agree_splitLeaf: "agree I (splitLeaf al sel en) (splitLeaf al' sel en)"
  unfolding splitLeaf_def Let_def by (intro agree_rules al_agree; intro agree_keeps keeps_rules)

lemma agree_splitIndex: "agree I (splitIndex al sel en) (splitIndex al' sel en)"
  unfolding splitIndex_def Let_def by (intro agree_rules al_agree; intro agree_keeps keeps_rules)

lemma agree_growRoot: "agree I (growRoot al sel oldRoot k c) (growRoot al' sel oldRoot k c)"
  unfolding growRoot_def Let_def by (intro agree_rules al_agree; intro agree_keeps keeps_rules)

lemma agree_insertIntoLeaf: "agree I (insertIntoLeaf al sel k rec) (insertIntoLeaf al' sel k rec)"
  unfolding insertIntoLeaf_def Let_def by (intro agree_rules agree_splitLeaf; intro agree_keeps keeps_rules)

lemma agree_propagate_loop: "agree I (propagate_loop al sel ups k c) (propagate_loop al' sel ups k c)"
proof (induction ups arbitrary: k c)
  case (Cons parent ups)
  show ?case unfolding propagate_loop.simps Let_def
    by (intro agree_rules agree_splitIndex agree_growRoot Cons.IH; intro agree_keeps keeps_rules)
qed (simp add: agree_keeps keeps_ret)

lemma agree_insertBy: "agree I (insertBy al sel rec) (insertBy al' sel rec)"
  unfolding insertBy_def insertFirst_def propagateSplit_def
  by (intro agree_rules al_agree agree_insertIntoLeaf agree_growRoot agree_propagate_loop; intro agree_keeps keeps_rules)

lemma agree_insertAllRecords: "agree I (insertAllRecords al recs) (insertAllRecords al' recs)"
proof (induction recs)
  case (Cons rec recs)
  show ?case unfolding insertAllRecords.simps insertOrReplace_def
    by (intro agree_rules agree_insertBy Cons.IH; intro agree_keeps keeps_rules)
qed (simp add: agree_keeps keeps_ret)

lemma agree_appendForkExtents: "agree I (appendForkExtents al sel runs) (appendForkExtents al' sel runs)"
  unfolding agree_def
proof (intro allI impI)
  fix s assume st: "I s"
  have rest: "agree I (bnd (if b then spillForkOverflow al sel exts else ret ()) (\<lambda>_. refreshHeader))
      (bnd (if b then spillForkOverflow al' sel exts else ret ()) (\<lambda>_. refreshHeader))" for b exts
    unfolding spillForkOverflow_def insertExtentRecords_def
    by (intro agree_rules agree_insertAllRecords; intro agree_keeps keeps_rules)
  show "appendForkExtents al sel runs s = appendForkExtents al' sel runs s \<and> I (snd (appendForkExtents al sel runs s))"
  proof (cases "length (disk (wvol s)) < volumeHeaderOffset + 512")
    case False
    show ?thesis unfolding appendForkExtents_def Let_def if_not_P [OF False]
      using rest I_appended [OF st False] unfolding agree_def by blast
  qed (use st in \<open>simp add: appendForkExtents_def\<close>)
qed

end

section \<open>The bound\<close>

definition freeAtMost :: "nat \<Rightarrow> nat \<Rightarrow> wst \<Rightarrow> bool" where
  "freeAtMost n k s \<longleftrightarrow> steady n s \<and> freeBlocks s \<le> k"

lemma freeBlocks_card: "freeBlocks s = card (freeSet (walc s))"
proof -
  have "set (filter (\<lambda>n. \<not> testBlock (bitmap (walc s)) n) [0..<unat (bits (walc s))]) = freeSet (walc s)"
    by (auto simp: freeSet_def)
  then show ?thesis unfolding freeBlocks_def by (metis distinct_card distinct_filter distinct_upt)
qed

lemma allocBlocks_less:
  assumes "count \<noteq> 0" "allocBlocks count s = (Inr runs, s')"
  shows "freeBlocks s' < freeBlocks s"
proof -
  have pos: "0 < unat count" using assms(1) by (simp add: unat_gt_0)
  from assms(1) show ?thesis
  proof (cases rule: allocFragments_cases [of count "walc s"])
    case (fits rs)
    then have "freeSet (walc s') = freeSet (walc s) - set (blocksOf rs)" "set (blocksOf rs) \<noteq> {}"
      using assms(2) pos by (auto simp: allocBlocks_def freeSet_mark)
    moreover have "hd (blocksOf rs) \<in> set (blocksOf rs)" using fits(3) pos by (cases "blocksOf rs") auto
    then have "hd (blocksOf rs) \<in> freeSet (walc s) - freeSet (walc s')" using fits(4) calculation(1) by (metis Diff_iff subsetD)
    ultimately have "freeSet (walc s') \<subset> freeSet (walc s)" by (metis Diff_iff Diff_subset psubsetI)
    then show ?thesis unfolding freeBlocks_card by (intro psubset_card_mono) auto
  qed (use assms(2) in \<open>auto simp: allocBlocks_def\<close>)
qed

lemma allocBlocks_fail: "count \<noteq> 0 \<Longrightarrow> allocBlocks count s = (Inl e, s') \<Longrightarrow> s' = s"
  by (cases rule: allocFragments_cases [of count "walc s"]) (auto simp: allocBlocks_def)

lemma allocBlocks_le: "freeBlocks (snd (allocBlocks count s)) \<le> freeBlocks s"
proof (cases "count = 0")
  case True
  then show ?thesis by (simp add: allocBlocks_def allocFragments_def freeBlocks_def)
next
  case False
  obtain r s' where a: "allocBlocks count s = (r, s')" by fastforce
  then show ?thesis using allocBlocks_less [OF False] allocBlocks_fail [OF False] by (cases r) fastforce+
qed

interpretation bounded: grow_frame "freeAtMost n k" for n k
proof
  fix s sel exts h f d assume st: "freeAtMost n k s"
  then have s: "steady n s" "freeBlocks s \<le> k" by (simp_all add: freeAtMost_def)
  show "512 \<le> nodeSize (writerOf sel s)" by (rule frame.I_nodeSize [OF s(1)])
  have walc: "freeBlocks (cacheHeader sel f s) = freeBlocks s" "freeBlocks (setDisk d s) = freeBlocks s"
    "freeBlocks (setWriter sel w s) = freeBlocks s" for w
    by (cases sel; simp add: freeBlocks_def cacheHeader_def setDisk_def setWriter_def)+
  show "freeAtMost n k (setWriter sel ((writerOf sel s)\<lparr>bwExtents := exts\<rparr>) s)"
    "freeAtMost n k (s\<lparr>wvol := (wvol s)\<lparr>vh := h\<rparr>\<rparr>)"
    using s walc frame.I_extents frame.I_header by (auto simp: freeAtMost_def) (simp add: freeBlocks_def)
  show "freeAtMost n k (cacheHeader sel f s)" if "\<And>h. NodeSize (f h) = NodeSize h"
    using s walc frame.I_cache [OF s(1) that] by (simp add: freeAtMost_def)
  show "freeAtMost n k (setDisk d s)" if "length d = length (disk (wvol s))"
    using s walc frame.I_disk [OF s(1) that] by (simp add: freeAtMost_def)
next
  show "keeps (freeAtMost n k) (allocBlocks count)" for count
    using keepsD [OF frame.I_blocks] allocBlocks_le order_trans by (intro keepsI) (fastforce simp: freeAtMost_def)
qed

lemma growBlocks_pos: "growBlocks w \<noteq> 0"
  by (simp add: growBlocks_def Let_def)

text \<open>The same recursion with an arbitrary operation where the fuel is spent.\<close>

primrec allocNodeFrom :: "(treeSel \<Rightarrow> (wst, u32) op) \<Rightarrow> nat \<Rightarrow> treeSel \<Rightarrow> (wst, u32) op" where
  "allocNodeFrom spent 0 sel = spent sel"
| "allocNodeFrom spent (Suc fuel) sel = allocNodeBy (growForkBy (allocNodeFrom spent fuel forkExtentsFile) sel) sel"

lemma agree_allocNodeF:
  "k < f \<Longrightarrow> f \<le> f' \<Longrightarrow> agree (freeAtMost n k) (allocNodeF f sel) (allocNodeFrom spent f' sel)"
proof (induction f arbitrary: k f' sel)
  case (Suc g)
  then obtain g' where f': "f' = Suc g'" "g \<le> g'" by (cases f') auto
  let ?al = "allocNodeF g forkExtentsFile" and ?al' = "allocNodeFrom spent g' forkExtentsFile"
  have "agree (freeAtMost n k) (growForkBy ?al sel) (growForkBy ?al' sel)"
    unfolding agree_def
  proof (intro allI impI)
    fix s assume st: "freeAtMost n k s"
    let ?w = "writerOf sel s"
    define body where "body al runs = bnd (appendForkExtents al sel runs) (\<lambda>_.
      bnd (getS (\<lambda>s. forkNodes (writerOf sel s))) (\<lambda>newTotal.
      bnd (totalNodes sel) (\<lambda>oldTotal.
      let added = newTotal - oldTotal
      in if added = 0 then raise ErrNoSpace
        else bnd (ensureMapCapacity sel newTotal) (\<lambda>mapNodesAdded.
             bnd (setTotalNodes sel newTotal) (\<lambda>_.
             bnd (freeNodes sel) (\<lambda>k. setFreeNodes sel (k + added - mapNodesAdded)))))))" for al runs
    have grow: "growForkBy al sel s = (if bwBs ?w = 0 \<or> nodeSize ?w = 0 then (Inl Panic, s)
        else bnd (allocBlocks (growBlocks ?w)) (body al) s)" for al
      by (simp add: growForkBy_def body_def [abs_def] getS_def bnd_def raise_def)
    obtain r t where a: "allocBlocks (growBlocks ?w) s = (r, t)" by fastforce
    show "growForkBy ?al sel s = growForkBy ?al' sel s \<and> freeAtMost n k (snd (growForkBy ?al sel s))"
    proof (cases r)
      case (Inl e)
      then show ?thesis using allocBlocks_fail [OF growBlocks_pos] a st unfolding grow by (auto simp: bnd_def)
    next
      case (Inr runs)
      have lt: "freeBlocks t < freeBlocks s" by (rule allocBlocks_less [OF growBlocks_pos]) (use a Inr in simp)
      then have k: "k - 1 < g" "freeBlocks t \<le> k - 1" using st Suc.prems by (auto simp: freeAtMost_def)
      have "steady n t" using keeps_run [OF frame.I_blocks _ a] st by (simp add: freeAtMost_def)
      then have t: "freeAtMost n (k - 1) t" using k by (simp add: freeAtMost_def)
      have src: "two_sources (freeAtMost n (k - 1)) ?al ?al'"
        by unfold_locales (rule Suc.IH [OF k(1) f'(2)])
      have ag: "agree (freeAtMost n (k - 1)) (body ?al runs) (body ?al' runs)"
        unfolding body_def Let_def
        by (intro agree_rules two_sources.agree_appendForkExtents [OF src]; intro agree_keeps keeps_rules)
      note run = agreeD [OF ag t]
      from run(2) have "freeAtMost n k (snd (body ?al' runs t))" by (auto simp: freeAtMost_def)
      then show ?thesis using a Inr st run(1) unfolding grow by (simp add: bnd_def)
    qed
  qed
  then show ?case unfolding f'(1) allocNodeF.simps allocNodeFrom.simps allocNodeBy_def
    by (intro agree_rules; (intro agree_keeps keeps_rules)?)
qed simp

section \<open>Properties\<close>

text \<open>
  C24. Allocating a tree node ends. \<^verbatim>\<open>allocNode\<close> may have to grow the tree's file, which may insert
  records into the extents-overflow tree, which may allocate a node of that tree and grow its file
  in turn. The depth of this recursion is at most the number of free blocks plus one: whatever
  operation stands in for the calls below that depth, result and state are the same, so those calls
  never happen. The
  frame \<open>steady\<close> holds in every transaction of an opened volume.
\<close>

theorem alloc_node_ends:
  assumes "steady n s" "freeBlocks s < fuel"
  shows "allocNodeFrom spent fuel sel s = allocNode sel s"
proof -
  have "agree (freeAtMost n (freeBlocks s)) (allocNodeF (Suc (freeBlocks s)) sel) (allocNodeFrom spent fuel sel)"
    by (rule agree_allocNodeF) (use assms(2) in simp_all)
  moreover have "freeAtMost n (freeBlocks s) s" using assms(1) by (simp add: freeAtMost_def)
  ultimately show ?thesis unfolding allocNode_def by (rule agreeD(1) [symmetric])
qed

definition sampleWriter :: btreeWriter where
  "sampleWriter = \<lparr>nodeSize = 512, bwExtents = [], bwBs = 512\<rparr>"

definition sampleTxn :: wst where
  "sampleTxn = \<lparr>wvol = \<lparr>disk = [], vsize = 0, wr = True, vh = sampleHeader 512, catalogTree = nilTree\<lparr>theader := (theader nilTree)\<lparr>NodeSize := 512\<rparr>\<rparr>,
       extentsTree = None\<rparr>,
     walc = \<lparr>bitmap = [0xF0], bits = 8\<rparr>, wcat = sampleWriter, wext = sampleWriter\<rparr>"

theorem alloc_node_ends_witness:
  "freeBlocks sampleTxn = 4
   \<and> allocNodeFrom (\<lambda>_. raise Panic) 5 forkCatalogFile sampleTxn = allocNode forkCatalogFile sampleTxn"
proof -
  have "steady 0 sampleTxn" by (simp add: steady_def usable_def sampleTxn_def sampleWriter_def)
  moreover have f: "freeBlocks sampleTxn = 4"
    by (simp add: freeBlocks_def sampleTxn_def testBlock_def getBit_def bitMask_def upt_rec)
  ultimately show ?thesis using alloc_node_ends [of 0 sampleTxn 5 "\<lambda>_. raise Panic" forkCatalogFile] by simp
qed

end
