(* ===== verification/CatWrite.thy ===== *)
theory CatWrite
  imports BTGrow
begin

text \<open>
  \<^verbatim>\<open>catwrite.go\<close>: insertion, removal and in-place update of catalog records. A slice of a
  record's data that is longer than the record is taken to panic; Go would allow it up to the
  capacity of the copy.
\<close>

definition newCatWriter :: "Volume \<Rightarrow> btreeWriter result" where
  "newCatWriter v = newBTreeWriter v (catalogTree v) forkCatalogFile"

definition insertRecord :: "bytes \<Rightarrow> (wst, unit) op" where
  "insertRecord rec =
     (case keyFromRecord rec of None \<Rightarrow> raise ErrCorrupt | Some _ \<Rightarrow> insert_rec forkCatalogFile rec)"

definition matchesKey :: "env \<Rightarrow> u32 \<Rightarrow> gostring \<Rightarrow> wst \<Rightarrow> bytes \<Rightarrow> bool" where
  "matchesKey env pid name s rec =
     (case keyFromRecord rec of
        None \<Rightarrow> False
      | Some k \<Rightarrow> parentID k = pid \<and> nameEqual env (catalogTree (wvol s)) (cname k) name)"

definition deleteRecord :: "env \<Rightarrow> u32 \<Rightarrow> gostring \<Rightarrow> (wst, bool) op" where
  "deleteRecord env pid name =
     deleteByKey forkCatalogFile (encodeCatalogKey pid name) (matchesKey env pid name)"

text \<open>\<open>mutate\<close> edits the data of the record in place; \<open>None\<close> is a panic.\<close>

definition patchFolderRecord :: "env \<Rightarrow> u32 \<Rightarrow> gostring \<Rightarrow> (bytes \<Rightarrow> bytes option) \<Rightarrow> (wst, unit) op" where
  "patchFolderRecord env parent name mutate =
     bnd (descend forkCatalogFile (assembleProbe (encodeCatalogKey parent name))) (\<lambda>(path, _).
     bnd (loadNode forkCatalogFile (last path)) (\<lambda>en. bnd (getS (matchesKey env parent name)) (\<lambda>test.
       let i = length (takeWhile (\<lambda>r. \<not> test r) (erecs en))
       in if i \<ge> length (erecs en) then raise ErrCorrupt
          else let r = erecs en ! i
               in case recordData r of
                    None \<Rightarrow> raise ErrCorrupt
                  | Some data \<Rightarrow>
                      (case mutate data of
                         None \<Rightarrow> raise Panic
                       | Some data' \<Rightarrow>
                           storeNode forkCatalogFile
                             (en\<lparr>erecs := (erecs en)[i := take (length r - length data) r @ data']\<rparr>)))))"

lemma keeps_catalog [keeps_rules]:
  "keeps (steady n) (insertRecord rec)" "keeps (steady n) (deleteRecord env pid name)"
  "keeps (steady n) (patchFolderRecord env pid name mutate)"
  unfolding insertRecord_def deleteRecord_def patchFolderRecord_def Let_def by (intro keeps_rules)+

end
