(* ===== verification/Write.thy ===== *)
theory Write
  imports CatWrite
begin

text \<open>
  \<^verbatim>\<open>write.go\<close>: the mutating half of the volume's interface. A transaction (\<^verbatim>\<open>txn\<close>) is the state
  \<open>wst\<close>: \<open>begin\<close> builds it, \<open>commit\<close> writes the bitmap back and reparses the image; what a
  failing operation has edited stays in the image. \<^verbatim>\<open>Sync\<close>, the copy of the image to its backing
  file, is an operating-system call: a volume here is one that lives in memory. The permission
  argument is the \<^verbatim>\<open>os.FileMode\<close>; names are rune lists, file contents and link targets bytes.
\<close>

section \<open>Transactions\<close>

definition beginTxn :: "env \<Rightarrow> Volume \<Rightarrow> wst result" where
  "beginTxn env v =
     bindR (newAllocator env v) (\<lambda>alc.
     bindR (newExtentsWriter v) (\<lambda>ew.
     bindR (newCatWriter v) (\<lambda>cw.
       Inr \<lparr>wvol = v, walc = alc, wcat = cw, wext = ew\<rparr>)))"

definition commit :: "(wst, unit) op" where
  "commit s =
     (case flushA (walc s) (wvol s) of
        (Inl e, v) \<Rightarrow> (Inl e, s\<lparr>wvol := v\<rparr>)
      | (Inr _, v) \<Rightarrow> (case reopen v of (r, v') \<Rightarrow> (r, s\<lparr>wvol := v'\<rparr>)))"

definition runTxn :: "env \<Rightarrow> (wst, unit) op \<Rightarrow> (Volume, unit) op" where
  "runTxn env body v =
     (case beginTxn env v of
        Inl e \<Rightarrow> (Inl e, v)
      | Inr t \<Rightarrow> (case body t of (r, t') \<Rightarrow> (r, wvol t')))"

section \<open>Header counters\<close>

definition vhFileCount :: nat where "vhFileCount = 0x20"
definition vhFolderCount :: nat where "vhFolderCount = 0x24"
definition vhNextCatalogID :: nat where "vhNextCatalogID = 0x40"
definition vhWriteCount :: nat where "vhWriteCount = 0x44"
definition firstUserCatalogID :: u32 where "firstUserCatalogID = 16"

definition headerU32 :: "nat \<Rightarrow> (wst, u32) op" where
  "headerU32 off s =
     (if length (disk (wvol s)) < volumeHeaderOffset + off + 4 then (Inl Panic, s)
      else (Inr (be32 (disk (wvol s)) (volumeHeaderOffset + off)), s))"

definition setHeaderU32 :: "nat \<Rightarrow> u32 \<Rightarrow> (wst, unit) op" where
  "setHeaderU32 off val s =
     (case setHeaderU32At (disk (wvol s)) off val of
        Inl e \<Rightarrow> (Inl e, s)
      | Inr img \<Rightarrow> (Inr (), setDisk img s))"

definition addU32 :: "u32 \<Rightarrow> int \<Rightarrow> u32" where
  "addU32 u d = (if d < 0 then u - word_of_int (- d) else u + word_of_int d)"

definition nextCNID :: "(wst, u32) op" where
  "nextCNID =
     bnd (headerU32 vhNextCatalogID) (\<lambda>i.
       let i = (if i < firstUserCatalogID then firstUserCatalogID else i)
       in bnd (setHeaderU32 vhNextCatalogID (i + 1)) (\<lambda>_. ret i))"

definition bumpWriteCount :: "(wst, unit) op" where
  "bumpWriteCount = bnd (headerU32 vhWriteCount) (\<lambda>n. setHeaderU32 vhWriteCount (n + 1))"

definition incFileCount :: "int \<Rightarrow> (wst, unit) op" where
  "incFileCount d = bnd (headerU32 vhFileCount) (\<lambda>n. setHeaderU32 vhFileCount (addU32 n d))"

definition incFolderCount :: "int \<Rightarrow> (wst, unit) op" where
  "incFolderCount d = bnd (headerU32 vhFolderCount) (\<lambda>n. setHeaderU32 vhFolderCount (addU32 n d))"

section \<open>Lookups\<close>

definition lookupChild :: "env \<Rightarrow> Volume \<Rightarrow> u32 \<Rightarrow> gostring \<Rightarrow> catalogRecord option result" where
  "lookupChild env v parent name =
     lookup env v (catalogTree v) \<lparr>parentID = parent, cname = name, nameU16 = None\<rparr>"

fun parent_loop :: "env \<Rightarrow> Volume \<Rightarrow> gostring list \<Rightarrow> u32 \<Rightarrow> u32 result" where
  "parent_loop env v [] parent = Inr parent"
| "parent_loop env v (cn # cns) parent =
     bindR (lookupChild env v parent cn) (\<lambda>found.
       case found of
         None \<Rightarrow> Inl ErrNotFound
       | Some rec \<Rightarrow>
           (case cfolder rec of
              None \<Rightarrow> Inl ErrNotDirectory
            | Some fo \<Rightarrow> parent_loop env v cns (folderID fo)))"

definition resolveParent :: "env \<Rightarrow> Volume \<Rightarrow> gostring \<Rightarrow> (u32 \<times> gostring) result" where
  "resolveParent env v p =
     (let parts = splitPath p
      in if parts = [] then Inl ErrExists
         else bindR (parent_loop env v (butlast parts) cnidRootFolder) (\<lambda>parent. Inr (parent, last parts)))"

definition threadKeyOf :: "env \<Rightarrow> Volume \<Rightarrow> u32 \<Rightarrow> (u32 \<times> gostring) option result" where
  "threadKeyOf env v cnid =
     bindR (lookupChild env v cnid []) (\<lambda>found.
       case found of
         None \<Rightarrow> Inr None
       | Some rec \<Rightarrow>
           if recType rec \<noteq> recordFolderThread \<and> recType rec \<noteq> recordFileThread then Inr None
           else Inr (Some (threadParent rec, threadName rec)))"

definition bodyStep :: "env \<Rightarrow> btree \<Rightarrow> u32 \<Rightarrow> gostring \<Rightarrow> bytes \<Rightarrow> unit \<Rightarrow> bytes option result + unit" where
  "bodyStep env t parent name rec acc =
     (case keyFromRecord rec of
        None \<Rightarrow> Inr ()
      | Some k \<Rightarrow>
          if parentID k = parent \<and> nameEqual env t (cname k) name
          then Inl (case recordData rec of None \<Rightarrow> Inl ErrCorrupt | Some data \<Rightarrow> Inr (Some data))
          else if parentID k > parent then Inl (Inr None)
          else Inr ())"

definition recordBody :: "env \<Rightarrow> Volume \<Rightarrow> u32 \<Rightarrow> gostring \<Rightarrow> bytes option result" where
  "recordBody env v parent name =
     bindR (findLeaf v (catalogTree v) \<lparr>parentID = parent, cname = name, nameU16 = None\<rparr>)
       (\<lambda>leaf. leafWalk v (catalogTree v) (scanRecs (bodyStep env (catalogTree v) parent name)) (\<lambda>_. Inr None) leaf 0 ())"

definition labelStep :: "bytes \<Rightarrow> unit \<Rightarrow> gostring result + unit" where
  "labelStep rec acc =
     (case keyFromRecord rec of
        None \<Rightarrow> Inr ()
      | Some k \<Rightarrow>
          if parentID k = cnidRootParent then Inl (Inr (cname k))
          else if parentID k > cnidRootParent then Inl (Inr [])
          else Inr ())"

definition Label :: "Volume \<Rightarrow> gostring" where
  "Label v =
     (case bindR (findLeaf v (catalogTree v) \<lparr>parentID = cnidRootParent, cname = [], nameU16 = None\<rparr>)
             (\<lambda>leaf. leafWalk v (catalogTree v) (scanRecs labelStep) (\<lambda>_. Inr []) leaf 0 ()) of
        Inl _ \<Rightarrow> []
      | Inr l \<Rightarrow> l)"

section \<open>Parts of a mutation\<close>

text \<open>The closure that \<^verbatim>\<open>adjustParentValence\<close> hands to \<^verbatim>\<open>patchFolderRecord\<close>.\<close>

definition bumpFolder :: "int \<Rightarrow> int \<Rightarrow> bytes \<Rightarrow> bytes option" where
  "bumpFolder delta folderDelta folder =
     (if length folder < 8 then None
      else let f1 = overwrite folder 4 (enc32 (addU32 (be32 folder 4) delta))
           in if be16 f1 2 AND kHFSHasFolderCountMask = 0 then Some f1
              else if length folder < 88 then None
              else Some (overwrite f1 84 (enc32 (addU32 (be32 f1 84) folderDelta))))"

definition adjustParentValence :: "env \<Rightarrow> u32 \<Rightarrow> int \<Rightarrow> int \<Rightarrow> (wst, unit) op" where
  "adjustParentValence env parent delta folderDelta =
     bnd (liftR (\<lambda>s. threadKeyOf env (wvol s) parent)) (\<lambda>key.
       case key of
         None \<Rightarrow> raise ErrCorrupt
       | Some (gp, name) \<Rightarrow> patchFolderRecord env gp name (bumpFolder delta folderDelta))"

fun forkData_loop :: "nat \<Rightarrow> bytes \<Rightarrow> extentDescriptor list \<Rightarrow> nat \<Rightarrow> bytes \<Rightarrow> bytes result" where
  "forkData_loop bs data [] pos img = Inr img"
| "forkData_loop bs data (r # rs) pos img =
     (let off = unat (StartBlock r) * bs;
          span = unat (BlockCount r) * bs;
          n = min (length data - pos) span
      in if span > 0 \<and> off + span > length img then Inl Panic
         else forkData_loop bs data rs (pos + n)
                (overwrite (overwrite img off (gslice data pos (pos + n))) (off + n) (replicate (span - n) 0)))"

definition writeForkData :: "extentDescriptor list \<Rightarrow> bytes \<Rightarrow> (wst, unit) op" where
  "writeForkData runs data s =
     (case forkData_loop (unat (BlockSize (vh (wvol s)))) data runs 0 (disk (wvol s)) of
        Inl e \<Rightarrow> (Inl e, s)
      | Inr img \<Rightarrow> (Inr (), setDisk img s))"

text \<open>The blocks of a new file: allocated, filled, and the runs beyond the eighth recorded in the
  extents tree. The result is the runs.\<close>

definition placeData :: "u32 \<Rightarrow> u32 \<Rightarrow> bytes \<Rightarrow> (wst, extentDescriptor list) op" where
  "placeData cnid nblocks data =
     (if nblocks = 0 then ret []
      else bnd (allocBlocks nblocks) (\<lambda>runs.
           bnd (writeForkData runs data) (\<lambda>_.
           bnd (if length runs > numInlineExtents
                then insertExtentRecords (allocNode forkExtentsFile) cnid forkTypeData
                       (sum_list (map BlockCount (take numInlineExtents runs))) (drop numInlineExtents runs)
                else ret ())
             (\<lambda>_. ret runs))))"

definition fileBlocks :: "int \<Rightarrow> bytes \<Rightarrow> u32" where
  "fileBlocks bs data = word_of_int ((int (length data) + bs - 1) div bs)"

definition createFile :: "env \<Rightarrow> u32 \<Rightarrow> gostring \<Rightarrow> bytes \<Rightarrow> u16 \<Rightarrow> (wst, unit) op" where
  "createFile env parent name data mode =
     bnd (getS (\<lambda>s. BlockSize (vh (wvol s)))) (\<lambda>bs.
     if bs = 0 then raise Panic
     else let nblocks = fileBlocks (uint bs) data
          in bnd nextCNID (\<lambda>cnid.
             bnd (placeData cnid nblocks data) (\<lambda>runs.
             let df = \<lparr>LogicalSize = of_nat (length data), ClumpSize = bs, fdTotalBlocks = nblocks,
                       Extents = inlineOf runs\<rparr>
             in bnd (insertRecord (assembleCatalogRecord (encodeCatalogKey parent name)
                       (encodeFileRecord cnid (envNow env) mode df))) (\<lambda>_.
                bnd (insertRecord (assembleCatalogRecord (encodeCatalogKey cnid [])
                       (encodeFileThreadRecord parent name))) (\<lambda>_.
                bnd (incFileCount 1) (\<lambda>_. adjustParentValence env parent 1 0))))))"

definition freeBlocksOf :: "extentDescriptor list \<Rightarrow> wst \<Rightarrow> wst" where
  "freeBlocksOf exts s = s\<lparr>walc := (walc s)\<lparr>bitmap := rollback (bitmap (walc s)) exts\<rparr>\<rparr>"

definition removeFile :: "env \<Rightarrow> u32 \<Rightarrow> gostring \<Rightarrow> catalogFile \<Rightarrow> (wst, unit) op" where
  "removeFile env parent name cf =
     bnd (modS (freeBlocksOf (fst (inlineExtents (Extents (dataFork cf)) 0)))) (\<lambda>_.
     bnd (deleteAllForFork (fileID cf) forkTypeData) (\<lambda>overflow.
     bnd (modS (freeBlocksOf overflow)) (\<lambda>_.
     bnd (deleteRecord env parent name) (\<lambda>_.
     bnd (deleteRecord env (fileID cf) []) (\<lambda>_.
     bnd (incFileCount (- 1)) (\<lambda>_. adjustParentValence env parent (- 1) 0))))))"

section \<open>Mutators\<close>

definition permBits :: "u32 \<Rightarrow> u16" where
  "permBits perm = ucast (perm AND 0x1FF)"

definition createTxn :: "env \<Rightarrow> u32 \<Rightarrow> gostring \<Rightarrow> bytes \<Rightarrow> u16 \<Rightarrow> (Volume, unit) op" where
  "createTxn env parent name data mode =
     runTxn env (bnd (createFile env parent name data mode) (\<lambda>_. bnd bumpWriteCount (\<lambda>_. commit)))"

definition removeTxn :: "env \<Rightarrow> u32 \<Rightarrow> gostring \<Rightarrow> catalogFile \<Rightarrow> (Volume, unit) op" where
  "removeTxn env parent name cf = runTxn env (bnd (removeFile env parent name cf) (\<lambda>_. commit))"

definition guarded :: "(Volume, unit) op \<Rightarrow> (Volume, unit) op" where
  "guarded body v = (if \<not> wr v then (Inl ErrReadOnly, v) else body v)"

text \<open>\<^verbatim>\<open>WriteFile\<close> begins a transaction before it looks the name up; nothing was edited when that
  lookup fails.\<close>

definition WriteFile :: "env \<Rightarrow> gostring \<Rightarrow> bytes \<Rightarrow> u32 \<Rightarrow> (Volume, unit) op" where
  "WriteFile env p data perm =
     guarded (bnd (liftR (\<lambda>v. resolveParent env v p)) (\<lambda>(parent, name).
       bnd (liftR (beginTxn env)) (\<lambda>_.
       bnd (liftR (\<lambda>v. lookupChild env v parent name)) (\<lambda>found.
       bnd (case found of
              None \<Rightarrow> ret ()
            | Some rec \<Rightarrow>
                (case cfile rec of None \<Rightarrow> raise ErrExists | Some cf \<Rightarrow> removeTxn env parent name cf)) (\<lambda>_.
         createTxn env parent name data (sIFREG OR permBits perm))))))"

definition MkDir :: "env \<Rightarrow> gostring \<Rightarrow> u32 \<Rightarrow> (Volume, unit) op" where
  "MkDir env p perm =
     guarded (bnd (liftR (\<lambda>v. resolveParent env v p)) (\<lambda>(parent, name).
       bnd (liftR (\<lambda>v. lookupChild env v parent name)) (\<lambda>found.
         case found of
           Some _ \<Rightarrow> raise ErrExists
         | None \<Rightarrow>
             runTxn env (bnd nextCNID (\<lambda>cnid.
               bnd (getS (\<lambda>s. CaseSensitive (wvol s))) (\<lambda>cs.
               let folderRec = overwrite (encodeFolderRecord cnid (envNow env) 0) 42 (enc16 (sIFDIR OR permBits perm));
                   folderRec = (if cs then setHasFolderCount folderRec 0 else folderRec)
               in bnd (insertRecord (assembleCatalogRecord (encodeCatalogKey parent name) folderRec)) (\<lambda>_.
                  bnd (insertRecord (assembleCatalogRecord (encodeCatalogKey cnid [])
                         (encodeFolderThreadRecord parent name))) (\<lambda>_.
                  bnd (incFolderCount 1) (\<lambda>_.
                  bnd (adjustParentValence env parent 1 1) (\<lambda>_.
                  bnd bumpWriteCount (\<lambda>_. commit)))))))))))"

text \<open>The lookup that precedes every other mutator: the record of an existing entry.\<close>

definition existing :: "env \<Rightarrow> u32 \<Rightarrow> gostring \<Rightarrow> (Volume, catalogRecord) op" where
  "existing env parent name =
     bnd (liftR (\<lambda>v. lookupChild env v parent name))
       (\<lambda>found. case found of None \<Rightarrow> raise ErrNotFound | Some rec \<Rightarrow> ret rec)"

definition DeleteFile :: "env \<Rightarrow> gostring \<Rightarrow> (Volume, unit) op" where
  "DeleteFile env p =
     guarded (bnd (liftR (\<lambda>v. resolveParent env v p)) (\<lambda>(parent, name).
       bnd (existing env parent name) (\<lambda>rec.
         case cfile rec of
           None \<Rightarrow> raise ErrNotRegular
         | Some cf \<Rightarrow>
             runTxn env (bnd (removeFile env parent name cf) (\<lambda>_. bnd bumpWriteCount (\<lambda>_. commit))))))"

definition DeleteDir :: "env \<Rightarrow> gostring \<Rightarrow> (Volume, unit) op" where
  "DeleteDir env p =
     guarded (bnd (liftR (\<lambda>v. resolveParent env v p)) (\<lambda>(parent, name).
       bnd (existing env parent name) (\<lambda>rec.
         case cfolder rec of
           None \<Rightarrow> raise ErrNotDirectory
         | Some fo \<Rightarrow>
             bnd (liftR (\<lambda>v. listChildren v (catalogTree v) (folderID fo))) (\<lambda>children.
               if children \<noteq> [] then raise ErrNotEmpty
               else runTxn env (bnd (deleteRecord env parent name) (\<lambda>_.
                      bnd (deleteRecord env (folderID fo) []) (\<lambda>_.
                      bnd (incFolderCount (- 1)) (\<lambda>_.
                      bnd (adjustParentValence env parent (- 1) (- 1)) (\<lambda>_.
                      bnd bumpWriteCount (\<lambda>_. commit))))))))))"

text \<open>The edits of \<^verbatim>\<open>Rename\<close> and \<^verbatim>\<open>SetLabel\<close>: the record and its thread under a new key.\<close>

definition rekey :: "env \<Rightarrow> u32 \<Rightarrow> gostring \<Rightarrow> u32 \<Rightarrow> gostring \<Rightarrow> u32 \<Rightarrow> bytes \<Rightarrow> bytes \<Rightarrow> (wst, unit) op" where
  "rekey env oparent oname nparent nname cnid body trec =
     bnd (deleteRecord env oparent oname) (\<lambda>_.
     bnd (deleteRecord env cnid []) (\<lambda>_.
     bnd (insertRecord (assembleCatalogRecord (encodeCatalogKey nparent nname) body)) (\<lambda>_.
       insertRecord (assembleCatalogRecord (encodeCatalogKey cnid []) trec))))"

definition Rename :: "env \<Rightarrow> gostring \<Rightarrow> gostring \<Rightarrow> (Volume, unit) op" where
  "Rename env oldPath newPath =
     guarded (bnd (liftR (\<lambda>v. resolveParent env v oldPath)) (\<lambda>(oparent, oname).
       bnd (liftR (\<lambda>v. resolveParent env v newPath)) (\<lambda>(nparent, nname).
       bnd (existing env oparent oname) (\<lambda>rec.
       bnd (liftR (\<lambda>v. lookupChild env v nparent nname)) (\<lambda>found.
         case found of
           Some _ \<Rightarrow> raise ErrExists
         | None \<Rightarrow>
             runTxn env (
               case (cfile rec, cfolder rec) of
                 (None, None) \<Rightarrow> raise ErrCorrupt
               | (fi, fo) \<Rightarrow>
                   let isDir = (fi = None);
                       cnid = (case fi of Some cf \<Rightarrow> fileID cf | None \<Rightarrow> folderID (the fo));
                       trec = (if isDir then encodeFolderThreadRecord nparent nname
                                    else encodeFileThreadRecord nparent nname);
                       fd = (if isDir then 1 else 0)
                   in bnd (liftR (\<lambda>s. recordBody env (wvol s) oparent oname)) (\<lambda>body.
                        case body of
                          None \<Rightarrow> raise ErrNotFound
                        | Some body \<Rightarrow>
                            bnd (rekey env oparent oname nparent nname cnid body trec) (\<lambda>_.
                            bnd (if oparent \<noteq> nparent
                                 then bnd (adjustParentValence env oparent (- 1) (- fd))
                                        (\<lambda>_. adjustParentValence env nparent 1 fd)
                                 else ret ()) (\<lambda>_.
                            bnd bumpWriteCount (\<lambda>_. commit))))))))))"

definition Symlink :: "env \<Rightarrow> bytes \<Rightarrow> gostring \<Rightarrow> (Volume, unit) op" where
  "Symlink env target linkPath =
     guarded (bnd (liftR (\<lambda>v. resolveParent env v linkPath)) (\<lambda>(parent, name).
       bnd (liftR (\<lambda>v. lookupChild env v parent name)) (\<lambda>found.
         case found of
           Some _ \<Rightarrow> raise ErrExists
         | None \<Rightarrow> createTxn env parent name target (sIFLNK OR 0x1FF))))"

definition resizeContent :: "bytes \<Rightarrow> int \<Rightarrow> bytes" where
  "resizeContent content newSize =
     take (nat newSize) content @ replicate (nat newSize - length content) 0"

definition Truncate :: "env \<Rightarrow> gostring \<Rightarrow> int \<Rightarrow> (Volume, unit) op" where
  "Truncate env p newSize =
     guarded (if newSize < 0 then raise ErrCorrupt
       else bnd (liftR (\<lambda>v. resolveParent env v p)) (\<lambda>(parent, name).
         bnd (existing env parent name) (\<lambda>rec.
           case cfile rec of
             None \<Rightarrow> raise ErrNotRegular
           | Some cf \<Rightarrow>
               bnd (liftR (\<lambda>v. bindR (dataForkFor v cf) (readAll v))) (\<lambda>content.
               let mode = (if permMode cf = 0 then modeFileDefault else permMode cf)
               in bnd (removeTxn env parent name cf) (\<lambda>_.
                    createTxn env parent name (resizeContent content newSize) mode)))))"

text \<open>\<^verbatim>\<open>strings.TrimSpace\<close> removes the runes that \<^verbatim>\<open>unicode.IsSpace\<close> accepts.\<close>

definition isSpace :: "rune \<Rightarrow> bool" where
  "isSpace c \<longleftrightarrow> c \<in> {0x09, 0x0A, 0x0B, 0x0C, 0x0D, 0x20, 0x85, 0xA0, 0x1680, 0x2028, 0x2029, 0x202F, 0x205F, 0x3000}
     \<or> 0x2000 \<le> c \<and> c \<le> 0x200A"

definition trimSpace :: "gostring \<Rightarrow> gostring" where
  "trimSpace s = rev (dropWhile isSpace (rev (dropWhile isSpace s)))"

definition SetLabel :: "env \<Rightarrow> gostring \<Rightarrow> (Volume, unit) op" where
  "SetLabel env l =
     guarded (let label = trimSpace l
       in if label = [] \<or> length (utf16Encode label) > 255 then raise ErrCorrupt
          else bnd (getS Label) (\<lambda>old.
            if old = label then ret ()
            else runTxn env (bnd (liftR (\<lambda>s. recordBody env (wvol s) cnidRootParent old)) (\<lambda>body.
                   case body of
                     None \<Rightarrow> raise ErrCorrupt
                   | Some body \<Rightarrow>
                       bnd (rekey env cnidRootParent old cnidRootParent label cnidRootFolder body
                              (encodeFolderThreadRecord cnidRootParent label)) (\<lambda>_.
                       bnd bumpWriteCount (\<lambda>_. commit))))))"

section \<open>Finder information\<close>

text \<open>\<^verbatim>\<open>finderinfo.go\<close>: the 32 bytes at offset 48 of a file or folder record.\<close>

definition finderInfoOffset :: nat where "finderInfoOffset = 48"
definition finderInfoLen :: nat where "finderInfoLen = 32"

definition finderInfoKey :: "env \<Rightarrow> Volume \<Rightarrow> gostring \<Rightarrow> (u32 \<times> gostring) result" where
  "finderInfoKey env v p =
     (if splitPath p = [] then if Label v = [] then Inl ErrCorrupt else Inr (cnidRootParent, Label v)
      else resolveParent env v p)"

definition finderBody :: "env \<Rightarrow> Volume \<Rightarrow> gostring \<Rightarrow> (u32 \<times> gostring \<times> bytes) result" where
  "finderBody env v p =
     bindR (finderInfoKey env v p) (\<lambda>(parent, name).
     bindR (recordBody env v parent name) (\<lambda>body.
       case body of
         None \<Rightarrow> Inl ErrNotFound
       | Some body \<Rightarrow>
           if length body < finderInfoOffset + finderInfoLen then Inl ErrCorrupt else Inr (parent, name, body)))"

definition FinderInfo :: "env \<Rightarrow> Volume \<Rightarrow> gostring \<Rightarrow> bytes result" where
  "FinderInfo env v p =
     bindR (finderBody env v p) (\<lambda>(_, _, body). Inr (gslice body finderInfoOffset (finderInfoOffset + finderInfoLen)))"

definition SetFinderInfo :: "env \<Rightarrow> gostring \<Rightarrow> bytes \<Rightarrow> (Volume, unit) op" where
  "SetFinderInfo env p info =
     guarded (bnd (liftR (\<lambda>v. finderBody env v p)) (\<lambda>(parent, name, body).
       runTxn env (bnd (deleteRecord env parent name) (\<lambda>_.
         bnd (insertRecord (assembleCatalogRecord (encodeCatalogKey parent name) (overwrite body finderInfoOffset info))) (\<lambda>_.
         bnd bumpWriteCount (\<lambda>_. commit))))))"

section \<open>Transactions keep the frame\<close>

lemma quiet_headerU32 [quiet_rules]: "quiet (headerU32 off)"
  by (simp add: quiet_def headerU32_def)

declare quiet_headerU32 [THEN quiet_keeps, keeps_rules]

lemma length_setHeaderU32At: "setHeaderU32At img off val = Inr img' \<Longrightarrow> off + 4 \<le> 512 \<Longrightarrow> length img' = length img"
  by (auto simp: setHeaderU32At_def volumeHeaderOffset_def split: if_splits)

lemma keeps_setHeaderU32 [keeps_rules]: "off + 4 \<le> 512 \<Longrightarrow> keeps (steady n) (setHeaderU32 off val)"
  by (rule keepsI) (auto simp: setHeaderU32_def steady_def usable_def setDisk_def split: sum.split dest: length_setHeaderU32At)

lemmas counter_offsets = vhFileCount_def vhFolderCount_def vhNextCatalogID_def vhWriteCount_def

lemma keeps_counters [keeps_rules]:
  "keeps (steady n) nextCNID" "keeps (steady n) bumpWriteCount" "keeps (steady n) (incFileCount d)"
  "keeps (steady n) (incFolderCount d)"
  unfolding nextCNID_def bumpWriteCount_def incFileCount_def incFolderCount_def Let_def
  by (intro keeps_rules; simp add: counter_offsets)+

lemma length_forkData_loop: "forkData_loop bs data runs pos img = Inr img' \<Longrightarrow> length img' = length img"
proof (induction bs data runs pos img rule: forkData_loop.induct)
  case (2 bs data r rs pos img)
  then show ?case by (force simp: Let_def split: if_splits)
qed simp

lemma keeps_writeForkData [keeps_rules]: "keeps (steady n) (writeForkData runs data)"
  by (rule keepsI) (auto simp: writeForkData_def steady_def usable_def setDisk_def split: sum.split dest: length_forkData_loop)

lemma keeps_adjustParentValence [keeps_rules]: "keeps (steady n) (adjustParentValence env parent d fd)"
  unfolding adjustParentValence_def by (intro keeps_rules)

lemma keeps_placeData [keeps_rules]: "keeps (steady n) (placeData cnid nblocks data)"
  unfolding placeData_def by (intro keeps_rules frame.nodes.keeps_insertExtentRecords)

lemma keeps_createFile [keeps_rules]: "keeps (steady n) (createFile env parent name data mode)"
  unfolding createFile_def Let_def by (intro keeps_rules)

lemma steady_freeBlocksOf: "steady n s \<Longrightarrow> steady n (freeBlocksOf exts s)"
  by (simp add: steady_def usable_def freeBlocksOf_def)

lemma keeps_removeFile [keeps_rules]: "keeps (steady n) (removeFile env parent name cf)"
  unfolding removeFile_def by (intro keeps_rules steady_freeBlocksOf)

lemma keeps_rekey [keeps_rules]: "keeps (steady n) (rekey env op oname np nname cnid body trec)"
  unfolding rekey_def by (intro keeps_rules)

end
