(* ===== verification/Mkfs.thy ===== *)
theory Mkfs
  imports Write
begin

text \<open>
  \<^verbatim>\<open>mkfs.go\<close>: the formatter. \<open>mkfsBuilder\<close> is the Go struct; the slices \<^verbatim>\<open>blockBytes\<close> returns alias
  the image, so a write through one is an \<open>overwrite\<close> of the image at the block's offset (a
  slice may run past its block, up to the capacity of the image).
\<close>

section \<open>Data\<close>

definition mkfsBlockSize :: int where "mkfsBlockSize = 4096"
definition mkfsNodeSize :: u16 where "mkfsNodeSize = 4096"
definition catalogReserveNodes :: int where "catalogReserveNodes = 256"
definition minCatalogNodes :: int where "minCatalogNodes = 2"
definition hfsPlusSigVersion :: u16 where "hfsPlusSigVersion = 4"
definition btreeBigKeysMask :: u32 where "btreeBigKeysMask = 2"
definition btreeVariableKeyMask :: u32 where "btreeVariableKeyMask = 4"
definition mkfsCleanUnmountAttributes :: u32 where "mkfsCleanUnmountAttributes = 0x100 OR 0x80000000"
definition keyCompareCaseFold :: byte where "keyCompareCaseFold = 0xCF"

record FormatConfig =
  cfgLabel :: gostring
  cfgCaseSensitive :: bool

record mkfsBuilder =
  img :: bytes
  mblockSize :: u32
  totalBlocks :: u32
  mnodeSize :: u16
  mcaseSensitive :: bool
  mlabel :: gostring
  mnow :: int
  allocStart :: u32
  allocBlks :: u32
  extStart :: u32
  extBlocks :: u32
  catStart :: u32
  catBlocks :: u32
  nextCatalogID :: u32
  usedBlocks :: u32

record extentsTreeParams =
  pnodeSize :: u16
  ptotalNodes :: u32
  prootNode :: u32
  pfirstLeaf :: u32
  plastLeaf :: u32
  ptreeDepth :: u16
  pmaxKeyLength :: u16
  pkeyCompare :: byte
  pattributes :: u32
  pusedNodes :: u32

definition gotest :: gostring where
  "gotest = [0x47, 0x4F, 0x54, 0x45, 0x53, 0x54]"

section \<open>Layout\<close>

definition atLeast1 :: "u32 \<Rightarrow> u32" where
  "atLeast1 n = (if n = 0 then 1 else n)"

definition layout :: "mkfsBuilder \<Rightarrow> mkfsBuilder result" where
  "layout b =
     (let bs = uint (mblockSize b);
          bitmapBytes = (uint (totalBlocks b) + 7) div 8;
          aStart = 1;
          aBlocks = atLeast1 (word_of_int ((bitmapBytes + bs - 1) div bs));
          eStart = aStart + aBlocks;
          eBlocks = atLeast1 (word_of_int (uint (mnodeSize b) * 2 div bs));
          cStart = eStart + eBlocks;
          cBlocks = atLeast1 (word_of_int ((uint (mnodeSize b) * catalogReserveNodes + bs - 1) div bs));
          minCat = word_of_int ((uint (mnodeSize b) * minCatalogNodes + bs - 1) div bs);
          fixed = 1 + aBlocks + eBlocks + 1;
          b' = b\<lparr>allocStart := aStart, allocBlks := aBlocks, extStart := eStart, extBlocks := eBlocks,
                 catStart := cStart, catBlocks := cBlocks, nextCatalogID := firstUserCatalogID\<rparr>
      in if fixed + cBlocks > totalBlocks b then
           if fixed + minCat > totalBlocks b then Inl ErrCorrupt
           else Inr (b'\<lparr>catBlocks := totalBlocks b - fixed\<rparr>)
         else Inr b')"

definition blockOffset :: "mkfsBuilder \<Rightarrow> u32 \<Rightarrow> nat" where
  "blockOffset b n = unat n * unat (mblockSize b)"

section \<open>Allocation bitmap\<close>

definition markUsed :: "bytes \<Rightarrow> u32 \<Rightarrow> u32 \<Rightarrow> (mkfsBuilder, bytes) op" where
  "markUsed m start count b =
     (case setRun m [unat start..<unat (start + count)] of
        None \<Rightarrow> (Inl Panic, b)
      | Some m' \<Rightarrow> (Inr m', b\<lparr>usedBlocks := usedBlocks b + of_nat (unat (start + count) - unat start)\<rparr>))"

text \<open>Marking the blocks of a part that the layout placed, and the copy into the image.\<close>

definition markSpan :: "bytes \<Rightarrow> (mkfsBuilder \<Rightarrow> u32) \<Rightarrow> (mkfsBuilder \<Rightarrow> u32) \<Rightarrow> (mkfsBuilder, bytes) op" where
  "markSpan m start count b = markUsed m (start b) (count b) b"

definition copyBitmap :: "bytes \<Rightarrow> (mkfsBuilder, unit) op" where
  "copyBitmap m b =
     (let off = blockOffset b (allocStart b)
      in if off > length (img b) then (Inl Panic, b)
         else (Inr (), b\<lparr>img := overwrite (img b) off (take (length (img b) - off) m)\<rparr>))"

definition writeAllocationBitmap :: "(mkfsBuilder, unit) op" where
  "writeAllocationBitmap =
     bnd (getS (\<lambda>b. replicate (unat (allocBlks b) * unat (mblockSize b)) 0)) (\<lambda>m.
     bnd (markUsed m 0 1) (\<lambda>m.
     bnd (markSpan m allocStart allocBlks) (\<lambda>m.
     bnd (markSpan m extStart extBlocks) (\<lambda>m.
     bnd (markSpan m catStart catBlocks) (\<lambda>m.
     bnd (markSpan m (\<lambda>b. totalBlocks b - 1) (\<lambda>_. 1)) copyBitmap)))))"

section \<open>Trees\<close>

definition leafRecordCount :: "extentsTreeParams \<Rightarrow> u32" where
  "leafRecordCount p = (if ptreeDepth p = 0 then 0 else 2)"

text \<open>The header node, written into the bytes of an erased node; a node too short for its records
  is out of range.\<close>

definition writeBTHeaderNode :: "u32 \<Rightarrow> bytes \<Rightarrow> extentsTreeParams \<Rightarrow> bytes" where
  "writeBTHeaderNode bs node p =
     (let ns = length node;
          h = nodeDescriptorLen;
          node = puts node
            [(h + 0, enc16 (ptreeDepth p)), (h + 2, enc32 (prootNode p)), (h + 6, enc32 (leafRecordCount p)),
             (h + 10, enc32 (pfirstLeaf p)), (h + 14, enc32 (plastLeaf p)), (h + 18, enc16 (pnodeSize p)),
             (h + 20, enc16 (pmaxKeyLength p)), (h + 22, enc32 (ptotalNodes p)),
             (h + 26, enc32 (ptotalNodes p - pusedNodes p)), (h + 32, enc32 bs), (h + 36, [0]),
             (h + 37, [pkeyCompare p]), (h + 38, enc32 (pattributes p))];
          node = writeNodeDescriptor node \<lparr>FLink = 0, BLink = 0, Kind = kindHeaderNode, Height = 0, NumRecords = 3\<rparr>;
          rec2 = h + 106 + 128;
          freeStart = ns - 2 * 4;
          node = overwrite node rec2 (foldl setBit (gslice node rec2 freeStart) [0..<unat (pusedNodes p)])
      in writeOffsetTable node [of_nat h, of_nat (h + 106), of_nat rec2, of_nat freeStart])"

definition treeNodes :: "mkfsBuilder \<Rightarrow> u32 \<Rightarrow> u32" where
  "treeNodes b blocks = word_of_int (uint blocks * uint (mblockSize b) div uint (mnodeSize b))"

text \<open>Writing one node of a tree that starts at a block: \<^verbatim>\<open>base[i*ns:(i+1)*ns]\<close>.\<close>

definition editBlock :: "u32 \<Rightarrow> nat \<Rightarrow> (bytes \<Rightarrow> bytes result) \<Rightarrow> (mkfsBuilder, unit) op" where
  "editBlock start i f b =
     (let ns = unat (mnodeSize b); off = blockOffset b start + i * ns
      in if blockOffset b start + unat (mblockSize b) > length (img b) \<or> off + ns > length (img b) then (Inl Panic, b)
         else case f (gslice (img b) off (off + ns)) of
                Inl e \<Rightarrow> (Inl e, b)
              | Inr node \<Rightarrow> (Inr (), b\<lparr>img := overwrite (img b) off node\<rparr>))"

definition writeExtentsTree :: "(mkfsBuilder, unit) op" where
  "writeExtentsTree b =
     editBlock (extStart b) 0
       (\<lambda>node. Inr (writeBTHeaderNode (mblockSize b) node
          \<lparr>pnodeSize = mnodeSize b, ptotalNodes = treeNodes b (extBlocks b), prootNode = 0, pfirstLeaf = 0,
           plastLeaf = 0, ptreeDepth = 0, pmaxKeyLength = 10, pkeyCompare = 0, pattributes = btreeBigKeysMask,
           pusedNodes = 1\<rparr>)) b"

text \<open>The loop of \<^verbatim>\<open>buildCatalogRootLeaf\<close>: \<^verbatim>\<open>copy\<close> stops at the end of the node, a start beyond it
  panics.\<close>

fun copyRecords :: "bytes \<Rightarrow> nat \<Rightarrow> u16 list \<Rightarrow> bytes list \<Rightarrow> (bytes \<times> u16 list) result" where
  "copyRecords leaf off offs [] = Inr (leaf, offs)"
| "copyRecords leaf off offs (r # rs) =
     (if off > length leaf then Inl Panic
      else copyRecords (overwrite leaf off (take (length leaf - off) r)) (off + length r)
             (offs @ [of_nat (off + length r)]) rs)"

definition rootRecords :: "mkfsBuilder \<Rightarrow> bytes list" where
  "rootRecords b =
     (let trec = encodeFolderThreadRecord cnidRootParent (mlabel b);
          folder = encodeFolderRecord cnidRootFolder (mnow b) 0;
          folder = (if mcaseSensitive b then setHasFolderCount folder 0 else folder)
      in [assembleCatalogRecord (encodeCatalogKey cnidRootParent (mlabel b)) folder,
          assembleCatalogRecord (encodeCatalogKey cnidRootFolder []) trec])"

definition buildCatalogRootLeaf :: "mkfsBuilder \<Rightarrow> bytes \<Rightarrow> bytes result" where
  "buildCatalogRootLeaf b leaf =
     bindR (copyRecords leaf nodeDescriptorLen [of_nat nodeDescriptorLen] (rootRecords b))
       (\<lambda>(leaf, offs). Inr (writeOffsetTable
          (writeNodeDescriptor leaf
             \<lparr>FLink = 0, BLink = 0, Kind = kindLeafNode, Height = 1, NumRecords = of_nat (length (rootRecords b))\<rparr>) offs))"

definition writeCatalogTree :: "(mkfsBuilder, unit) op" where
  "writeCatalogTree b =
     bnd (editBlock (catStart b) 1 (buildCatalogRootLeaf b))
       (\<lambda>_. editBlock (catStart b) 0
         (\<lambda>node. Inr (writeBTHeaderNode (mblockSize b) node
            \<lparr>pnodeSize = mnodeSize b, ptotalNodes = treeNodes b (catBlocks b), prootNode = 1, pfirstLeaf = 1,
             plastLeaf = 1, ptreeDepth = 1, pmaxKeyLength = 516,
             pkeyCompare = (if mcaseSensitive b then keyCompareBinary else keyCompareCaseFold),
             pattributes = btreeBigKeysMask OR btreeVariableKeyMask, pusedNodes = 2\<rparr>))) b"

section \<open>Volume headers\<close>

text \<open>The 80 bytes of \<^verbatim>\<open>encodeForkDescriptor\<close>, in a buffer of zeros.\<close>

definition encodeForkDescriptor :: "mkfsBuilder \<Rightarrow> int \<Rightarrow> u32 \<Rightarrow> u32 \<Rightarrow> bytes" where
  "encodeForkDescriptor b logicalSize startBlock blockCount =
     enc64 (word_of_int logicalSize) @ enc32 (mblockSize b) @ enc32 blockCount
     @ (if blockCount > 0 then enc32 startBlock @ enc32 blockCount else replicate 8 0)
     @ replicate 56 0"

definition encodeVolumeHeader :: "mkfsBuilder \<Rightarrow> bytes" where
  "encodeVolumeHeader b =
     (let now = hfsTime (mnow b);
          free = (if totalBlocks b > usedBlocks b then totalBlocks b - usedBlocks b else 0);
          span = (\<lambda>n. uint n * uint (mblockSize b))
      in puts (replicate 512 0)
        [(0, enc16 (if mcaseSensitive b then sigHFSX else sigHFSPlus)),
         (2, enc16 (if mcaseSensitive b then 5 else hfsPlusSigVersion)),
         (4, enc32 mkfsCleanUnmountAttributes),
         (8, [0x47, 0x4F, 0x46, 0x53]),
         (16, enc32 now), (20, enc32 now), (24, enc32 0), (28, enc32 0), (32, enc32 0), (36, enc32 0),
         (40, enc32 (mblockSize b)), (44, enc32 (totalBlocks b)), (48, enc32 free),
         (52, enc32 (catStart b + catBlocks b)), (56, enc32 (mblockSize b)), (60, enc32 (mblockSize b)),
         (64, enc32 (nextCatalogID b)), (68, enc32 0), (72, enc64 1),
         (specialBase + 0 * forkDataLen, encodeForkDescriptor b (span (allocBlks b)) (allocStart b) (allocBlks b)),
         (specialBase + 1 * forkDataLen, encodeForkDescriptor b (span (extBlocks b)) (extStart b) (extBlocks b)),
         (specialBase + 2 * forkDataLen, encodeForkDescriptor b (span (catBlocks b)) (catStart b) (catBlocks b)),
         (specialBase + 3 * forkDataLen, encodeForkDescriptor b 0 0 0),
         (specialBase + 4 * forkDataLen, encodeForkDescriptor b 0 0 0)])"

definition writeVolumeHeaders :: "(mkfsBuilder, unit) op" where
  "writeVolumeHeaders b =
     (if length (img b) < volumeHeaderOffset + 512 then (Inl Panic, b)
      else let vh = encodeVolumeHeader b;
               img1 = overwrite (img b) volumeHeaderOffset vh
           in (Inr (), b\<lparr>img := overwrite img1 (length img1 - 1024) vh\<rparr>))"

section \<open>The formatter\<close>

definition newBuilder :: "env \<Rightarrow> int \<Rightarrow> FormatConfig \<Rightarrow> mkfsBuilder" where
  "newBuilder env sizeBytes cfg =
     (let n = sizeBytes div mkfsBlockSize
      in \<lparr>img = replicate (nat (n * mkfsBlockSize)) 0, mblockSize = word_of_int mkfsBlockSize,
          totalBlocks = word_of_int n, mnodeSize = mkfsNodeSize, mcaseSensitive = cfgCaseSensitive cfg,
          mlabel = (if cfgLabel cfg = [] then gotest else cfgLabel cfg), mnow = envNow env,
          allocStart = 0, allocBlks = 0, extStart = 0, extBlocks = 0, catStart = 0, catBlocks = 0,
          nextCatalogID = 0, usedBlocks = 0\<rparr>)"

definition Mkfs :: "env \<Rightarrow> int \<Rightarrow> FormatConfig \<Rightarrow> bytes result" where
  "Mkfs env sizeBytes cfg =
     (if sizeBytes < mkfsBlockSize * 8 then Inl ErrCorrupt
      else bindR (layout (newBuilder env sizeBytes cfg))
             (\<lambda>b. case bnd writeAllocationBitmap (\<lambda>_. bnd writeExtentsTree (\<lambda>_. bnd writeCatalogTree (\<lambda>_. writeVolumeHeaders))) b of
                    (Inl e, _) \<Rightarrow> Inl e
                  | (Inr _, b') \<Rightarrow> Inr (img b')))"

end
