(* ===== verification/Session.thy ===== *)
theory Session
  imports Write
begin

text \<open>
  Sequences of mutations. Every operation of \<^verbatim>\<open>write.go\<close> and \<^verbatim>\<open>finderinfo.go\<close> that succeeds has ended in
  \<^verbatim>\<open>commit\<close>, and a committed volume is the one that opening its image gives; so the cached header and
  trees never drift from the bytes.
\<close>

section \<open>Commit\<close>

lemma length_flush_loop: "flush_loop m bs es img w = Inr img' \<Longrightarrow> w \<le> length m \<Longrightarrow> length img' = length img"
proof (induction m bs es img w rule: flush_loop.induct)
  case (2 m bs e es img w)
  then show ?case by (force simp: Let_def split: if_splits)
qed simp

lemma length_setHeaderFreeBlocks: "setHeaderFreeBlocks img free = Inr img' \<Longrightarrow> length img' = length img"
  unfolding setHeaderFreeBlocks_def by (erule length_setHeaderU32At) simp

text \<open>\<^verbatim>\<open>flush\<close> and \<^verbatim>\<open>reopen\<close> leave a usable volume usable, also where they fail half way.\<close>

lemma keeps_flushA: "keeps (usable n) (flushA a)"
  by (rule keepsI)
    (auto simp: flushA_def usable_def Let_def split: sum.split dest!: length_flush_loop length_setHeaderFreeBlocks)

lemma keeps_reopen: "keeps (usable n) reopen"
  by (rule keepsI)
    (auto simp: reopen_def openTrees_def usable_def Let_def split: sum.split dest: openBTree_nodeSize openExtentsTree_nodeSize)

lemma keeps_commit [keeps_rules]: "keeps (steady n) commit"
proof (rule keepsI)
  fix s assume s: "steady n s"
  obtain r v where f: "flushA (walc s) (wvol s) = (r, v)" by fastforce
  then have v: "usable n v" using s keeps_run [OF keeps_flushA] by (auto simp: steady_def)
  obtain r' v' where "reopen v = (r', v')" by fastforce
  moreover from this have "usable n v'" using v keeps_run [OF keeps_reopen] by blast
  ultimately show "steady n (snd (commit s))" using f v s by (auto simp: commit_def steady_def split: sum.split)
qed

lemma commit_opened:
  assumes "steady n s" "commit s = (Inr (), s')"
  shows "opened (wvol s')" "length (disk (wvol s')) = n"
proof -
  obtain v v' where f: "flushA (walc s) (wvol s) = (Inr (), v)" and r: "reopen v = (Inr (), v')" and s': "s' = s\<lparr>wvol := v'\<rparr>"
    using assms(2) by (auto simp: commit_def split: prod.splits sum.splits)
  have "usable n (wvol s)" using assms(1) by (simp add: steady_def)
  from keeps_run [OF keeps_flushA this f] have v: "wr v" "vsize v = int (length (disk v))" "length (disk v) = n"
    by (simp_all add: usable_def)
  show "opened (wvol s')" "length (disk (wvol s')) = n" using reopen_opened [OF r v(1,2)] v(3) s' by auto
qed

section \<open>Operations that end in a commit\<close>

definition commits :: "(wst, unit) op \<Rightarrow> bool" where
  "commits m \<longleftrightarrow> (\<forall>n s s'. steady n s \<longrightarrow> m s = (Inr (), s') \<longrightarrow> opened (wvol s') \<and> length (disk (wvol s')) = n)"

named_theorems commits_rules "operations that end in a commit"

lemma commits_commit [commits_rules]: "commits commit"
  using commit_opened by (auto simp: commits_def)

lemma commits_raise [commits_rules]: "commits (raise e)"
  by (simp add: commits_def raise_def)

lemma commits_bnd [commits_rules]:
  "(\<And>n. keeps (steady n) m) \<Longrightarrow> (\<And>x. commits (f x)) \<Longrightarrow> commits (bnd m f)"
  unfolding commits_def bnd_eq_Inr by (metis keeps_run)

lemma commits_option [commits_rules]:
  "commits m \<Longrightarrow> (\<And>x. commits (f x)) \<Longrightarrow> commits (case z of None \<Rightarrow> m | Some x \<Rightarrow> f x)"
  by (cases z) auto

lemma commits_prod [commits_rules]: "(\<And>x y. commits (f x y)) \<Longrightarrow> commits (case z of (x, y) \<Rightarrow> f x y)"
  by (cases z) auto

text \<open>The same for operations on a volume: from an opened volume to an opened volume of the same size.\<close>

definition openedOf :: "nat \<Rightarrow> Volume \<Rightarrow> bool" where
  "openedOf n v \<longleftrightarrow> opened v \<and> length (disk v) = n"

definition settles :: "(Volume, 'a) op \<Rightarrow> bool" where
  "settles m \<longleftrightarrow> (\<forall>n v x v'. openedOf n v \<longrightarrow> m v = (Inr x, v') \<longrightarrow> openedOf n v')"

named_theorems settles_rules "operations on volumes that leave an opened volume"

lemma settles_quiet: "quiet m \<Longrightarrow> settles m"
  unfolding settles_def by (metis quietD)

lemma settles_basic [settles_rules]: "settles (ret x)" "settles (raise e)" "settles (liftR f)" "settles (getS g)"
  by (intro settles_quiet quiet_rules)+

lemma settles_bnd [settles_rules]: "settles m \<Longrightarrow> (\<And>x. settles (f x)) \<Longrightarrow> settles (bnd m f)"
  unfolding settles_def bnd_eq_Inr by metis

lemma settles_if [settles_rules]: "settles m \<Longrightarrow> settles m' \<Longrightarrow> settles (if b then m else m')"
  by simp

lemma settles_option [settles_rules]:
  "settles m \<Longrightarrow> (\<And>x. settles (f x)) \<Longrightarrow> settles (case z of None \<Rightarrow> m | Some x \<Rightarrow> f x)"
  by (cases z) auto

lemma settles_prod [settles_rules]: "(\<And>x y. settles (f x y)) \<Longrightarrow> settles (case z of (x, y) \<Rightarrow> f x y)"
  by (cases z) auto

lemma settles_guarded [settles_rules]: "settles m \<Longrightarrow> settles (guarded m)"
  by (auto simp: settles_def guarded_def)

lemma opened_usable: "opened v \<Longrightarrow> usable (length (disk v)) v"
  using opened_facts [of v] by (auto simp: usable_def)

lemma begin_usable:
  assumes "usable n v" "beginTxn env v = Inr t"
  shows "steady n t"
proof -
  obtain et a ew cw where et: "extentsTree v = Some et" and ew: "newBTreeWriter v et forkExtentsFile = Inr ew"
    and cw: "newBTreeWriter v (catalogTree v) forkCatalogFile = Inr cw" and t: "t = \<lparr>wvol = v, walc = a, wcat = cw, wext = ew\<rparr>"
    using assms(2) by (auto simp: beginTxn_def bindR_eq_Inr newExtentsWriter_def newCatWriter_def split: option.splits)
  have ns: "nodeSize w = unat (NodeSize (theader tr))" if "newBTreeWriter v tr sel = Inr w" for w tr sel
    using that by (auto simp: newBTreeWriter_def Let_def bindR_eq_Inr split: if_splits)
  have "512 \<le> unat (NodeSize (theader et))" "512 \<le> unat (NodeSize (theader (catalogTree v)))"
    using assms(1) et by (simp_all add: usable_def word_le_nat_alt)
  then show ?thesis using ns [OF ew] ns [OF cw] t assms(1) by (simp add: steady_def)
qed

lemma beginTxn_steady: "opened v \<Longrightarrow> beginTxn env v = Inr t \<Longrightarrow> steady (length (disk v)) t"
  by (rule begin_usable [OF opened_usable])

lemma settles_runTxn [settles_rules]: "commits m \<Longrightarrow> settles (runTxn env m)"
  by (auto simp: settles_def openedOf_def runTxn_def commits_def split: sum.splits prod.splits)
    (metis beginTxn_steady)+

section \<open>The mutators\<close>

lemma settles_createTxn [settles_rules]: "settles (createTxn env parent name data mode)"
  unfolding createTxn_def by (intro settles_rules commits_rules keeps_rules)

lemma settles_removeTxn [settles_rules]: "settles (removeTxn env parent name cf)"
  unfolding removeTxn_def by (intro settles_rules commits_rules keeps_rules)

lemma settles_existing [settles_rules]: "settles (existing env parent name)"
  unfolding existing_def by (intro settles_rules)

lemma settles_mutators:
  "settles (WriteFile env p data perm)" "settles (MkDir env p perm)" "settles (DeleteFile env p)"
  "settles (DeleteDir env p)" "settles (Symlink env target p)" "settles (Truncate env p newSize)"
  "settles (SetLabel env l)" "settles (SetFinderInfo env p info)"
  "settles (Rename env p q)"
  unfolding WriteFile_def MkDir_def DeleteFile_def DeleteDir_def Symlink_def Truncate_def SetLabel_def
    SetFinderInfo_def Rename_def Let_def
  by (intro settles_rules commits_rules keeps_rules)+

end
