(* ===== verification/MkfsOpen.thy ===== *)
theory MkfsOpen
  imports Mkfs Session
begin

text \<open>
  What the formatter of \<^verbatim>\<open>mkfs.go\<close> produces: the layout as numbers of blocks, the image as a sequence
  of writes to disjoint regions, and the proof that opening the image yields an empty, writable
  volume with the label, the case rule and the free blocks that were asked for.
\<close>

section \<open>Writes to disjoint fields\<close>

text \<open>Buffers filled field by field: where no two fields overlap, each field holds what was written.\<close>

definition clear :: "nat \<Rightarrow> nat \<Rightarrow> nat \<times> bytes \<Rightarrow> bool" where
  "clear lo hi w \<longleftrightarrow> hi \<le> fst w \<or> fst w + length (snd w) \<le> lo"

definition fieldsIn :: "nat \<Rightarrow> (nat \<times> bytes) list \<Rightarrow> bool" where
  "fieldsIn n ws \<longleftrightarrow> sorted_wrt (\<lambda>w. clear (fst w) (fst w + length (snd w))) ws
     \<and> (\<forall>w \<in> set ws. fst w + length (snd w) \<le> n)"

lemma length_puts: "fieldsIn (length b) ws \<Longrightarrow> length (puts b ws) = length b"
  by (induction ws arbitrary: b) (auto simp: fieldsIn_def)

lemma puts_outside:
  assumes "fieldsIn (length b) ws" "\<forall>w \<in> set ws. clear lo hi w"
  shows "gslice (puts b ws) lo hi = gslice b lo hi"
  using assms
  by (induction ws arbitrary: b) (auto simp: fieldsIn_def clear_def gslice_overwrite_below gslice_overwrite_above)

lemma puts_field:
  assumes "fieldsIn (length b) ws" "(i, x) \<in> set ws"
  shows "gslice (puts b ws) i (i + length x) = x"
  using assms
proof (induction ws arbitrary: b)
  case (Cons w ws)
  have rest: "fieldsIn (length (overwrite b (fst w) (snd w))) ws" using Cons.prems(1) by (auto simp: fieldsIn_def)
  show ?case
  proof (cases "w = (i, x)")
    case True
    then have "gslice (puts (overwrite b i x) ws) i (i + length x) = gslice (overwrite b i x) i (i + length x)"
      using rest Cons.prems(1) by (intro puts_outside) (auto simp: fieldsIn_def)
    then show ?thesis using True Cons.prems(1) by (simp add: fieldsIn_def slice_simps)
  qed (use Cons rest in auto)
qed simp

text \<open>A part of a field.\<close>

lemma puts_part:
  assumes "fieldsIn (length b) ws" "(i, x) \<in> set ws" "hi \<le> length x"
  shows "gslice (puts b ws) (i + lo) (i + hi) = gslice x lo hi"
proof -
  have "min (i + length x) (i + hi) = i + hi" using assms(3) by simp
  then show ?thesis using gslice_gslice [of "puts b ws" i "i + length x" lo hi] puts_field [OF assms(1,2)] by simp
qed

lemma be16_field: "gslice b i (i + 2) = enc16 v \<Longrightarrow> be16 b i = v"
proof -
  assume eq: "gslice b i (i + 2) = enc16 v"
  have "i + 2 \<le> length b" using length_gslice [of b i "i + 2"] unfolding eq by simp
  then have "be16 (gslice b i (i + 2)) 0 = be16 b i" by (simp add: be16_gslice)
  then show ?thesis unfolding eq by (simp add: be16_enc16)
qed

lemma be32_field: "gslice b i (i + 4) = enc32 v \<Longrightarrow> be32 b i = v"
proof -
  assume eq: "gslice b i (i + 4) = enc32 v"
  have "i + 4 \<le> length b" using length_gslice [of b i "i + 4"] unfolding eq by simp
  then have "be32 (gslice b i (i + 4)) 0 = be32 b i" by (simp add: be32_gslice)
  then show ?thesis unfolding eq by (simp add: be32_enc32)
qed

lemmas puts_be16 = be16_field [OF puts_field [where x = "enc16 v" for v, unfolded length_enc]]
lemmas puts_be32 = be32_field [OF puts_field [where x = "enc32 v" for v, unfolded length_enc]]

lemma puts_byte: "fieldsIn (length b) ws \<Longrightarrow> (i, [x]) \<in> set ws \<Longrightarrow> puts b ws ! i = x"
proof -
  assume *: "fieldsIn (length b) ws" "(i, [x]) \<in> set ws"
  then have "i < length (puts b ws)" by (auto simp: length_puts fieldsIn_def)
  then have "gslice (puts b ws) i (i + length [x]) ! 0 = puts b ws ! i" by simp
  then show ?thesis unfolding puts_field [OF *] by simp
qed

section \<open>Layout\<close>

text \<open>Blocks of the bitmap and of the catalog on a volume of \<open>N\<close> blocks.\<close>

definition bitmapBlocks :: "nat \<Rightarrow> nat" where
  "bitmapBlocks N = (N + 32767) div 32768"

definition catalogBlocks :: "nat \<Rightarrow> nat" where
  "catalogBlocks N = min 256 (N - (bitmapBlocks N + 4))"

definition mkfsFits :: "nat \<Rightarrow> bool" where
  "mkfsFits N \<longleftrightarrow> 8 \<le> N \<and> N < 2 ^ 32"

lemma layout_bounds:
  assumes "mkfsFits N"
  shows "1 \<le> bitmapBlocks N" "bitmapBlocks N \<le> 131072" "bitmapBlocks N + 6 \<le> N" "N \<le> 32768 * bitmapBlocks N"
    "2 \<le> catalogBlocks N" "catalogBlocks N \<le> 256" "bitmapBlocks N + 4 + catalogBlocks N \<le> N"
  using assms unfolding mkfsFits_def bitmapBlocks_def catalogBlocks_def by simp_all arith+

lemma unat_small [simp]: "n < 2 ^ 32 \<Longrightarrow> unat (of_nat n :: u32) = n"
  by (simp add: unat_of_nat)

lemma of_nat_ne0: "0 < n \<Longrightarrow> n < 2 ^ 32 \<Longrightarrow> of_nat n \<noteq> (0 :: u32)"
  by (metis less_irrefl unat_0 unat_small)

lemma unat_sum: "a + b < 2 ^ 32 \<Longrightarrow> unat (of_nat a + of_nat b :: u32) = a + b"
  using unat_small [of "a + b"] by simp

lemma less_small: "a < 2 ^ 32 \<Longrightarrow> b < 2 ^ 32 \<Longrightarrow> (of_nat a :: u32) < of_nat b \<longleftrightarrow> a < b"
  by (simp add: word_less_nat_alt)

definition layoutOf :: "nat \<Rightarrow> mkfsBuilder \<Rightarrow> mkfsBuilder" where
  "layoutOf N b = b\<lparr>allocStart := 1, allocBlks := of_nat (bitmapBlocks N), extStart := of_nat (bitmapBlocks N + 1),
     extBlocks := 2, catStart := of_nat (bitmapBlocks N + 3), catBlocks := of_nat (catalogBlocks N),
     nextCatalogID := 16\<rparr>"

lemma layout_eq:
  assumes "mkfsFits N" and b: "mblockSize b = 4096" "mnodeSize b = 4096" "totalBlocks b = of_nat N"
  shows "layout b = Inr (layoutOf N b)"
proof -
  let ?A = "bitmapBlocks N"
  note bd = layout_bounds [OF assms(1)]
  have N: "N < 2 ^ 32" using assms(1) by (simp add: mkfsFits_def)
  have "uint (totalBlocks b) = int N" using b N by (simp add: uint_nat)
  moreover have "((int N + 7) div 8 + 4096 - 1) div 4096 = int ?A"
    unfolding bitmapBlocks_def by (simp add: zdiv_int)
  ultimately have "word_of_int (((uint (totalBlocks b) + 7) div 8 + uint (mblockSize b) - 1) div uint (mblockSize b)) = (of_nat ?A :: u32)"
    by (simp add: b)
  then have a: "atLeast1 (word_of_int (((uint (totalBlocks b) + 7) div 8 + uint (mblockSize b) - 1) div uint (mblockSize b)))
      = of_nat ?A"
    using bd(1,2) by (auto simp: atLeast1_def dest: arg_cong [where f = unat])
  have e: "atLeast1 (word_of_int (uint (mnodeSize b) * 2 div uint (mblockSize b))) = 2"
    "atLeast1 (word_of_int ((uint (mnodeSize b) * catalogReserveNodes + uint (mblockSize b) - 1) div uint (mblockSize b))) = 256"
    "word_of_int ((uint (mnodeSize b) * minCatalogNodes + uint (mblockSize b) - 1) div uint (mblockSize b)) = (2 :: u32)"
    by (simp_all add: b atLeast1_def catalogReserveNodes_def minCatalogNodes_def)
  have sums: "1 + of_nat ?A + 2 + 1 = (of_nat (?A + 4) :: u32)" "(1 :: u32) + of_nat ?A = of_nat (?A + 1)"
    "of_nat (?A + 1) + 2 = (of_nat (?A + 3) :: u32)" by simp_all
  define b' where "b' = layoutOf N b"
  have b': "b\<lparr>allocStart := 1, allocBlks := of_nat ?A, extStart := of_nat (?A + 1), extBlocks := 2,
      catStart := of_nat (?A + 3), catBlocks := c, nextCatalogID := firstUserCatalogID\<rparr> = b'\<lparr>catBlocks := c\<rparr>" for c
    by (simp add: b'_def layoutOf_def firstUserCatalogID_def)
  have "layout b = (if of_nat (?A + 4) + 256 > totalBlocks b then
      if of_nat (?A + 4) + 2 > totalBlocks b then Inl ErrCorrupt else Inr (b'\<lparr>catBlocks := totalBlocks b - of_nat (?A + 4)\<rparr>)
      else Inr (b'\<lparr>catBlocks := 256\<rparr>))"
    unfolding layout_def Let_def a e unfolding sums b' by simp
  also have "\<dots> = (if N < ?A + 260 then Inr (b'\<lparr>catBlocks := of_nat (N - (?A + 4))\<rparr>) else Inr (b'\<lparr>catBlocks := 256\<rparr>))"
  proof -
    have "totalBlocks b < of_nat (?A + 4) + 256 \<longleftrightarrow> N < ?A + 260" "\<not> totalBlocks b < of_nat (?A + 4) + 2"
      using less_small [of N "?A + 260"] less_small [of N "?A + 6"] N bd b by (simp_all add: add.commute)
    moreover have "totalBlocks b - of_nat (?A + 4) = of_nat (N - (?A + 4))" using b bd(3) by (simp add: of_nat_diff)
    ultimately show ?thesis by simp
  qed
  also have "\<dots> = Inr (b'\<lparr>catBlocks := of_nat (catalogBlocks N)\<rparr>)" by (simp add: catalogBlocks_def)
  finally show ?thesis by (simp add: b'_def layoutOf_def)
qed

section \<open>The bitmap\<close>

definition usedList :: "nat \<Rightarrow> nat list" where
  "usedList N = [0..<1] @ [1..<1 + bitmapBlocks N] @ [bitmapBlocks N + 1..<bitmapBlocks N + 1 + 2]
     @ [bitmapBlocks N + 3..<bitmapBlocks N + 3 + catalogBlocks N] @ [N - 1..<N - 1 + 1]"

definition bitmapImage :: "nat \<Rightarrow> bytes" where
  "bitmapImage N = foldl setBit (replicate (bitmapBlocks N * 4096) 0) (usedList N)"

lemma length_bitmapImage [simp]: "length (bitmapImage N) = bitmapBlocks N * 4096"
  by (simp add: bitmapImage_def)

text \<open>Marking a run of blocks whose end does not wrap.\<close>

lemma markUsed_eq:
  assumes "unat start = a" "unat count = c" "a + c < 2 ^ 32" "a + c \<le> length m * 8"
  shows "markUsed m start count b
    = (Inr (foldl setBit m [a..<a + c]), b\<lparr>usedBlocks := usedBlocks b + of_nat c\<rparr>)"
proof -
  have sum: "unat (start + count) = a + c" using assms by (simp add: unat_word_ariths)
  have "setRun m [a..<a + c] = Some (foldl setBit m [a..<a + c])"
    by (rule setRun_eq) (use assms(4) in \<open>auto simp: inMap_def\<close>)
  then show ?thesis by (simp add: markUsed_def sum assms(1))
qed

lemma writeAllocationBitmap_eq:
  assumes "mkfsFits N" and b: "mblockSize b = 4096" "totalBlocks b = of_nat N" "length (img b) = 4096 * N" "usedBlocks b = 0"
  shows "writeAllocationBitmap (layoutOf N b)
    = (Inr (), (layoutOf N b)\<lparr>img := overwrite (img b) 4096 (bitmapImage N),
        usedBlocks := of_nat (bitmapBlocks N + 4 + catalogBlocks N)\<rparr>)"
proof -
  let ?A = "bitmapBlocks N" and ?C = "catalogBlocks N" and ?L = "layoutOf N b"
  note bd = layout_bounds [OF assms(1)]
  have N: "N < 2 ^ 32" "N \<noteq> 0" using assms(1) by (auto simp: mkfsFits_def)
  have last: "unat (of_nat N - 1 :: u32) = N - 1"
    using N by (metis One_nat_def Suc_leI of_nat_1 of_nat_diff unat_small less_imp_diff_less neq0_conv)
  define m0 :: bytes where "m0 = replicate (?A * 4096) 0"
  define m1 where "m1 = foldl setBit m0 [0..<1]"
  define m2 where "m2 = foldl setBit m1 [1..<1 + ?A]"
  define m3 where "m3 = foldl setBit m2 [?A + 1..<?A + 1 + 2]"
  define m4 where "m4 = foldl setBit m3 [?A + 3..<?A + 3 + ?C]"
  define m5 where "m5 = foldl setBit m4 [N - 1..<N - 1 + 1]"
  have l0: "length m0 * 8 = 32768 * ?A" by (simp add: m0_def)
  have len: "length m1 = length m0" "length m2 = length m0" "length m3 = length m0" "length m4 = length m0"
    "length m5 = length m0" by (simp_all add: m1_def m2_def m3_def m4_def m5_def)
  have room: "?A + 3 + ?C \<le> length m0 * 8" "N \<le> length m0 * 8" "1 + ?A \<le> length m0 * 8"
    using bd unfolding l0 by auto
  define c1 c2 c3 c4 c5 where "c1 = ?L\<lparr>usedBlocks := usedBlocks ?L + of_nat 1\<rparr>"
    and "c2 = c1\<lparr>usedBlocks := usedBlocks c1 + of_nat ?A\<rparr>" and "c3 = c2\<lparr>usedBlocks := usedBlocks c2 + of_nat 2\<rparr>"
    and "c4 = c3\<lparr>usedBlocks := usedBlocks c3 + of_nat ?C\<rparr>" and "c5 = c4\<lparr>usedBlocks := usedBlocks c4 + of_nat 1\<rparr>"
  note cs = c1_def c2_def c3_def c4_def c5_def
  have L: "allocBlks ?L = of_nat ?A" "allocStart ?L = 1" "extStart ?L = of_nat (?A + 1)" "extBlocks ?L = 2"
    "catStart ?L = of_nat (?A + 3)" "catBlocks ?L = of_nat ?C" "mblockSize ?L = 4096" "totalBlocks ?L = of_nat N"
    "usedBlocks ?L = 0" "img ?L = img b" using b by (simp_all add: layoutOf_def)
  have s0: "getS (\<lambda>b. replicate (unat (allocBlks b) * unat (mblockSize b)) 0) ?L = (Inr m0, ?L)"
    using bd(2) by (simp add: getS_def m0_def L)
  have s1: "markUsed m0 0 1 ?L = (Inr m1, c1)"
    unfolding m1_def c1_def using bd room markUsed_eq [of 0 0 1 1 m0 ?L] by simp
  have s2: "markSpan m1 allocStart allocBlks c1 = (Inr m2, c2)"
    unfolding m2_def c2_def markSpan_def using bd room len by (intro markUsed_eq) (simp_all add: c1_def L)
  have s3: "markSpan m2 extStart extBlocks c2 = (Inr m3, c3)"
    unfolding m3_def c3_def markSpan_def using bd room len unat_small [of "?A + 1"]
    by (intro markUsed_eq) (simp_all add: cs L del: of_nat_add)
  have s4: "markSpan m3 catStart catBlocks c3 = (Inr m4, c4)"
    unfolding m4_def c4_def markSpan_def using bd room len unat_small [of "?A + 3"]
    by (intro markUsed_eq) (simp_all add: cs L del: of_nat_add)
  have s5: "markSpan m4 (\<lambda>b. totalBlocks b - 1) (\<lambda>_. 1) c4 = (Inr m5, c5)"
    unfolding m5_def c5_def markSpan_def using bd room len N last by (intro markUsed_eq) (simp_all add: cs L)
  have m5: "m5 = bitmapImage N"
    by (simp only: bitmapImage_def usedList_def m5_def m4_def m3_def m2_def m1_def m0_def foldl_append)
  have fit: "take (length (img b) - 4096) m5 = m5" "4096 \<le> length (img b)"
    using len(5) b bd by (simp_all add: m0_def)
  have c5: "c5 = ?L\<lparr>usedBlocks := of_nat (?A + 4 + ?C)\<rparr>" by (simp add: cs L)
  have s6: "copyBitmap m5 c5 = (Inr (), c5\<lparr>img := overwrite (img b) 4096 (bitmapImage N)\<rparr>)"
    using fit by (simp add: copyBitmap_def Let_def blockOffset_def c5 L m5)
  show ?thesis
    by (simp only: writeAllocationBitmap_def bnd_def s0 s1 s2 s3 s4 s5 s6 prod.case sum.case) (simp add: c5)
qed

section \<open>Nodes\<close>

lemma editBlock_eq:
  assumes b: "mblockSize b = 4096" "mnodeSize b = 4096" and start: "unat start = k"
    and room: "4096 * (k + 1) \<le> length (img b)" "4096 * (k + i + 1) \<le> length (img b)"
    and f: "f (gslice (img b) (4096 * (k + i)) (4096 * (k + i) + 4096)) = Inr node"
  shows "editBlock start i f b = (Inr (), b\<lparr>img := overwrite (img b) (4096 * (k + i)) node\<rparr>)"
proof -
  have ns: "unat (mnodeSize b) = 4096" "unat (mblockSize b) = 4096" "blockOffset b start = 4096 * k"
    by (simp_all add: blockOffset_def b start)
  have eq: "4096 * k + i * 4096 = 4096 * (k + i)" by simp
  have "\<not> (4096 * k + 4096 > length (img b) \<or> 4096 * (k + i) + 4096 > length (img b))" using room by simp
  then show ?thesis unfolding editBlock_def Let_def ns eq f by (simp only: if_False sum.case)
qed

definition blankNode :: bytes where
  "blankNode = replicate 4096 0"

lemma length_blankNode [simp]: "length blankNode = 4096"
  by (simp add: blankNode_def)

definition headerNode :: "extentsTreeParams \<Rightarrow> bytes" where
  "headerNode p = writeBTHeaderNode 4096 blankNode p"

text \<open>The fields of a header node before the bitmap and the offset table are added; neither reaches
  below byte 248.\<close>

definition headerFields :: "extentsTreeParams \<Rightarrow> (nat \<times> bytes) list" where
  "headerFields p =
     [(14, enc16 (ptreeDepth p)), (16, enc32 (prootNode p)), (20, enc32 (leafRecordCount p)),
      (24, enc32 (pfirstLeaf p)), (28, enc32 (plastLeaf p)), (32, enc16 (pnodeSize p)),
      (34, enc16 (pmaxKeyLength p)), (36, enc32 (ptotalNodes p)),
      (40, enc32 (ptotalNodes p - pusedNodes p)), (46, enc32 4096), (50, [0]),
      (51, [pkeyCompare p]), (52, enc32 (pattributes p))]"

lemma headerFields_in: "fieldsIn 4096 (headerFields p)"
  by (simp add: fieldsIn_def headerFields_def clear_def)

definition headerFront :: "extentsTreeParams \<Rightarrow> bytes" where
  "headerFront p = writeNodeDescriptor (puts blankNode (headerFields p))
     \<lparr>FLink = 0, BLink = 0, Kind = kindHeaderNode, Height = 0, NumRecords = 3\<rparr>"

lemma length_headerPuts [simp]: "length (puts blankNode (headerFields p)) = 4096"
  using headerFields_in [of p] by (simp add: length_puts)

lemma length_headerFront [simp]: "length (headerFront p) = 4096"
  by (simp add: headerFront_def)

definition headerMapBytes :: "extentsTreeParams \<Rightarrow> bytes" where
  "headerMapBytes p = foldl setBit (gslice (headerFront p) 248 4088) [0..<unat (pusedNodes p)]"

lemma headerNode_eq:
  "headerNode p = writeOffsetTable (overwrite (headerFront p) 248 (headerMapBytes p)) [14, 120, 248, 4088]"
  unfolding headerNode_def writeBTHeaderNode_def Let_def nodeDescriptorLen_def headerMapBytes_def headerFront_def
    headerFields_def length_blankNode by simp

lemma length_headerNode [simp]: "length (headerNode p) = 4096"
  by (simp add: headerNode_eq length_writeOffsetTable headerMapBytes_def)

lemma headerNode_front: "hi \<le> 248 \<Longrightarrow> gslice (headerNode p) lo hi = gslice (headerFront p) lo hi"
  unfolding headerNode_eq
  by (subst writeOffsetTable_below) (simp_all add: headerMapBytes_def slice_simps)

text \<open>Buffers that agree on a prefix decode alike there.\<close>

lemma same_front:
  assumes "gslice b 0 hi = gslice c 0 hi" "hi \<le> length b" "hi \<le> length c"
  shows "i < hi \<Longrightarrow> b ! i = c ! i" "i + 2 \<le> hi \<Longrightarrow> be16 b i = be16 c i" "i + 4 \<le> hi \<Longrightarrow> be32 b i = be32 c i"
proof -
  show nth: "b ! i = c ! i" if "i < hi" for i
    using nth_gslice [of i hi 0 b] nth_gslice [of i hi 0 c] assms that by simp
  show "i + 2 \<le> hi \<Longrightarrow> be16 b i = be16 c i" "i + 4 \<le> hi \<Longrightarrow> be32 b i = be32 c i"
    using nth by (simp_all add: be16_def be32_def)
qed

lemmas headerNode_same = same_front [OF headerNode_front [OF order_refl], simplified]

lemma headerFront_above: "12 \<le> lo \<Longrightarrow> gslice (headerFront p) lo hi = gslice (puts blankNode (headerFields p)) lo hi"
  by (simp add: headerFront_def writeNodeDescriptor_def slice_simps)

lemma headerFront_field:
  "(i, x) \<in> set (headerFields p) \<Longrightarrow> 12 \<le> i \<Longrightarrow> gslice (headerFront p) i (i + length x) = x"
  using puts_field [of blankNode "headerFields p"] headerFields_in [of p] by (simp add: headerFront_above)

lemma headerFront_be:
  "(i, enc16 v) \<in> set (headerFields p) \<Longrightarrow> 12 \<le> i \<Longrightarrow> be16 (headerFront p) i = v"
  "(i, enc32 w) \<in> set (headerFields p) \<Longrightarrow> 12 \<le> i \<Longrightarrow> be32 (headerFront p) i = w"
  using headerFront_field [of i "enc16 v" p] headerFront_field [of i "enc32 w" p]
  by (auto intro: be16_field be32_field)

lemma headerFront_fields:
  "be16 (headerFront p) 32 = pnodeSize p" "be32 (headerFront p) 16 = prootNode p"
  "be32 (headerFront p) 24 = pfirstLeaf p" "be32 (headerFront p) 28 = plastLeaf p"
  "be32 (headerFront p) 52 = pattributes p" "headerFront p ! 51 = pkeyCompare p"
proof -
  show "headerFront p ! 51 = pkeyCompare p"
  proof -
    have "(51, [pkeyCompare p]) \<in> set (headerFields p)" by (simp add: headerFields_def)
    then show ?thesis using puts_byte [of blankNode "headerFields p" 51 "pkeyCompare p"] headerFields_in [of p]
      by (simp add: headerFront_def writeNodeDescriptor_def nth_overwrite)
  qed
qed (rule headerFront_be; simp add: headerFields_def)+

lemma encodeDescriptor_kind: "encodeDescriptor d ! 8 = Kind d"
  by (simp add: encodeDescriptor_def nth_append)

lemma headerFront_kind: "headerFront p ! 8 = kindHeaderNode"
  by (simp add: headerFront_def writeNodeDescriptor_def nth_overwrite encodeDescriptor_kind)

lemma headerNode_fields:
  "be16 (headerNode p) 32 = pnodeSize p" "be32 (headerNode p) 16 = prootNode p"
  "be32 (headerNode p) 24 = pfirstLeaf p" "be32 (headerNode p) 28 = plastLeaf p"
  "be32 (headerNode p) 52 = pattributes p" "headerNode p ! 51 = pkeyCompare p" "headerNode p ! 8 = kindHeaderNode"
  by (simp_all add: headerNode_same headerFront_fields headerFront_kind)

text \<open>The root leaf is what \<^verbatim>\<open>storeNode\<close> would have written.\<close>

lemma copyRecords_fits:
  assumes "length pre + sum_list (map length rs) \<le> ns"
  shows "copyRecords (pre @ replicate (ns - length pre) 0) (length pre) offs rs
    = Inr (pre @ concat rs @ replicate (ns - length pre - length (concat rs)) 0,
       offs @ map of_nat (tl (offsFrom (length pre) rs)))"
  using assms
proof (induction rs arbitrary: pre offs)
  case (Cons r rs)
  have "overwrite (pre @ replicate (ns - length pre) 0) (length pre) r
      = (pre @ r) @ replicate (ns - length (pre @ r)) 0"
    by (simp add: overwrite_def)
  moreover have "copyRecords ((pre @ r) @ replicate (ns - length (pre @ r)) 0) (length (pre @ r))
      (offs @ [of_nat (length (pre @ r))]) rs
    = Inr ((pre @ r) @ concat rs @ replicate (ns - length (pre @ r) - length (concat rs)) 0,
       (offs @ [of_nat (length (pre @ r))]) @ map of_nat (tl (offsFrom (length (pre @ r)) rs)))"
    using Cons.prems by (intro Cons.IH) simp
  moreover obtain os where "offsFrom (length pre + length r) rs = (length pre + length r) # os"
    using offsFrom_hd by blast
  ultimately show ?case using Cons.prems by simp
qed simp

definition rootDesc :: nodeDescriptor where
  "rootDesc = \<lparr>FLink = 0, BLink = 0, Kind = kindLeafNode, Height = 1, NumRecords = 2\<rparr>"

definition rootLeaf :: "mkfsBuilder \<Rightarrow> bytes" where
  "rootLeaf b = snd (packNode 4096 rootDesc (rootRecords b))"

lemma length_rootRecords [simp]: "length (rootRecords b) = 2"
  by (simp add: rootRecords_def Let_def)

lemma buildCatalogRootLeaf_eq:
  assumes "recordsFit 4096 (rootRecords b)"
  shows "buildCatalogRootLeaf b blankNode = Inr (rootLeaf b)"
proof -
  have "blankNode = replicate nodeDescriptorLen 0 @ replicate (4096 - nodeDescriptorLen) 0"
    by (simp add: blankNode_def nodeDescriptorLen_def flip: replicate_add)
  then have "copyRecords blankNode nodeDescriptorLen [of_nat nodeDescriptorLen] (rootRecords b)
      = Inr (nodeBody 4096 (rootRecords b), map of_nat (offsFrom nodeDescriptorLen (rootRecords b)))"
    using copyRecords_fits [of "replicate nodeDescriptorLen 0" "rootRecords b" 4096 "[of_nat nodeDescriptorLen]"]
      assms offsFrom_hd [of nodeDescriptorLen "rootRecords b"]
    by (simp add: recordsFit_alt nodeBody_def) (metis list.map(2))
  then show ?thesis using packNode_fits [OF assms, of rootDesc]
    by (simp add: buildCatalogRootLeaf_def rootLeaf_def rootDesc_def)
qed

section \<open>The image\<close>

definition extParams :: extentsTreeParams where
  "extParams = \<lparr>pnodeSize = 4096, ptotalNodes = 2, prootNode = 0, pfirstLeaf = 0, plastLeaf = 0, ptreeDepth = 0,
     pmaxKeyLength = 10, pkeyCompare = 0, pattributes = btreeBigKeysMask, pusedNodes = 1\<rparr>"

definition catParams :: "nat \<Rightarrow> bool \<Rightarrow> extentsTreeParams" where
  "catParams N cs = \<lparr>pnodeSize = 4096, ptotalNodes = of_nat (catalogBlocks N), prootNode = 1, pfirstLeaf = 1,
     plastLeaf = 1, ptreeDepth = 1, pmaxKeyLength = 516,
     pkeyCompare = (if cs then keyCompareBinary else keyCompareCaseFold),
     pattributes = btreeBigKeysMask OR btreeVariableKeyMask, pusedNodes = 2\<rparr>"

definition finalBuilder :: "nat \<Rightarrow> mkfsBuilder \<Rightarrow> mkfsBuilder" where
  "finalBuilder N b = (layoutOf N b)\<lparr>usedBlocks := of_nat (bitmapBlocks N + 4 + catalogBlocks N)\<rparr>"

definition mkfsWrites :: "nat \<Rightarrow> mkfsBuilder \<Rightarrow> (nat \<times> bytes) list" where
  "mkfsWrites N b =
     [(4096, bitmapImage N), (4096 * (bitmapBlocks N + 1), headerNode extParams),
      (4096 * (bitmapBlocks N + 4), rootLeaf b),
      (4096 * (bitmapBlocks N + 3), headerNode (catParams N (mcaseSensitive b))),
      (1024, encodeVolumeHeader (finalBuilder N b)), (4096 * N - 1024, encodeVolumeHeader (finalBuilder N b))]"

definition freshBuilder :: "nat \<Rightarrow> mkfsBuilder \<Rightarrow> bool" where
  "freshBuilder N b \<longleftrightarrow> mkfsFits N \<and> mblockSize b = 4096 \<and> mnodeSize b = 4096 \<and> totalBlocks b = of_nat N
     \<and> img b = replicate (4096 * N) 0 \<and> usedBlocks b = 0 \<and> recordsFit 4096 (rootRecords b)"

lemma length_encodeForkDescriptor [simp]: "length (encodeForkDescriptor b sz start cnt) = 80"
  by (simp add: encodeForkDescriptor_def)

definition volumeFields :: "mkfsBuilder \<Rightarrow> (nat \<times> bytes) list" where
  "volumeFields b =
     (let now = hfsTime (mnow b);
          free = (if totalBlocks b > usedBlocks b then totalBlocks b - usedBlocks b else 0);
          span = (\<lambda>n. uint n * uint (mblockSize b))
      in [(0, enc16 (if mcaseSensitive b then sigHFSX else sigHFSPlus)),
         (2, enc16 (if mcaseSensitive b then 5 else hfsPlusSigVersion)),
         (4, enc32 mkfsCleanUnmountAttributes),
         (8, [0x47, 0x4F, 0x46, 0x53]),
         (16, enc32 now), (20, enc32 now), (24, enc32 0), (28, enc32 0), (32, enc32 0), (36, enc32 0),
         (40, enc32 (mblockSize b)), (44, enc32 (totalBlocks b)), (48, enc32 free),
         (52, enc32 (catStart b + catBlocks b)), (56, enc32 (mblockSize b)), (60, enc32 (mblockSize b)),
         (64, enc32 (nextCatalogID b)), (68, enc32 0), (72, enc64 1),
         (112, encodeForkDescriptor b (span (allocBlks b)) (allocStart b) (allocBlks b)),
         (192, encodeForkDescriptor b (span (extBlocks b)) (extStart b) (extBlocks b)),
         (272, encodeForkDescriptor b (span (catBlocks b)) (catStart b) (catBlocks b)),
         (352, encodeForkDescriptor b 0 0 0), (432, encodeForkDescriptor b 0 0 0)])"

lemma encodeVolumeHeader_puts: "encodeVolumeHeader b = puts (replicate 512 0) (volumeFields b)"
  unfolding encodeVolumeHeader_def volumeFields_def Let_def specialBase_def forkDataLen_def numInlineExtents_def by simp

lemma volumeFields_in: "fieldsIn 512 (volumeFields b)"
  unfolding fieldsIn_def volumeFields_def Let_def clear_def by simp

lemma length_encodeVolumeHeader [simp]: "length (encodeVolumeHeader b) = 512"
  using volumeFields_in by (simp add: encodeVolumeHeader_puts length_puts)

lemma length_rootLeaf [simp]: "length (rootLeaf b) = 4096"
  by (simp add: rootLeaf_def length_packNode_any)

lemma mkfsWrites_in:
  assumes "mkfsFits N"
  shows "fieldsIn (4096 * N) (mkfsWrites N b)"
  using layout_bounds [OF assms] unfolding mkfsWrites_def fieldsIn_def clear_def
  by simp (intro conjI disjI1; linarith)

text \<open>Writing a node into blocks that no earlier write has touched.\<close>

lemma editBlock_fresh:
  assumes b: "mblockSize b = 4096" "mnodeSize b = 4096" and start: "unat start = k" and "k + i < N"
    and img: "img b = puts (replicate (4096 * N) 0) ws" "fieldsIn (4096 * N) ws"
    and clr: "\<forall>w \<in> set ws. clear (4096 * (k + i)) (4096 * (k + i) + 4096) w"
    and f: "f blankNode = Inr node"
  shows "editBlock start i f b
    = (Inr (), b\<lparr>img := puts (replicate (4096 * N) 0) (ws @ [(4096 * (k + i), node)])\<rparr>)"
proof -
  have len: "length (img b) = 4096 * N" using img by (simp add: length_puts)
  have "gslice (img b) (4096 * (k + i)) (4096 * (k + i) + 4096)
      = gslice (replicate (4096 * N) 0) (4096 * (k + i)) (4096 * (k + i) + 4096)"
    unfolding img(1) by (rule puts_outside) (use img clr in simp_all)
  also have "\<dots> = blankNode" using assms(4) by (simp add: gslice_def blankNode_def)
  finally have "f (gslice (img b) (4096 * (k + i)) (4096 * (k + i) + 4096)) = Inr node" using f by simp
  then have "editBlock start i f b = (Inr (), b\<lparr>img := overwrite (img b) (4096 * (k + i)) node\<rparr>)"
    using assms(4) b start by (intro editBlock_eq) (simp_all add: len)
  then show ?thesis by (simp add: img(1) puts_def)
qed

lemma treeNodes_eq: "mblockSize b = 4096 \<Longrightarrow> mnodeSize b = 4096 \<Longrightarrow> treeNodes b n = n"
  by (simp add: treeNodes_def)

lemma rootRecords_cong:
  "mlabel b = mlabel c \<Longrightarrow> mnow b = mnow c \<Longrightarrow> mcaseSensitive b = mcaseSensitive c \<Longrightarrow> rootRecords b = rootRecords c"
  by (simp add: rootRecords_def)

lemma mkfs_run:
  assumes "freshBuilder N b"
  shows "bnd writeAllocationBitmap (\<lambda>_. bnd writeExtentsTree (\<lambda>_. bnd writeCatalogTree (\<lambda>_. writeVolumeHeaders)))
      (layoutOf N b)
    = (Inr (), (finalBuilder N b)\<lparr>img := puts (replicate (4096 * N) 0) (mkfsWrites N b)\<rparr>)"
proof -
  have fits: "mkfsFits N" using assms by (simp add: freshBuilder_def)
  have b: "mblockSize b = 4096" "mnodeSize b = 4096" "totalBlocks b = of_nat N" "img b = replicate (4096 * N) 0"
    "usedBlocks b = 0" and rf: "recordsFit 4096 (rootRecords b)" using assms by (simp_all add: freshBuilder_def)
  note bd = layout_bounds [OF fits]
  let ?A = "bitmapBlocks N" and ?Z = "replicate (4096 * N) (0 :: byte)" and ?V = "encodeVolumeHeader (finalBuilder N b)"
  define at where "at ws = (finalBuilder N b)\<lparr>img := puts ?Z ws\<rparr>" for ws
  define w1 w2 w3 w4 where "w1 = (4096 :: nat, bitmapImage N)" and "w2 = (4096 * (?A + 1 + 0), headerNode extParams)"
    and "w3 = (4096 * (?A + 3 + 1), rootLeaf b)"
    and "w4 = (4096 * (?A + 3 + 0), headerNode (catParams N (mcaseSensitive b)))"
  note ws = w1_def w2_def w3_def w4_def
  have at: "mblockSize (at ws) = 4096" "mnodeSize (at ws) = 4096" "img (at ws) = puts ?Z ws"
    "extStart (at ws) = of_nat (?A + 1)" "catStart (at ws) = of_nat (?A + 3)" "extBlocks (at ws) = 2"
    "catBlocks (at ws) = of_nat (catalogBlocks N)" "mcaseSensitive (at ws) = mcaseSensitive b"
    "rootRecords (at ws) = rootRecords b" "(at ws)\<lparr>img := puts ?Z ws'\<rparr> = at ws'"
    "encodeVolumeHeader (at ws) = ?V" for ws ws'
    by (simp_all add: at_def finalBuilder_def layoutOf_def b encodeVolumeHeader_def encodeForkDescriptor_def
        cong: rootRecords_cong)
  have in4: "fieldsIn (4096 * N) [w1, w2, w3, w4]" "fieldsIn (4096 * N) [w1, w2, w3]" "fieldsIn (4096 * N) [w1, w2]"
    "fieldsIn (4096 * N) [w1]"
    using bd by (simp_all add: ws fieldsIn_def clear_def)
  have s1: "writeAllocationBitmap (layoutOf N b) = (Inr (), at [w1])"
    using writeAllocationBitmap_eq [OF fits, of b] b by (simp add: at_def finalBuilder_def w1_def)
  have start: "unat (of_nat (?A + 1) :: u32) = ?A + 1" "unat (of_nat (?A + 3) :: u32) = ?A + 3"
    by (rule unat_small, use bd in simp)+
  have edit: "editBlock st i f (at ws) = (Inr (), at (ws @ [(4096 * (k + i), nd)]))"
    if "unat st = k" "k + i < N" "fieldsIn (4096 * N) ws" "\<forall>w \<in> set ws. clear (4096 * (k + i)) (4096 * (k + i) + 4096) w"
      "f blankNode = Inr nd" for st i k f ws nd
    using editBlock_fresh [OF at(1,2) that(1,2) at(3) that(3,4), of f nd] that(5) by (simp add: at(10))
  have clr: "\<forall>w \<in> set [w1]. clear (4096 * (?A + 1 + 0)) (4096 * (?A + 1 + 0) + 4096) w"
    "\<forall>w \<in> set [w1, w2]. clear (4096 * (?A + 3 + 1)) (4096 * (?A + 3 + 1) + 4096) w"
    "\<forall>w \<in> set [w1, w2, w3]. clear (4096 * (?A + 3 + 0)) (4096 * (?A + 3 + 0) + 4096) w"
    by (simp_all add: ws clear_def)
  have s2: "writeExtentsTree (at [w1]) = (Inr (), at [w1, w2])"
    unfolding writeExtentsTree_def at(4)
    by (subst edit [OF start(1) _ in4(4) clr(1), where nd = "headerNode extParams"])
      (use bd in \<open>simp_all add: at treeNodes_eq headerNode_def extParams_def w2_def\<close>)
  have s3: "editBlock (of_nat (?A + 3)) 1 (buildCatalogRootLeaf (at [w1, w2])) (at [w1, w2]) = (Inr (), at [w1, w2, w3])"
    by (subst edit [OF start(2) _ in4(3) clr(2), where nd = "rootLeaf b"])
      (use bd buildCatalogRootLeaf_eq [of "at [w1, w2]"] rf in
        \<open>simp_all add: at rootLeaf_def w3_def\<close>)
  have s4: "writeCatalogTree (at [w1, w2]) = (Inr (), at [w1, w2, w3, w4])"
    unfolding writeCatalogTree_def bnd_def at(5) s3 prod.case sum.case
    by (subst edit [OF start(2) _ in4(2) clr(3), where nd = "headerNode (catParams N (mcaseSensitive b))"])
      (use bd in \<open>simp_all add: at treeNodes_eq headerNode_def catParams_def w4_def\<close>)
  have len: "length (puts ?Z [w1, w2, w3, w4]) = 4096 * N" using in4(1) length_puts [of ?Z] by (simp del: puts_simps)
  have s5: "writeVolumeHeaders (at [w1, w2, w3, w4]) = (Inr (), at (mkfsWrites N b))"
  proof -
    have "overwrite (overwrite (puts ?Z [w1, w2, w3, w4]) 1024 ?V) (4096 * N - 1024) ?V = puts ?Z (mkfsWrites N b)"
      by (simp add: mkfsWrites_def ws puts_def add.commute)
    then show ?thesis using len bd
      by (simp add: writeVolumeHeaders_def at volumeHeaderOffset_def Let_def del: puts_simps)
  qed
  show ?thesis by (simp only: bnd_def s1 s2 s4 s5 prod.case sum.case) (simp add: at_def)
qed

section \<open>Reading the image back\<close>

definition mkfsImage :: "nat \<Rightarrow> mkfsBuilder \<Rightarrow> bytes" where
  "mkfsImage N b = puts (replicate (4096 * N) 0) (mkfsWrites N b)"

lemma length_mkfsImage: "mkfsFits N \<Longrightarrow> length (mkfsImage N b) = 4096 * N"
  using mkfsWrites_in [of N b] by (simp add: mkfsImage_def length_puts)

lemma mkfsImage_part:
  assumes "mkfsFits N" "(i, x) \<in> set (mkfsWrites N b)" "hi \<le> length x"
  shows "gslice (mkfsImage N b) (i + lo) (i + hi) = gslice x lo hi"
  unfolding mkfsImage_def by (rule puts_part) (use assms mkfsWrites_in [of N b] in simp_all)

text \<open>The descriptor of a special file in one run of blocks.\<close>

definition runFork :: "u64 \<Rightarrow> u32 \<Rightarrow> u32 \<Rightarrow> forkData" where
  "runFork sz start cnt = \<lparr>LogicalSize = sz, ClumpSize = 4096, fdTotalBlocks = cnt,
     Extents = \<lparr>StartBlock = start, BlockCount = cnt\<rparr> # replicate 7 \<lparr>StartBlock = 0, BlockCount = 0\<rparr>\<rparr>"

lemma enc32_zero: "enc32 0 = [0, 0, 0, 0]"
  by (simp add: enc32_def)

lemma encodeForkDescriptor_eq:
  assumes "mblockSize b = 4096"
  shows "encodeForkDescriptor b sz start cnt
    = encodeForkInto (replicate forkDataLen 0) (runFork (word_of_int sz) (if cnt > 0 then start else 0) cnt)"
proof -
  have "replicate 8 0 = enc32 0 @ enc32 0" "replicate 56 0 = concat (replicate 14 (enc32 0))"
    by (simp_all add: enc32_zero eval_nat_numeral)
  then show ?thesis
    using assms by (auto simp: encodeForkDescriptor_def encodeForkInto_append header_consts upt_8 runFork_def
        encodeExtent_def numeral_eq_Suc not_less)
qed

definition mkfsHeader :: "nat \<Rightarrow> bool \<Rightarrow> volumeHeader" where
  "mkfsHeader N cs =
     \<lparr>Signature = (if cs then sigHFSX else sigHFSPlus), Version = (if cs then 5 else hfsPlusSigVersion),
      vhAttributes = mkfsCleanUnmountAttributes, BlockSize = 4096, vhTotalBlocks = of_nat N,
      FreeBlocks = of_nat (N - (bitmapBlocks N + 4 + catalogBlocks N)),
      AllocationFile = runFork (of_nat (4096 * bitmapBlocks N)) 1 (of_nat (bitmapBlocks N)),
      ExtentsFile = runFork 8192 (of_nat (bitmapBlocks N + 1)) 2,
      CatalogFile = runFork (of_nat (4096 * catalogBlocks N)) (of_nat (bitmapBlocks N + 3)) (of_nat (catalogBlocks N)),
      AttributesFile = runFork 0 0 0, StartupFile = runFork 0 0 0, caseSensitive = False\<rparr>"

lemma volumeFields_final:
  assumes "freshBuilder N b"
  shows "(0, enc16 (if mcaseSensitive b then sigHFSX else sigHFSPlus)) \<in> set (volumeFields (finalBuilder N b))"
    "(2, enc16 (if mcaseSensitive b then 5 else hfsPlusSigVersion)) \<in> set (volumeFields (finalBuilder N b))"
    "(4, enc32 mkfsCleanUnmountAttributes) \<in> set (volumeFields (finalBuilder N b))"
    "(40, enc32 4096) \<in> set (volumeFields (finalBuilder N b))"
    "(44, enc32 (of_nat N)) \<in> set (volumeFields (finalBuilder N b))"
    "(48, enc32 (of_nat (N - (bitmapBlocks N + 4 + catalogBlocks N)))) \<in> set (volumeFields (finalBuilder N b))"
proof -
  let ?U = "bitmapBlocks N + 4 + catalogBlocks N"
  have b: "mblockSize b = 4096" "totalBlocks b = of_nat N" and N: "mkfsFits N"
    using assms by (simp_all add: freshBuilder_def)
  have le: "?U \<le> N" "N < 2 ^ 32" using layout_bounds [OF N] N by (simp_all add: mkfsFits_def)
  let ?B = "finalBuilder N b"
  have tu: "totalBlocks ?B = of_nat N" "usedBlocks ?B = of_nat ?U" by (simp_all add: finalBuilder_def layoutOf_def b)
  have diff: "(if (of_nat N :: u32) > of_nat ?U then of_nat N - of_nat ?U else 0) = (of_nat (N - ?U) :: u32)"
    using le less_small [of ?U N] by (auto simp: of_nat_diff simp del: of_nat_add)
  have "(48, enc32 (if totalBlocks ?B > usedBlocks ?B then totalBlocks ?B - usedBlocks ?B else 0))
      \<in> set (volumeFields ?B)" by (simp add: volumeFields_def Let_def)
  then show "(48, enc32 (of_nat (N - ?U))) \<in> set (volumeFields ?B)" unfolding tu diff .
qed (use assms in \<open>simp_all add: volumeFields_def Let_def finalBuilder_def layoutOf_def freshBuilder_def\<close>)

lemma volumeFields_forks:
  assumes "freshBuilder N b"
  defines "F \<equiv> \<lambda>fd. encodeForkInto (replicate forkDataLen 0) fd" and "h \<equiv> mkfsHeader N (mcaseSensitive b)"
  shows "(112, F (AllocationFile h)) \<in> set (volumeFields (finalBuilder N b))"
    "(192, F (ExtentsFile h)) \<in> set (volumeFields (finalBuilder N b))"
    "(272, F (CatalogFile h)) \<in> set (volumeFields (finalBuilder N b))"
    "(352, F (AttributesFile h)) \<in> set (volumeFields (finalBuilder N b))"
    "(432, F (StartupFile h)) \<in> set (volumeFields (finalBuilder N b))"
proof -
  let ?B = "finalBuilder N b"
  have N: "mkfsFits N" and b: "mblockSize ?B = 4096"
    using assms by (simp_all add: freshBuilder_def finalBuilder_def layoutOf_def)
  note bd = layout_bounds [OF N]
  have u: "unat (of_nat (bitmapBlocks N) :: u32) = bitmapBlocks N" "unat (of_nat (catalogBlocks N) :: u32) = catalogBlocks N"
    using bd by simp_all
  have pos: "of_nat (bitmapBlocks N) > (0 :: u32)" "of_nat (catalogBlocks N) > (0 :: u32)"
    using bd u by (simp_all add: word_less_nat_alt)
  have span: "word_of_int (uint (of_nat (bitmapBlocks N) :: u32) * 4096) = (of_nat (4096 * bitmapBlocks N) :: u64)"
    "word_of_int (uint (of_nat (catalogBlocks N) :: u32) * 4096) = (of_nat (4096 * catalogBlocks N) :: u64)"
    unfolding uint_nat u by (simp_all add: mult.commute)
  note d = volumeFields_def Let_def encodeForkDescriptor_eq [OF b] F_def h_def mkfsHeader_def b
  show "(112, F (AllocationFile h)) \<in> set (volumeFields ?B)" "(272, F (CatalogFile h)) \<in> set (volumeFields ?B)"
    unfolding d using pos span by (simp_all add: finalBuilder_def layoutOf_def)
  show "(192, F (ExtentsFile h)) \<in> set (volumeFields ?B)" "(352, F (AttributesFile h)) \<in> set (volumeFields ?B)"
    "(432, F (StartupFile h)) \<in> set (volumeFields ?B)"
    unfolding d by (simp_all add: finalBuilder_def layoutOf_def)
qed

lemma parse_volume_fork:
  assumes "(i, encodeForkInto (replicate forkDataLen 0) fd) \<in> set (volumeFields b)" "wf_forkData fd"
  shows "parseForkData (drop i (encodeVolumeHeader b)) = fd"
proof -
  let ?e = "encodeForkInto (replicate forkDataLen 0) fd"
  have len: "length ?e = forkDataLen" by simp
  have "gslice (encodeVolumeHeader b) i (i + length ?e) = ?e"
    unfolding encodeVolumeHeader_puts by (rule puts_field) (use assms(1) volumeFields_in in simp_all)
  then have eq: "take forkDataLen (drop i (encodeVolumeHeader b)) = ?e" by (simp add: gslice_def)
  have "length (take forkDataLen (drop i (encodeVolumeHeader b))) = forkDataLen" unfolding eq by simp
  then have "forkDataLen \<le> length (drop i (encodeVolumeHeader b))" by simp
  from parseForkData_prefix [OF order_refl this] have "parseForkData (drop i (encodeVolumeHeader b)) = parseForkData ?e"
    by (simp add: eq)
  then show ?thesis using assms(2) by (simp add: parse_encode_fork)
qed

lemma mkfsImage_header:
  assumes "freshBuilder N b"
  shows "readVolumeHeader (mkfsImage N b) = Inr (mkfsHeader N (mcaseSensitive b))"
proof -
  let ?V = "encodeVolumeHeader (finalBuilder N b)" and ?h = "mkfsHeader N (mcaseSensitive b)"
  have N: "mkfsFits N" using assms by (simp add: freshBuilder_def)
  have len: "1536 < length (mkfsImage N b)" using layout_bounds [OF N] N by (simp add: length_mkfsImage)
  have "gslice (mkfsImage N b) (1024 + 0) (1024 + 512) = gslice ?V 0 512"
    by (rule mkfsImage_part [OF N]) (simp_all add: mkfsWrites_def)
  then have "gslice (mkfsImage N b) 1024 1536 = ?V" using gslice_all [of ?V] by simp
  then have r: "readerAt (mkfsImage N b) 512 (int volumeHeaderOffset) = (?V, None)"
    using readerAt_inside [of 1024 "mkfsImage N b" 512] len by (simp add: volumeHeaderOffset_def)
  have vf: "fieldsIn (length (replicate 512 (0 :: byte))) (volumeFields (finalBuilder N b))" using volumeFields_in by simp
  note be = puts_be16 [OF vf] puts_be32 [OF vf]
  have f: "be16 ?V 0 = Signature ?h" "be16 ?V 2 = Version ?h" "be32 ?V 4 = vhAttributes ?h" "be32 ?V 0x28 = BlockSize ?h"
    "be32 ?V 0x2C = vhTotalBlocks ?h" "be32 ?V 0x30 = FreeBlocks ?h"
    unfolding encodeVolumeHeader_puts
    by (rule be, use volumeFields_final [OF assms] in \<open>simp add: mkfsHeader_def\<close>)+
  have wf: "wf_forkData (runFork sz st cnt)" for sz st cnt by (simp add: wf_forkData_def runFork_def numInlineExtents_def)
  have k: "parseForkData (drop 112 ?V) = AllocationFile ?h" "parseForkData (drop 192 ?V) = ExtentsFile ?h"
    "parseForkData (drop 272 ?V) = CatalogFile ?h" "parseForkData (drop 352 ?V) = AttributesFile ?h"
    "parseForkData (drop 432 ?V) = StartupFile ?h"
    by (rule parse_volume_fork, use volumeFields_forks [OF assms] in \<open>simp_all add: mkfsHeader_def wf\<close>)+
  have sig: "Signature ?h = sigHFSPlus \<or> Signature ?h = sigHFSX" "goodBlockSize (BlockSize ?h)"
    by (simp_all add: mkfsHeader_def goodBlockSize_def)
  have cs: "caseSensitive ?h = False" by (simp add: mkfsHeader_def)
  show ?thesis
    unfolding readVolumeHeader_def r prod.case option.case f
    unfolding header_consts
    using sig cs k by (auto intro!: volumeHeader.equality)
qed

text \<open>A file in one run of blocks.\<close>

definition runOf :: "nat \<Rightarrow> nat \<Rightarrow> fork" where
  "runOf start c = \<lparr>fsize = int (4096 * c), fextents = [\<lparr>StartBlock = of_nat start, BlockCount = of_nat c\<rparr>]\<rparr>"

lemma run_fields:
  "nat (fsize (runOf start c)) = 4096 * c" "fextents (runOf start c) = [\<lparr>StartBlock = of_nat start, BlockCount = of_nat c\<rparr>]"
  by (simp_all only: runOf_def fork.simps nat_int)

lemma run_fork:
  assumes "BlockSize (vh v) = 4096" "length (disk v) = 4096 * N" "N < 2 ^ 32" "start + c \<le> N"
  shows "forkOK v (runOf start c)" "forkBytes v (runOf start c) = gslice (disk v) (4096 * start) (4096 * (start + c))"
proof -
  have u: "unat (of_nat start :: u32) = start" "unat (of_nat c :: u32) = c" using assms by simp_all
  have le: "4096 * start + 4096 * c \<le> 4096 * N" using assms(4) by simp
  show "forkOK v (runOf start c)"
    using assms u le by (simp add: forkOK_def runOf_def extentInside_def extentSpan_def)
  show "forkBytes v (runOf start c) = gslice (disk v) (4096 * start) (4096 * (start + c))"
    unfolding forkBytes_def run_fields using assms u
    by (simp add: forkContent_def extentContent_def extentSpan_def gslice_def mult.commute)
qed

definition btHeaderOf :: "extentsTreeParams \<Rightarrow> btHeader" where
  "btHeaderOf p = \<lparr>RootNode = prootNode p, FirstLeaf = pfirstLeaf p, LastLeaf = plastLeaf p, NodeSize = pnodeSize p,
     KeyCompare = pkeyCompare p, btAttributes = pattributes p\<rparr>"

lemma openBTree_run:
  fixes v :: "'a vol_scheme"
  assumes v: "BlockSize (vh v) = 4096" "length (disk v) = 4096 * N" "N < 2 ^ 32" "start + c \<le> N" "1 \<le> c"
    and hd: "gslice (disk v) (4096 * start) (4096 * start + 4096) = headerNode p" "pnodeSize p = 4096"
  shows "openBTree v (runOf start c) = Inr \<lparr>tf = runOf start c, theader = btHeaderOf p\<rparr>"
proof -
  let ?f = "runOf start c" and ?H = "headerNode p"
  note run = run_fork [OF v(1-4)]
  have "take 4096 (forkBytes v ?f) = ?H"
    using v(5) by (simp add: run(2) flip: hd(1)) (simp add: gslice_def min_def)
  then have "take 120 (take 4096 (forkBytes v ?f)) = take 120 ?H" by simp
  then have t: "take 120 (forkBytes v ?f) = take 120 ?H" by simp
  have "readAt v ?f (nodeDescriptorLen + 106) 0 = (take 120 ?H, None)"
    using readAt_window [OF run(1), of 0 120] v(5) t by (simp add: runOf_def nodeDescriptorLen_def)
  moreover have "filled 120 (take 120 ?H) = take 120 ?H" by (simp add: filled_def)
  moreover have "Kind (parseNodeDescriptor (take 120 ?H)) = kindHeaderNode"
    by (simp add: parseNodeDescriptor_prefix) (simp add: parseNodeDescriptor_def headerNode_fields)
  moreover have "drop 14 (take 120 ?H) = gslice ?H 14 120" by (simp add: gslice_def drop_take)
  ultimately show ?thesis
    by (simp add: openBTree_def nodeDescriptorLen_def codec_simps headerNode_fields hd(2) btHeaderOf_def)
qed

definition extTree :: "nat \<Rightarrow> btree" where
  "extTree N = \<lparr>tf = runOf (bitmapBlocks N + 1) 2, theader = btHeaderOf extParams\<rparr>"

definition catTreeOf :: "nat \<Rightarrow> bool \<Rightarrow> btree" where
  "catTreeOf N cs = \<lparr>tf = runOf (bitmapBlocks N + 3) (catalogBlocks N), theader = btHeaderOf (catParams N cs)\<rparr>"

definition mkfsVolume :: "nat \<Rightarrow> mkfsBuilder \<Rightarrow> Volume" where
  "mkfsVolume N b = \<lparr>disk = mkfsImage N b, vsize = int (4096 * N), wr = True, vh = mkfsHeader N (mcaseSensitive b),
     catalogTree = catTreeOf N (mcaseSensitive b), extentsTree = Some (extTree N)\<rparr>"

lemma mkfsImage_node:
  assumes "mkfsFits N" "(4096 * k, x) \<in> set (mkfsWrites N b)" "length x = 4096"
  shows "gslice (mkfsImage N b) (4096 * k) (4096 * k + 4096) = x"
  using mkfsImage_part [OF assms(1,2), of 4096 0] assms(3) gslice_all [of x] by simp

lemma mkfs_openBTree:
  fixes v :: "'a vol_scheme"
  assumes "freshBuilder N b" "disk v = mkfsImage N b" "vh v = mkfsHeader N (mcaseSensitive b)"
  shows "openBTree v (runOf (bitmapBlocks N + 1) 2) = Inr (extTree N)"
    "openBTree v (runOf (bitmapBlocks N + 3) (catalogBlocks N)) = Inr (catTreeOf N (mcaseSensitive b))"
proof -
  have N: "mkfsFits N" "N < 2 ^ 32" using assms(1) by (simp_all add: freshBuilder_def mkfsFits_def)
  note bd = layout_bounds [OF N(1)]
  have v: "BlockSize (vh v) = 4096" "length (disk v) = 4096 * N"
    using N by (simp_all add: assms mkfsHeader_def length_mkfsImage)
  have m: "(4096 * (bitmapBlocks N + 1), headerNode extParams) \<in> set (mkfsWrites N b)"
    "(4096 * (bitmapBlocks N + 3), headerNode (catParams N (mcaseSensitive b))) \<in> set (mkfsWrites N b)"
    unfolding mkfsWrites_def by (simp_all only: list.set insert_iff) simp_all
  have le: "bitmapBlocks N + 1 + 2 \<le> N" "bitmapBlocks N + 3 + catalogBlocks N \<le> N" "1 \<le> catalogBlocks N"
    using bd by linarith+
  show "openBTree v (runOf (bitmapBlocks N + 1) 2) = Inr (extTree N)"
    unfolding extTree_def using mkfsImage_node [OF N(1) m(1)]
    by (intro openBTree_run [OF v N(2) le(1)]) (simp_all add: assms(2) extParams_def)
  show "openBTree v (runOf (bitmapBlocks N + 3) (catalogBlocks N)) = Inr (catTreeOf N (mcaseSensitive b))"
    unfolding catTreeOf_def using mkfsImage_node [OF N(1) m(2)]
    by (intro openBTree_run [OF v N(2) le(2,3)]) (simp_all add: assms(2) catParams_def)
qed

lemma sint_small: "n < 2 ^ 63 \<Longrightarrow> sint (of_nat n :: u64) = int n"
  by (simp add: signed_of_nat signed_take_bit_int_eq_self)

lemma mkfsHeader_forks:
  "ExtentsFile (mkfsHeader N cs) = runFork 8192 (of_nat (bitmapBlocks N + 1)) 2"
  "CatalogFile (mkfsHeader N cs)
    = runFork (of_nat (4096 * catalogBlocks N)) (of_nat (bitmapBlocks N + 3)) (of_nat (catalogBlocks N))"
  "AllocationFile (mkfsHeader N cs) = runFork (of_nat (4096 * bitmapBlocks N)) 1 (of_nat (bitmapBlocks N))"
  by (simp_all add: mkfsHeader_def)

lemma inlineExtents_run:
  "cnt \<noteq> 0 \<Longrightarrow> inlineExtents (Extents (runFork sz start cnt)) 0 = ([\<lparr>StartBlock = start, BlockCount = cnt\<rparr>], cnt)"
  by (simp add: runFork_def eval_nat_numeral)

lemma newSpecialFork_run:
  "cnt \<noteq> 0 \<Longrightarrow> newSpecialFork (runFork sz start cnt)
     = \<lparr>fsize = sint sz, fextents = [\<lparr>StartBlock = start, BlockCount = cnt\<rparr>]\<rparr>"
  by (simp add: newSpecialFork_def runFork_def)

lemma mkfs_opens_trees:
  assumes "freshBuilder N b"
  shows "openTrees \<lparr>disk = mkfsImage N b, vsize = int (4096 * N), wr = w, vh = mkfsHeader N (mcaseSensitive b),
      catalogTree = ct, extentsTree = et\<rparr> = (Inr (), (mkfsVolume N b)\<lparr>wr := w\<rparr>)"
proof -
  let ?v = "\<lparr>disk = mkfsImage N b, vsize = int (4096 * N), wr = w, vh = mkfsHeader N (mcaseSensitive b),
      catalogTree = ct, extentsTree = et\<rparr>"
  have N: "mkfsFits N" using assms by (simp add: freshBuilder_def)
  note bd = layout_bounds [OF N]
  have u: "unat (of_nat (catalogBlocks N) :: u32) = catalogBlocks N" using bd by simp
  have ne: "of_nat (catalogBlocks N) \<noteq> (0 :: u32)" using bd by (intro of_nat_ne0) simp_all
  have sz: "sint (of_nat (4096 * catalogBlocks N) :: u64) = int (4096 * catalogBlocks N)"
    by (rule sint_small) (use bd in simp)
  have vh: "ExtentsFile (vh ?v) = runFork 8192 (of_nat (bitmapBlocks N + 1)) 2"
    "CatalogFile (vh ?v) = runFork (of_nat (4096 * catalogBlocks N)) (of_nat (bitmapBlocks N + 3)) (of_nat (catalogBlocks N))"
    by (simp_all add: mkfsHeader_forks)
  have ef: "newSpecialFork (runFork 8192 (of_nat (bitmapBlocks N + 1)) 2) = runOf (bitmapBlocks N + 1) 2"
    by (simp add: newSpecialFork_run runOf_def)
  have "openExtentsTree ?v = Some (extTree N)"
  proof -
    have "fsize (runOf (bitmapBlocks N + 1) 2) > 0" by (simp add: runOf_def)
    moreover have "\<not> extentsForkNeedsOverflow (runFork 8192 (of_nat (bitmapBlocks N + 1)) 2)"
      by (simp add: extentsForkNeedsOverflow_def runFork_def eval_nat_numeral)
    ultimately show ?thesis
      unfolding openExtentsTree_def vh ef Let_def using mkfs_openBTree(1) [OF assms, of ?v] by simp
  qed
  moreover have "newSpecialForkResolved v (Some t) kHFSCatalogFileID
      (runFork (of_nat (4096 * catalogBlocks N)) (of_nat (bitmapBlocks N + 3)) (of_nat (catalogBlocks N)))
      = Inr (runOf (bitmapBlocks N + 3) (catalogBlocks N))" for v :: Volume and t
    unfolding newSpecialForkResolved_def resolveForkExtents_def inlineExtents_run [OF ne]
    by (simp add: runFork_def sz runOf_def del: of_nat_add of_nat_mult)
  moreover have "fsize (runOf (bitmapBlocks N + 3) (catalogBlocks N)) \<noteq> 0" using bd by (simp add: runOf_def)
  ultimately show ?thesis
    using mkfs_openBTree(2) [OF assms, of "?v\<lparr>extentsTree := Some (extTree N)\<rparr>"]
    unfolding openTrees_def Let_def by (simp add: mkfsHeader_forks mkfsVolume_def)
qed

lemma mkfs_opened:
  assumes "freshBuilder N b"
  shows "OpenWritable (mkfsImage N b) = Inr (mkfsVolume N b)"
proof -
  have "mkfsFits N" using assms by (simp add: freshBuilder_def)
  then show ?thesis
    using mkfs_opens_trees [OF assms, of False] mkfsImage_header [OF assms]
    by (simp add: OpenWritable_def Open_def length_mkfsImage mkfsVolume_def)
qed

end
