(* ===== verification/Formatted.thy ===== *)
theory Formatted
  imports MkfsOpen
begin

text \<open>
  What a freshly formatted volume holds: its catalog is the root folder and its thread, its label
  the one that was asked for, its bitmap has exactly the blocks that the layout takes, and a
  transaction can start on it. The last section puts the formatter and the sessions together.
\<close>

section \<open>The catalog\<close>

lemma maxNodes_pos: "0 < NodeSize (theader t) \<Longrightarrow> 1 \<le> maxNodes v t"
proof -
  assume "0 < NodeSize (theader t)"
  then have "0 < uint (NodeSize (theader t))" by (simp add: word_less_def)
  then show ?thesis by (simp add: maxNodes_def Let_def)
qed

lemma mkfs_root_node:
  assumes "freshBuilder N b"
  shows "readNode (mkfsVolume N b) (catTreeOf N (mcaseSensitive b)) 1 = Inr \<lparr>desc = rootDesc, records = rootRecords b\<rparr>"
proof -
  let ?v = "mkfsVolume N b" and ?t = "catTreeOf N (mcaseSensitive b)"
  have N: "mkfsFits N" "N < 2 ^ 32" and fit: "recordsFit 4096 (rootRecords b)"
    using assms by (simp_all add: freshBuilder_def mkfsFits_def)
  note bd = layout_bounds [OF N(1)]
  have v: "BlockSize (vh ?v) = 4096" "length (disk ?v) = 4096 * N"
    using N by (simp_all add: mkfsVolume_def mkfsHeader_def length_mkfsImage)
  have le: "bitmapBlocks N + 3 + catalogBlocks N \<le> N" using bd by linarith
  note run = run_fork [OF v N(2) le]
  have t: "tf ?t = runOf (bitmapBlocks N + 3) (catalogBlocks N)" "NodeSize (theader ?t) = 4096"
    by (simp_all add: catTreeOf_def btHeaderOf_def catParams_def)
  have "gslice (forkBytes ?v (tf ?t)) 4096 8192 = gslice (mkfsImage N b) (4096 * (bitmapBlocks N + 4)) (4096 * (bitmapBlocks N + 4) + 4096)"
  proof -
    have "min (4096 * (bitmapBlocks N + 3 + catalogBlocks N)) (4096 * (bitmapBlocks N + 3) + 8192)
        = 4096 * (bitmapBlocks N + 4) + 4096"
      "4096 * (bitmapBlocks N + 3) + 4096 = 4096 * (bitmapBlocks N + 4)" using bd by simp_all
    then show ?thesis unfolding t(1) run(2) gslice_gslice by (simp only:) (simp add: mkfsVolume_def)
  qed
  also have "\<dots> = rootLeaf b" by (rule mkfsImage_node [OF N(1)]) (simp_all add: mkfsWrites_def)
  finally have "gslice (forkBytes ?v (tf ?t)) 4096 8192 = rootLeaf b" .
  moreover have "readNode ?v ?t 1 = parseNode 4096 (gslice (forkBytes ?v (tf ?t)) (unat (1 :: u32) * 4096) (unat (1 :: u32) * 4096 + 4096))"
    using run(1) bd by (intro readNode_slice) (simp_all add: t runOf_def)
  ultimately show ?thesis
    using node_roundtrip [OF fit, of rootDesc] by (simp add: rootLeaf_def rootDesc_def)
qed

lemma mkfs_keys:
  assumes "fitName (mlabel b)"
  obtains r1 r2 where "rootRecords b = [r1, r2]"
    "keyFromRecord r1 = Some \<lparr>parentID = 1, cname = mlabel b, nameU16 = Some (utf16Encode (mlabel b))\<rparr>"
    "keyFromRecord r2 = Some \<lparr>parentID = 2, cname = [], nameU16 = Some []\<rparr>"
    "recordData r2 = Some (encodeFolderThreadRecord 1 (mlabel b))"
proof -
  have "fitName []" by (simp add: fitName_def utf16Encode_def)
  moreover have "utf16Encode [] = []" by (simp add: utf16Encode_def)
  ultimately show thesis
    using record_of_key [OF assms] record_of_key [of "[]"]
    by (intro that [of "rootRecords b ! 0" "rootRecords b ! 1"])
      (simp_all add: rootRecords_def Let_def cnidRootParent_def cnidRootFolder_def)
qed

lemma mkfs_holds:
  assumes "freshBuilder N b" "fitName (mlabel b)"
  defines "t \<equiv> catTreeOf N (mcaseSensitive b)"
  shows "holdsTree keyFromRecord (compareCatalogKey t) (mkfsVolume N b) t (Some (TLeaf 1 (rootRecords b)))"
    "ascending keyFromRecord (compareCatalogKey t) (rootRecords b)"
proof -
  have t: "RootNode (theader t) = 1" "0 < NodeSize (theader t)"
    by (simp_all add: t_def catTreeOf_def btHeaderOf_def catParams_def)
  show "holdsTree keyFromRecord (compareCatalogKey t) (mkfsVolume N b) t (Some (TLeaf 1 (rootRecords b)))"
    using mkfs_root_node [OF assms(1)] maxNodes_pos [OF t(2), of "mkfsVolume N b"] t(1)
    by (simp add: holdsTree_def flip: t_def) (simp add: rootDesc_def)
  obtain r1 r2 where r: "rootRecords b = [r1, r2]"
    "keyFromRecord r1 = Some \<lparr>parentID = 1, cname = mlabel b, nameU16 = Some (utf16Encode (mlabel b))\<rparr>"
    "keyFromRecord r2 = Some \<lparr>parentID = 2, cname = [], nameU16 = Some []\<rparr>"
    by (rule mkfs_keys [OF assms(2)])
  show "ascending keyFromRecord (compareCatalogKey t) (rootRecords b)"
    by (simp add: r ascending_def map_filter_Cons compareCatalogKey_ordSign ordSign_def less_prod_def)
qed

lemma mkfsVolume_tree: "catalogTree (mkfsVolume N b) = catTreeOf N (mcaseSensitive b)"
  by (simp add: mkfsVolume_def)

lemma mkfs_empty:
  assumes "freshBuilder N b" "fitName (mlabel b)"
  shows "ListDir env (mkfsVolume N b) [0x2F] = Inr []"
proof -
  let ?v = "mkfsVolume N b"
  obtain r1 r2 where r: "rootRecords b = [r1, r2]"
    "keyFromRecord r1 = Some \<lparr>parentID = 1, cname = mlabel b, nameU16 = Some (utf16Encode (mlabel b))\<rparr>"
    "keyFromRecord r2 = Some \<lparr>parentID = 2, cname = [], nameU16 = Some []\<rparr>"
    "recordData r2 = Some (encodeFolderThreadRecord 1 (mlabel b))"
    by (rule mkfs_keys [OF assms(2)])
  have "List.map_filter (childOf 2) (rootRecords b) = []"
    using parse_thread [OF assms(2), of recordFolderThread 1]
    by (simp add: r map_filter_Cons childOf_def decodeRecord_def encodeFolderThreadRecord_def)
  then have "listChildren ?v (catTreeOf N (mcaseSensitive b)) 2 = Inr []"
    using children_refines [OF mkfs_holds(1) [OF assms], of 2] mkfs_holds(2) [OF assms] by (simp add: recsOf_def)
  moreover have "lookupPath env ?v [0x2F] = Inr \<lparr>rrec = rootRecord, rcnid = cnidRootFolder\<rparr>"
    by (simp add: lookupPath_def splitPath_def)
  ultimately show ?thesis
    by (simp add: ListDir_def rootRecord_def mkfsVolume_tree cnidRootFolder_def)
qed

lemma mkfs_label:
  assumes "freshBuilder N b" "fitName (mlabel b)"
  shows "Label (mkfsVolume N b) = mlabel b"
proof -
  let ?v = "mkfsVolume N b" and ?t = "catTreeOf N (mcaseSensitive b)"
  let ?k = "\<lparr>parentID = cnidRootParent, cname = [], nameU16 = None\<rparr>"
  obtain r1 r2 where r: "rootRecords b = [r1, r2]"
    "keyFromRecord r1 = Some \<lparr>parentID = 1, cname = mlabel b, nameU16 = Some (utf16Encode (mlabel b))\<rparr>"
    "keyFromRecord r2 = Some \<lparr>parentID = 2, cname = [], nameU16 = Some []\<rparr>"
    by (rule mkfs_keys [OF assms(2)])
  have low: "labelStep rec () = Inr ()"
    if "rec \<in> set (recsOf (Some (TLeaf 1 (rootRecords b))))"
      "keyHolds keyFromRecord (\<lambda>k'. compareCatalogKey ?t k' ?k < 0) rec" for rec
    using that r by (auto simp: recsOf_def keyHolds_def compareCatalogKey_ordSign ordSign_def less_prod_def
        cnidRootParent_def sortUnits_def keyUnits_def foldedUnits_def split: if_splits)
  have "bindR (findLeafBy ?v ?t (leTest keyFromRecord (compareCatalogKey ?t) ?k))
      (\<lambda>n. leafWalk ?v ?t (scanRecs labelStep) (\<lambda>_. Inr []) n 0 ())
    = endScan (\<lambda>_. Inr []) (scanRecs labelStep (recsOf (Some (TLeaf 1 (rootRecords b)))) ())"
    using mkfs_holds(1) [OF assms] low by (rule catTree.search_scan)
  then show ?thesis
    by (simp add: Label_def findLeaf_def mkfsVolume_tree recsOf_def r labelStep_def endScan_def cnidRootParent_def)
qed

section \<open>The bitmap\<close>

lemma usedList_set:
  assumes "mkfsFits N"
  shows "set (usedList N) = {..<bitmapBlocks N + 3 + catalogBlocks N} \<union> {N - 1}"
  using layout_bounds [OF assms] by (auto simp: usedList_def)

lemma mkfs_free:
  assumes "mkfsFits N" "bits a = of_nat N" "bitmap a = bitmapImage N"
  shows "freeSet a = {bitmapBlocks N + 3 + catalogBlocks N..<N - 1}"
proof -
  note bd = layout_bounds [OF assms(1)]
  let ?z = "replicate (bitmapBlocks N * 4096) (0 :: byte)"
  have N: "unat (bits a) = N" using assms(1,2) by (simp add: mkfsFits_def)
  have inside: "inMap ?z n" "n div 8 < length ?z mod 2 ^ 32" if "n < N" for n
    using that bd by (simp_all add: inMap_def)
  have "testBlock (bitmapImage N) n \<longleftrightarrow> n \<in> set (usedList N)" if "n < N" for n
  proof -
    have "\<not> getBit ?z n" using inside [OF that] by (simp add: getBit_bit inMap_def)
    moreover have "\<forall>k \<in> set (usedList N). inMap ?z k" using usedList_set [OF assms(1)] inside(1) bd by auto
    ultimately show ?thesis
      using inside [OF that] bits.test_mark_run [of "usedList N" ?z n] by (simp add: testBlock_def bitmapImage_def)
  qed
  then show ?thesis unfolding freeSet_def N assms(3) using usedList_set [OF assms(1)] bd by auto
qed

lemma mkfs_allocator:
  assumes "freshBuilder N b"
    and mk: "envMakeBytes env (int (4096 * bitmapBlocks N)) (int (4096 * N) + 4096) = Inr buf"
  shows "newAllocator env (mkfsVolume N b) = Inr \<lparr>bitmap = bitmapImage N, bits = of_nat N\<rparr>"
proof -
  let ?v = "mkfsVolume N b" and ?A = "bitmapBlocks N"
  have N: "mkfsFits N" "N < 2 ^ 32" using assms by (simp_all add: freshBuilder_def mkfsFits_def)
  note bd = layout_bounds [OF N(1)]
  have v: "BlockSize (vh ?v) = 4096" "length (disk ?v) = 4096 * N"
    using N by (simp_all add: mkfsVolume_def mkfsHeader_def length_mkfsImage)
  have le: "1 + ?A \<le> N" using bd by linarith
  note run = run_fork [OF v N(2) le]
  have ne: "of_nat ?A \<noteq> (0 :: u32)" using bd by (intro of_nat_ne0) simp_all
  have f: "newSpecialFork (AllocationFile (vh ?v)) = runOf 1 ?A"
    using sint_small [of "4096 * ?A"] bd newSpecialFork_run [OF ne, of "of_nat (4096 * ?A)" 1]
    by (simp add: mkfsVolume_def mkfsHeader_forks runOf_def del: of_nat_mult)
  have "forkBytes ?v (runOf 1 ?A) = bitmapImage N"
  proof -
    have "gslice (mkfsImage N b) (4096 + 0) (4096 + 4096 * ?A) = gslice (bitmapImage N) 0 (4096 * ?A)"
      by (rule mkfsImage_part [OF N(1)]) (simp_all add: mkfsWrites_def)
    then show ?thesis unfolding run(2) using gslice_all [of "bitmapImage N"] by (simp add: mkfsVolume_def mult.commute)
  qed
  moreover have "readAll ?v (runOf 1 ?A) = Inr (forkBytes ?v (runOf 1 ?A))"
    using run(1) v bd by (intro readAll_forkBytes) (simp_all add: runOf_def maxForkBytes_def capacity_def mkfsVolume_def length_mkfsImage N)
  moreover have "vhTotalBlocks (vh ?v) = of_nat N" by (simp add: mkfsVolume_def mkfsHeader_def)
  moreover have "fsize (runOf 1 ?A) = int (4096 * ?A)" by (simp add: runOf_def)
  ultimately show ?thesis
    using mk v unfolding newAllocator_def f Let_def by simp
qed

section \<open>Transactions on a formatted volume\<close>

definition specialBlocks :: "forkData \<Rightarrow> nat set" where
  "specialBlocks fd = set (blocksOf (fextents (newSpecialFork fd)))"

lemma specialBlocks_run:
  assumes "0 < c" "s + c < 2 ^ 32"
  shows "specialBlocks (runFork sz (of_nat s) (of_nat c)) = {s..<s + c}"
proof -
  have u: "unat (of_nat c :: u32) = c" using assms by simp
  have "of_nat c \<noteq> (0 :: u32)" using assms by (intro of_nat_ne0) simp_all
  then show ?thesis
    using blocksOf_run [of s "of_nat c"] assms by (simp add: specialBlocks_def newSpecialFork_run u)
qed

lemma mkfs_special_blocks:
  assumes "mkfsFits N"
  shows "specialBlocks (AllocationFile (mkfsHeader N cs)) = {1..<1 + bitmapBlocks N}"
    "specialBlocks (ExtentsFile (mkfsHeader N cs)) = {bitmapBlocks N + 1..<bitmapBlocks N + 1 + 2}"
    "specialBlocks (CatalogFile (mkfsHeader N cs)) = {bitmapBlocks N + 3..<bitmapBlocks N + 3 + catalogBlocks N}"
proof -
  note bd = layout_bounds [OF assms]
  show "specialBlocks (AllocationFile (mkfsHeader N cs)) = {1..<1 + bitmapBlocks N}"
    using specialBlocks_run [of "bitmapBlocks N" 1] bd by (simp add: mkfsHeader_forks)
  show "specialBlocks (ExtentsFile (mkfsHeader N cs)) = {bitmapBlocks N + 1..<bitmapBlocks N + 1 + 2}"
    using specialBlocks_run [of 2 "bitmapBlocks N + 1" 8192] bd by (simp add: mkfsHeader_forks)
  show "specialBlocks (CatalogFile (mkfsHeader N cs)) = {bitmapBlocks N + 3..<bitmapBlocks N + 3 + catalogBlocks N}"
    using specialBlocks_run [of "catalogBlocks N" "bitmapBlocks N + 3"] bd by (simp add: mkfsHeader_forks)
qed

lemma newBTreeWriter_run:
  assumes "specialFork v sel = runFork sz start cnt" "cnt \<noteq> 0"
  shows "\<exists>w. newBTreeWriter v tree sel = Inr w"
proof -
  have "resolveForkExtents v et fid ft (runFork sz start cnt) = Inr [\<lparr>StartBlock = start, BlockCount = cnt\<rparr>]" for et fid ft
    unfolding resolveForkExtents_def inlineExtents_run [OF assms(2)] by (simp add: runFork_def split: option.split)
  then show ?thesis using assms unfolding newBTreeWriter_def Let_def assms(1) by (simp add: runFork_def)
qed

lemma mkfs_txn:
  assumes "freshBuilder N b"
    and mk: "envMakeBytes env (int (4096 * bitmapBlocks N)) (int (4096 * N) + 4096) = Inr buf"
  shows "\<exists>t. beginTxn env (mkfsVolume N b) = Inr t \<and> walc t = \<lparr>bitmap = bitmapImage N, bits = of_nat N\<rparr>"
proof -
  let ?v = "mkfsVolume N b"
  have bd: "0 < catalogBlocks N" "catalogBlocks N < 2 ^ 32"
    using assms(1) layout_bounds [of N] by (simp_all add: freshBuilder_def)
  have "specialFork ?v forkExtentsFile = ExtentsFile (mkfsHeader N (mcaseSensitive b))"
    "specialFork ?v forkCatalogFile = CatalogFile (mkfsHeader N (mcaseSensitive b))"
    by (simp_all add: specialFork_def mkfsVolume_def)
  note sf = this [unfolded mkfsHeader_forks]
  obtain ew where "newBTreeWriter ?v (extTree N) forkExtentsFile = Inr ew"
    using newBTreeWriter_run [OF sf(1)] by auto
  moreover obtain cw where "newBTreeWriter ?v (catalogTree ?v) forkCatalogFile = Inr cw"
    using newBTreeWriter_run [OF sf(2) of_nat_ne0 [OF bd]] by auto
  moreover have "extentsTree ?v = Some (extTree N)" by (simp add: mkfsVolume_def)
  ultimately show ?thesis
    using mkfs_allocator [OF assms] by (simp add: beginTxn_def newExtentsWriter_def newCatWriter_def)
qed

section \<open>The formatter\<close>

definition volumeLabel :: "FormatConfig \<Rightarrow> gostring" where
  "volumeLabel cfg = (if cfgLabel cfg = [] then gotest else cfgLabel cfg)"

definition goodLabel :: "gostring \<Rightarrow> bool" where
  "goodLabel l \<longleftrightarrow> list_all validRune l \<and> length (utf16Encode l) \<le> 255"

lemma goodLabel_fitName: "goodLabel l \<Longrightarrow> fitName l"
  by (simp add: goodLabel_def fitName_def)

lemma goodLabel_gotest: "goodLabel gotest"
  by (simp add: goodLabel_def gotest_def utf16Encode_def encodeRune_def validRune_def)

lemma length_setHasFolderCount: "88 \<le> length f \<Longrightarrow> length (setHasFolderCount f c) = length f"
  by (simp add: setHasFolderCount_def)

lemma rootRecords_fit:
  assumes "goodLabel (mlabel b)"
  shows "recordsFit 4096 (rootRecords b)"
proof -
  have "length (encodeFolderRecord fid t val) = 88" for fid t val
    by (simp add: encodeFolderRecord_def catalogFolderLen_def)
  then have "usedBytes (rootRecords b) = 14 + 2 * 3 + (8 + 2 * length (utf16Encode (mlabel b)) + 88 + (8 + 10 + 2 * length (utf16Encode (mlabel b))))"
    by (simp add: usedBytes_def rootRecords_def Let_def assembleCatalogRecord_def length_encodeCatalogKey
        encodeFolderThreadRecord_def encodeThreadRecord_def length_setHasFolderCount nodeDescriptorLen_def)
      (simp add: utf16Encode_def)
  then show ?thesis using assms by (simp add: recordsFit_def goodLabel_def)
qed

lemma newBuilder_fresh:
  assumes "32768 \<le> sz" "sz < 2 ^ 44" "goodLabel (volumeLabel cfg)"
  shows "freshBuilder (nat (sz div 4096)) (newBuilder env sz cfg)"
proof -
  have "8 \<le> sz div 4096" "sz div 4096 < 2 ^ 32"
    using zdiv_mono1 [OF assms(1), of 4096] zdiv_mono1 [of sz "2 ^ 44 - 1" 4096] assms(2) by simp_all
  then have "mkfsFits (nat (sz div 4096))" "int (nat (sz div 4096)) = sz div 4096"
    "nat (sz div 4096 * 4096) = 4096 * nat (sz div 4096)"
    by (auto simp: mkfsFits_def nat_less_iff le_nat_iff nat_mult_distrib)
  moreover have "word_of_int (sz div 4096) = (of_nat (nat (sz div 4096)) :: u32)"
    using of_int_of_nat_eq [where 'a = u32, of "nat (sz div 4096)"] unfolding calculation(2) .
  moreover have "recordsFit 4096 (rootRecords (newBuilder env sz cfg))"
    using assms(3) by (intro rootRecords_fit) (simp add: newBuilder_def Let_def volumeLabel_def)
  ultimately show ?thesis
    by (simp add: freshBuilder_def newBuilder_def Let_def mkfsBlockSize_def mkfsNodeSize_def)
qed

lemma Mkfs_eq:
  assumes "32768 \<le> sz" "freshBuilder (nat (sz div 4096)) (newBuilder env sz cfg)"
  shows "Mkfs env sz cfg = Inr (mkfsImage (nat (sz div 4096)) (newBuilder env sz cfg))"
proof -
  have "layout (newBuilder env sz cfg) = Inr (layoutOf (nat (sz div 4096)) (newBuilder env sz cfg))"
    using assms(2) by (intro layout_eq) (simp_all add: freshBuilder_def)
  then show ?thesis
    using assms(1) mkfs_run [OF assms(2)] by (simp add: Mkfs_def mkfsBlockSize_def mkfsImage_def)
qed

section \<open>Sessions\<close>

text \<open>One successful call of a mutator, and the states that a run of such calls leads to.\<close>

inductive mutation :: "env \<Rightarrow> Volume \<Rightarrow> Volume \<Rightarrow> bool" for env where
  mWriteFile: "WriteFile env p data perm v = (Inr (), v') \<Longrightarrow> mutation env v v'"
| mMkDir: "MkDir env p perm v = (Inr (), v') \<Longrightarrow> mutation env v v'"
| mDeleteFile: "DeleteFile env p v = (Inr (), v') \<Longrightarrow> mutation env v v'"
| mDeleteDir: "DeleteDir env p v = (Inr (), v') \<Longrightarrow> mutation env v v'"
| mRename: "Rename env p q v = (Inr (), v') \<Longrightarrow> mutation env v v'"
| mSymlink: "Symlink env target p v = (Inr (), v') \<Longrightarrow> mutation env v v'"
| mTruncate: "Truncate env p newSize v = (Inr (), v') \<Longrightarrow> mutation env v v'"
| mSetLabel: "SetLabel env l v = (Inr (), v') \<Longrightarrow> mutation env v v'"
| mSetFinderInfo: "SetFinderInfo env p info v = (Inr (), v') \<Longrightarrow> mutation env v v'"

lemma settlesD: "settles m \<Longrightarrow> m v = (Inr x, v') \<Longrightarrow> openedOf n v \<Longrightarrow> openedOf n v'"
  unfolding settles_def by blast

lemma mutation_opened: "mutation env v v' \<Longrightarrow> openedOf n v \<Longrightarrow> openedOf n v'"
  by (induction rule: mutation.induct) (rule settlesD, rule settles_mutators, assumption+)+

lemma OpenWritable_disk: "OpenWritable im = Inr v \<Longrightarrow> disk v = im"
  by (auto simp: OpenWritable_def Open_def bindR_def openTrees_Inr split: sum.splits prod.splits)

lemma mutations_opened: "(mutation env)\<^sup>*\<^sup>* v v' \<Longrightarrow> openedOf n v \<Longrightarrow> openedOf n v'"
  by (induction rule: rtranclp_induct) (auto intro: mutation_opened)

section \<open>Properties\<close>

text \<open>
  C8. The formatter produces a volume: for every size from eight blocks to 16 TiB and every valid
  label of at most 255 code units, \<^verbatim>\<open>Mkfs\<close> succeeds with an image of whole blocks, the image opens for
  writing with the label and the case rule that were asked for, its root directory is empty, a
  transaction can begin on it, the blocks its bitmap gives out are exactly those outside the first
  and the last block and the three special files, and the header counts them. The hypothesis
  on \<^verbatim>\<open>envMakeBytes\<close> is the guard's contract: a buffer within the limit is allocated.
\<close>

theorem mkfs_opens:
  assumes "32768 \<le> sz" "sz < 2 ^ 44" "goodLabel (volumeLabel cfg)"
    and "\<And>n lim. 0 \<le> n \<Longrightarrow> n \<le> lim \<Longrightarrow> \<exists>buf. envMakeBytes env n lim = Inr buf"
  shows "\<exists>im v t. Mkfs env sz cfg = Inr im \<and> int (length im) = sz div 4096 * 4096
    \<and> OpenWritable im = Inr v \<and> Label v = volumeLabel cfg \<and> CaseSensitive v = cfgCaseSensitive cfg
    \<and> ListDir env v [0x2F] = Inr [] \<and> beginTxn env v = Inr t
    \<and> freeSet (walc t) = {..<nat (sz div 4096)} - ({0, nat (sz div 4096) - 1} \<union> specialBlocks (AllocationFile (vh v))
        \<union> specialBlocks (ExtentsFile (vh v)) \<union> specialBlocks (CatalogFile (vh v)))
    \<and> unat (FreeBlocks (vh v)) = card (freeSet (walc t))"
proof -
  define N where "N = nat (sz div 4096)"
  define b where "b = newBuilder env sz cfg"
  have fresh: "freshBuilder N b" unfolding N_def b_def by (rule newBuilder_fresh [OF assms(1-3)])
  have b: "mlabel b = volumeLabel cfg" "mcaseSensitive b = cfgCaseSensitive cfg"
    by (simp_all add: b_def newBuilder_def Let_def volumeLabel_def)
  have fit: "fitName (mlabel b)" using goodLabel_fitName [OF assms(3)] b by simp
  have N: "mkfsFits N" using fresh by (simp add: freshBuilder_def)
  note bd = layout_bounds [OF N]
  have "int (4096 * bitmapBlocks N) \<le> int (4096 * N) + 4096" using bd by simp
  then obtain t where t: "beginTxn env (mkfsVolume N b) = Inr t" "walc t = \<lparr>bitmap = bitmapImage N, bits = of_nat N\<rparr>"
    using assms(4) [of "int (4096 * bitmapBlocks N)"] mkfs_txn [OF fresh] by (metis of_nat_0_le_iff)
  have free: "freeSet (walc t) = {bitmapBlocks N + 3 + catalogBlocks N..<N - 1}"
    by (rule mkfs_free [OF N]) (simp_all add: t)
  let ?h = "mkfsHeader N (cfgCaseSensitive cfg)"
  have "freeSet (walc t) = {..<N} - ({0, N - 1} \<union> specialBlocks (AllocationFile ?h)
      \<union> specialBlocks (ExtentsFile ?h) \<union> specialBlocks (CatalogFile ?h))"
    unfolding free mkfs_special_blocks [OF N] using bd by auto
  moreover have "unat (FreeBlocks ?h) = card (freeSet (walc t))"
    using bd N unfolding free by (simp add: mkfsHeader_def mkfsFits_def del: of_nat_diff of_nat_add)
  moreover have "CaseSensitive (mkfsVolume N b) = cfgCaseSensitive cfg"
    by (simp add: CaseSensitive_def mkfsVolume_def catTreeOf_def btHeaderOf_def catParams_def b keyCompareCaseFold_def
        keyCompareBinary_def)
  moreover have "vh (mkfsVolume N b) = ?h" by (simp add: mkfsVolume_def b)
  moreover have "int (length (mkfsImage N b)) = sz div 4096 * 4096"
    using assms(1) by (simp add: length_mkfsImage [OF N]) (simp add: N_def)
  moreover have "Mkfs env sz cfg = Inr (mkfsImage N b)"
    unfolding N_def b_def by (rule Mkfs_eq [OF assms(1)]) (use fresh N_def b_def in simp)
  ultimately show ?thesis
    using mkfs_opened [OF fresh] mkfs_label [OF fresh fit] mkfs_empty [OF fresh fit, of env] t(1) b(1)
    unfolding N_def [symmetric] by metis
qed

lemma sampleEnv_make: "0 \<le> n \<Longrightarrow> n \<le> lim \<Longrightarrow> \<exists>buf. envMakeBytes sampleEnv n lim = Inr buf"
  by (simp add: sampleEnv_def)

lemma volumeLabel_default: "volumeLabel \<lparr>cfgLabel = [], cfgCaseSensitive = cs\<rparr> = gotest"
  by (simp add: volumeLabel_def)

theorem mkfs_opens_witness:
  "\<exists>im v. Mkfs sampleEnv 32768 \<lparr>cfgLabel = [], cfgCaseSensitive = True\<rparr> = Inr im \<and> length im = 32768
    \<and> OpenWritable im = Inr v \<and> Label v = gotest \<and> CaseSensitive v \<and> ListDir sampleEnv v [0x2F] = Inr []"
proof -
  let ?cfg = "\<lparr>cfgLabel = [], cfgCaseSensitive = True\<rparr>"
  have good: "goodLabel (volumeLabel ?cfg)" by (simp add: volumeLabel_default goodLabel_gotest)
  from mkfs_opens [OF _ _ good sampleEnv_make, of 32768] show ?thesis
    by (auto simp: volumeLabel_default)
qed

text \<open>
  C6. A session never leaves the parsed view of the image: start from any image that opens and run
  any sequence of successful mutators (writing, creating and deleting files, directories and
  links, renaming, truncating, relabelling, setting Finder information); then the image of the
  resulting volume has the size of the first, and opening it afresh succeeds with exactly the
  volume in memory: header, both trees with their extents, and write access.
\<close>

theorem session_reopens:
  assumes "OpenWritable im = Inr v" "(mutation env)\<^sup>*\<^sup>* v v'"
  shows "OpenWritable (disk v') = Inr v' \<and> length (disk v') = length im"
proof -
  have "disk v = im" by (rule OpenWritable_disk [OF assms(1)])
  then have "openedOf (length im) v" using assms(1) by (simp add: openedOf_def opened_def)
  from mutations_opened [OF assms(2) this] show ?thesis by (simp add: openedOf_def opened_def)
qed

lemma sample_volume: "\<exists>v. OpenWritable (disk v) = Inr v \<and> Label v = gotest"
proof -
  define b where "b = newBuilder sampleEnv 32768 \<lparr>cfgLabel = [], cfgCaseSensitive = True\<rparr>"
  have fresh: "freshBuilder 8 b"
    using newBuilder_fresh [of 32768 "\<lparr>cfgLabel = [], cfgCaseSensitive = True\<rparr>" sampleEnv]
    by (simp add: b_def volumeLabel_default goodLabel_gotest)
  have "mlabel b = gotest" by (simp add: b_def newBuilder_def Let_def)
  then have "Label (mkfsVolume 8 b) = gotest" using mkfs_label [OF fresh] goodLabel_fitName [OF goodLabel_gotest] by simp
  moreover have "disk (mkfsVolume 8 b) = mkfsImage 8 b" by (simp add: mkfsVolume_def)
  ultimately show ?thesis using mkfs_opened [OF fresh] by metis
qed

lemma trimSpace_gotest: "trimSpace gotest = gotest" "gotest \<noteq> []"
  by (simp_all add: trimSpace_def gotest_def isSpace_def)

theorem session_reopens_witness:
  "\<exists>v. SetLabel sampleEnv gotest v = (Inr (), v) \<and> OpenWritable (disk v) = Inr v"
proof -
  obtain v where v: "OpenWritable (disk v) = Inr v" "Label v = gotest" using sample_volume by blast
  have "wr v" using v(1) by (auto simp: OpenWritable_def bindR_eq_Inr)
  then have step: "SetLabel sampleEnv gotest v = (Inr (), v)"
    using v(2) goodLabel_gotest trimSpace_gotest
    by (simp add: SetLabel_def guarded_def goodLabel_def getS_def bnd_def ret_def)
  then have "(mutation sampleEnv)\<^sup>*\<^sup>* v v" by (auto intro: mSetLabel)
  with session_reopens [OF v(1) this] step show ?thesis by blast
qed

end
