(* ===== verification/TreeOrder.thy ===== *)
theory TreeOrder
  imports BTOps
begin

text \<open>
  Search trees as values: the order of a tree's records by bounds on its subtrees, the position at
  which \<^verbatim>\<open>insertSorted\<close> (\<^verbatim>\<open>btops.go\<close>) puts a record, and what cutting a node in two does to the order.
  Nothing here depends on how nodes are stored.
\<close>

section \<open>Binary search\<close>

lemma sortSearch_spec:
  assumes "i \<le> j" "\<And>h k. i \<le> h \<Longrightarrow> h \<le> k \<Longrightarrow> k < j \<Longrightarrow> f h \<Longrightarrow> f k"
  shows "i \<le> sortSearch f i j \<and> sortSearch f i j \<le> j
    \<and> (\<forall>h. i \<le> h \<and> h < sortSearch f i j \<longrightarrow> \<not> f h) \<and> (\<forall>h. sortSearch f i j \<le> h \<and> h < j \<longrightarrow> f h)"
  using assms
proof (induction f i j rule: sortSearch.induct)
  case (1 f i j)
  show ?case
  proof (cases "i < j")
    case True
    define m where "m = (i + j) div 2"
    have m: "i \<le> m" "m < j" using True by (simp_all add: m_def)
    show ?thesis
    proof (cases "f m")
      case True
      have "sortSearch f i j = sortSearch f i m"
        by (subst sortSearch.simps) (use \<open>i < j\<close> True in \<open>simp add: Let_def m_def\<close>)
      moreover have "f h" if "m \<le> h" "h < j" for h by (rule "1.prems"(2) [OF m(1) that True])
      moreover have "i \<le> sortSearch f i m \<and> sortSearch f i m \<le> m
          \<and> (\<forall>h. i \<le> h \<and> h < sortSearch f i m \<longrightarrow> \<not> f h) \<and> (\<forall>h. sortSearch f i m \<le> h \<and> h < m \<longrightarrow> f h)"
      proof (rule "1.IH"(1) [OF \<open>i < j\<close> m_def True m(1)])
        show "f k" if "i \<le> h" "h \<le> k" "k < m" "f h" for h k
          by (rule "1.prems"(2) [OF that(1,2) _ that(4)]) (use that m in linarith)
      qed
      ultimately show ?thesis using m by (metis le_trans less_imp_le linorder_not_less)
    next
      case False
      have "sortSearch f i j = sortSearch f (m + 1) j"
        by (subst sortSearch.simps) (use \<open>i < j\<close> False in \<open>simp add: Let_def m_def\<close>)
      moreover have "\<not> f h" if "i \<le> h" "h \<le> m" for h using "1.prems"(2) [OF that m(2)] False by metis
      moreover have "m + 1 \<le> sortSearch f (m + 1) j \<and> sortSearch f (m + 1) j \<le> j
          \<and> (\<forall>h. m + 1 \<le> h \<and> h < sortSearch f (m + 1) j \<longrightarrow> \<not> f h)
          \<and> (\<forall>h. sortSearch f (m + 1) j \<le> h \<and> h < j \<longrightarrow> f h)"
      proof (rule "1.IH"(2) [OF \<open>i < j\<close> m_def False])
        show "m + 1 \<le> j" using m by simp
        show "f k" if "m + 1 \<le> h" "h \<le> k" "k < j" "f h" for h k
          by (rule "1.prems"(2) [OF _ that(2-4)]) (use that m in linarith)
      qed
      ultimately show ?thesis using m by (metis Suc_eq_plus1 Suc_leD Suc_leI le_trans linorder_not_less)
    qed
  next
    case False
    then have "sortSearch f i j = i" by (simp add: sortSearch.simps [of f i j])
    then show ?thesis using "1.prems"(1) False by auto
  qed
qed

text \<open>Where the records split into smaller ones and the rest, that is where the new record goes.\<close>

lemma insertSorted_split:
  assumes "\<forall>r \<in> set xs. cmp r rec < 0" "\<forall>r \<in> set ys. cmp r rec \<ge> 0"
  shows "insertSorted cmp (xs @ ys) rec = xs @ rec # ys"
proof -
  let ?f = "\<lambda>i. cmp ((xs @ ys) ! i) rec \<ge> 0"
  have f: "?f h \<longleftrightarrow> length xs \<le> h" if "h < length (xs @ ys)" for h
  proof (cases "h < length xs")
    case True
    then have "cmp (xs ! h) rec < 0" using assms(1) by (simp add: nth_mem)
    then show ?thesis using True by (simp add: nth_append)
  next
    case False
    then have "ys ! (h - length xs) \<in> set ys" using that by (intro nth_mem) simp
    then show ?thesis using assms(2) False by (simp add: nth_append)
  qed
  have mono: "?f k" if "0 \<le> h" "h \<le> k" "k < length (xs @ ys)" "?f h" for h k
    using f [of h] f [of k] that by (simp add: order_trans)
  define idx where "idx = sortSearch ?f 0 (length (xs @ ys))"
  have "idx \<le> length (xs @ ys)" "\<forall>h. h < idx \<longrightarrow> \<not> ?f h" "\<forall>h. idx \<le> h \<and> h < length (xs @ ys) \<longrightarrow> ?f h"
    using sortSearch_spec [of 0 "length (xs @ ys)" ?f] mono unfolding idx_def by blast+
  moreover have "idx = length xs"
  proof (rule ccontr)
    assume "idx \<noteq> length xs"
    then consider "idx < length xs" | "length xs < idx" by linarith
    then show False
    proof cases
      case 1
      then show False using calculation(3) f [of idx] by simp
    next
      case 2
      then have "\<not> ?f (length xs)" "length xs < length (xs @ ys)" using calculation(1,2) by auto
      then show False using f [of "length xs"] by simp
    qed
  qed
  ultimately show ?thesis unfolding insertSorted_def idx_def [symmetric] Let_def by simp
qed

section \<open>Order\<close>

text \<open>The comparison of records by their keys, as \<^verbatim>\<open>compareRecords\<close> does it.\<close>

definition recCmp :: "(bytes \<Rightarrow> 'k option) \<Rightarrow> ('k \<Rightarrow> 'k \<Rightarrow> int) \<Rightarrow> bytes \<Rightarrow> bytes \<Rightarrow> int" where
  "recCmp keyOf cmp a b = (case (keyOf a, keyOf b) of (Some ka, Some kb) \<Rightarrow> cmp ka kb | _ \<Rightarrow> 0)"

text \<open>Keys from \<open>lo\<close> on and below \<open>hi\<close>; \<open>None\<close> is no bound.\<close>

definition within :: "('k \<Rightarrow> 'k \<Rightarrow> int) \<Rightarrow> 'k option \<Rightarrow> 'k option \<Rightarrow> 'k \<Rightarrow> bool" where
  "within cmp lo hi k \<longleftrightarrow> (\<forall>l. lo = Some l \<longrightarrow> cmp l k \<le> 0) \<and> (\<forall>h. hi = Some h \<longrightarrow> cmp k h < 0)"

definition recIn :: "(bytes \<Rightarrow> 'k option) \<Rightarrow> ('k \<Rightarrow> 'k \<Rightarrow> int) \<Rightarrow> 'k option \<Rightarrow> 'k option \<Rightarrow> bytes \<Rightarrow> bool" where
  "recIn keyOf cmp lo hi rec \<longleftrightarrow> (\<exists>k. keyOf rec = Some k \<and> within cmp lo hi k)"

text \<open>The upper bound of a subtree is the key of the next one.\<close>

definition nextKey :: "(bytes \<Rightarrow> 'k option) \<Rightarrow> 'k option \<Rightarrow> (bytes \<times> tnode) list \<Rightarrow> 'k option" where
  "nextKey keyOf hi cs = (case cs of [] \<Rightarrow> hi | p # _ \<Rightarrow> keyOf (fst p))"

lemma nextKey_simps [simp]: "nextKey keyOf hi [] = hi" "nextKey keyOf hi (p # cs) = keyOf (fst p)"
  by (simp_all add: nextKey_def)

text \<open>
  Ordered trees: the records of a leaf ascend strictly; the key of an index record is at most every
  key of its subtree, is the first key of an index node below it, and is above every key of the subtrees
  before it.
\<close>

function ordered :: "(bytes \<Rightarrow> 'k option) \<Rightarrow> ('k \<Rightarrow> 'k \<Rightarrow> int) \<Rightarrow> 'k option \<Rightarrow> 'k option \<Rightarrow> tnode \<Rightarrow> bool"
  and orderedList :: "(bytes \<Rightarrow> 'k option) \<Rightarrow> ('k \<Rightarrow> 'k \<Rightarrow> int) \<Rightarrow> 'k option \<Rightarrow> 'k option \<Rightarrow> (bytes \<times> tnode) list \<Rightarrow> bool" where
  "ordered keyOf cmp lo hi (TLeaf n rs) =
     (rs \<noteq> [] \<and> sorted_wrt (\<lambda>a b. recCmp keyOf cmp a b < 0) rs \<and> (\<forall>r \<in> set rs. recIn keyOf cmp lo hi r))"
| "ordered keyOf cmp lo hi (TIndex n cs) =
     (cs \<noteq> [] \<and> (lo = None \<or> keyOf (fst (hd cs)) = lo) \<and> orderedList keyOf cmp lo hi cs)"
| "orderedList keyOf cmp lo hi [] = True"
| "orderedList keyOf cmp lo hi (p # cs) =
     (recIn keyOf cmp lo (nextKey keyOf hi cs) (fst p) \<and> ordered keyOf cmp (keyOf (fst p)) (nextKey keyOf hi cs) (snd p)
      \<and> orderedList keyOf cmp (keyOf (fst p)) hi cs)"
  by pat_completeness auto
termination
  by (relation "measure (\<lambda>x. case x of Inl (_, _, _, _, t) \<Rightarrow> size t | Inr (_, _, _, _, cs) \<Rightarrow> size_list (size_prod (\<lambda>_. 0) size) cs)")
    (auto simp: less_Suc_eq_le size_prod_def split: prod.split)

lemma tnode_induct [case_names TLeaf TIndex]:
  assumes "\<And>n rs. P (TLeaf n rs)" "\<And>n cs. (\<And>p. p \<in> set cs \<Longrightarrow> P (snd p)) \<Longrightarrow> P (TIndex n cs)"
  shows "P t"
proof (induction t)
  case (TIndex n cs)
  then show ?case by (intro assms(2)) (auto simp: snds.simps)
qed (rule assms(1))

definition lastKey :: "(bytes \<Rightarrow> 'k option) \<Rightarrow> 'k option \<Rightarrow> (bytes \<times> tnode) list \<Rightarrow> 'k option" where
  "lastKey keyOf lo cs = (if cs = [] then lo else keyOf (fst (last cs)))"

lemma lastKey_simps [simp]: "lastKey keyOf lo [] = lo" "lastKey keyOf lo (p # cs) = lastKey keyOf (keyOf (fst p)) cs"
  by (simp_all add: lastKey_def)

lemma nextKey_append [simp]: "nextKey keyOf hi (xs @ ys) = nextKey keyOf (nextKey keyOf hi ys) xs"
  by (cases xs) simp_all

lemma orderedList_append:
  "orderedList keyOf cmp lo hi (xs @ ys) \<longleftrightarrow>
   orderedList keyOf cmp lo (nextKey keyOf hi ys) xs \<and> orderedList keyOf cmp (lastKey keyOf lo xs) hi ys"
  by (induction xs arbitrary: lo) auto

context search_tree
begin

lemma within_low: "within cmp lo hi k \<Longrightarrow> within cmp (Some k) hi' k' \<Longrightarrow> within cmp lo hi' k'"
  using cmp_trans by (fastforce simp: within_def)

lemma within_high: "within cmp lo (Some h) k \<Longrightarrow> within cmp lo' hi h \<Longrightarrow> within cmp lo hi k"
  using cmp_less_trans by (fastforce simp: within_def)

lemma recIn_low: "recIn keyOf cmp lo hi r \<Longrightarrow> recIn keyOf cmp (keyOf r) hi' x \<Longrightarrow> recIn keyOf cmp lo hi' x"
  by (auto simp: recIn_def intro: within_low)

lemma recIn_high: "recIn keyOf cmp lo (keyOf r) x \<Longrightarrow> recIn keyOf cmp lo' hi r \<Longrightarrow> recIn keyOf cmp lo hi x"
  by (auto simp: recIn_def intro: within_high)

lemma recIn_less: "recIn keyOf cmp lo (keyOf r) x \<Longrightarrow> keyOf r \<noteq> None \<Longrightarrow> recCmp keyOf cmp x r < 0"
  by (auto simp: recIn_def recCmp_def within_def)

lemma recIn_geq: "recIn keyOf cmp (keyOf r) hi x \<Longrightarrow> keyOf r \<noteq> None \<Longrightarrow> recCmp keyOf cmp r x \<le> 0"
  by (auto simp: recIn_def recCmp_def within_def)

lemma recCmp_trans:
  "recCmp keyOf cmp a b < 0 \<Longrightarrow> recCmp keyOf cmp b c \<le> 0 \<Longrightarrow> keyOf c \<noteq> None \<Longrightarrow> recCmp keyOf cmp a c < 0"
  using cmp_less_le by (auto simp: recCmp_def split: option.splits)

text \<open>The keys and records of an ordered tree lie within its bounds.\<close>

lemma orderedList_first: "orderedList keyOf cmp lo hi (p # cs) \<Longrightarrow> recIn keyOf cmp lo hi (fst p)"
proof (induction cs arbitrary: lo p)
  case (Cons q cs)
  then have "recIn keyOf cmp (keyOf (fst p)) hi (fst q)" by auto
  then show ?case using Cons.prems recIn_high [of lo "fst q" "fst p"] by auto
qed auto

lemma orderedList_next:
  assumes "orderedList keyOf cmp (keyOf r) hi cs" "recIn keyOf cmp lo (nextKey keyOf hi cs) x"
  shows "recIn keyOf cmp lo hi x"
proof (cases cs)
  case (Cons p ps)
  then have "recIn keyOf cmp (keyOf r) hi (fst p)" using assms(1) orderedList_first by blast
  then show ?thesis using assms(2) Cons recIn_high by simp
qed (use assms in simp)

lemma orderedList_member:
  assumes "orderedList keyOf cmp lo hi cs" "p \<in> set cs"
  obtains hi' where "ordered keyOf cmp (keyOf (fst p)) hi' (snd p)" "recIn keyOf cmp lo hi (fst p)"
    "\<And>x. recIn keyOf cmp (keyOf (fst p)) hi' x \<Longrightarrow> recIn keyOf cmp lo hi x"
  using assms
proof (induction cs arbitrary: lo thesis)
  case (Cons q cs)
  note o = Cons.prems(2) [unfolded orderedList.simps]
  show ?case
  proof (cases "p = q")
    case True
    show ?thesis
    proof (rule Cons.prems(1))
      show "ordered keyOf cmp (keyOf (fst p)) (nextKey keyOf hi cs) (snd p)" using o True by simp
      show "recIn keyOf cmp lo hi (fst p)" using orderedList_first [OF Cons.prems(2)] True by simp
      show "recIn keyOf cmp lo hi x" if "recIn keyOf cmp (keyOf (fst p)) (nextKey keyOf hi cs) x" for x
        using that True o recIn_low orderedList_next by blast
    qed
  next
    case False
    then have "p \<in> set cs" using Cons.prems(3) by simp
    from Cons.IH [OF _ _ this] o obtain hi' where "ordered keyOf cmp (keyOf (fst p)) hi' (snd p)"
      "recIn keyOf cmp (keyOf (fst q)) hi (fst p)"
      "\<And>x. recIn keyOf cmp (keyOf (fst p)) hi' x \<Longrightarrow> recIn keyOf cmp (keyOf (fst q)) hi x" by blast
    then show ?thesis using o recIn_low by (intro Cons.prems(1) [of hi']) blast+
  qed
qed simp

lemma ordered_within:
  "ordered keyOf cmp lo hi t \<Longrightarrow> x \<in> set (treeRecs t) \<Longrightarrow> recIn keyOf cmp lo hi x"
proof (induction t arbitrary: lo hi rule: tnode_induct)
  case (TIndex n cs)
  then obtain p where p: "p \<in> set cs" "x \<in> set (treeRecs (snd p))" by auto
  have "orderedList keyOf cmp lo hi cs" using TIndex.prems by simp
  from this p(1) show ?case
    by (rule orderedList_member) (use TIndex.IH [OF p(1)] p(2) in blast)
qed simp

lemma ordered_nonempty: "ordered keyOf cmp lo hi t \<Longrightarrow> treeRecs t \<noteq> []"
proof (induction t arbitrary: lo hi rule: tnode_induct)
  case (TIndex n cs)
  then obtain p ps where cs: "cs = p # ps" by (cases cs) auto
  then have "treeRecs (snd p) \<noteq> []" using TIndex.IH [of p] TIndex.prems by auto
  then show ?case using cs by simp
qed simp

text \<open>The records ascend through the whole tree.\<close>

lemma orderedList_above:
  assumes "orderedList keyOf cmp lo hi cs" "p \<in> set cs" "b \<in> set (treeRecs (snd p))"
  shows "recIn keyOf cmp lo hi b" "recCmp keyOf cmp (fst (hd cs)) b \<le> 0" "keyOf (fst (hd cs)) \<noteq> None"
proof -
  show "recIn keyOf cmp lo hi b"
    using assms(1,2) by (rule orderedList_member) (use ordered_within assms(3) in blast)
  obtain q cs' where cs: "cs = q # cs'" using assms(2) by (cases cs) auto
  then show k: "keyOf (fst (hd cs)) \<noteq> None" using assms(1) by (auto simp: recIn_def)
  have "orderedList keyOf cmp (keyOf (fst q)) hi cs" using assms(1) cs by (auto simp: recIn_def within_def cmp_refl)
  then have "recIn keyOf cmp (keyOf (fst q)) hi b"
    using assms(2) by (rule orderedList_member) (use ordered_within assms(3) in blast)
  then show "recCmp keyOf cmp (fst (hd cs)) b \<le> 0" using k cs by (auto intro: recIn_geq)
qed

lemma ordered_sorted: "ordered keyOf cmp lo hi t \<Longrightarrow> sorted_wrt (\<lambda>a b. recCmp keyOf cmp a b < 0) (treeRecs t)"
proof (induction t arbitrary: lo hi rule: tnode_induct)
  case (TIndex n cs)
  have "sorted_wrt (\<lambda>a b. recCmp keyOf cmp a b < 0) (concat (map (\<lambda>p. treeRecs (snd p)) cs))"
    if "set cs \<subseteq> set cs0" "orderedList keyOf cmp lo hi cs"
      "\<And>p lo hi. p \<in> set cs0 \<Longrightarrow> ordered keyOf cmp lo hi (snd p) \<Longrightarrow> sorted_wrt (\<lambda>a b. recCmp keyOf cmp a b < 0) (treeRecs (snd p))"
    for cs0 :: "(bytes \<times> tnode) list" and lo hi
    using that(1,2)
  proof (induction cs arbitrary: lo)
    case (Cons q cs)
    have o: "ordered keyOf cmp (keyOf (fst q)) (nextKey keyOf hi cs) (snd q)" "orderedList keyOf cmp (keyOf (fst q)) hi cs"
      using Cons.prems by auto
    have "recCmp keyOf cmp a b < 0" if "a \<in> set (treeRecs (snd q))" "p \<in> set cs" "b \<in> set (treeRecs (snd p))" for a b p
    proof -
      note b = orderedList_above [OF o(2) that(2,3)]
      have "nextKey keyOf hi cs = keyOf (fst (hd cs))" using that(2) by (cases cs) auto
      then have "recCmp keyOf cmp a (fst (hd cs)) < 0" using ordered_within [OF o(1) that(1)] b(3) recIn_less by metis
      then show ?thesis using recCmp_trans b(1,2) by (auto simp: recIn_def)
    qed
    moreover have "sorted_wrt (\<lambda>a b. recCmp keyOf cmp a b < 0) (treeRecs (snd q))" using that(3) o(1) Cons.prems(1) by auto
    moreover have "sorted_wrt (\<lambda>a b. recCmp keyOf cmp a b < 0) (concat (map (\<lambda>p. treeRecs (snd p)) cs))"
      using Cons.IH [OF _ o(2)] Cons.prems(1) by auto
    ultimately show ?case by (simp add: sorted_wrt_append)
  qed simp
  from this [OF order_refl _ TIndex.IH] TIndex.prems show ?case by auto
qed simp

text \<open>An ordered tree is searchable in the reader's sense.\<close>

lemma recIn_holds: "recIn keyOf cmp lo hi x \<Longrightarrow> (\<And>k. within cmp lo hi k \<Longrightarrow> P k) \<Longrightarrow> keyHolds keyOf P x"
  by (auto simp: recIn_def keyHolds_def)

lemma separates_first:
  assumes "orderedList keyOf cmp lo hi (q # cs)" "p \<in> set cs"
  shows "separates keyOf cmp q p"
proof -
  have o: "recIn keyOf cmp lo (nextKey keyOf hi cs) (fst q)" "ordered keyOf cmp (keyOf (fst q)) (nextKey keyOf hi cs) (snd q)"
    "orderedList keyOf cmp (keyOf (fst q)) hi cs" using assms(1) by auto
  obtain c cs' where cs: "cs = c # cs'" using assms(2) by (cases cs) auto
  obtain kc where kc: "keyOf (fst c) = Some kc" using o(3) cs by (auto simp: recIn_def)
  obtain kp where kp: "keyOf (fst p) = Some kp" using o(3) assms(2) by (rule orderedList_member) (auto simp: recIn_def)
  have "orderedList keyOf cmp (Some kc) hi cs" using o(3) cs kc by (auto simp: recIn_def within_def cmp_refl)
  then have "recIn keyOf cmp (Some kc) hi (fst p)" using assms(2) by (rule orderedList_member)
  then have le: "cmp kc kp \<le> 0" by (simp add: recIn_def within_def kp)
  then have below: "within cmp lo' (Some kc) k \<Longrightarrow> cmp k kp < 0" for lo' k
    using cmp_less_le by (auto simp: within_def)
  have nxt: "nextKey keyOf hi cs = Some kc" by (simp add: cs kc)
  have "keyHolds keyOf (\<lambda>k. cmp k kp < 0) (fst q)" using o(1) below unfolding nxt by (rule recIn_holds)
  moreover have "keyHolds keyOf (\<lambda>k. cmp k kp < 0) x" if "x \<in> set (treeRecs (snd q))" for x
    using ordered_within [OF o(2) that] below unfolding nxt by (rule recIn_holds)
  moreover obtain hi' where "ordered keyOf cmp (Some kp) hi' (snd p)"
    using o(3) assms(2) by (rule orderedList_member) (simp add: kp)
  then have "keyHolds keyOf (\<lambda>k. cmp kp k \<le> 0) x" if "x \<in> set (treeRecs (snd p))" for x
    using ordered_within that by (intro recIn_holds) (auto simp: within_def)
  ultimately show ?thesis by (simp add: separates_def kp list_all_iff)
qed

lemma orderedList_separates: "orderedList keyOf cmp lo hi cs \<Longrightarrow> sorted_wrt (separates keyOf cmp) cs"
proof (induction cs arbitrary: lo)
  case (Cons q cs)
  then show ?case using separates_first [OF Cons.prems] by auto
qed simp

lemma ordered_searchable: "ordered keyOf cmp lo hi t \<Longrightarrow> searchable keyOf cmp t"
proof (induction t arbitrary: lo hi rule: tnode_induct)
  case (TIndex n cs)
  then have o: "orderedList keyOf cmp lo hi cs" by simp
  have "keyOf (fst p) \<noteq> None \<and> searchable keyOf cmp (snd p)" if "p \<in> set cs" for p
    using o that by (rule orderedList_member) (use TIndex.IH [OF that] in \<open>auto simp: recIn_def\<close>)
  then show ?case using TIndex.prems orderedList_separates [OF o] by auto
qed simp

lemma ordered_ascending:
  assumes "ordered keyOf cmp lo hi t"
  shows "sorted_wrt (\<lambda>a b. cmp a b < 0) (List.map_filter keyOf (treeRecs t))"
proof -
  have "sorted_wrt (\<lambda>a b. cmp a b < 0) (List.map_filter keyOf rs)"
    if "sorted_wrt (\<lambda>a b. recCmp keyOf cmp a b < 0) rs" for rs
    using that
  proof (induction rs)
    case (Cons r rs)
    then show ?case
      by (auto simp: map_filter_Cons set_map_filter recCmp_def split: option.splits)
  qed simp
  then show ?thesis using ordered_sorted [OF assms] .
qed

section \<open>Choosing a child\<close>

text \<open>The child that \<^verbatim>\<open>descend\<close> chooses has the record within its bounds, when the record is not below the
  first key of the node.\<close>

lemma orderedList_from_first:
  "orderedList keyOf cmp lo hi (p # cs) \<Longrightarrow> orderedList keyOf cmp (keyOf (fst p)) hi (p # cs)"
  by (auto simp: recIn_def within_def cmp_refl)

lemma choose_child:
  assumes "orderedList keyOf cmp lo hi cs" "cs \<noteq> []" "recIn keyOf cmp lo hi rec"
    and "keyOf (fst (hd cs)) = lo"
  obtains xs p ys where "cs = xs @ p # ys" "chooseIdx (\<lambda>r. recCmp keyOf cmp r rec) (map fst cs) = length xs"
    "recIn keyOf cmp (keyOf (fst p)) (nextKey keyOf hi ys) rec"
proof -
  let ?P = "\<lambda>q. recCmp keyOf cmp (fst q) rec \<le> 0"
  define as ys where "as = takeWhile ?P cs" and "ys = dropWhile ?P cs"
  have cs: "cs = as @ ys" by (simp add: as_def ys_def)
  have "keyOf (fst (hd cs)) \<noteq> None" using assms(1,2) by (cases cs) (auto simp: recIn_def)
  then have "?P (hd cs)" using assms(3,4) recIn_geq by metis
  then have "as \<noteq> []" using assms(2) by (cases cs) (auto simp: as_def)
  then obtain xs p where as: "as = xs @ [p]" by (metis rev_exhaust)
  have p: "?P p" using as set_takeWhileD [of p ?P cs] by (simp add: as_def)
  have "chooseIdx (\<lambda>r. recCmp keyOf cmp r rec) (map fst cs) = length xs"
    using as by (simp add: chooseIdx_def takeWhile_map comp_def flip: as_def)
  moreover have "recIn keyOf cmp (keyOf (fst p)) (nextKey keyOf hi ys) rec"
  proof -
    obtain k where k: "keyOf rec = Some k" "within cmp lo hi k" using assms(3) by (auto simp: recIn_def)
    have o: "orderedList keyOf cmp lo hi ((xs @ [p]) @ ys)" using assms(1) cs as by simp
    then obtain kp where kp: "keyOf (fst p) = Some kp" by (auto simp: orderedList_append recIn_def)
    have "cmp kp k \<le> 0" using p k kp by (simp add: recCmp_def)
    moreover have "\<forall>h. nextKey keyOf hi ys = Some h \<longrightarrow> cmp k h < 0"
    proof (cases ys)
      case Nil
      then show ?thesis using k by (simp add: within_def)
    next
      case (Cons q qs)
      then have "\<not> ?P q" using hd_dropWhile [of ?P cs] by (simp add: ys_def)
      moreover obtain kq where "keyOf (fst q) = Some kq" using o Cons by (auto simp: orderedList_append recIn_def)
      ultimately show ?thesis using Cons k cmp_gt [of kq k] by (simp add: recCmp_def)
    qed
    ultimately show ?thesis using k kp by (simp add: recIn_def within_def)
  qed
  ultimately show thesis using that [of xs p ys] cs as by simp
qed

section \<open>Edits of a node\<close>

lemma recCmp_swap: "recCmp keyOf cmp b a = - recCmp keyOf cmp a b"
  by (simp add: recCmp_def split: option.split) (use cmp_swap in blast)

text \<open>A new record in a leaf.\<close>

lemma leaf_insert:
  assumes "ordered keyOf cmp lo hi (TLeaf n rs)" "recIn keyOf cmp lo hi rec" "\<forall>r \<in> set rs. recCmp keyOf cmp r rec \<noteq> 0"
  obtains xs ys where "rs = xs @ ys" "insertSorted (recCmp keyOf cmp) rs rec = xs @ rec # ys"
    "ordered keyOf cmp lo hi (TLeaf n (xs @ rec # ys))"
proof -
  let ?P = "\<lambda>r. recCmp keyOf cmp r rec < 0"
  define xs ys where "xs = takeWhile ?P rs" and "ys = dropWhile ?P rs"
  have rs: "rs = xs @ ys" by (simp add: xs_def ys_def)
  have xs: "\<forall>r \<in> set xs. ?P r" using set_takeWhileD [of _ ?P rs] by (auto simp: xs_def)
  have srt: "sorted_wrt (\<lambda>a b. recCmp keyOf cmp a b < 0) (xs @ ys)" "\<forall>r \<in> set (xs @ ys). recIn keyOf cmp lo hi r"
    using assms(1) rs by auto
  have ys: "recCmp keyOf cmp rec r < 0" if r: "r \<in> set ys" for r
  proof -
    have "recIn keyOf cmp lo hi r" using srt(2) r by simp
    then obtain k kr where k: "keyOf rec = Some k" "keyOf r = Some kr" using assms(2) by (auto simp: recIn_def)
    obtain y ys' where y: "ys = y # ys'" using r by (cases ys) auto
    then have "\<not> ?P y" using hd_dropWhile [of ?P rs] by (simp add: ys_def)
    moreover obtain ky where ky: "keyOf y = Some ky" using srt(2) y by (auto simp: recIn_def)
    moreover have "recCmp keyOf cmp y rec \<noteq> 0" using assms(3) rs y by simp
    ultimately have "cmp k ky < 0" using k cmp_swap [of k ky] by (simp add: recCmp_def)
    moreover have "r = y \<or> cmp ky kr < 0" using srt(1) y r k ky by (auto simp: sorted_wrt_append recCmp_def)
    ultimately show ?thesis using k ky cmp_less_trans by (auto simp: recCmp_def)
  qed
  have "\<forall>r \<in> set ys. recCmp keyOf cmp r rec \<ge> 0"
    using ys recCmp_swap by (metis less_imp_le neg_0_less_iff_less neg_0_le_iff_le)
  then have "insertSorted (recCmp keyOf cmp) rs rec = xs @ rec # ys" unfolding rs by (intro insertSorted_split xs)
  moreover have "ordered keyOf cmp lo hi (TLeaf n (xs @ rec # ys))"
    using srt xs ys assms(2) by (auto simp: sorted_wrt_append)
  ultimately show thesis using that rs by blast
qed

text \<open>Cutting a leaf and an index node in two; the key of the right part separates them.\<close>

lemma leaf_cut:
  assumes "ordered keyOf cmp lo hi (TLeaf n (as @ bs))" "as \<noteq> []" "bs \<noteq> []"
  shows "ordered keyOf cmp lo (keyOf (hd bs)) (TLeaf n as)" "ordered keyOf cmp (keyOf (hd bs)) hi (TLeaf m bs)"
    "recIn keyOf cmp lo hi (hd bs)"
proof -
  obtain b bs' where bs: "bs = b # bs'" using assms(3) by (cases bs) auto
  have all: "\<forall>r \<in> set (as @ bs). recIn keyOf cmp lo hi r" "sorted_wrt (\<lambda>a b. recCmp keyOf cmp a b < 0) (as @ bs)"
    using assms(1) by simp_all
  obtain kb where kb: "keyOf b = Some kb" using all bs by (auto simp: recIn_def)
  have "recIn keyOf cmp lo (Some kb) r" if "r \<in> set as" for r
  proof -
    have "recIn keyOf cmp lo hi r" "recCmp keyOf cmp r b < 0" using all that bs by (auto simp: sorted_wrt_append)
    then show ?thesis using kb by (auto simp: recIn_def within_def recCmp_def)
  qed
  moreover have "recIn keyOf cmp (Some kb) hi r" if "r \<in> set bs" for r
  proof -
    have "recIn keyOf cmp lo hi r" "r = b \<or> recCmp keyOf cmp b r < 0" using all that bs by (auto simp: sorted_wrt_append)
    then show ?thesis using kb cmp_refl [of kb] by (auto simp: recIn_def within_def recCmp_def)
  qed
  ultimately show "ordered keyOf cmp lo (keyOf (hd bs)) (TLeaf n as)" "ordered keyOf cmp (keyOf (hd bs)) hi (TLeaf m bs)"
    using all assms(2) bs kb by (auto simp: sorted_wrt_append)
  show "recIn keyOf cmp lo hi (hd bs)" using all bs by simp
qed

lemma index_cut:
  assumes "orderedList keyOf cmp lo hi (as @ bs)" "as \<noteq> []" "bs \<noteq> []"
  shows "orderedList keyOf cmp lo (keyOf (fst (hd bs))) as" "orderedList keyOf cmp (keyOf (fst (hd bs))) hi bs"
    "recIn keyOf cmp lo hi (fst (hd bs))"
proof -
  obtain b bs' where bs: "bs = b # bs'" using assms(3) by (cases bs) auto
  show "orderedList keyOf cmp lo (keyOf (fst (hd bs))) as" using assms(1) bs by (simp add: orderedList_append)
  have o: "orderedList keyOf cmp (lastKey keyOf lo as) hi bs" using assms(1) by (simp add: orderedList_append)
  then show "orderedList keyOf cmp (keyOf (fst (hd bs))) hi bs" using orderedList_from_first bs by auto
  have "b \<in> set (as @ bs)" using bs by simp
  with assms(1) show "recIn keyOf cmp lo hi (fst (hd bs))" using bs by (auto elim: orderedList_member)
qed

text \<open>Replacing a child, and putting a second child behind it.\<close>

lemma child_replace:
  assumes "orderedList keyOf cmp lo hi (xs @ p # ys)" "ordered keyOf cmp (keyOf (fst p)) (nextKey keyOf hi ys) t"
  shows "orderedList keyOf cmp lo hi (xs @ (fst p, t) # ys)"
  using assms by (auto simp: orderedList_append)

lemma child_split:
  assumes "orderedList keyOf cmp lo hi (xs @ p # ys)" "ordered keyOf cmp (keyOf (fst p)) (keyOf r) L"
    "ordered keyOf cmp (keyOf r) (nextKey keyOf hi ys) R" "keyOf r = Some k" "recIn keyOf cmp (keyOf (fst p)) (nextKey keyOf hi ys) r"
  shows "orderedList keyOf cmp lo hi (xs @ (fst p, L) # (r, R) # ys)"
    "insertSorted (recCmp keyOf cmp) (map fst (xs @ p # ys)) r = map fst (xs @ (fst p, L) # (r, R) # ys)"
proof -
  obtain kp where kp: "keyOf (fst p) = Some kp" using assms(1) by (auto simp: orderedList_append recIn_def)
  obtain x where x: "x \<in> set (treeRecs L)" using ordered_nonempty [OF assms(2)] by (cases "treeRecs L") auto
  then have "recIn keyOf cmp (Some kp) (Some k) x" using ordered_within [OF assms(2)] kp assms(4) by simp
  then have lt: "cmp kp k < 0" using cmp_le_less by (auto simp: recIn_def within_def)
  have o: "orderedList keyOf cmp lo (keyOf (fst p)) xs" "recIn keyOf cmp (lastKey keyOf lo xs) (nextKey keyOf hi ys) (fst p)"
    "orderedList keyOf cmp (keyOf (fst p)) hi ys" using assms(1) by (auto simp: orderedList_append)
  have "orderedList keyOf cmp (Some k) hi ys"
    using o(3) assms(4,5) kp by (cases ys) (auto simp: recIn_def within_def intro: less_imp_le)
  moreover have "recIn keyOf cmp (lastKey keyOf lo xs) (Some k) (fst p)"
    using o(2) kp lt by (auto simp: recIn_def within_def)
  ultimately show "orderedList keyOf cmp lo hi (xs @ (fst p, L) # (r, R) # ys)"
    using o assms kp by (simp add: orderedList_append)
  have low: "recCmp keyOf cmp (fst q) r < 0" if "q \<in> set xs" for q
  proof -
    have "recIn keyOf cmp lo (Some kp) (fst q)" using o(1) that kp by (auto elim: orderedList_member)
    then show ?thesis using assms(4) lt cmp_less_trans by (auto simp: recIn_def within_def recCmp_def)
  qed
  have high: "recCmp keyOf cmp (fst q) r \<ge> 0" if q: "q \<in> set ys" for q
  proof -
    obtain y ys' where y: "ys = y # ys'" using q by (cases ys) auto
    then obtain ky where ky: "keyOf (fst y) = Some ky" using o(3) by (auto simp: recIn_def)
    have "orderedList keyOf cmp (Some ky) hi ys" using o(3) y ky orderedList_from_first by fastforce
    then obtain kq where kq: "keyOf (fst q) = Some kq" "cmp ky kq \<le> 0"
      using q by (auto elim!: orderedList_member simp: recIn_def within_def)
    have "cmp k ky < 0" using assms(4,5) y ky by (auto simp: recIn_def within_def)
    then show ?thesis using kq assms(4) cmp_less_le [of k ky kq] cmp_swap [of kq k] by (simp add: recCmp_def)
  qed
  have "insertSorted (recCmp keyOf cmp) (map fst (xs @ [p]) @ map fst ys) r = map fst (xs @ [p]) @ r # map fst ys"
    using low high lt kp assms(4) by (intro insertSorted_split) (auto simp: recCmp_def)
  then show "insertSorted (recCmp keyOf cmp) (map fst (xs @ p # ys)) r = map fst (xs @ (fst p, L) # (r, R) # ys)" by simp
qed

end

end
