(* ===== verification/NodeStore.thy ===== *)
theory NodeStore
  imports BTGrow TreeOrder
begin

text \<open>
  A tree's nodes as independent cells. \<^verbatim>\<open>nodeBytes\<close> (\<^verbatim>\<open>btwrite.go\<close>) hands out slices of the image; where
  the slices of different nodes do not overlap (\<open>placed\<close>), the accessors of \<^verbatim>\<open>btwrite.go\<close> read and
  write one cell each. \<open>cell\<close> is the content of a cell and \<open>upd\<close> replaces it; the laws below hide
  addresses and the bytes of the image from the proofs about trees.
\<close>

section \<open>Cells\<close>

definition addr :: "treeSel \<Rightarrow> u32 \<Rightarrow> wst \<Rightarrow> nat" where
  "addr sel n s = (case nodeAddr sel n s of Inr (Some a) \<Rightarrow> a | _ \<Rightarrow> 0)"

definition cell :: "treeSel \<Rightarrow> u32 \<Rightarrow> wst \<Rightarrow> bytes" where
  "cell sel n s = gslice (disk (wvol s)) (addr sel n s) (addr sel n s + nodeSize (writerOf sel s))"

definition upd :: "treeSel \<Rightarrow> u32 \<Rightarrow> bytes \<Rightarrow> wst \<Rightarrow> wst" where
  "upd sel n b s = setDisk (overwrite (disk (wvol s)) (addr sel n s) b) s"

text \<open>The nodes below \<open>N\<close> lie in the image, without overlap.\<close>

definition placed :: "treeSel \<Rightarrow> nat \<Rightarrow> wst \<Rightarrow> bool" where
  "placed sel N s \<longleftrightarrow>
     (\<forall>n. unat n < N \<longrightarrow> nodeAddr sel n s = Inr (Some (addr sel n s)))
     \<and> (\<forall>m n. unat m < N \<longrightarrow> unat n < N \<longrightarrow> m \<noteq> n \<longrightarrow>
          addr sel m s + nodeSize (writerOf sel s) \<le> addr sel n s \<or> addr sel n s + nodeSize (writerOf sel s) \<le> addr sel m s)"

lemma placed_addr: "placed sel N s \<Longrightarrow> unat n < N \<Longrightarrow> nodeAddr sel n s = Inr (Some (addr sel n s))"
  by (simp add: placed_def)

lemma placed_inside:
  "placed sel N s \<Longrightarrow> unat n < N \<Longrightarrow> addr sel n s + nodeSize (writerOf sel s) \<le> length (disk (wvol s))"
  by (rule nodeAddr_inside) (rule placed_addr)

lemma placed_apart:
  assumes "placed sel N s" "unat m < N" "unat n < N" "m \<noteq> n"
  shows "addr sel m s + nodeSize (writerOf sel s) \<le> addr sel n s
    \<or> addr sel n s + nodeSize (writerOf sel s) \<le> addr sel m s"
  using assms by (simp add: placed_def)

lemma length_cell [simp]:
  "placed sel N s \<Longrightarrow> unat n < N \<Longrightarrow> length (cell sel n s) = nodeSize (writerOf sel s)"
  using placed_inside [of sel N s n] by (simp add: cell_def)

text \<open>Addresses depend on the writer and the size of the image only.\<close>

lemma nodeAddr_cong:
  "writerOf sel s' = writerOf sel s \<Longrightarrow> length (disk (wvol s')) = length (disk (wvol s)) \<Longrightarrow>
   nodeAddr sel n s' = nodeAddr sel n s"
  unfolding nodeAddr_def by (simp only:)

lemma addr_cong:
  assumes "writerOf sel s' = writerOf sel s" "length (disk (wvol s')) = length (disk (wvol s))"
  shows "addr sel n s' = addr sel n s"
  unfolding addr_def nodeAddr_cong [OF assms] ..

lemma placed_cong:
  assumes "writerOf sel s' = writerOf sel s" "length (disk (wvol s')) = length (disk (wvol s))"
  shows "placed sel N s' = placed sel N s"
  unfolding placed_def addr_cong [OF assms] nodeAddr_cong [OF assms] assms(1) ..

lemma writerOf_upd [simp]: "writerOf sel' (upd sel n b s) = writerOf sel' s"
  by (simp add: upd_def)

lemma upd_disk:
  assumes "placed sel N s" "unat n < N" "length b = nodeSize (writerOf sel s)"
  shows "length (disk (wvol (upd sel n b s))) = length (disk (wvol s))"
  using placed_inside [OF assms(1,2)] assms(3) by (simp add: upd_def)

lemma placed_upd [simp]:
  "placed sel N s \<Longrightarrow> unat n < N \<Longrightarrow> length b = nodeSize (writerOf sel s) \<Longrightarrow> placed sel N (upd sel n b s)"
  using placed_cong [of sel "upd sel n b s" s] upd_disk by simp

lemma cell_upd:
  assumes "placed sel N s" "unat n < N" "unat m < N" "length b = nodeSize (writerOf sel s)"
  shows "cell sel m (upd sel n b s) = (if m = n then b else cell sel m s)"
proof -
  have a: "addr sel k (upd sel n b s) = addr sel k s" for k
    by (rule addr_cong) (simp_all add: upd_disk [OF assms(1,2,4)])
  have d: "disk (wvol (upd sel n b s)) = overwrite (disk (wvol s)) (addr sel n s) b" by (simp add: upd_def)
  have i: "addr sel n s + length b \<le> length (disk (wvol s))" using placed_inside [OF assms(1,2)] assms(4) by simp
  show ?thesis
  proof (cases "m = n")
    case True
    then show ?thesis unfolding cell_def a d writerOf_upd using gslice_overwrite_same [OF i] assms(4) by simp
  next
    case False
    from placed_apart [OF assms(1,3,2) this]
    have "gslice (overwrite (disk (wvol s)) (addr sel n s) b) (addr sel m s) (addr sel m s + nodeSize (writerOf sel s))
        = gslice (disk (wvol s)) (addr sel m s) (addr sel m s + nodeSize (writerOf sel s))"
      using gslice_overwrite_below [OF i] gslice_overwrite_above [OF i] assms(4) by auto
    then show ?thesis unfolding cell_def a d writerOf_upd using False by simp
  qed
qed

lemma cache_cells [simp]:
  "cell sel n (cacheHeader sel' f s) = cell sel n s" "placed sel N (cacheHeader sel' f s) = placed sel N s"
  using addr_cong [of sel "cacheHeader sel' f s" s] placed_cong [of sel "cacheHeader sel' f s" s]
  by (simp_all add: cell_def)

section \<open>Accessors\<close>

lemma nodeBytes_cell: "placed sel N s \<Longrightarrow> unat n < N \<Longrightarrow> nodeBytes sel n s = (Inr (Some (cell sel n s)), s)"
  by (simp add: nodeBytes_def liftR_def placed_addr cell_def)

lemma putNode_cell: "placed sel N s \<Longrightarrow> unat n < N \<Longrightarrow> putNode sel n b s = (Inr (), upd sel n b s)"
  by (simp add: putNode_def placed_addr upd_def)

lemma liveNode_cell: "placed sel N s \<Longrightarrow> unat n < N \<Longrightarrow> liveNode sel n s = (Inr (cell sel n s), s)"
  by (simp add: liveNode_eq nodeBytes_cell)

lemma hdr_cell:
  assumes "placed sel N s" "0 < N"
  shows "hdrU16 sel off s = (Inr (be16 (cell sel 0 s) (14 + off)), s)"
    "hdrU32 sel off s = (Inr (be32 (cell sel 0 s) (14 + off)), s)"
    "putHdr sel off xs s = (Inr (), upd sel 0 (overwrite (cell sel 0 s) (14 + off) xs) s)"
  using assms liveNode_cell [OF assms(1), of 0] putNode_cell [OF assms(1), of 0]
  by (simp_all add: hdrU16_def hdrU32_def putHdr_def bnd_def ret_def nodeDescriptorLen_def)

lemma eraseNode_cell:
  assumes "placed sel N s" "unat n < N"
  shows "eraseNode sel n s = (Inr True, upd sel n (replicate (nodeSize (writerOf sel s)) 0) s)"
  using assms by (simp add: eraseNode_def bnd_def nodeBytes_cell putNode_cell ret_def)

text \<open>Nodes as \<^verbatim>\<open>loadNode\<close> parses them.\<close>

definition nodeAt :: "treeSel \<Rightarrow> wst \<Rightarrow> u32 \<Rightarrow> node result" where
  "nodeAt sel s n = parseNode (nodeSize (writerOf sel s)) (cell sel n s)"

lemma nodeAt_cache [simp]: "nodeAt sel (cacheHeader sel' f s) = nodeAt sel s"
  by (rule ext) (simp add: nodeAt_def)

lemma loadNode_cell:
  assumes "placed sel N s" "unat n < N" "nodeAt sel s n = Inr nd"
  shows "loadNode sel n s = (Inr \<lparr>num = n, edesc = desc nd, erecs = records nd\<rparr>, s)"
  using assms by (simp add: loadNode_def bnd_def nodeBytes_cell nodeAt_def)

text \<open>The cell that \<^verbatim>\<open>storeNode\<close> leaves, and the refusal of records that do not fit.\<close>

definition packed :: "nat \<Rightarrow> nodeDescriptor \<Rightarrow> bytes list \<Rightarrow> bytes" where
  "packed ns d recs = snd (packNode ns d recs)"

definition putRecs :: "treeSel \<Rightarrow> u32 \<Rightarrow> nodeDescriptor \<Rightarrow> bytes list \<Rightarrow> wst \<Rightarrow> wst" where
  "putRecs sel n d recs s = upd sel n (packed (nodeSize (writerOf sel s)) d recs) s"

lemma packNode_full:
  assumes "\<not> recordsFit ns recs" "recs \<noteq> []"
  shows "fst (packNode ns d recs) = False"
proof (cases "nodeDescriptorLen + 2 * (length recs + 1) \<le> ns")
  case True
  then show ?thesis using packNode_overflow assms(1) by blast
next
  case False
  obtain r rs where "recs = r # rs" using assms(2) by (cases recs) auto
  moreover have "ns - 2 * (length recs + 1) < nodeDescriptorLen + length r" using False by (simp add: nodeDescriptorLen_def)
  ultimately show ?thesis by (simp add: packNode_def)
qed

lemma storeNode_cell:
  assumes "placed sel N s" "unat (num en) < N" "recordsFit (nodeSize (writerOf sel s)) (erecs en)"
  shows "storeNode sel en s = (Inr (), putRecs sel (num en) (edesc en) (erecs en) s)"
  using assms packNode_fits [OF assms(3), of "edesc en"]
  by (simp add: storeNode_def bnd_def nodeBytes_cell putNode_cell ret_def putRecs_def packed_def)

lemma storeNode_full:
  assumes "placed sel N s" "unat (num en) < N" "\<not> recordsFit (nodeSize (writerOf sel s)) (erecs en)" "erecs en \<noteq> []"
  shows "fst (storeNode sel en s) = Inl ErrNodeFull"
proof -
  obtain b where "packNode (nodeSize (writerOf sel s)) (edesc en) (erecs en) = (False, b)"
    using packNode_full [OF assms(3,4), of "edesc en"] by (metis prod.collapse)
  then show ?thesis using assms by (simp add: storeNode_def bnd_def nodeBytes_cell putNode_cell raise_def)
qed

lemma putRecs_facts:
  assumes "placed sel N s" "unat n < N" "recordsFit ns recs" "ns < 2 ^ 16" "nodeSize (writerOf sel s) = ns"
  shows "placed sel N (putRecs sel n d recs s)" "writerOf sel' (putRecs sel n d recs s) = writerOf sel' s"
    "unat m < N \<Longrightarrow> m \<noteq> n \<Longrightarrow> cell sel m (putRecs sel n d recs s) = cell sel m s"
    "unat m < N \<Longrightarrow> nodeAt sel (putRecs sel n d recs s) m
       = (if m = n then Inr \<lparr>desc = d\<lparr>NumRecords := of_nat (length recs)\<rparr>, records = recs\<rparr> else nodeAt sel s m)"
proof -
  have l: "length (packed ns d recs) = nodeSize (writerOf sel s)" using length_packNode [OF assms(3)] assms(5) by (simp add: packed_def)
  show "placed sel N (putRecs sel n d recs s)" "writerOf sel' (putRecs sel n d recs s) = writerOf sel' s"
    using assms l by (simp_all add: putRecs_def)
  show "cell sel m (putRecs sel n d recs s) = cell sel m s" if "unat m < N" "m \<noteq> n"
    using cell_upd [OF assms(1,2) that(1) l] that(2) assms(5) by (simp add: putRecs_def)
  show "nodeAt sel (putRecs sel n d recs s) m
       = (if m = n then Inr \<lparr>desc = d\<lparr>NumRecords := of_nat (length recs)\<rparr>, records = recs\<rparr> else nodeAt sel s m)"
    if "unat m < N"
    using cell_upd [OF assms(1,2) that l] assms node_roundtrip [OF assms(3,4), of d]
    by (simp add: nodeAt_def putRecs_def packed_def)
qed

section \<open>Edits\<close>

text \<open>What the operations on one tree change of a state: bytes of the image, and the root and the ends of
  the leaf chain in the cached header of that tree.\<close>

definition harmless :: "(btHeader \<Rightarrow> btHeader) \<Rightarrow> bool" where
  "harmless f \<longleftrightarrow> (\<forall>h. NodeSize (f h) = NodeSize h \<and> KeyCompare (f h) = KeyCompare h \<and> btAttributes (f h) = btAttributes h)"

text \<open>The bytes of the image that belong to some node of the tree.\<close>

definition inNode :: "treeSel \<Rightarrow> wst \<Rightarrow> nat \<Rightarrow> bool" where
  "inNode sel s i \<longleftrightarrow> (\<exists>n a. nodeAddr sel n s = Inr (Some a) \<and> a \<le> i \<and> i < a + nodeSize (writerOf sel s))"

text \<open>The bytes of the header node that no insertion changes: its descriptor, the node size, and the
  header record from the clump size on.\<close>

definition fixedByte :: "nat \<Rightarrow> bool" where
  "fixedByte k \<longleftrightarrow> k < 14 \<or> 32 \<le> k \<and> k < 36 \<or> 44 \<le> k \<and> k < 120"

definition sameOutside :: "treeSel \<Rightarrow> wst \<Rightarrow> bytes \<Rightarrow> bool" where
  "sameOutside sel s d \<longleftrightarrow> length d = length (disk (wvol s))
     \<and> (\<forall>i < length d. \<not> inNode sel s i \<longrightarrow> d ! i = disk (wvol s) ! i)
     \<and> (\<forall>k. fixedByte k \<longrightarrow> d ! (addr sel 0 s + k) = disk (wvol s) ! (addr sel 0 s + k))"

definition editOf :: "treeSel \<Rightarrow> wst \<Rightarrow> wst \<Rightarrow> bool" where
  "editOf sel s s' \<longleftrightarrow> (\<exists>d f. sameOutside sel s d \<and> harmless f \<and> s' = cacheHeader sel f (setDisk d s))"

lemma cache_id: "cacheHeader sel (\<lambda>h. h) s = s"
  by (cases sel) (simp_all add: cacheHeader_def option.map_ident)

lemma inNode_cong:
  assumes "writerOf sel s' = writerOf sel s" "length (disk (wvol s')) = length (disk (wvol s))"
  shows "inNode sel s' i = inNode sel s i"
  unfolding inNode_def nodeAddr_cong [OF assms] assms(1) ..

lemma editOf_refl [simp]: "editOf sel s s"
  unfolding editOf_def
  by (rule exI [of _ "disk (wvol s)"], rule exI [of _ "\<lambda>h. h"])
    (simp add: harmless_def cache_id sameOutside_def, simp add: setDisk_def)

lemma editOf_trans [trans]:
  assumes "editOf sel s s'" "editOf sel s' s''"
  shows "editOf sel s s''"
proof -
  obtain d f where 1: "sameOutside sel s d" "harmless f" "s' = cacheHeader sel f (setDisk d s)"
    using assms(1) by (auto simp: editOf_def)
  obtain e g where 2: "sameOutside sel s' e" "harmless g" "s'' = cacheHeader sel g (setDisk e s')"
    using assms(2) by (auto simp: editOf_def)
  have "s'' = cacheHeader sel (\<lambda>h. g (f h)) (setDisk e s)"
    unfolding 1(3) 2(3) by (cases sel) (simp_all add: cacheHeader_def setDisk_def option.map_comp comp_def)
  moreover have "harmless (\<lambda>h. g (f h))" using 1 2 by (simp add: harmless_def)
  moreover have "sameOutside sel s e"
  proof -
    have l: "writerOf sel s' = writerOf sel s" "length (disk (wvol s')) = length (disk (wvol s))" using 1 by (simp_all add: sameOutside_def)
    show ?thesis using 1(1,3) 2(1) inNode_cong [OF l] addr_cong [OF l] by (simp add: sameOutside_def)
  qed
  ultimately show ?thesis unfolding editOf_def by blast
qed

lemma editOf_disk: "sameOutside sel s d \<Longrightarrow> editOf sel s (setDisk d s)"
  unfolding editOf_def by (rule exI [of _ d], rule exI [of _ "\<lambda>h. h"]) (simp add: harmless_def cache_id)

lemma editOf_cache: "harmless f \<Longrightarrow> editOf sel s (cacheHeader sel f s)"
  unfolding editOf_def by (rule exI [of _ "disk (wvol s)"], rule exI [of _ f]) (simp add: setDisk_def sameOutside_def)

lemma editOf_upd:
  assumes "placed sel N s" "unat n < N" "length b = nodeSize (writerOf sel s)" "120 \<le> nodeSize (writerOf sel s)"
    and "n = 0 \<Longrightarrow> \<forall>k. fixedByte k \<longrightarrow> b ! k = cell sel 0 s ! k"
  shows "editOf sel s (upd sel n b s)"
  unfolding upd_def
proof (rule editOf_disk)
  let ?a = "addr sel n s" and ?d = "disk (wvol s)"
  have inside: "?a + length b \<le> length ?d" using placed_inside [OF assms(1,2)] assms(3) by simp
  have "overwrite ?d ?a b ! i = ?d ! i" if i: "\<not> inNode sel s i" "i < length ?d" for i
  proof -
    have "\<not> (?a \<le> i \<and> i < ?a + length b)"
      using i(1) placed_addr [OF assms(1,2)] unfolding inNode_def assms(3) by blast
    then show ?thesis using inside i(2) by (auto simp: nth_overwrite)
  qed
  moreover have "overwrite ?d ?a b ! (addr sel 0 s + k) = ?d ! (addr sel 0 s + k)" if k: "fixedByte k" for k
  proof -
    have k': "k < nodeSize (writerOf sel s)" using k assms(4) by (auto simp: fixedByte_def)
    show ?thesis
    proof (cases "n = 0")
      case True
      then show ?thesis using k k' assms(3,5) inside by (simp add: nth_overwrite cell_def gslice_def)
    next
      case False
      have "unat (0 :: u32) < N" using assms(2) by simp
      then show ?thesis using placed_apart [OF assms(1,2) _ False] k' inside assms(3) placed_inside [OF assms(1), of 0] by (auto simp: nth_overwrite)
    qed
  qed
  ultimately show "sameOutside sel s (overwrite ?d ?a b)" using inside by (simp add: sameOutside_def)
qed

text \<open>What lies outside the nodes stays.\<close>

lemma editOf_outside:
  assumes "editOf sel s s'" "\<forall>i. lo \<le> i \<longrightarrow> i < hi \<longrightarrow> \<not> inNode sel s i" "hi \<le> length (disk (wvol s))"
  shows "gslice (disk (wvol s')) lo hi = gslice (disk (wvol s)) lo hi"
proof -
  obtain d f where e: "sameOutside sel s d" "s' = cacheHeader sel f (setDisk d s)" using assms(1) by (auto simp: editOf_def)
  have "gslice d lo hi = gslice (disk (wvol s)) lo hi"
    using e(1) assms(2,3) by (intro nth_equalityI) (auto simp: sameOutside_def gslice_def)
  then show ?thesis by (simp add: e(2))
qed

lemma editOf_length: "editOf sel s s' \<Longrightarrow> length (disk (wvol s')) = length (disk (wvol s))"
  by (auto simp: editOf_def sameOutside_def)

lemma editOf_writer: "editOf sel s s' \<Longrightarrow> writerOf sel' s' = writerOf sel' s"
  by (auto simp: editOf_def)

lemma editOf_compare: "editOf sel s s' \<Longrightarrow> compareRecords sel s' = compareRecords sel s"
  by (intro ext, cases sel)
    (auto simp: editOf_def compareRecords_def cacheHeader_def setDisk_def harmless_def compareCatalogKey_def
      split: option.split)

section \<open>The root\<close>

definition treeOf :: "treeSel \<Rightarrow> wst \<Rightarrow> btree option" where
  "treeOf sel s = (case sel of forkExtentsFile \<Rightarrow> extentsTree (wvol s) | forkCatalogFile \<Rightarrow> Some (catalogTree (wvol s)))"

definition rootField :: "treeSel \<Rightarrow> wst \<Rightarrow> u32" where
  "rootField sel s = be32 (cell sel 0 s) 16"

definition countField :: "treeSel \<Rightarrow> wst \<Rightarrow> u32" where
  "countField sel s = be32 (cell sel 0 s) 20"

text \<open>The root in the header node and in the cached header.\<close>

definition rooted :: "treeSel \<Rightarrow> u32 \<Rightarrow> wst \<Rightarrow> bool" where
  "rooted sel n s \<longleftrightarrow> rootField sel s = n \<and> (\<forall>t. treeOf sel s = Some t \<longrightarrow> RootNode (theader t) = n)"

lemma treeOf_simps [simp]:
  "treeOf sel (setDisk d s) = treeOf sel s" "treeOf sel (upd sel' n b s) = treeOf sel s"
  "treeOf sel (cacheHeader sel f s) = map_option (\<lambda>t. t\<lparr>theader := f (theader t)\<rparr>) (treeOf sel s)"
  by (cases sel; simp add: treeOf_def setDisk_def upd_def cacheHeader_def)+

section \<open>A source of free nodes\<close>

text \<open>
  What tree algorithms rely on: a list of free node numbers from which \<^verbatim>\<open>allocNode\<close> takes the first, that
  no edit of another node and of the fields of the header record changes.
\<close>

locale node_pool =
  fixes sel :: treeSel and N :: nat and ns :: nat and al :: "(wst, u32) op"
    and spare :: "wst \<Rightarrow> u32 list" and good :: "wst \<Rightarrow> bool"
  assumes node_size: "good s \<Longrightarrow> 512 \<le> ns" "good s \<Longrightarrow> ns < 2 ^ 16" and some_nodes: "good s \<Longrightarrow> 0 < N"
    and good_placed: "good s \<Longrightarrow> placed sel N s" and good_size: "good s \<Longrightarrow> nodeSize (writerOf sel s) = ns"
    and good_spare: "good s \<Longrightarrow> distinct (spare s) \<and> 0 \<notin> set (spare s) \<and> (\<forall>n \<in> set (spare s). unat n < N)"
    and good_put: "good s \<Longrightarrow> unat n < N \<Longrightarrow> n \<noteq> 0 \<Longrightarrow> length b = ns \<Longrightarrow>
      good (upd sel n b s) \<and> spare (upd sel n b s) = spare s"
    and good_hdr: "good s \<Longrightarrow> off + length xs \<le> 18 \<Longrightarrow>
      good (upd sel 0 (overwrite (cell sel 0 s) (14 + off) xs) s)
      \<and> spare (upd sel 0 (overwrite (cell sel 0 s) (14 + off) xs) s) = spare s"
    and good_cache: "good s \<Longrightarrow> good (cacheHeader sel f s) \<and> spare (cacheHeader sel f s) = spare s"
    and alloc: "good s \<Longrightarrow> spare s = n # fresh \<Longrightarrow>
      \<exists>d. editOf sel s (setDisk d s) \<and> al s = (Inr n, setDisk d s) \<and> good (setDisk d s)
        \<and> spare (setDisk d s) = fresh
        \<and> (\<forall>m. unat m < N \<longrightarrow> m \<noteq> 0 \<longrightarrow> m \<noteq> n \<longrightarrow> cell sel m (setDisk d s) = cell sel m s)
        \<and> gslice (cell sel 0 (setDisk d s)) 14 32 = gslice (cell sel 0 s) 14 32"

end
