(* ===== verification/TreeInsert.thy ===== *)
theory TreeInsert
  imports TreeOrder "HOL-Library.Multiset" "HOL-Library.Sublist"
begin

text \<open>
  Insertion into a search tree as a function on trees, by recursion: the reference for the loops of
  \<^verbatim>\<open>btops.go\<close>, which walk down collecting a path and then propagate splits up the path. New nodes take
  their numbers from a list. \<open>None\<close> is the failure of a split whose halves do not fit into a node:
  nodes are cut in the middle by the count of their records, not by their size.
\<close>

section \<open>Insertion\<close>

text \<open>What became of a node: it took the record, or it was cut in two and the right part has the given key.\<close>

datatype grown = Fit tnode | Cut tnode bytes tnode

definition leafPut :: "nat \<Rightarrow> u32 \<Rightarrow> bytes list \<Rightarrow> u32 list \<Rightarrow> (grown \<times> u32 list) option" where
  "leafPut ns n rs fresh =
     (let mid = length rs div 2; as = take mid rs; bs = drop mid rs
      in if recordsFit ns rs then Some (Fit (TLeaf n rs), fresh)
         else case fresh of
                [] \<Rightarrow> None
              | r # fresh' \<Rightarrow>
                  if recordsFit ns as \<and> recordsFit ns bs
                  then Some (Cut (TLeaf n as) (keyBytesOf (hd bs)) (TLeaf r bs), fresh') else None)"

definition indexPut :: "nat \<Rightarrow> u32 \<Rightarrow> (bytes \<times> tnode) list \<Rightarrow> u32 list \<Rightarrow> (grown \<times> u32 list) option" where
  "indexPut ns n cs fresh =
     (let mid = length cs div 2; as = take mid cs; bs = drop mid cs
      in if recordsFit ns (map fst cs) then Some (Fit (TIndex n cs), fresh)
         else case fresh of
                [] \<Rightarrow> None
              | r # fresh' \<Rightarrow>
                  if recordsFit ns (map fst as) \<and> recordsFit ns (map fst bs)
                  then Some (Cut (TIndex n as) (keyBytesOf (fst (hd bs))) (TIndex r bs), fresh') else None)"

lemma size_child: "i < length cs \<Longrightarrow> size (snd (cs ! i)) < size (TIndex n cs)"
proof (induction cs arbitrary: i)
  case (Cons c cs)
  show ?case
  proof (cases i)
    case 0
    then show ?thesis by (cases c) simp
  next
    case (Suc j)
    then have "size (snd (cs ! j)) < size (TIndex n cs)" using Cons by simp
    then show ?thesis using Suc by simp
  qed
qed simp

text \<open>\<open>i\<close> is the child that \<^verbatim>\<open>descend\<close> chooses; the right part of a cut child goes behind it.\<close>

function tinsert :: "nat \<Rightarrow> (bytes \<Rightarrow> bytes \<Rightarrow> int) \<Rightarrow> bytes \<Rightarrow> tnode \<Rightarrow> u32 list \<Rightarrow> (grown \<times> u32 list) option" where
  "tinsert ns cmp rec (TLeaf n rs) fresh = leafPut ns n (insertSorted cmp rs rec) fresh"
| "tinsert ns cmp rec (TIndex n cs) fresh =
     (let i = chooseIdx (\<lambda>r. cmp r rec) (map fst cs)
      in if i < length cs then
           case tinsert ns cmp rec (snd (cs ! i)) fresh of
             None \<Rightarrow> None
           | Some (Fit t, fresh') \<Rightarrow> Some (Fit (TIndex n (cs[i := (fst (cs ! i), t)])), fresh')
           | Some (Cut l k r, fresh') \<Rightarrow>
               indexPut ns n (take i cs @ (fst (cs ! i), l) # (indexRecordFor k (nodeNum r), r) # drop (i + 1) cs) fresh'
         else None)"
  by pat_completeness auto
termination
  by (relation "measure (\<lambda>(_, _, _, t, _). size t)") (auto simp del: tnode.size intro: size_child)

text \<open>The whole tree: a root that was cut gets a new root above it.\<close>

definition firstRec :: "tnode \<Rightarrow> bytes" where
  "firstRec t = (case t of TLeaf n rs \<Rightarrow> hd rs | TIndex n cs \<Rightarrow> fst (hd cs))"

definition newRoot :: "u32 \<Rightarrow> tnode \<Rightarrow> bytes \<Rightarrow> tnode \<Rightarrow> tnode" where
  "newRoot m l k r = TIndex m [(indexRecordFor (keyBytesOf (firstRec l)) (nodeNum l), l), (indexRecordFor k (nodeNum r), r)]"

definition rootInsert :: "nat \<Rightarrow> (bytes \<Rightarrow> bytes \<Rightarrow> int) \<Rightarrow> bytes \<Rightarrow> tnode \<Rightarrow> u32 list \<Rightarrow> (tnode \<times> u32 list) option" where
  "rootInsert ns cmp rec t fresh =
     (case tinsert ns cmp rec t fresh of
        None \<Rightarrow> None
      | Some (Fit t', fresh') \<Rightarrow> Some (t', fresh')
      | Some (Cut l k r, fresh') \<Rightarrow>
          (case fresh' of
             [] \<Rightarrow> None
           | m # fresh'' \<Rightarrow>
               let t' = newRoot m l k r
               in if recordsFit ns [indexRecordFor (keyBytesOf (firstRec l)) (nodeNum l), indexRecordFor k (nodeNum r)]
                  then Some (t', fresh'') else None))"

section \<open>The numbers of the nodes\<close>

fun numsOf :: "tnode \<Rightarrow> u32 list" where
  "numsOf (TLeaf n rs) = [n]"
| "numsOf (TIndex n cs) = n # concat (map (\<lambda>p. numsOf (snd p)) cs)"

fun grownNums :: "grown \<Rightarrow> u32 multiset" where
  "grownNums (Fit t) = mset (numsOf t)"
| "grownNums (Cut l k r) = mset (numsOf l) + mset (numsOf r)"

fun grownRecs :: "grown \<Rightarrow> bytes list" where
  "grownRecs (Fit t) = treeRecs t"
| "grownRecs (Cut l k r) = treeRecs l @ treeRecs r"

lemma concat_halves: "concat (map f (take k cs)) @ concat (map f (drop k cs)) = concat (map f cs)"
  by (simp flip: concat_append map_append)

lemma leafPut_parts:
  assumes "leafPut ns n rs fresh = Some (g, fresh')"
  shows "grownNums g + mset fresh' = add_mset n (mset fresh)" "grownRecs g = rs"
  using assms by (auto simp: leafPut_def Let_def split: if_splits list.splits)

lemma indexPut_parts:
  assumes "indexPut ns n cs fresh = Some (g, fresh')"
  shows "grownNums g + mset fresh' = add_mset n (mset (concat (map (\<lambda>p. numsOf (snd p)) cs)) + mset fresh)"
    "grownRecs g = concat (map (\<lambda>p. treeRecs (snd p)) cs)"
proof -
  let ?m = "length cs div 2"
  have "mset (concat (map (\<lambda>p. numsOf (snd p)) cs))
      = mset (concat (map (\<lambda>p. numsOf (snd p)) (take ?m cs))) + mset (concat (map (\<lambda>p. numsOf (snd p)) (drop ?m cs)))"
    by (metis concat_halves mset_append)
  then show "grownNums g + mset fresh' = add_mset n (mset (concat (map (\<lambda>p. numsOf (snd p)) cs)) + mset fresh)"
    using assms by (auto simp: indexPut_def Let_def split: if_splits list.splits)
  show "grownRecs g = concat (map (\<lambda>p. treeRecs (snd p)) cs)"
    using assms by (auto simp: indexPut_def Let_def concat_halves split: if_splits list.splits)
qed

lemma split_nth: "i < length cs \<Longrightarrow> cs = take i cs @ (cs ! i) # drop (i + 1) cs"
  by (simp add: id_take_nth_drop)

lemma tinsert_nums:
  "tinsert ns cmp rec t fresh = Some (g, fresh') \<Longrightarrow> grownNums g + mset fresh' = mset (numsOf t) + mset fresh"
proof (induction t arbitrary: g fresh' rule: tnode_induct)
  case (TLeaf n rs)
  then show ?case using leafPut_parts(1) by simp
next
  case (TIndex n cs)
  define i where "i = chooseIdx (\<lambda>r. cmp r rec) (map fst cs)"
  from TIndex.prems have i: "i < length cs" by (auto simp: i_def Let_def split: if_splits)
  with TIndex.prems obtain h f where h: "tinsert ns cmp rec (snd (cs ! i)) fresh = Some (h, f)"
    by (auto simp: i_def [symmetric] split: option.splits)
  have "mset (concat (map (\<lambda>p. numsOf (snd p)) cs)) = mset (numsOf (snd (cs ! i)))
      + mset (concat (map (\<lambda>p. numsOf (snd p)) (take i cs @ drop (i + 1) cs)))"
    by (subst split_nth [OF i]) simp
  moreover have "grownNums h + mset f = mset (numsOf (snd (cs ! i))) + mset fresh"
    using TIndex.IH [OF nth_mem [OF i] h] .
  ultimately show ?case
    using TIndex.prems i h indexPut_parts(1)
    by (cases h) (auto simp: i_def [symmetric] upd_conv_take_nth_drop add.assoc)
qed

lemma tinsert_index:
  assumes "cs = xs @ p # ys" "chooseIdx (\<lambda>r. cmp r rec) (map fst cs) = length xs"
  shows "tinsert ns cmp rec (TIndex n cs) fresh =
    (case tinsert ns cmp rec (snd p) fresh of
       None \<Rightarrow> None
     | Some (Fit t, fresh') \<Rightarrow> Some (Fit (TIndex n (xs @ (fst p, t) # ys)), fresh')
     | Some (Cut l k r, fresh') \<Rightarrow>
         indexPut ns n (xs @ (fst p, l) # (indexRecordFor k (nodeNum r), r) # ys) fresh')"
  using assms by (simp split: option.split grown.split prod.split)

text \<open>The way down.\<close>

function pathOf :: "(bytes \<Rightarrow> int) \<Rightarrow> tnode \<Rightarrow> u32 list" where
  "pathOf c (TLeaf n rs) = [n]"
| "pathOf c (TIndex n cs) =
     (let i = chooseIdx c (map fst cs) in if i < length cs then n # pathOf c (snd (cs ! i)) else [n])"
  by pat_completeness auto
termination by (relation "measure (\<lambda>(_, t). size t)") (auto simp del: tnode.size intro: size_child)

lemma pathOf_nonempty [simp]: "pathOf c t \<noteq> []"
  by (cases t) (simp_all add: Let_def)

lemma pathOf_index:
  "cs = xs @ p # ys \<Longrightarrow> chooseIdx c (map fst cs) = length xs \<Longrightarrow> pathOf c (TIndex n cs) = n # pathOf c (snd p)"
  by (simp add: Let_def)

text \<open>Each level takes at most one new node, and a node keeps its number and its first leaf.\<close>

fun grownLeaves :: "grown \<Rightarrow> (u32 \<times> bytes list) list" where
  "grownLeaves (Fit t) = leavesOf t"
| "grownLeaves (Cut l k r) = leavesOf l @ leavesOf r"

fun grownNum :: "grown \<Rightarrow> u32" where
  "grownNum (Fit t) = nodeNum t"
| "grownNum (Cut l k r) = nodeNum l"

fun grownHeight :: "grown \<Rightarrow> nat" where
  "grownHeight (Fit t) = treeHeight t"
| "grownHeight (Cut l k r) = max (treeHeight l) (treeHeight r)"

lemma leavesOf_nonempty: "ordered keyOf cmp lo hi t \<Longrightarrow> leavesOf t \<noteq> []"
proof (induction t arbitrary: lo hi rule: tnode_induct)
  case (TIndex n cs)
  then obtain p ps where cs: "cs = p # ps" by (cases cs) auto
  then show ?case using TIndex.IH [of p] TIndex.prems by auto
qed simp

lemma foldr_max_le: "foldr max xs (0::nat) \<le> h \<longleftrightarrow> (\<forall>x \<in> set xs. x \<le> h)"
  by (induction xs) auto

lemma treeHeight_le: "treeHeight (TIndex n cs) \<le> Suc h \<longleftrightarrow> (\<forall>p \<in> set cs. treeHeight (snd p) \<le> h)"
  by (simp add: foldr_max_le)

lemma leafPut_shape:
  assumes "leafPut ns n rs fresh = Some (g, fresh')"
  shows "length fresh \<le> Suc (length fresh')" "grownNum g = n" "firstNum (grownLeaves g) = n" "grownHeight g \<le> 1"
  using assms by (auto simp: leafPut_def Let_def split: if_splits list.splits)

lemma indexPut_leaves:
  "indexPut ns n cs fresh = Some (g, fresh') \<Longrightarrow> grownLeaves g = concat (map (\<lambda>p. leavesOf (snd p)) cs)"
  by (auto simp: indexPut_def Let_def concat_halves split: if_splits list.splits)

lemma indexPut_shape:
  assumes "indexPut ns n cs fresh = Some (g, fresh')" "\<forall>p \<in> set cs. treeHeight (snd p) \<le> h"
  shows "length fresh \<le> Suc (length fresh')" "grownNum g = n" "grownHeight g \<le> Suc h"
proof -
  have lim: "x \<le> h" if "x \<in> (\<lambda>p. treeHeight (snd p)) ` (set (take k cs) \<union> set (drop k cs))" for x k
    using assms(2) that by (auto dest: in_set_takeD in_set_dropD)
  show "length fresh \<le> Suc (length fresh')" "grownNum g = n" "grownHeight g \<le> Suc h"
    using assms by (auto simp: indexPut_def Let_def foldr_max_le image_iff split: if_splits list.splits
        intro!: lim)
qed

lemma tinsert_shape:
  assumes "tinsert ns cmp rec t fresh = Some (g, fresh')"
  shows "length fresh \<le> length fresh' + treeHeight t \<and> grownNum g = nodeNum t \<and> grownHeight g \<le> treeHeight t"
  using assms
proof (induction t arbitrary: g fresh' rule: tnode_induct)
  case (TLeaf n rs)
  then show ?case using leafPut_shape [of ns n _ fresh g fresh'] by simp
next
  case (TIndex n cs)
  define i where "i = chooseIdx (\<lambda>r. cmp r rec) (map fst cs)"
  define h where "h = treeHeight (TIndex n cs) - 1"
  have h: "treeHeight (TIndex n cs) = Suc h" by (simp add: h_def)
  then have all: "\<forall>p \<in> set cs. treeHeight (snd p) \<le> h" by (metis order_refl treeHeight_le)
  from TIndex.prems have i: "i < length cs" by (auto simp: i_def Let_def split: if_splits)
  with TIndex.prems obtain c f where c: "tinsert ns cmp rec (snd (cs ! i)) fresh = Some (c, f)"
    by (auto simp: i_def [symmetric] split: option.splits)
  have ih: "length fresh \<le> length f + treeHeight (snd (cs ! i))" "grownHeight c \<le> treeHeight (snd (cs ! i))"
    using TIndex.IH [OF nth_mem [OF i] c] by auto
  moreover have hi: "treeHeight (snd (cs ! i)) \<le> h" using all i by simp
  ultimately have lim: "length fresh \<le> length f + h" "grownHeight c \<le> h" by auto
  show ?case
  proof (cases c)
    case (Fit u)
    then have "g = Fit (TIndex n (cs[i := (fst (cs ! i), u)]))" "fresh' = f"
      using TIndex.prems i c by (simp_all add: i_def [symmetric])
    moreover have "treeHeight (TIndex n (cs[i := (fst (cs ! i), u)])) \<le> Suc h"
      unfolding treeHeight_le using all lim Fit by (auto dest!: set_update_subset_insert [THEN subsetD])
    ultimately show ?thesis using lim unfolding h by simp
  next
    case (Cut l k r)
    let ?cs = "take i cs @ (fst (cs ! i), l) # (indexRecordFor k (nodeNum r), r) # drop (i + 1) cs"
    have put: "indexPut ns n ?cs f = Some (g, fresh')" using TIndex.prems i c Cut by (simp add: i_def [symmetric])
    have "\<forall>p \<in> set ?cs. treeHeight (snd p) \<le> h" using all lim Cut by (auto dest: in_set_takeD in_set_dropD)
    from indexPut_shape [OF put this] show ?thesis using lim unfolding h by simp
  qed
qed

lemma tinsert_suffix: "tinsert ns cmp rec t fresh = Some (g, fresh') \<Longrightarrow> suffix fresh' fresh"
proof (induction t arbitrary: g fresh' rule: tnode_induct)
  case (TLeaf n rs)
  then show ?case by (auto simp: leafPut_def Let_def suffix_ConsI split: if_splits list.splits)
next
  case (TIndex n cs)
  define i where "i = chooseIdx (\<lambda>r. cmp r rec) (map fst cs)"
  from TIndex.prems have i: "i < length cs" by (auto simp: i_def Let_def split: if_splits)
  with TIndex.prems obtain c f where c: "tinsert ns cmp rec (snd (cs ! i)) fresh = Some (c, f)"
    by (auto simp: i_def [symmetric] split: option.splits)
  have "suffix f fresh" using TIndex.IH [OF nth_mem [OF i] c] .
  moreover have "suffix fresh' f"
    using TIndex.prems i c by (cases c) (auto simp: i_def [symmetric] indexPut_def Let_def suffix_ConsI split: if_splits list.splits)
  ultimately show ?case using suffix_order.trans by blast
qed

section \<open>Correctness\<close>

text \<open>Index records carry the key they were made from.\<close>

locale tree_keys = search_tree cmp keyOf for cmp :: "'k \<Rightarrow> 'k \<Rightarrow> int" and keyOf :: "bytes \<Rightarrow> 'k option" +
  assumes key_index: "keyOf r = Some k \<Longrightarrow> keyOf (indexRecordFor (keyBytesOf r) c) = Some k"
    and child_index: "keyOf r = Some k \<Longrightarrow> indexChild (indexRecordFor (keyBytesOf r) c) = Some c"

text \<open>The least key that a search in the tree finds its way to.\<close>

definition rootLow :: "(bytes \<Rightarrow> 'k option) \<Rightarrow> tnode \<Rightarrow> 'k option" where
  "rootLow keyOf t = (case t of TLeaf n rs \<Rightarrow> None | TIndex n cs \<Rightarrow> keyOf (fst (hd cs)))"

lemma tinsert_rootLow:
  assumes "tinsert ns c rec t fresh = Some (Fit u, fresh')" "ordered keyOf cmp (rootLow keyOf t) hi u"
    and "rootLow keyOf t = None \<Longrightarrow> \<exists>n rs. t = TLeaf n rs"
  shows "rootLow keyOf u = rootLow keyOf t"
proof (cases t)
  case (TLeaf n rs)
  then have "\<exists>rs'. u = TLeaf n rs'"
    using assms(1) by (auto simp: leafPut_def Let_def split: if_splits list.splits)
  then show ?thesis using TLeaf by (auto simp: rootLow_def)
next
  case (TIndex n cs)
  then obtain cs' where "u = TIndex n cs'"
    using assms(1) by (auto simp: indexPut_def Let_def split: if_splits list.splits option.splits grown.splits)
  then show ?thesis using assms(2,3) TIndex by (auto simp: rootLow_def)
qed

fun grownOrdered :: "(bytes \<Rightarrow> 'k option) \<Rightarrow> ('k \<Rightarrow> 'k \<Rightarrow> int) \<Rightarrow> 'k option \<Rightarrow> 'k option \<Rightarrow> grown \<Rightarrow> bool" where
  "grownOrdered keyOf cmp lo hi (Fit t) = ordered keyOf cmp lo hi t"
| "grownOrdered keyOf cmp lo hi (Cut l k r) =
     (let ir = indexRecordFor k (nodeNum r)
      in indexChild ir = Some (nodeNum r) \<and> keyOf ir \<noteq> None \<and> recIn keyOf cmp lo hi ir
         \<and> ordered keyOf cmp lo (keyOf ir) l \<and> ordered keyOf cmp (keyOf ir) hi r)"

definition inserted :: "'a \<Rightarrow> 'a list \<Rightarrow> 'a list \<Rightarrow> bool" where
  "inserted x xs ys \<longleftrightarrow> (\<exists>as bs. xs = as @ bs \<and> ys = as @ x # bs)"

lemma inserted_context: "inserted x xs ys \<Longrightarrow> inserted x (as @ xs @ bs) (as @ ys @ bs)"
proof -
  assume "inserted x xs ys"
  then obtain us vs where "xs = us @ vs" "ys = us @ x # vs" by (auto simp: inserted_def)
  then have "as @ xs @ bs = (as @ us) @ vs @ bs \<and> as @ ys @ bs = (as @ us) @ x # vs @ bs" by simp
  then show ?thesis unfolding inserted_def by blast
qed

context tree_keys
begin

lemma recIn_index: "recIn keyOf cmp lo hi r \<Longrightarrow> recIn keyOf cmp lo hi (indexRecordFor (keyBytesOf r) c)"
  by (auto simp: recIn_def key_index)

lemma key_index_eq: "keyOf r \<noteq> None \<Longrightarrow> keyOf (indexRecordFor (keyBytesOf r) c) = keyOf r"
  by (auto simp: key_index)

lemma leafPut_ordered:
  assumes "ordered keyOf cmp lo hi (TLeaf n rs)" "leafPut ns n rs fresh = Some (g, fresh')"
  shows "grownOrdered keyOf cmp lo hi g"
proof (cases "recordsFit ns rs")
  case True
  then show ?thesis using assms by (auto simp: leafPut_def)
next
  case False
  define as bs where "as = take (length rs div 2) rs" and "bs = drop (length rs div 2) rs"
  obtain r where g: "g = Cut (TLeaf n as) (keyBytesOf (hd bs)) (TLeaf r bs)" and fit: "recordsFit ns bs"
    using assms(2) False by (auto simp: leafPut_def Let_def as_def bs_def split: list.splits if_splits)
  have rs: "rs = as @ bs" by (simp add: as_def bs_def)
  then have "as \<noteq> []" using False fit by auto
  moreover from this have "bs \<noteq> []" by (auto simp: as_def bs_def)
  ultimately have cut: "ordered keyOf cmp lo (keyOf (hd bs)) (TLeaf n as)"
    "ordered keyOf cmp (keyOf (hd bs)) hi (TLeaf r bs)" "recIn keyOf cmp lo hi (hd bs)"
    using leaf_cut [of lo hi n as bs] assms(1) rs by auto
  then obtain k where k: "keyOf (hd bs) = Some k" by (auto simp: recIn_def)
  show ?thesis
    using cut k recIn_index [OF cut(3)] child_index [OF k] key_index [OF k] unfolding g by (simp add: Let_def)
qed

lemma indexPut_ordered:
  assumes "ordered keyOf cmp lo hi (TIndex n cs)" "indexPut ns n cs fresh = Some (g, fresh')"
  shows "grownOrdered keyOf cmp lo hi g"
proof (cases "recordsFit ns (map fst cs)")
  case True
  then show ?thesis using assms by (auto simp: indexPut_def)
next
  case False
  define as bs where "as = take (length cs div 2) cs" and "bs = drop (length cs div 2) cs"
  obtain r where g: "g = Cut (TIndex n as) (keyBytesOf (fst (hd bs))) (TIndex r bs)" and fit: "recordsFit ns (map fst bs)"
    using assms(2) False by (auto simp: indexPut_def Let_def as_def bs_def split: list.splits if_splits)
  have cs: "cs = as @ bs" by (simp add: as_def bs_def)
  then have as: "as \<noteq> []" using False fit by auto
  moreover from this have bs: "bs \<noteq> []" by (auto simp: as_def bs_def)
  ultimately have cut: "orderedList keyOf cmp lo (keyOf (fst (hd bs))) as" "orderedList keyOf cmp (keyOf (fst (hd bs))) hi bs"
    "recIn keyOf cmp lo hi (fst (hd bs))"
    using index_cut [of lo hi as bs] assms(1) cs by auto
  then obtain k where k: "keyOf (fst (hd bs)) = Some k" by (auto simp: recIn_def)
  have "lo = None \<or> keyOf (fst (hd as)) = lo" using assms(1) cs as by auto
  then show ?thesis
    using cut k recIn_index [OF cut(3)] child_index [OF k] key_index [OF k] as bs unfolding g by (simp add: Let_def)
qed

lemma tinsert_ordered:
  assumes "ordered keyOf cmp lo hi t" "recIn keyOf cmp lo hi rec" "\<forall>r \<in> set (treeRecs t). recCmp keyOf cmp r rec \<noteq> 0"
    and "lo = None \<Longrightarrow> \<exists>n rs. t = TLeaf n rs" "tinsert ns (recCmp keyOf cmp) rec t fresh = Some (g, fresh')"
  shows "grownOrdered keyOf cmp lo hi g \<and> inserted rec (treeRecs t) (grownRecs g)"
  using assms
proof (induction t arbitrary: lo hi g fresh' rule: tnode_induct)
  case (TLeaf n rs)
  obtain xs ys where s: "rs = xs @ ys" "insertSorted (recCmp keyOf cmp) rs rec = xs @ rec # ys"
    "ordered keyOf cmp lo hi (TLeaf n (xs @ rec # ys))"
    using leaf_insert [OF TLeaf.prems(1,2)] TLeaf.prems(3) by auto
  have p: "leafPut ns n (xs @ rec # ys) fresh = Some (g, fresh')" using TLeaf.prems(5) s(2) by simp
  show ?case using leafPut_ordered [OF s(3) p] leafPut_parts(2) [OF p] s(1) by (auto simp: inserted_def)
next
  case (TIndex n cs)
  have o: "orderedList keyOf cmp lo hi cs" "cs \<noteq> []" "lo \<noteq> None"
    using TIndex.prems(1,4) by auto
  then have hd: "keyOf (fst (hd cs)) = lo" using TIndex.prems(1) by auto
  obtain xs p ys where c: "cs = xs @ p # ys" "chooseIdx (\<lambda>r. recCmp keyOf cmp r rec) (map fst cs) = length xs"
    "recIn keyOf cmp (keyOf (fst p)) (nextKey keyOf hi ys) rec"
    using choose_child [OF o(1,2) TIndex.prems(2) hd] by blast
  have op: "ordered keyOf cmp (keyOf (fst p)) (nextKey keyOf hi ys) (snd p)" "keyOf (fst p) \<noteq> None"
    using o(1) c(1) by (auto simp: orderedList_append recIn_def)
  note step = TIndex.prems(5) [unfolded tinsert_index [where cmp = "recCmp keyOf cmp", OF c(1,2)]]
  then obtain h f where h: "tinsert ns (recCmp keyOf cmp) rec (snd p) fresh = Some (h, f)"
    by (auto split: option.splits)
  have ih: "grownOrdered keyOf cmp (keyOf (fst p)) (nextKey keyOf hi ys) h" "inserted rec (treeRecs (snd p)) (grownRecs h)"
    using TIndex.IH [of p, OF _ op(1) c(3) _ _ h] TIndex.prems(3) c(1) op(2) by auto
  have ins: "inserted rec (treeRecs (TIndex n cs))
      (concat (map (\<lambda>p. treeRecs (snd p)) xs) @ grownRecs h @ concat (map (\<lambda>p. treeRecs (snd p)) ys))"
    using inserted_context [OF ih(2)] c(1) by simp
  have first: "keyOf (fst (hd (xs @ (fst p, t) # zs))) = lo" for t zs using hd c(1) by (cases xs) auto
  show ?case
  proof (cases h)
    case (Fit t)
    then have "orderedList keyOf cmp lo hi (xs @ (fst p, t) # ys)" using child_replace [of lo hi xs p ys t] o(1) c(1) ih(1) by simp
    then show ?thesis using step h Fit ins first by auto
  next
    case (Cut l k r)
    let ?ir = "indexRecordFor k (nodeNum r)"
    obtain kr where "keyOf ?ir = Some kr" using ih(1) Cut by (auto simp: Let_def)
    then have "orderedList keyOf cmp lo hi (xs @ (fst p, l) # (?ir, r) # ys)"
      using child_split(1) [of lo hi xs p ys ?ir l r kr] o(1) c(1) ih(1) Cut by (simp add: Let_def)
    then have whole: "ordered keyOf cmp lo hi (TIndex n (xs @ (fst p, l) # (?ir, r) # ys))" using first by simp
    have put: "indexPut ns n (xs @ (fst p, l) # (?ir, r) # ys) f = Some (g, fresh')" using step h Cut by simp
    show ?thesis using indexPut_ordered [OF whole put] indexPut_parts(2) [OF put] ins Cut by simp
  qed
qed

lemma ordered_from_first:
  assumes "ordered keyOf cmp lo hi t"
  shows "ordered keyOf cmp (keyOf (firstRec t)) hi t" "recIn keyOf cmp lo hi (firstRec t)"
proof -
  show "recIn keyOf cmp lo hi (firstRec t)"
  proof (cases t)
    case (TIndex n cs)
    then show ?thesis using assms orderedList_first [of lo hi "hd cs" "tl cs"] by (simp add: firstRec_def)
  qed (use assms in \<open>simp add: firstRec_def\<close>)
  show "ordered keyOf cmp (keyOf (firstRec t)) hi t"
  proof (cases t)
    case (TLeaf n rs)
    then obtain r rs' where rs: "rs = r # rs'" using assms by (cases rs) auto
    then obtain k where k: "keyOf r = Some k" using assms TLeaf by (auto simp: recIn_def)
    have "recIn keyOf cmp (Some k) hi x" if "x \<in> set rs" for x
    proof -
      have "recIn keyOf cmp lo hi x" "x = r \<or> recCmp keyOf cmp r x < 0" using assms TLeaf rs that by auto
      then show ?thesis using k cmp_refl [of k] by (auto simp: recIn_def within_def recCmp_def)
    qed
    then show ?thesis using assms TLeaf rs k by (simp add: firstRec_def)
  next
    case (TIndex n cs)
    then show ?thesis using assms orderedList_from_first [of lo hi "hd cs" "tl cs"] by (simp add: firstRec_def)
  qed
qed

lemma newRoot_ordered:
  assumes "grownOrdered keyOf cmp lo hi (Cut l k r)"
  shows "ordered keyOf cmp (rootLow keyOf (newRoot m l k r)) hi (newRoot m l k r)"
    "indexChild (indexRecordFor (keyBytesOf (firstRec l)) (nodeNum l)) = Some (nodeNum l)"
proof -
  let ?ir = "indexRecordFor k (nodeNum r)" and ?i0 = "indexRecordFor (keyBytesOf (firstRec l)) (nodeNum l)"
  have l: "ordered keyOf cmp lo (keyOf ?ir) l" and r: "ordered keyOf cmp (keyOf ?ir) hi r" "recIn keyOf cmp lo hi ?ir"
    using assms by (simp_all add: Let_def)
  note f = ordered_from_first [OF l]
  obtain k0 where k0: "keyOf (firstRec l) = Some k0" using f(2) by (auto simp: recIn_def)
  then show "indexChild ?i0 = Some (nodeNum l)" by (rule child_index)
  have i0: "keyOf ?i0 = Some k0" using k0 by (rule key_index)
  obtain kr where kr: "keyOf ?ir = Some kr" using r(2) by (auto simp: recIn_def)
  have "within cmp (Some k0) (Some kr) k0" "within cmp (Some k0) hi kr"
    using f(2) k0 kr r(2) cmp_refl [of k0] by (auto simp: recIn_def within_def)
  then show "ordered keyOf cmp (rootLow keyOf (newRoot m l k r)) hi (newRoot m l k r)"
    using f(1) r(1) i0 k0 kr by (simp add: newRoot_def rootLow_def recIn_def)
qed

text \<open>The tree after an insertion is ordered and has the old records and the new one.\<close>

lemma rootInsert_ordered:
  assumes "ordered keyOf cmp (rootLow keyOf t) None t" "recIn keyOf cmp (rootLow keyOf t) None rec"
    and "\<forall>r \<in> set (treeRecs t). recCmp keyOf cmp r rec \<noteq> 0"
    and "rootInsert ns (recCmp keyOf cmp) rec t fresh = Some (t', fresh')"
  shows "ordered keyOf cmp (rootLow keyOf t') None t' \<and> inserted rec (treeRecs t) (treeRecs t')"
proof -
  let ?lo = "rootLow keyOf t"
  obtain g f where g: "tinsert ns (recCmp keyOf cmp) rec t fresh = Some (g, f)"
    using assms(4) by (auto simp: rootInsert_def split: option.splits)
  have low: "?lo = None \<Longrightarrow> \<exists>n rs. t = TLeaf n rs"
    using ordered_from_first(2) [OF assms(1)] by (cases t) (auto simp: rootLow_def firstRec_def recIn_def)
  have o: "grownOrdered keyOf cmp ?lo None g" "inserted rec (treeRecs t) (grownRecs g)"
    using tinsert_ordered [OF assms(1,2,3) low g] by auto
  show ?thesis
  proof (cases g)
    case (Fit u)
    then have u: "t' = u" using assms(4) g by (simp add: rootInsert_def)
    have "rootLow keyOf u = ?lo" using tinsert_rootLow [OF g [unfolded Fit] o(1) [unfolded Fit grownOrdered.simps]] low by blast
    then show ?thesis using o Fit u by simp
  next
    case (Cut l k r)
    then obtain m where "t' = newRoot m l k r"
      using assms(4) g by (auto simp: rootInsert_def Let_def split: list.splits if_splits)
    then show ?thesis using newRoot_ordered(1) [OF o(1) [unfolded Cut], of m] o(2) Cut by (simp add: newRoot_def)
  qed
qed

end

end
