(* ===== verification/TreeWrite.thy ===== *)
theory TreeWrite
  imports NodeStore TreeInsert
begin

text \<open>
  \<^verbatim>\<open>insert\<close> (\<^verbatim>\<open>btops.go\<close>) implements the insertion of \<open>TreeInsert\<close>: the descent, the split of the leaf
  and the splits up the path leave, in the nodes of the image, the tree that the recursive function
  returns. The node source is any \<open>node_pool\<close>, the keys are any \<open>tree_keys\<close>.
\<close>

section \<open>Steps on nodes\<close>

text \<open>Nothing outside \<open>M\<close> and the header node was touched.\<close>

definition touched :: "treeSel \<Rightarrow> nat \<Rightarrow> u32 set \<Rightarrow> wst \<Rightarrow> wst \<Rightarrow> bool" where
  "touched sel N M s s' \<longleftrightarrow>
     editOf sel s s' \<and> (\<forall>m. unat m < N \<longrightarrow> m \<noteq> 0 \<longrightarrow> m \<notin> M \<longrightarrow> nodeAt sel s' m = nodeAt sel s m)"

lemma touched_refl [simp]: "touched sel N M s s"
  by (simp add: touched_def)

lemma touched_trans [trans]:
  "touched sel N M s s' \<Longrightarrow> touched sel N M' s' s'' \<Longrightarrow> touched sel N (M \<union> M') s s''"
  using editOf_trans by (auto simp: touched_def)

lemma touched_mono: "touched sel N M s s' \<Longrightarrow> M \<subseteq> M' \<Longrightarrow> touched sel N M' s s'"
  by (auto simp: touched_def)

lemma touched_node: "touched sel N M s s' \<Longrightarrow> unat m < N \<Longrightarrow> m \<noteq> 0 \<Longrightarrow> m \<notin> M \<Longrightarrow> nodeAt sel s' m = nodeAt sel s m"
  by (simp add: touched_def)

text \<open>Both header fields, and the cached root.\<close>

definition sameRoot :: "treeSel \<Rightarrow> wst \<Rightarrow> wst \<Rightarrow> bool" where
  "sameRoot sel s s' \<longleftrightarrow> (\<forall>n. rooted sel n s \<longrightarrow> rooted sel n s')"

lemma sameRoot_trans [trans]: "sameRoot sel s s' \<Longrightarrow> sameRoot sel s' s'' \<Longrightarrow> sameRoot sel s s''"
  by (simp add: sameRoot_def)

lemma sameRoot_refl [simp]: "sameRoot sel s s"
  by (simp add: sameRoot_def)

lemma sameRootI:
  "rootField sel s' = rootField sel s \<Longrightarrow>
   (\<And>t'. treeOf sel s' = Some t' \<Longrightarrow> \<exists>t. treeOf sel s = Some t \<and> RootNode (theader t') = RootNode (theader t)) \<Longrightarrow>
   sameRoot sel s s'"
  by (fastforce simp: sameRoot_def rooted_def)

lemma sameRoot_same: "rootField sel s' = rootField sel s \<Longrightarrow> treeOf sel s' = treeOf sel s \<Longrightarrow> sameRoot sel s s'"
  by (simp add: sameRoot_def rooted_def)

lemma field_gslice:
  "gslice b 14 32 = gslice b' 14 32 \<Longrightarrow> 32 \<le> length b \<Longrightarrow> 32 \<le> length b' \<Longrightarrow> i + 4 \<le> 32 \<Longrightarrow> 14 \<le> i \<Longrightarrow>
   be32 b i = be32 b' i"
  using be32_gslice [of "i - 14" 32 14 b] be32_gslice [of "i - 14" 32 14 b'] by simp

text \<open>A step: success, with a state that is good again.\<close>

definition steps :: "(wst \<Rightarrow> bool) \<Rightarrow> treeSel \<Rightarrow> nat \<Rightarrow> u32 set \<Rightarrow> (wst, 'a) op \<Rightarrow> wst \<Rightarrow> 'a \<Rightarrow> wst \<Rightarrow> bool" where
  "steps good sel N M m s x s' \<longleftrightarrow> m s = (Inr x, s') \<and> good s' \<and> touched sel N M s s'"

lemma steps_bnd:
  "steps good sel N M m s x s1 \<Longrightarrow> steps good sel N M' (f x) s1 y s2 \<Longrightarrow> steps good sel N (M \<union> M') (bnd m f) s y s2"
  using touched_trans by (auto simp: steps_def bnd_def)

context node_pool
begin

lemma length_header: "good s \<Longrightarrow> length (cell sel 0 s) = ns"
  using length_cell [OF good_placed, of s 0] some_nodes [of s] good_size by simp

lemma alloc_step:
  assumes "good s" "spare s = n # fresh"
  obtains s' where "steps good sel N {n} al s n s'" "spare s' = fresh" "sameRoot sel s s'" "countField sel s' = countField sel s"
proof -
  obtain d where d: "editOf sel s (setDisk d s)" "al s = (Inr n, setDisk d s)" "good (setDisk d s)" "spare (setDisk d s) = fresh"
    "\<forall>m. unat m < N \<longrightarrow> m \<noteq> 0 \<longrightarrow> m \<noteq> n \<longrightarrow> cell sel m (setDisk d s) = cell sel m s"
    "gslice (cell sel 0 (setDisk d s)) 14 32 = gslice (cell sel 0 s) 14 32"
    using alloc [OF assms] by blast
  show thesis
  proof (rule that [of "setDisk d s"])
    show "steps good sel N {n} al s n (setDisk d s)"
      using d by (simp add: steps_def touched_def nodeAt_def)
    show "sameRoot sel s (setDisk d s)" "countField sel (setDisk d s) = countField sel s"
      using field_gslice [OF d(6)] length_header [OF assms(1)] length_header [OF d(3)] node_size [OF assms(1)]
      by (auto intro!: sameRoot_same simp: rootField_def countField_def)
  qed (rule d(4))
qed

lemma good_putRecs:
  assumes "good s" "unat n < N" "n \<noteq> 0" "recordsFit ns recs"
  shows "good (putRecs sel n d recs s)" "spare (putRecs sel n d recs s) = spare s"
    "touched sel N {n} s (putRecs sel n d recs s)"
    "nodeAt sel (putRecs sel n d recs s) n = Inr \<lparr>desc = d\<lparr>NumRecords := of_nat (length recs)\<rparr>, records = recs\<rparr>"
    "sameRoot sel s (putRecs sel n d recs s)" "countField sel (putRecs sel n d recs s) = countField sel s"
proof -
  have size: "nodeSize (writerOf sel s) = ns" using assms(1) by (rule good_size)
  have l: "length (packed ns d recs) = ns" using length_packNode [OF assms(4)] by (simp add: packed_def)
  note f = putRecs_facts [OF good_placed [OF assms(1)] assms(2,4) node_size(2) [OF assms(1)] size]
  have u: "putRecs sel n d recs s = upd sel n (packed ns d recs) s" by (simp add: putRecs_def size)
  show "good (putRecs sel n d recs s)" "spare (putRecs sel n d recs s) = spare s"
    unfolding u using good_put [OF assms(1,2,3) l] by auto
  have "editOf sel s (putRecs sel n d recs s)" unfolding u using editOf_upd [OF good_placed [OF assms(1)] assms(2)] l size node_size(1) [OF assms(1)] assms(3) by simp
  then show "touched sel N {n} s (putRecs sel n d recs s)" using f(4) by (simp add: touched_def)
  show "nodeAt sel (putRecs sel n d recs s) n = Inr \<lparr>desc = d\<lparr>NumRecords := of_nat (length recs)\<rparr>, records = recs\<rparr>"
    using f(4) [OF assms(2)] by simp
  have "cell sel 0 (putRecs sel n d recs s) = cell sel 0 s" using f(3) [of 0] assms(3) some_nodes [OF assms(1)] by simp
  then show "sameRoot sel s (putRecs sel n d recs s)" "countField sel (putRecs sel n d recs s) = countField sel s"
    by (auto intro!: sameRootI simp: rootField_def countField_def putRecs_def)
qed

lemma store_step:
  assumes "good s" "unat (num en) < N" "num en \<noteq> 0" "recordsFit ns (erecs en)"
  obtains s' where "steps good sel N {num en} (storeNode sel en) s () s'" "spare s' = spare s" "sameRoot sel s s'"
    "countField sel s' = countField sel s"
    "nodeAt sel s' (num en) = Inr \<lparr>desc = (edesc en)\<lparr>NumRecords := of_nat (length (erecs en))\<rparr>, records = erecs en\<rparr>"
  using good_putRecs [OF assms, of "edesc en"] that storeNode_cell [OF good_placed [OF assms(1)] assms(2)] good_size [OF assms(1)] assms(4)
  by (simp add: steps_def)

lemma load_node:
  "good s \<Longrightarrow> unat n < N \<Longrightarrow> nodeAt sel s n = Inr nd \<Longrightarrow>
   loadNode sel n s = (Inr \<lparr>num = n, edesc = desc nd, erecs = records nd\<rparr>, s)"
  using loadNode_cell good_placed by blast

text \<open>Edits of the header record.\<close>

lemma hdr_step:
  assumes "good s" "off + length xs \<le> 18"
  obtains s' where "steps good sel N {} (putHdr sel off xs) s () s'" "spare s' = spare s" "treeOf sel s' = treeOf sel s"
    "cell sel 0 s' = overwrite (cell sel 0 s) (14 + off) xs"
proof -
  let ?b = "overwrite (cell sel 0 s) (14 + off) xs"
  note p = good_placed [OF assms(1)]
  have 0: "unat (0::u32) < N" using some_nodes [OF assms(1)] by simp
  have l: "length ?b = nodeSize (writerOf sel s)" using assms node_size [OF assms(1)] length_cell [OF p 0] good_size [OF assms(1)] by simp
  have "nodeAt sel (upd sel 0 ?b s) m = nodeAt sel s m" if "unat m < N" "m \<noteq> 0" for m
    using cell_upd [OF p 0 that(1) l] that by (simp add: nodeAt_def)
  moreover have "?b ! k = cell sel 0 s ! k" if "fixedByte k" for k
    using that assms(2) length_cell [OF p 0] good_size [OF assms(1)] node_size(1) [OF assms(1)] by (auto simp: fixedByte_def nth_overwrite)
  then have "editOf sel s (upd sel 0 ?b s)" using editOf_upd [OF p 0 l] good_size [OF assms(1)] node_size(1) [OF assms(1)] by simp
  ultimately have "touched sel N {} s (upd sel 0 ?b s)" by (simp add: touched_def)
  then show thesis
    using that [of "upd sel 0 ?b s"] hdr_cell(3) [OF p some_nodes [OF assms(1)]] good_hdr [OF assms] cell_upd [OF p 0 0 l]
    by (simp add: steps_def)
qed

lemma cache_step:
  assumes "good s" "harmless f"
  shows "good (cacheHeader sel f s)" "spare (cacheHeader sel f s) = spare s" "touched sel N {} s (cacheHeader sel f s)"
    "rootField sel (cacheHeader sel f s) = rootField sel s" "countField sel (cacheHeader sel f s) = countField sel s"
  using good_cache [OF assms(1)] editOf_cache [OF assms(2)] by (simp_all add: touched_def rootField_def countField_def)

lemma count_step:
  assumes "good s"
  obtains s' where "steps good sel N {} (setLeafRecords sel k) s () s'" "spare s' = spare s" "sameRoot sel s s'" "countField sel s' = k"
proof -
  have "6 + length (enc32 k) \<le> 18" by simp
  from hdr_step [OF assms this] obtain s' where s': "steps good sel N {} (putHdr sel 6 (enc32 k)) s () s'" "spare s' = spare s"
    "treeOf sel s' = treeOf sel s" "cell sel 0 s' = overwrite (cell sel 0 s) 20 (enc32 k)" by auto
  then have "rootField sel s' = rootField sel s" "countField sel s' = k"
    using length_header [OF assms] node_size [OF assms] by (simp_all add: rootField_def countField_def codec_simps)
  moreover from this have "sameRoot sel s s'" using s'(3) by (simp add: sameRoot_same)
  ultimately show thesis using that s' unfolding setLeafRecords_def by blast
qed

lemma end_step:
  assumes "good s" "harmless f" "\<And>h. RootNode (f h) = RootNode h" "off = 10 \<or> off = 14"
  obtains s' where "steps good sel N {} (bnd (putHdr sel off (enc32 k)) (\<lambda>_. modS (cacheHeader sel f))) s () s'" "spare s' = spare s"
    "sameRoot sel s s'" "countField sel s' = countField sel s"
proof -
  have "off + length (enc32 k) \<le> 18" using assms(4) by auto
  from hdr_step [OF assms(1) this] obtain s1 where s1: "steps good sel N {} (putHdr sel off (enc32 k)) s () s1" "spare s1 = spare s"
    "treeOf sel s1 = treeOf sel s" "cell sel 0 s1 = overwrite (cell sel 0 s) (14 + off) (enc32 k)" by auto
  have "good s1" using s1(1) by (simp add: steps_def)
  note c = cache_step [OF this assms(2)]
  have "steps good sel N ({} \<union> {}) (bnd (putHdr sel off (enc32 k)) (\<lambda>_. modS (cacheHeader sel f))) s () (cacheHeader sel f s1)"
    by (rule steps_bnd [OF s1(1)]) (use c in \<open>simp add: steps_def modS_def\<close>)
  moreover have "rootField sel s1 = rootField sel s" "countField sel s1 = countField sel s"
    using s1(4) length_header [OF assms(1)] node_size [OF assms(1)] assms(4) by (auto simp: rootField_def countField_def codec_simps)
  moreover from this have "sameRoot sel s (cacheHeader sel f s1)" using c(4) s1(3) assms(3) by (intro sameRootI) auto
  ultimately show thesis using that [of "cacheHeader sel f s1"] c s1 by simp
qed

lemma last_step:
  assumes "good s"
  obtains s' where "steps good sel N {} (setLastLeaf sel k) s () s'" "spare s' = spare s" "sameRoot sel s s'"
    "countField sel s' = countField sel s"
  unfolding setLastLeaf_def using end_step [OF assms, of "\<lambda>h. h\<lparr>LastLeaf := k\<rparr>" 14] by (auto simp: harmless_def)

lemma first_step:
  assumes "good s"
  obtains s' where "steps good sel N {} (setFirstLeaf sel k) s () s'" "spare s' = spare s" "sameRoot sel s s'"
    "countField sel s' = countField sel s"
  unfolding setFirstLeaf_def using end_step [OF assms, of "\<lambda>h. h\<lparr>FirstLeaf := k\<rparr>" 10] by (auto simp: harmless_def)

lemma root_step:
  assumes "good s"
  obtains s' where "steps good sel N {} (setRootNode sel k) s () s'" "spare s' = spare s" "rooted sel k s'"
    "countField sel s' = countField sel s"
proof -
  let ?f = "\<lambda>h. h\<lparr>RootNode := k\<rparr>"
  have "2 + length (enc32 k) \<le> 18" by simp
  from hdr_step [OF assms this] obtain s1 where s1: "steps good sel N {} (putHdr sel 2 (enc32 k)) s () s1" "spare s1 = spare s"
    "treeOf sel s1 = treeOf sel s" "cell sel 0 s1 = overwrite (cell sel 0 s) 16 (enc32 k)" by auto
  have "good s1" "harmless ?f" using s1(1) by (simp_all add: steps_def harmless_def)
  note c = cache_step [OF this]
  have "steps good sel N ({} \<union> {}) (setRootNode sel k) s () (cacheHeader sel ?f s1)"
    unfolding setRootNode_def by (rule steps_bnd [OF s1(1)]) (use c in \<open>simp add: steps_def modS_def\<close>)
  moreover have "rootField sel s1 = k" "countField sel s1 = countField sel s"
    using s1(4) length_header [OF assms] node_size [OF assms] by (simp_all add: rootField_def countField_def codec_simps)
  moreover from this have "rooted sel k (cacheHeader sel ?f s1)" using c(4) by (auto simp: rooted_def)
  ultimately show thesis using that [of "cacheHeader sel ?f s1"] c s1 by simp
qed

lemma depth_step:
  assumes "good s"
  obtains s' where "steps good sel N {} (setTreeDepth sel k) s () s'" "spare s' = spare s" "sameRoot sel s s'"
    "countField sel s' = countField sel s"
proof -
  have "0 + length (enc16 k) \<le> 18" by simp
  from hdr_step [OF assms this] obtain s' where s': "steps good sel N {} (putHdr sel 0 (enc16 k)) s () s'" "spare s' = spare s"
    "treeOf sel s' = treeOf sel s" "cell sel 0 s' = overwrite (cell sel 0 s) 14 (enc16 k)" by auto
  then have "rootField sel s' = rootField sel s" "countField sel s' = countField sel s"
    using length_header [OF assms] node_size [OF assms] by (simp_all add: rootField_def countField_def codec_simps)
  moreover from this have "sameRoot sel s s'" using s'(3) by (simp add: sameRoot_same)
  ultimately show thesis using that s' unfolding setTreeDepth_def by blast
qed

text \<open>\<^verbatim>\<open>insertFirst\<close>: the first record of an empty tree becomes a leaf that is the root.\<close>

lemma first_record:
  assumes "good s" "rooted sel 0 s" "spare s = m # fresh" "recordsFit ns [rec]"
  obtains s' nd where "insertBy al sel rec s = (Inr (), s')" "editOf sel s s'" "good s'" "spare s' = fresh" "rooted sel m s'"
    "countField sel s' = 1" "nodeAt sel s' m = Inr nd" "records nd = [rec]" "Kind (desc nd) = kindLeafNode" "FLink (desc nd) = 0"
proof -
  have m: "unat m < N" "m \<noteq> 0" using good_spare [OF assms(1)] assms(3) by auto
  have "rootNode sel s = (Inr 0, s)"
    using hdr_cell(2) [OF good_placed [OF assms(1)] some_nodes [OF assms(1)], of 2] assms(2)
    by (simp add: rootNode_def rooted_def rootField_def)
  then have run: "insertBy al sel rec s = insertFirst al sel rec s" by (simp add: insertBy_def bnd_def)
  obtain s1 where s1: "steps good sel N {m} al s m s1" "spare s1 = fresh" using alloc_step [OF assms(1,3)] by blast
  then have g1: "good s1" by (simp add: steps_def)
  let ?en = "\<lparr>num = m, edesc = \<lparr>FLink = 0, BLink = 0, Kind = kindLeafNode, Height = 1, NumRecords = 0\<rparr>, erecs = [rec]\<rparr>"
  obtain s2 where s2: "steps good sel N {m} (storeNode sel ?en) s1 () s2" "spare s2 = spare s1"
    "nodeAt sel s2 m = Inr \<lparr>desc = (edesc ?en)\<lparr>NumRecords := of_nat (length [rec])\<rparr>, records = [rec]\<rparr>"
    using store_step [OF g1, of ?en] m assms(4) by auto
  then have "good s2" by (simp add: steps_def)
  from root_step [OF this] obtain s3 where s3: "steps good sel N {} (setRootNode sel m) s2 () s3" "spare s3 = spare s2" "rooted sel m s3" by blast
  then have "good s3" by (simp add: steps_def)
  from first_step [OF this] obtain s4 where s4: "steps good sel N {} (setFirstLeaf sel m) s3 () s4" "spare s4 = spare s3" "sameRoot sel s3 s4" by blast
  then have "good s4" by (simp add: steps_def)
  from last_step [OF this] obtain s5 where s5: "steps good sel N {} (setLastLeaf sel m) s4 () s5" "spare s5 = spare s4" "sameRoot sel s4 s5" by blast
  then have "good s5" by (simp add: steps_def)
  from depth_step [OF this] obtain s6 where s6: "steps good sel N {} (setTreeDepth sel 1) s5 () s6" "spare s6 = spare s5" "sameRoot sel s5 s6" by blast
  then have "good s6" by (simp add: steps_def)
  from count_step [OF this] obtain s7 where s7: "steps good sel N {} (setLeafRecords sel 1) s6 () s7" "spare s7 = spare s6"
    "sameRoot sel s6 s7" "countField sel s7 = 1" by blast
  have tail: "steps good sel N ({} \<union> ({} \<union> ({} \<union> ({} \<union> {})))) (bnd (setRootNode sel m) (\<lambda>_. bnd (setFirstLeaf sel m) (\<lambda>_. bnd (setLastLeaf sel m)
      (\<lambda>_. bnd (setTreeDepth sel 1) (\<lambda>_. setLeafRecords sel 1))))) s2 () s7"
    by (intro steps_bnd [OF s3(1)] steps_bnd [OF s4(1)] steps_bnd [OF s5(1)] steps_bnd [OF s6(1)] s7(1))
  then have t: "touched sel N {} s2 s7" "good s7" by (simp_all add: steps_def)
  have all: "steps good sel N ({m} \<union> ({m} \<union> {})) (insertFirst al sel rec) s () s7"
    unfolding insertFirst_def using tail by (intro steps_bnd [OF s1(1)] steps_bnd [OF s2(1)]) simp
  show thesis
  proof (rule that [of s7])
    show "insertBy al sel rec s = (Inr (), s7)" "editOf sel s s7" "good s7" using all run by (simp_all add: steps_def touched_def)
    show "spare s7 = fresh" "countField sel s7 = 1" using s1(2) s2(2) s3(2) s4(2) s5(2) s6(2) s7(2,4) by simp_all
    show "rooted sel m s7" using s3(3) s4(3) s5(3) s6(3) s7(3) by (auto simp: sameRoot_def)
    show "nodeAt sel s7 m = Inr \<lparr>desc = (edesc ?en)\<lparr>NumRecords := of_nat (length [rec])\<rparr>, records = [rec]\<rparr>"
      using touched_node [OF t(1) m] s2(3) by simp
  qed simp_all
qed

end

section \<open>Splitting a node\<close>

text \<open>The nodes of a set parse, their records fit, and their forward links stay in the set.\<close>

definition linked :: "(u32 \<Rightarrow> node result) \<Rightarrow> nat \<Rightarrow> u32 set \<Rightarrow> bool" where
  "linked read ns W \<longleftrightarrow> (\<forall>n \<in> W. \<exists>nd. read n = Inr nd \<and> recordsFit ns (records nd)
     \<and> (FLink (desc nd) = 0 \<or> FLink (desc nd) \<in> W))"

text \<open>Equal but for the backward link, the height and the count.\<close>

definition sameNode :: "node result \<Rightarrow> node result \<Rightarrow> bool" where
  "sameNode a b \<longleftrightarrow> (\<exists>x y. a = Inr x \<and> b = Inr y \<and> records y = records x \<and> Kind (desc y) = Kind (desc x)
     \<and> FLink (desc y) = FLink (desc x))"

lemma sameNode_trans [trans]: "sameNode a b \<Longrightarrow> sameNode b c \<Longrightarrow> sameNode a c"
  by (auto simp: sameNode_def)

lemma linked_node: "linked read ns W \<Longrightarrow> n \<in> W \<Longrightarrow> sameNode (read n) (read n)"
  by (auto simp: linked_def sameNode_def)

lemma linked_same:
  assumes "linked read ns W" "\<And>n. n \<in> W \<Longrightarrow> sameNode (read n) (read' n)"
  shows "linked read' ns W"
  unfolding linked_def
proof
  fix n assume n: "n \<in> W"
  then obtain nd where "read n = Inr nd" "recordsFit ns (records nd)" "FLink (desc nd) = 0 \<or> FLink (desc nd) \<in> W"
    using assms(1) by (auto simp: linked_def)
  then show "\<exists>nd. read' n = Inr nd \<and> recordsFit ns (records nd) \<and> (FLink (desc nd) = 0 \<or> FLink (desc nd) \<in> W)"
    using assms(2) [OF n] by (auto simp: sameNode_def)
qed

text \<open>\<open>splitLeaf\<close> and \<open>splitIndex\<close> differ in the descriptor of the new node and in what is done at the end of
  the chain.\<close>

definition splitBy :: "(wst, u32) op \<Rightarrow> treeSel \<Rightarrow> byte \<Rightarrow> byte \<Rightarrow> (u32 \<Rightarrow> (wst, unit) op) \<Rightarrow> editNode \<Rightarrow> (wst, bytes \<times> u32) op" where
  "splitBy al sel kd ht ends en =
     bnd al (\<lambda>right.
       let mid = length (erecs en) div 2;
           rightRecs = drop mid (erecs en);
           oldF = FLink (edesc en);
           rightEN = \<lparr>num = right,
                      edesc = \<lparr>FLink = oldF, BLink = num en, Kind = kd, Height = ht, NumRecords = 0\<rparr>,
                      erecs = rightRecs\<rparr>;
           en = en\<lparr>erecs := take mid (erecs en), edesc := (edesc en)\<lparr>FLink := right\<rparr>\<rparr>
       in bnd (if oldF \<noteq> 0 then setNodeBLink sel oldF right else ends right)
            (\<lambda>_. bnd (storeNode sel en)
              (\<lambda>_. bnd (storeNode sel rightEN)
                (\<lambda>_. ret (keyBytesOf (hd rightRecs), right)))))"

lemma splits_by:
  "splitLeaf al sel en = splitBy al sel kindLeafNode 1 (setLastLeaf sel) en"
  "splitIndex al sel en = splitBy al sel kindIndexNode (Height (edesc en)) (\<lambda>_. ret ()) en"
  by (simp_all add: splitLeaf_def splitIndex_def splitBy_def)

text \<open>What a part of the tree changes: the image, not the root, and of the nodes \<open>W\<close> only backward links.\<close>

definition evolves :: "treeSel \<Rightarrow> u32 set \<Rightarrow> wst \<Rightarrow> wst \<Rightarrow> bool" where
  "evolves sel W s s' \<longleftrightarrow> editOf sel s s' \<and> sameRoot sel s s' \<and> (\<forall>n \<in> W. sameNode (nodeAt sel s n) (nodeAt sel s' n))"

lemma evolves_trans [trans]: "evolves sel W s s' \<Longrightarrow> evolves sel W s' s'' \<Longrightarrow> evolves sel W s s''"
  using editOf_trans sameRoot_trans sameNode_trans unfolding evolves_def by blast

lemma evolves_mono: "evolves sel W s s' \<Longrightarrow> W' \<subseteq> W \<Longrightarrow> evolves sel W' s s'"
  by (auto simp: evolves_def)

context node_pool
begin

text \<open>A set of nodes in use.\<close>

definition world :: "u32 set \<Rightarrow> wst \<Rightarrow> bool" where
  "world W s \<longleftrightarrow> good s \<and> 0 \<notin> W \<and> (\<forall>n \<in> W. unat n < N) \<and> W \<inter> set (spare s) = {} \<and> linked (nodeAt sel s) ns W"

lemma world_facts:
  "world W s \<Longrightarrow> good s" "world W s \<Longrightarrow> n \<in> W \<Longrightarrow> unat n < N" "world W s \<Longrightarrow> n \<in> W \<Longrightarrow> n \<noteq> 0"
  "world W s \<Longrightarrow> n \<in> W \<Longrightarrow> n \<notin> set (spare s)" "world W s \<Longrightarrow> linked (nodeAt sel s) ns W"
  by (auto simp: world_def)

lemma blink_step:
  assumes "good s" "linked (nodeAt sel s) ns W" "f \<in> W" "unat f < N" "f \<noteq> 0"
  obtains s' where "steps good sel N {f} (setNodeBLink sel f b) s () s'" "spare s' = spare s" "sameRoot sel s s'"
    "countField sel s' = countField sel s" "sameNode (nodeAt sel s f) (nodeAt sel s' f)"
proof -
  obtain nd where nd: "nodeAt sel s f = Inr nd" "recordsFit ns (records nd)"
    using assms(2,3) by (auto simp: linked_def)
  let ?en = "\<lparr>num = f, edesc = (desc nd)\<lparr>BLink := b\<rparr>, erecs = records nd\<rparr>"
  from store_step [of s ?en] assms nd obtain s' where s': "steps good sel N {f} (storeNode sel ?en) s () s'" "spare s' = spare s"
    "sameRoot sel s s'" "countField sel s' = countField sel s"
    "nodeAt sel s' f = Inr \<lparr>desc = (desc nd)\<lparr>BLink := b\<rparr>\<lparr>NumRecords := of_nat (length (records nd))\<rparr>, records = records nd\<rparr>"
    by auto
  have "setNodeBLink sel f b s = storeNode sel ?en s"
    using load_node [OF assms(1,4) nd(1)] by (simp add: setNodeBLink_def bnd_def)
  then show thesis using that [of s'] s' nd by (simp add: steps_def sameNode_def)
qed

definition endOK :: "(u32 \<Rightarrow> (wst, unit) op) \<Rightarrow> bool" where
  "endOK ends \<longleftrightarrow> (\<forall>r s. good s \<longrightarrow> (\<exists>s'. steps good sel N {} (ends r) s () s' \<and> spare s' = spare s \<and> sameRoot sel s s'
     \<and> countField sel s' = countField sel s))"

lemma ends_leaf: "endOK (setLastLeaf sel)"
  unfolding endOK_def by (intro allI impI, rule last_step) blast+

lemma ends_index: "endOK (\<lambda>_. ret ())"
  by (simp add: steps_def ret_def endOK_def)

lemma split_link:
  assumes "world W s" "nodeAt sel s n = Inr nd" "n \<in> W" "spare s = r # fresh"
    and ends: "endOK ends"
  obtains s1 s2 where "al s = (Inr r, s1)"
    "(if FLink (desc nd) \<noteq> 0 then setNodeBLink sel (FLink (desc nd)) r else ends r) s1 = (Inr (), s2)" "good s2" "spare s2 = fresh"
    "evolves sel W s s2" "countField sel s2 = countField sel s"
proof -
  note w = world_facts [OF assms(1)]
  obtain s1 where s1: "steps good sel N {r} al s r s1" "spare s1 = fresh" "sameRoot sel s s1" "countField sel s1 = countField sel s"
    using alloc_step [OF w(1) assms(4)] .
  have rW: "r \<notin> W" using w(4) assms(4) by auto
  have at1: "nodeAt sel s1 m = nodeAt sel s m" if "m \<in> W" for m
    using touched_node [of sel N "{r}" s s1 m] s1(1) w(2,3) that rW by (auto simp: steps_def)
  have lk1: "linked (nodeAt sel s1) ns W" using w(5) at1 by (simp add: linked_def)
  have ed1: "editOf sel s s1" "good s1" "al s = (Inr r, s1)" using s1(1) by (simp_all add: steps_def touched_def)
  show thesis
  proof (cases "FLink (desc nd) = 0")
    case True
    obtain s2 where s2: "steps good sel N {} (ends r) s1 () s2" "spare s2 = spare s1" "sameRoot sel s1 s2" "countField sel s2 = countField sel s1"
      using ends ed1(2) unfolding endOK_def by blast
    have "sameNode (nodeAt sel s m) (nodeAt sel s2 m)" if "m \<in> W" for m
      using touched_node [of sel N "{}" s1 s2 m] s2(1) w(2,3,5) that at1 linked_node by (simp add: steps_def)
    then have "evolves sel W s s2"
      using ed1(1) s2(1,3) s1(3) editOf_trans sameRoot_trans by (auto simp: evolves_def steps_def touched_def)
    then show thesis using that [of s1 s2] ed1 s1 s2 True by (simp add: steps_def)
  next
    case False
    define f where "f = FLink (desc nd)"
    have f: "f \<in> W" "f \<noteq> 0" using w(5) assms(2,3) False by (auto simp: linked_def f_def)
    obtain s2 where s2: "steps good sel N {f} (setNodeBLink sel f r) s1 () s2" "spare s2 = spare s1" "sameRoot sel s1 s2"
      "countField sel s2 = countField sel s1" "sameNode (nodeAt sel s1 f) (nodeAt sel s2 f)"
      using blink_step [OF ed1(2) lk1 f(1) w(2) [OF f(1)] f(2)] .
    have "sameNode (nodeAt sel s m) (nodeAt sel s2 m)" if "m \<in> W" for m
    proof (cases "m = f")
      case True
      then show ?thesis using s2(5) at1 [OF f(1)] by simp
    next
      case False
      then show ?thesis
        using touched_node [of sel N "{f}" s1 s2 m] s2(1) w(2,3,5) that at1 linked_node by (simp add: steps_def)
    qed
    then have "evolves sel W s s2"
      using ed1(1) s2(1,3) s1(3) editOf_trans sameRoot_trans by (auto simp: evolves_def steps_def touched_def)
    then show thesis using that [of s1 s2] ed1 s1 s2 False f_def by (simp add: steps_def)
  qed
qed

lemma split_step:
  assumes "world W s" "nodeAt sel s n = Inr nd" "n \<in> W" "spare s = r # fresh"
    and ends: "endOK ends"
    and en: "en = \<lparr>num = n, edesc = desc nd, erecs = recs\<rparr>"
    and halves: "as = take (length recs div 2) recs" "bs = drop (length recs div 2) recs"
    and fit: "recordsFit ns as" "recordsFit ns bs"
  obtains s' nl nr where "splitBy al sel kd ht ends en s = (Inr (keyBytesOf (hd bs), r), s')" "world (insert r W) s'"
    "spare s' = fresh" "evolves sel (W - {n}) s s'" "countField sel s' = countField sel s"
    "nodeAt sel s' n = Inr nl" "records nl = as" "Kind (desc nl) = Kind (desc nd)" "FLink (desc nl) = r"
    "nodeAt sel s' r = Inr nr" "records nr = bs" "Kind (desc nr) = kd" "FLink (desc nr) = FLink (desc nd)"
proof -
  note w = world_facts [OF assms(1)]
  let ?f = "FLink (desc nd)"
  obtain s1 s2 where s1: "al s = (Inr r, s1)" and s2: "(if ?f \<noteq> 0 then setNodeBLink sel ?f r else ends r) s1 = (Inr (), s2)"
    "good s2" "spare s2 = fresh" "evolves sel W s s2" "countField sel s2 = countField sel s"
    using split_link [OF assms(1-4) ends] by blast
  have sp: "distinct (r # fresh)" "r \<noteq> 0" "unat r < N" using good_spare [OF w(1)] assms(4) by auto
  have rW: "r \<notin> W" using w(4) assms(4) by auto
  let ?el = "\<lparr>num = n, edesc = (desc nd)\<lparr>FLink := r\<rparr>, erecs = as\<rparr>"
  let ?er = "\<lparr>num = r, edesc = \<lparr>FLink = ?f, BLink = n, Kind = kd, Height = ht, NumRecords = 0\<rparr>, erecs = bs\<rparr>"
  obtain s3 where s3: "steps good sel N {n} (storeNode sel ?el) s2 () s3" "spare s3 = fresh" "sameRoot sel s2 s3"
    "countField sel s3 = countField sel s2"
    "nodeAt sel s3 n = Inr \<lparr>desc = (desc nd)\<lparr>FLink := r\<rparr>\<lparr>NumRecords := of_nat (length as)\<rparr>, records = as\<rparr>"
    using store_step [of s2 ?el] s2(2,3) w(2,3) assms(3) fit(1) by auto
  have g3: "good s3" using s3(1) by (simp add: steps_def)
  obtain s4 where s4: "steps good sel N {r} (storeNode sel ?er) s3 () s4" "spare s4 = fresh" "sameRoot sel s3 s4"
    "countField sel s4 = countField sel s3"
    "nodeAt sel s4 r = Inr \<lparr>desc = \<lparr>FLink = ?f, BLink = n, Kind = kd, Height = ht, NumRecords = of_nat (length bs)\<rparr>, records = bs\<rparr>"
    using store_step [of s3 ?er] g3 s3(2) sp fit(2) by auto
  have run: "splitBy al sel kd ht ends en s = (Inr (keyBytesOf (hd bs), r), s4)"
  proof -
    have "storeNode sel ?el s2 = (Inr (), s3)" "storeNode sel ?er s3 = (Inr (), s4)" using s3(1) s4(1) by (simp_all add: steps_def)
    moreover have "en\<lparr>erecs := as, edesc := (edesc en)\<lparr>FLink := r\<rparr>\<rparr> = ?el" by (simp add: en)
    ultimately show ?thesis
      unfolding splitBy_def bnd_def Let_def s1 prod.case sum.case by (simp only: en editNode.select_convs s2 halves [symmetric])
        (simp add: s2 ret_def halves [symmetric] del: take_all drop_all)
  qed
  have n: "n \<noteq> 0" "unat n < N" "n \<noteq> r" using w(2,3) assms(3) rW by auto
  have other: "nodeAt sel s4 m = nodeAt sel s2 m" if "m \<in> W" "m \<noteq> n" for m
    using touched_node [of sel N "{n}" s2 s3 m] touched_node [of sel N "{r}" s3 s4 m] s3(1) s4(1) that w(2,3) rW
    by (auto simp: steps_def)
  have nl: "nodeAt sel s4 n = Inr \<lparr>desc = (desc nd)\<lparr>FLink := r\<rparr>\<lparr>NumRecords := of_nat (length as)\<rparr>, records = as\<rparr>"
    using touched_node [of sel N "{r}" s3 s4 n] s4(1) s3(5) n by (simp add: steps_def)
  have ev: "evolves sel (W - {n}) s s4"
    using s2(4) s3(1,3) s4(1,3) other editOf_trans sameRoot_trans
    unfolding evolves_def steps_def touched_def by (metis (no_types, lifting) DiffD1 DiffD2 insertCI)
  have lk: "linked (nodeAt sel s4) ns (insert r W)"
  proof -
    have old: "\<exists>x. nodeAt sel s4 m = Inr x \<and> recordsFit ns (records x) \<and> (FLink (desc x) = 0 \<or> FLink (desc x) \<in> W)"
      if "m \<in> W" "m \<noteq> n" for m
      using ev w(5) that unfolding evolves_def linked_def sameNode_def by fastforce
    have "?f = 0 \<or> ?f \<in> W" using w(5) assms(2,3) by (auto simp: linked_def)
    then show ?thesis using old nl s4(5) fit by (fastforce simp: linked_def)
  qed
  have "world (insert r W) s4"
    using lk s4(1,2) w sp assms(1,4) by (auto simp: world_def steps_def)
  then show thesis
    using that [OF run _ s4(2) ev _ nl _ _ _ s4(5)] s2(5) s3(4) s4(4) by simp
qed

lemma fits_nil: "good s \<Longrightarrow> recordsFit ns []"
  using node_size(1) [of s] by (simp add: recordsFit_alt nodeDescriptorLen_def)

lemma split_full:
  assumes "world W s" "nodeAt sel s n = Inr nd" "n \<in> W" "spare s = r # fresh" and ends: "endOK ends"
    and en: "en = \<lparr>num = n, edesc = desc nd, erecs = recs\<rparr>"
    and halves: "as = take (length recs div 2) recs" "bs = drop (length recs div 2) recs"
    and full: "\<not> (recordsFit ns as \<and> recordsFit ns bs)"
  shows "fst (splitBy al sel kd ht ends en s) = Inl ErrNodeFull"
proof -
  note w = world_facts [OF assms(1)]
  let ?f = "FLink (desc nd)"
  obtain s1 s2 where s1: "al s = (Inr r, s1)" and s2: "(if ?f \<noteq> 0 then setNodeBLink sel ?f r else ends r) s1 = (Inr (), s2)" "good s2"
    using split_link [OF assms(1-4) ends] by blast
  have sp: "r \<noteq> 0" "unat r < N" using good_spare [OF w(1)] assms(4) by auto
  have run: "splitBy al sel kd ht ends en s = bnd (storeNode sel \<lparr>num = n, edesc = (desc nd)\<lparr>FLink := r\<rparr>, erecs = as\<rparr>)
      (\<lambda>_. bnd (storeNode sel \<lparr>num = r, edesc = \<lparr>FLink = ?f, BLink = n, Kind = kd, Height = ht, NumRecords = 0\<rparr>, erecs = bs\<rparr>)
      (\<lambda>_. ret (keyBytesOf (hd bs), r))) s2"
    unfolding splitBy_def bnd_def Let_def s1 prod.case sum.case
    by (simp only: en editNode.select_convs editNode.update_convs s2(1) halves [symmetric] prod.case sum.case)
  show ?thesis
  proof (cases "recordsFit ns as")
    case False
    then have "as \<noteq> []" using fits_nil [OF w(1)] by auto
    then have "fst (storeNode sel \<lparr>num = n, edesc = (desc nd)\<lparr>FLink := r\<rparr>, erecs = as\<rparr> s2) = Inl ErrNodeFull"
      using False good_size [OF s2(2)] w(2) [OF assms(3)] by (intro storeNode_full [OF good_placed [OF s2(2)]]) simp_all
    then show ?thesis unfolding run bnd_def by (auto split: prod.split sum.split)
  next
    case True
    then have bs: "\<not> recordsFit ns bs" "bs \<noteq> []" using full fits_nil [OF w(1)] by auto
    let ?el = "\<lparr>num = n, edesc = (desc nd)\<lparr>FLink := r\<rparr>, erecs = as\<rparr>"
    obtain s3 where "steps good sel N {n} (storeNode sel ?el) s2 () s3"
      by (rule store_step [of s2 ?el]) (use s2(2) w(2,3) assms(3) True in auto)
    then have s3: "storeNode sel ?el s2 = (Inr (), s3)" "good s3" by (simp_all add: steps_def)
    have "fst (storeNode sel \<lparr>num = r, edesc = \<lparr>FLink = ?f, BLink = n, Kind = kd, Height = ht, NumRecords = 0\<rparr>, erecs = bs\<rparr> s3) = Inl ErrNodeFull"
      using bs good_size [OF s3(2)] sp by (intro storeNode_full [OF good_placed [OF s3(2)]]) simp_all
    then show ?thesis unfolding run bnd_def s3(1) prod.case sum.case by (auto split: prod.split sum.split)
  qed
qed

lemma leafRecords_run: "good s \<Longrightarrow> leafRecords sel s = (Inr (countField sel s), s)"
  using hdr_cell(2) [OF good_placed some_nodes, of s s] by (simp add: leafRecords_def countField_def)

text \<open>Header edits leave the nodes alone.\<close>

lemma world_hdr:
  assumes "world W s" "steps good sel N {} m s x s'" "spare s' = spare s" "sameRoot sel s s'"
  shows "world W s'" "evolves sel W s s'" "\<And>n. n \<in> W \<Longrightarrow> nodeAt sel s' n = nodeAt sel s n"
proof -
  note w = world_facts [OF assms(1)]
  show same: "nodeAt sel s' n = nodeAt sel s n" if "n \<in> W" for n
    using touched_node [of sel N "{}" s s' n] assms(2) w(2,3) that by (simp add: steps_def)
  then show "evolves sel W s s'" using assms(2,4) linked_node [OF w(5)] by (simp add: evolves_def steps_def touched_def)
  have "linked (nodeAt sel s') ns W" using w(5) same by (simp add: linked_def)
  then show "world W s'" using assms by (simp add: world_def steps_def)
qed

lemma world_store:
  assumes "world W s" "steps good sel N {n} m s x s'" "spare s' = spare s" "sameRoot sel s s'" "n \<in> W"
    and "nodeAt sel s' n = Inr nd" "recordsFit ns (records nd)" "FLink (desc nd) = 0 \<or> FLink (desc nd) \<in> W"
  shows "world W s'" "evolves sel (W - {n}) s s'"
proof -
  note w = world_facts [OF assms(1)]
  have same: "nodeAt sel s' k = nodeAt sel s k" if "k \<in> W" "k \<noteq> n" for k
    using touched_node [of sel N "{n}" s s' k] assms(2) w(2,3) that by (simp add: steps_def)
  then show "evolves sel (W - {n}) s s'"
    using assms(2,4) linked_node [OF w(5)] by (simp add: evolves_def steps_def touched_def)
  have "linked (nodeAt sel s') ns W" using w(5) same assms(6-8) unfolding linked_def by metis
  then show "world W s'" using assms by (simp add: world_def steps_def)
qed

end

section \<open>Trees in the nodes\<close>

text \<open>A stretch of the leaf chain that goes on at \<open>z\<close>.\<close>

definition headNum :: "(u32 \<times> bytes list) list \<Rightarrow> u32 \<Rightarrow> u32" where
  "headNum ls z = (case ls of [] \<Rightarrow> z | l # _ \<Rightarrow> fst l)"

fun chainTo :: "(u32 \<Rightarrow> node result) \<Rightarrow> (u32 \<times> bytes list) list \<Rightarrow> u32 \<Rightarrow> bool" where
  "chainTo read [] z = True"
| "chainTo read ((n, rs) # ls) z =
     ((\<exists>nd. read n = Inr nd \<and> records nd = rs \<and> FLink (desc nd) = headNum ls z) \<and> chainTo read ls z)"

lemma headNum_simps [simp]:
  "headNum [] z = z" "headNum (l # ls) z = fst l" "headNum (xs @ ys) z = headNum xs (headNum ys z)"
  by (simp_all add: headNum_def split: list.split)

lemma chainTo_append: "chainTo read (xs @ ys) z \<longleftrightarrow> chainTo read xs (headNum ys z) \<and> chainTo read ys z"
  by (induction xs) auto

lemma chainTo_same:
  "chainTo read ls z \<Longrightarrow> (\<And>n. n \<in> fst ` set ls \<Longrightarrow> sameNode (read n) (read' n)) \<Longrightarrow> chainTo read' ls z"
proof (induction ls)
  case (Cons l ls)
  obtain n rs where l: "l = (n, rs)" by (cases l)
  then have "sameNode (read n) (read' n)" using Cons.prems(2) by simp
  moreover have "chainTo read' ls z" using Cons l by simp
  ultimately show ?case using Cons.prems(1) unfolding l by (auto simp: sameNode_def)
qed simp

lemma chained_chainTo: "chained read ls \<longleftrightarrow> chainTo read ls 0 \<and> 0 \<notin> fst ` set ls"
proof (induction ls)
  case (Cons l ls)
  obtain n rs where l: "l = (n, rs)" by (cases l)
  have "headNum ls 0 = (case ls of [] \<Rightarrow> 0 | (m, _) # _ \<Rightarrow> m)" by (cases ls) auto
  then show ?case unfolding l chained.simps chainTo.simps Cons.IH by (cases "read n") auto
qed simp

lemma leaves_nums: "fst ` set (leavesOf t) \<subseteq> set (numsOf t)"
proof (induction t rule: tnode_induct)
  case (TIndex n cs)
  have "n' \<in> set (numsOf (TIndex n cs))" if "p \<in> set cs" "n' \<in> fst ` set (leavesOf (snd p))" for p n'
    using TIndex.IH [OF that(1)] that by auto
  then show ?case by fastforce
qed simp

lemma storedTree_same:
  assumes "storedTree read t" "\<And>n. n \<in> set (numsOf t) \<Longrightarrow> sameNode (read n) (read' n)"
  shows "storedTree read' t"
  using assms
proof (induction t rule: tnode_induct)
  case (TLeaf n rs)
  then show ?case by (auto simp: sameNode_def split: sum.splits)
next
  case (TIndex n cs)
  have "storedTree read' (snd p)" if "p \<in> set cs" for p
    using TIndex.IH [OF that] TIndex.prems that by auto
  moreover have "sameNode (read n) (read' n)" using TIndex.prems(2) by simp
  ultimately show ?case using TIndex.prems(1) by (auto simp: sameNode_def split: sum.splits)
qed

lemma nodeNum_in: "nodeNum t \<in> set (numsOf t)"
  by (cases t) auto

lemma tinsert_head:
  "tinsert ns cmp rec t fresh = Some (g, fresh') \<Longrightarrow> headNum (grownLeaves g) z = headNum (leavesOf t) z"
proof (induction t arbitrary: g fresh' z rule: tnode_induct)
  case (TLeaf n rs)
  then show ?case by (auto simp: leafPut_def Let_def split: if_splits list.splits)
next
  case (TIndex n cs)
  define i where "i = chooseIdx (\<lambda>r. cmp r rec) (map fst cs)"
  from TIndex.prems have i: "i < length cs" by (auto simp: i_def Let_def split: if_splits)
  with TIndex.prems obtain c f where c: "tinsert ns cmp rec (snd (cs ! i)) fresh = Some (c, f)"
    by (auto simp: i_def [symmetric] split: option.splits)
  have ih: "headNum (grownLeaves c) z = headNum (leavesOf (snd (cs ! i))) z" for z
    using TIndex.IH [OF nth_mem [OF i] c] .
  have l: "leavesOf (TIndex n cs) = concat (map (\<lambda>p. leavesOf (snd p)) (take i cs)) @ leavesOf (snd (cs ! i))
      @ concat (map (\<lambda>p. leavesOf (snd p)) (drop (i + 1) cs))"
    by (subst split_nth [OF i]) simp
  have "grownLeaves g = concat (map (\<lambda>p. leavesOf (snd p)) (take i cs)) @ grownLeaves c
      @ concat (map (\<lambda>p. leavesOf (snd p)) (drop (i + 1) cs))"
    using TIndex.prems i c by (cases c) (auto simp: i_def [symmetric] upd_conv_take_nth_drop dest!: indexPut_leaves)
  then show ?case unfolding l by (simp add: ih)
qed

fun grownStored :: "(u32 \<Rightarrow> node result) \<Rightarrow> grown \<Rightarrow> bool" where
  "grownStored read (Fit t) = storedTree read t"
| "grownStored read (Cut l k r) = (storedTree read l \<and> storedTree read r)"

section \<open>The loops of an insertion\<close>

text \<open>What \<^verbatim>\<open>insert\<close> does with a node that was split: grow the root, or go on with its ancestors.\<close>

definition upTo :: "(wst, u32) op \<Rightarrow> treeSel \<Rightarrow> u32 \<Rightarrow> u32 list \<Rightarrow> bytes \<Rightarrow> u32 \<Rightarrow> (wst, unit) op" where
  "upTo al sel n ups k c = (if ups = [] then growRoot al sel n k c else propagate_loop al sel ups k c)"

definition insPath :: "(wst, u32) op \<Rightarrow> treeSel \<Rightarrow> bytes \<Rightarrow> u32 list \<Rightarrow> u32 list \<Rightarrow> (wst, unit) op" where
  "insPath al sel rec path ups =
     bnd (insertIntoLeaf al sel (last path) rec)
       (\<lambda>(k, c). bnd (leafRecords sel)
         (\<lambda>q. bnd (setLeafRecords sel (q + 1))
           (\<lambda>_. if c = 0 then ret () else upTo al sel (last path) (rev (butlast path) @ ups) k c)))"

lemma insertBy_path:
  assumes "rootNode sel s = (Inr root, s)" "root \<noteq> 0" "descend sel rec s = (Inr (path, idx), s)" "path \<noteq> []"
  shows "insertBy al sel rec s = insPath al sel rec path [] s"
proof -
  have "(if length path = 1 then growRoot al sel (hd path) k c else propagateSplit al sel path k c)
      = upTo al sel (last path) (rev (butlast path) @ []) k c" for k c
    using assms(4) by (cases path rule: rev_cases) (auto simp: upTo_def propagateSplit_def)
  then show ?thesis
    using assms(2) unfolding insertBy_def insPath_def
    by (simp only: bnd_def assms(1,3) prod.case sum.case if_False)
qed

end
