(* ===== verification/TreeRefine.thy ===== *)
theory TreeRefine
  imports TreeWrite
begin

text \<open>
  The simulation: \<^verbatim>\<open>insert\<close> of \<^verbatim>\<open>btops.go\<close> on the nodes of the image does what \<open>rootInsert\<close> does on trees.
  The induction is on the tree; \<open>inserts\<close> is what holds of a subtree, whatever its ancestors are.
\<close>

section \<open>Node numbers\<close>

fun grownList :: "grown \<Rightarrow> u32 list" where
  "grownList (Fit t) = numsOf t"
| "grownList (Cut l k r) = numsOf l @ numsOf r"

lemma tinsert_list:
  assumes "tinsert ns cmp rec t fresh = Some (g, fresh')" "distinct (numsOf t @ fresh)"
  shows "distinct (grownList g @ fresh')" "set (grownList g) = set (numsOf t) \<union> (set fresh - set fresh')"
    "set fresh' \<subseteq> set fresh"
proof -
  have "mset (grownList g) = grownNums g" by (cases g) simp_all
  then have m: "mset (grownList g @ fresh') = mset (numsOf t @ fresh)" using tinsert_nums [OF assms(1)] by simp
  then show d: "distinct (grownList g @ fresh')" using assms(2) mset_eq_imp_distinct_iff by blast
  have s: "set (grownList g) \<union> set fresh' = set (numsOf t) \<union> set fresh" using mset_eq_setD [OF m] by simp
  show f: "set fresh' \<subseteq> set fresh"
    using tinsert_suffix [OF assms(1)] by (auto dest: set_mono_suffix)
  show "set (grownList g) = set (numsOf t) \<union> (set fresh - set fresh')"
    using d s f assms(2) by auto
qed

lemma rootInsert_list:
  assumes "rootInsert ns cmp rec t fresh = Some (t', fresh')" "distinct (numsOf t @ fresh)"
  shows "distinct (numsOf t' @ fresh')" "set (numsOf t') = set (numsOf t) \<union> (set fresh - set fresh')"
    "treeHeight t' \<le> Suc (treeHeight t)"
proof -
  obtain g f where g: "tinsert ns cmp rec t fresh = Some (g, f)"
    using assms(1) by (auto simp: rootInsert_def split: option.splits)
  note l = tinsert_list [OF g assms(2)] and h = tinsert_shape [OF g]
  have "(\<exists>u. g = Fit u \<and> t' = u \<and> fresh' = f) \<or> (\<exists>l k r m. g = Cut l k r \<and> f = m # fresh' \<and> t' = newRoot m l k r)"
    using assms(1) g by (cases g) (auto simp: rootInsert_def Let_def split: list.splits if_splits)
  then have "distinct (numsOf t' @ fresh') \<and> set (numsOf t') = set (numsOf t) \<union> (set fresh - set fresh')
      \<and> treeHeight t' \<le> Suc (treeHeight t)"
  proof (elim disjE exE conjE)
    fix u assume "g = Fit u" "t' = u" "fresh' = f"
    then show ?thesis using l h by simp
  next
    fix a k b m assume "g = Cut a k b" "f = m # fresh'" "t' = newRoot m a k b"
    then show ?thesis using l h assms(2) by (auto simp: newRoot_def)
  qed
  then show "distinct (numsOf t' @ fresh')" "set (numsOf t') = set (numsOf t) \<union> (set fresh - set fresh')"
    "treeHeight t' \<le> Suc (treeHeight t)" by auto
qed

lemma leaves_nums_list:
  "fst ` set (concat (map (\<lambda>q. leavesOf (snd q)) ds)) \<subseteq> set (concat (map (\<lambda>q. numsOf (snd q)) ds))"
proof (induction ds)
  case (Cons d ds)
  then show ?case using leaves_nums [of "snd d"] by auto
qed simp

locale tree_writer =
  node_pool sel N ns al spare good + tree_keys cmp keyOf
  for sel N ns al spare good and cmp :: "'k \<Rightarrow> 'k \<Rightarrow> int" and keyOf

context tree_writer
begin

section \<open>A subtree\<close>

definition goOn :: "tnode \<Rightarrow> grown \<Rightarrow> u32 list \<Rightarrow> wst \<Rightarrow> unit result \<times> wst" where
  "goOn t g ups s' = (case g of Fit _ \<Rightarrow> (Inr (), s') | Cut l k r \<Rightarrow> upTo al sel (nodeNum t) ups k (nodeNum r) s')"

definition yields :: "u32 set \<Rightarrow> tnode \<Rightarrow> grown \<Rightarrow> u32 list \<Rightarrow> wst \<Rightarrow> wst \<Rightarrow> bool" where
  "yields W t g fresh s s' \<longleftrightarrow> world (W \<union> (set (spare s) - set fresh)) s' \<and> spare s' = fresh
     \<and> evolves sel (W - set (numsOf t)) s s' \<and> countField sel s' = countField sel s + 1
     \<and> grownStored (nodeAt sel s') g
     \<and> (\<forall>z. chainTo (nodeAt sel s) (leavesOf t) z \<longrightarrow> chainTo (nodeAt sel s') (grownLeaves g) z)"

abbreviation way :: "bytes \<Rightarrow> tnode \<Rightarrow> u32 list" where
  "way rec t \<equiv> pathOf (\<lambda>r. recCmp keyOf cmp r rec) t"

definition inserts :: "u32 set \<Rightarrow> bytes \<Rightarrow> tnode \<Rightarrow> wst \<Rightarrow> bool" where
  "inserts W rec t s \<longleftrightarrow>
     (case tinsert ns (recCmp keyOf cmp) rec t (spare s) of
        None \<Rightarrow> \<forall>ups. fst (insPath al sel rec (way rec t) ups s) = Inl ErrNodeFull
      | Some (g, fresh) \<Rightarrow> \<exists>s'. (\<forall>ups. insPath al sel rec (way rec t) ups s = goOn t g ups s') \<and> yields W t g fresh s s')"

lemma insPath_run:
  assumes "insertIntoLeaf al sel (last path) rec s = (Inr (k, c), s1)" "world W s1"
  obtains s2 where "\<forall>ups. insPath al sel rec path ups s
      = (if c = 0 then ret () else upTo al sel (last path) (rev (butlast path) @ ups) k c) s2"
    "world W s2" "evolves sel W s1 s2" "\<forall>n \<in> W. nodeAt sel s2 n = nodeAt sel s1 n" "spare s2 = spare s1"
    "countField sel s2 = countField sel s1 + 1"
proof -
  have g: "good s1" using assms(2) by (rule world_facts)
  obtain s2 where s2: "steps good sel N {} (setLeafRecords sel (countField sel s1 + 1)) s1 () s2" "spare s2 = spare s1"
    "sameRoot sel s1 s2" "countField sel s2 = countField sel s1 + 1"
    using count_step [OF g] by blast
  have run: "setLeafRecords sel (countField sel s1 + 1) s1 = (Inr (), s2)" using s2(1) by (simp add: steps_def)
  show thesis
  proof (rule that [of s2])
    show "\<forall>ups. insPath al sel rec path ups s
        = (if c = 0 then ret () else upTo al sel (last path) (rev (butlast path) @ ups) k c) s2"
      unfolding insPath_def bnd_def assms(1) prod.case sum.case leafRecords_run [OF g] run by simp
  qed (use world_hdr [OF assms(2) s2(1,2,3)] s2 in auto)
qed

lemma insPath_fail: "fst (insertIntoLeaf al sel (last path) rec s) = Inl e \<Longrightarrow> fst (insPath al sel rec path ups s) = Inl e"
  by (cases "insertIntoLeaf al sel (last path) rec s") (auto simp: insPath_def bnd_def)

lemma insert_leaf:
  assumes "world W s" "compareRecords sel s = recCmp keyOf cmp" "storedTree (nodeAt sel s) (TLeaf n rs)" "n \<in> W"
    "spare s \<noteq> []"
  shows "inserts W rec (TLeaf n rs) s"
proof -
  note w = world_facts [OF assms(1)]
  obtain nd where nd: "nodeAt sel s n = Inr nd" "Kind (desc nd) = kindLeafNode" "records nd = rs"
    using assms(3) by (auto split: sum.splits)
  obtain r f where sp: "spare s = r # f" using assms(5) by (cases "spare s") auto
  have rf: "r \<notin> set f" using good_spare [OF w(1)] sp by simp
  define rs' where "rs' = insertSorted (recCmp keyOf cmp) rs rec"
  define en where "en = \<lparr>num = n, edesc = desc nd, erecs = rs'\<rparr>"
  have run: "insertIntoLeaf al sel n rec s
      = (if recordsFit ns rs' then bnd (storeNode sel en) (\<lambda>_. ret ([], 0)) s else splitLeaf al sel en s)"
    using load_node [OF w(1) w(2) [OF assms(4)] nd(1)] good_size [OF w(1)]
    by (simp add: insertIntoLeaf_def bnd_def getS_def nodeSizeOf_def assms(2) nd(3) en_def rs'_def Let_def)
  have ti: "tinsert ns (recCmp keyOf cmp) rec (TLeaf n rs) (spare s) = leafPut ns n rs' (r # f)" by (simp add: sp rs'_def)
  define as bs where "as = take (length rs' div 2) rs'" and "bs = drop (length rs' div 2) rs'"
  show ?thesis
  proof (cases "recordsFit ns rs'")
    case True
    obtain s1 where s1: "steps good sel N {n} (storeNode sel en) s () s1" "spare s1 = spare s" "sameRoot sel s s1"
      "countField sel s1 = countField sel s"
      "nodeAt sel s1 n = Inr \<lparr>desc = (desc nd)\<lparr>NumRecords := of_nat (length rs')\<rparr>, records = rs'\<rparr>"
      using store_step [of s en] w(1,2,3) assms(4) True unfolding en_def by auto
    have "FLink (desc nd) = 0 \<or> FLink (desc nd) \<in> W" using w(5) assms(4) nd(1) by (auto simp: linked_def)
    then have ws: "world W s1" "evolves sel (W - {n}) s s1"
      using world_store [OF assms(1) s1(1-3) assms(4) s1(5)] True by simp_all
    have ins: "insertIntoLeaf al sel (last [n]) rec s = (Inr ([], 0), s1)"
      using run True s1(1) by (simp add: steps_def bnd_def ret_def)
    obtain s2 where s2: "\<forall>ups. insPath al sel rec [n] ups s = (Inr (), s2)" "world W s2" "evolves sel W s1 s2"
      "nodeAt sel s2 n = nodeAt sel s1 n" "spare s2 = spare s1" "countField sel s2 = countField sel s1 + 1"
      by (rule insPath_run [OF ins ws(1)]) (use assms(4) in \<open>auto simp: ret_def\<close>)
    have "evolves sel (W - {n}) s s2" using ws(2) s2(3) evolves_mono [of sel W s1 s2 "W - {n}"] evolves_trans by blast
    then have "yields W (TLeaf n rs) (Fit (TLeaf n rs')) (r # f) s s2"
      using s2 s1 nd sp by (auto simp: yields_def)
    then show ?thesis unfolding inserts_def ti using s2(1) True by (auto simp: leafPut_def goOn_def)
  next
    case over: False
    show ?thesis
    proof (cases "recordsFit ns as \<and> recordsFit ns bs")
      case True
      obtain s1 nl nr where s1: "splitLeaf al sel en s = (Inr (keyBytesOf (hd bs), r), s1)" "world (insert r W) s1"
        "spare s1 = f" "evolves sel (W - {n}) s s1" "countField sel s1 = countField sel s"
        "nodeAt sel s1 n = Inr nl" "records nl = as" "Kind (desc nl) = Kind (desc nd)" "FLink (desc nl) = r"
        "nodeAt sel s1 r = Inr nr" "records nr = bs" "Kind (desc nr) = kindLeafNode" "FLink (desc nr) = FLink (desc nd)"
        unfolding splits_by(1)
        by (rule split_step [OF assms(1) nd(1) assms(4) sp ends_leaf en_def as_def bs_def conjunct1 [OF True] conjunct2 [OF True], of kindLeafNode 1])
      have ins: "insertIntoLeaf al sel (last [n]) rec s = (Inr (keyBytesOf (hd bs), r), s1)" using run over s1(1) by simp
      have r0: "r \<noteq> 0" using good_spare [OF w(1)] sp by auto
      obtain s2 where s2: "\<forall>ups. insPath al sel rec [n] ups s = upTo al sel n ups (keyBytesOf (hd bs)) r s2" "world (insert r W) s2"
        "evolves sel (insert r W) s1 s2" "nodeAt sel s2 n = nodeAt sel s1 n" "nodeAt sel s2 r = nodeAt sel s1 r"
        "spare s2 = spare s1" "countField sel s2 = countField sel s1 + 1"
        by (rule insPath_run [OF ins s1(2)]) (use assms(4) r0 in auto)
      have "evolves sel (W - {n}) s s2"
        using s1(4) s2(3) evolves_mono [of sel "insert r W" s1 s2 "W - {n}"] evolves_trans by blast
      moreover have "W \<union> (set (spare s) - set f) = insert r W" using sp rf by auto
      ultimately have "yields W (TLeaf n rs) (Cut (TLeaf n as) (keyBytesOf (hd bs)) (TLeaf r bs)) f s s2"
        using s2 s1 nd by (auto simp: yields_def)
      moreover have "leafPut ns n rs' (r # f) = Some (Cut (TLeaf n as) (keyBytesOf (hd bs)) (TLeaf r bs), f)"
        using over True by (simp add: leafPut_def as_def bs_def Let_def)
      ultimately show ?thesis unfolding inserts_def ti using s2(1) by (auto simp: goOn_def)
    next
      case False
      have "fst (splitLeaf al sel en s) = Inl ErrNodeFull"
        unfolding splits_by(1) by (rule split_full [OF assms(1) nd(1) assms(4) sp ends_leaf en_def as_def bs_def False])
      then have "fst (insPath al sel rec [n] ups s) = Inl ErrNodeFull" for ups
        using run over by (intro insPath_fail) simp
      moreover have "leafPut ns n rs' (r # f) = None"
        using over False by (auto simp: leafPut_def as_def bs_def Let_def)
      ultimately show ?thesis unfolding inserts_def ti by simp
    qed
  qed
qed

lemma insPath_cons: "w \<noteq> [] \<Longrightarrow> insPath al sel rec (n # w) ups = insPath al sel rec w (n # ups)"
proof -
  assume "w \<noteq> []"
  then have "last (n # w) = last w" "rev (butlast (n # w)) @ ups = rev (butlast w) @ n # ups" by simp_all
  then show ?thesis unfolding insPath_def by (simp only:)
qed

lemma propagate_run:
  assumes "world W s" "compareRecords sel s = recCmp keyOf cmp" "n \<in> W" "nodeAt sel s n = Inr nd"
    and "recs = insertSorted (recCmp keyOf cmp) (records nd) (indexRecordFor k c)" "en = \<lparr>num = n, edesc = desc nd, erecs = recs\<rparr>"
  shows "propagate_loop al sel (n # ups) k c s =
    (if recordsFit ns recs then storeNode sel en s
     else bnd (splitBy al sel kindIndexNode (Height (desc nd)) (\<lambda>_. ret ()) en) (\<lambda>(nk, nc). upTo al sel n ups nk nc) s)"
proof -
  note w = world_facts [OF assms(1)]
  have "splitIndex al sel en = splitBy al sel kindIndexNode (Height (desc nd)) (\<lambda>_. ret ()) en"
    unfolding splits_by(2) assms(6) by simp
  then show ?thesis
    using load_node [OF w(1) w(2) [OF assms(3)] assms(4)] good_size [OF w(1)]
    by (simp add: bnd_def [of "loadNode sel n"] bnd_def [of "getS _"] bnd_def [of "nodeSizeOf sel"]
        getS_def nodeSizeOf_def assms(2) assms(5,6) Let_def upTo_def [abs_def])
qed

text \<open>What of a tree changes when one child is rewritten.\<close>

lemma stored_children:
  assumes "storedTree read (TIndex n cs)" "set ds \<subseteq> set cs"
    and "\<And>m. m \<in> set (concat (map (\<lambda>p. numsOf (snd p)) ds)) \<Longrightarrow> sameNode (read m) (read' m)"
  shows "\<forall>p \<in> set ds. indexChild (fst p) = Some (nodeNum (snd p)) \<and> storedTree read' (snd p)"
proof
  fix p assume p: "p \<in> set ds"
  then have "storedTree read (snd p)" "indexChild (fst p) = Some (nodeNum (snd p))" using assms(1,2) by auto
  then show "indexChild (fst p) = Some (nodeNum (snd p)) \<and> storedTree read' (snd p)"
    using storedTree_same [of read "snd p" read'] assms(3) p by auto
qed

text \<open>The hypotheses on an index node and the child that the descent chooses.\<close>

definition atIndex :: "u32 set \<Rightarrow> bytes \<Rightarrow> wst \<Rightarrow> u32 \<Rightarrow> (bytes \<times> tnode) list \<Rightarrow> bytes \<times> tnode \<Rightarrow> (bytes \<times> tnode) list \<Rightarrow> bool" where
  "atIndex W rec s n xs p ys \<longleftrightarrow>
     world W s \<and> compareRecords sel s = recCmp keyOf cmp \<and> storedTree (nodeAt sel s) (TIndex n (xs @ p # ys))
     \<and> distinct (numsOf (TIndex n (xs @ p # ys))) \<and> set (numsOf (TIndex n (xs @ p # ys))) \<subseteq> W
     \<and> chooseIdx (\<lambda>r. recCmp keyOf cmp r rec) (map fst (xs @ p # ys)) = length xs
     \<and> treeHeight (TIndex n (xs @ p # ys)) \<le> length (spare s)"

lemma atIndex_facts:
  assumes "atIndex W rec s n xs p ys" "tinsert ns (recCmp keyOf cmp) rec (snd p) (spare s) = Some (g, f)"
    "yields W (snd p) g f s s1"
  obtains nd where "nodeAt sel s1 n = Inr nd" "Kind (desc nd) = kindIndexNode" "records nd = map fst (xs @ p # ys)"
    "f \<noteq> []" "set (grownList g) = set (numsOf (snd p)) \<union> (set (spare s) - set f)" "distinct (grownList g)"
    "\<forall>q \<in> set (xs @ ys). indexChild (fst q) = Some (nodeNum (snd q)) \<and> storedTree (nodeAt sel s1) (snd q)"
    "indexChild (fst p) = Some (nodeNum (snd p))" "n \<notin> set (grownList g)"
    "set (concat (map (\<lambda>q. numsOf (snd q)) (xs @ ys))) \<subseteq> W - insert n (set (grownList g))" "n \<in> W"
    "\<forall>z. chainTo (nodeAt sel s) (leavesOf (TIndex n (xs @ p # ys))) z \<longrightarrow>
       chainTo (nodeAt sel s1) (concat (map (\<lambda>q. leavesOf (snd q)) xs) @ grownLeaves g @ concat (map (\<lambda>q. leavesOf (snd q)) ys)) z"
proof -
  note a = assms(1) [unfolded atIndex_def]
  note y = assms(3) [unfolded yields_def]
  let ?P = "set (numsOf (snd p))" and ?O = "set (concat (map (\<lambda>q. numsOf (snd q)) (xs @ ys)))"
  have w: "world W s" using a by simp
  have st: "storedTree (nodeAt sel s) (TIndex n (xs @ p # ys))" using a by blast
  have nW: "n \<in> W" "?P \<subseteq> W" "?O \<subseteq> W" using a by auto
  have nP: "n \<notin> ?P" "n \<notin> ?O" "?O \<inter> ?P = {}" using a by auto
  have dp: "distinct (numsOf (snd p) @ spare s)"
    using a good_spare [OF world_facts(1) [OF w]] world_facts(4) [OF w] nW(2) by auto
  note l = tinsert_list [OF assms(2) dp]
  have new: "set (grownList g) \<inter> W \<subseteq> ?P" using l(2) world_facts(4) [OF w] by auto
  have same: "sameNode (nodeAt sel s m) (nodeAt sel s1 m)" if "m \<in> W" "m \<notin> ?P" for m
    using y that by (simp add: evolves_def)
  have "sameNode (nodeAt sel s n) (nodeAt sel s1 n)" using same nW(1) nP(1) .
  then obtain nd where nd: "nodeAt sel s1 n = Inr nd" "Kind (desc nd) = kindIndexNode" "records nd = map fst (xs @ p # ys)"
    using st by (auto simp: sameNode_def split: sum.splits)
  have sameO: "sameNode (nodeAt sel s m) (nodeAt sel s1 m)" if "m \<in> ?O" for m using same nW(3) nP(3) that by blast
  have len: "f \<noteq> []"
  proof -
    have "treeHeight (snd p) < length (spare s)" using treeHeight_child [of p "xs @ p # ys" n] a by simp
    then show ?thesis using tinsert_shape [OF assms(2)] by auto
  qed
  have kids: "\<forall>q \<in> set (xs @ ys). indexChild (fst q) = Some (nodeNum (snd q)) \<and> storedTree (nodeAt sel s1) (snd q)"
    by (rule stored_children [OF st _ sameO]) auto
  have chain: "chainTo (nodeAt sel s1) (concat (map (\<lambda>q. leavesOf (snd q)) xs) @ grownLeaves g @ concat (map (\<lambda>q. leavesOf (snd q)) ys)) z"
    if c: "chainTo (nodeAt sel s) (leavesOf (TIndex n (xs @ p # ys))) z" for z
  proof -
    let ?X = "concat (map (\<lambda>q. leavesOf (snd q)) xs)" and ?Y = "concat (map (\<lambda>q. leavesOf (snd q)) ys)"
    have sub: "fst ` set ?X \<union> fst ` set ?Y \<subseteq> ?O" using leaves_nums by fastforce
    then have "sameNode (nodeAt sel s m) (nodeAt sel s1 m)" if "m \<in> fst ` set ?X \<union> fst ` set ?Y" for m
      using that sameO by blast
    moreover have "chainTo (nodeAt sel s) ?X (headNum (leavesOf (snd p)) (headNum ?Y z))"
      "chainTo (nodeAt sel s) (leavesOf (snd p)) (headNum ?Y z)" "chainTo (nodeAt sel s) ?Y z"
      using c by (simp_all add: chainTo_append)
    ultimately show ?thesis
      using y chainTo_same [of "nodeAt sel s" _ _ "nodeAt sel s1"] unfolding chainTo_append headNum_simps
        tinsert_head [OF assms(2)] by (metis UnI1 UnI2)
  qed
  show thesis
  proof (rule that [of nd])
    show "n \<notin> set (grownList g)" using new nW(1) nP(1) by auto
    show "?O \<subseteq> W - insert n (set (grownList g))" using new nW(3) nP by blast
    show "indexChild (fst p) = Some (nodeNum (snd p))" using st by simp
  qed (use nd len l kids nW chain in auto)
qed

lemma way_index: "atIndex W rec s n xs p ys \<Longrightarrow> way rec (TIndex n (xs @ p # ys)) = n # way rec (snd p)"
  by (rule pathOf_index) (simp_all add: atIndex_def)

lemma tinsert_at:
  assumes "atIndex W rec s n xs p ys"
  shows "tinsert ns (recCmp keyOf cmp) rec (TIndex n (xs @ p # ys)) fresh =
    (case tinsert ns (recCmp keyOf cmp) rec (snd p) fresh of
       None \<Rightarrow> None
     | Some (Fit t, fresh') \<Rightarrow> Some (Fit (TIndex n (xs @ (fst p, t) # ys)), fresh')
     | Some (Cut l k r, fresh') \<Rightarrow> indexPut ns n (xs @ (fst p, l) # (indexRecordFor k (nodeNum r), r) # ys) fresh')"
  by (rule tinsert_index [where cmp = "recCmp keyOf cmp"]) (use assms in \<open>simp_all add: atIndex_def\<close>)

lemma insert_index_fit:
  assumes "atIndex W rec s n xs p ys" "inserts W rec (snd p) s"
    "tinsert ns (recCmp keyOf cmp) rec (snd p) (spare s) = Some (Fit t, f)"
  shows "inserts W rec (TIndex n (xs @ p # ys)) s"
proof -
  obtain s1 where s1: "\<forall>ups. insPath al sel rec (way rec (snd p)) ups s = (Inr (), s1)" "yields W (snd p) (Fit t) f s s1"
    using assms(2,3) by (auto simp: inserts_def goOn_def)
  obtain nd where nd: "nodeAt sel s1 n = Inr nd" "Kind (desc nd) = kindIndexNode" "records nd = map fst (xs @ p # ys)"
    and kids: "\<forall>q \<in> set (xs @ ys). indexChild (fst q) = Some (nodeNum (snd q)) \<and> storedTree (nodeAt sel s1) (snd q)"
      "indexChild (fst p) = Some (nodeNum (snd p))"
    and chain: "\<forall>z. chainTo (nodeAt sel s) (leavesOf (TIndex n (xs @ p # ys))) z \<longrightarrow>
       chainTo (nodeAt sel s1) (concat (map (\<lambda>q. leavesOf (snd q)) xs) @ grownLeaves (Fit t) @ concat (map (\<lambda>q. leavesOf (snd q)) ys)) z"
    by (rule atIndex_facts [OF assms(1,3) s1(2)])
  have "nodeNum t = nodeNum (snd p)" using tinsert_shape [OF assms(3)] by simp
  moreover have "evolves sel (W - set (numsOf (TIndex n (xs @ p # ys)))) s s1"
    by (rule evolves_mono [of sel "W - set (numsOf (snd p))" s s1]) (use s1(2) in \<open>auto simp: yields_def\<close>)
  ultimately have "yields W (TIndex n (xs @ p # ys)) (Fit (TIndex n (xs @ (fst p, t) # ys))) f s s1"
    using s1(2) nd kids chain by (simp add: yields_def)
  then show ?thesis
    using s1(1) unfolding inserts_def tinsert_at [OF assms(1)] assms(3) way_index [OF assms(1)] insPath_cons [OF pathOf_nonempty]
    by (auto simp: goOn_def)
qed

lemma insert_index_none:
  assumes "atIndex W rec s n xs p ys" "inserts W rec (snd p) s" "tinsert ns (recCmp keyOf cmp) rec (snd p) (spare s) = None"
  shows "inserts W rec (TIndex n (xs @ p # ys)) s"
  using assms(2) unfolding inserts_def tinsert_at [OF assms(1)] way_index [OF assms(1)] assms(3) insPath_cons [OF pathOf_nonempty]
  by simp

lemma insert_index_cut:
  assumes at: "atIndex W rec s n xs p ys" and ih: "inserts W rec (snd p) s"
    and cut: "tinsert ns (recCmp keyOf cmp) rec (snd p) (spare s) = Some (Cut l k r, f)"
    and ir: "ir = indexRecordFor k (nodeNum r)" "indexChild ir = Some (nodeNum r)"
      "insertSorted (recCmp keyOf cmp) (map fst (xs @ p # ys)) ir = map fst (xs @ (fst p, l) # (ir, r) # ys)"
  shows "inserts W rec (TIndex n (xs @ p # ys)) s"
proof -
  define ds where "ds = xs @ (fst p, l) # (ir, r) # ys"
  let ?t = "TIndex n (xs @ p # ys)"
  obtain s1 where s1: "\<forall>ups. insPath al sel rec (way rec (snd p)) ups s = upTo al sel (nodeNum (snd p)) ups k (nodeNum r) s1"
    "yields W (snd p) (Cut l k r) f s s1"
    using ih cut by (auto simp: inserts_def goOn_def)
  define W1 where "W1 = W \<union> (set (spare s) - set f)"
  obtain nd where nd: "nodeAt sel s1 n = Inr nd" "Kind (desc nd) = kindIndexNode" "records nd = map fst (xs @ p # ys)"
    and f: "f \<noteq> []" and gl: "set (grownList (Cut l k r)) = set (numsOf (snd p)) \<union> (set (spare s) - set f)"
    and kids: "\<forall>q \<in> set (xs @ ys). indexChild (fst q) = Some (nodeNum (snd q)) \<and> storedTree (nodeAt sel s1) (snd q)"
      "indexChild (fst p) = Some (nodeNum (snd p))"
    and ng: "n \<notin> set (grownList (Cut l k r))" "set (concat (map (\<lambda>q. numsOf (snd q)) (xs @ ys))) \<subseteq> W - insert n (set (grownList (Cut l k r)))" "n \<in> W"
    and chain: "\<forall>z. chainTo (nodeAt sel s) (leavesOf ?t) z \<longrightarrow>
       chainTo (nodeAt sel s1) (concat (map (\<lambda>q. leavesOf (snd q)) xs) @ grownLeaves (Cut l k r) @ concat (map (\<lambda>q. leavesOf (snd q)) ys)) z"
    by (rule atIndex_facts [OF at cut s1(2)])
  have y: "world W1 s1" "spare s1 = f" "evolves sel (W - set (numsOf (snd p))) s s1" "countField sel s1 = countField sel s + 1"
    "storedTree (nodeAt sel s1) l" "storedTree (nodeAt sel s1) r"
    using s1(2) by (simp_all add: yields_def W1_def)
  have nums: "set (concat (map (\<lambda>q. numsOf (snd q)) ds)) \<subseteq> W1 - {n}"
    using ng gl at by (auto simp: ds_def W1_def atIndex_def)
  have dsk: "\<forall>q \<in> set ds. indexChild (fst q) = Some (nodeNum (snd q)) \<and> storedTree (nodeAt sel s1) (snd q)"
    using kids ir(2) y(5,6) tinsert_shape [OF cut] by (auto simp: ds_def)
  have chain1: "chainTo (nodeAt sel s1) (concat (map (\<lambda>q. leavesOf (snd q)) ds)) z" if "chainTo (nodeAt sel s) (leavesOf ?t) z" for z
    using chain that by (simp add: ds_def)
  have n1: "n \<in> W1" using ng(3) by (simp add: W1_def)
  have cmp1: "compareRecords sel s1 = recCmp keyOf cmp"
    using y(3) editOf_compare [of sel s s1] at by (simp add: evolves_def atIndex_def)
  define recs where "recs = map fst ds"
  define en where "en = \<lparr>num = n, edesc = desc nd, erecs = recs\<rparr>"
  have "recs = insertSorted (recCmp keyOf cmp) (records nd) (indexRecordFor k (nodeNum r))"
    using ir(1,3) nd(3) by (simp add: recs_def ds_def)
  note spread = propagate_run [OF y(1) cmp1 n1 nd(1) this en_def]
  have run: "insPath al sel rec (way rec ?t) ups s = propagate_loop al sel (n # ups) k (nodeNum r) s1" for ups
    using s1(1) unfolding way_index [OF at] insPath_cons [OF pathOf_nonempty] by (simp add: upTo_def)
  have ti: "tinsert ns (recCmp keyOf cmp) rec ?t (spare s) = indexPut ns n ds f"
    by (simp only: tinsert_at [OF at] cut ds_def ir(1) option.case prod.case grown.case)
  have after: "evolves sel (W - set (numsOf ?t)) s s2"
    "\<forall>q \<in> set ds. indexChild (fst q) = Some (nodeNum (snd q)) \<and> storedTree (nodeAt sel s2) (snd q)"
    "\<forall>z. chainTo (nodeAt sel s) (leavesOf ?t) z \<longrightarrow> chainTo (nodeAt sel s2) (concat (map (\<lambda>q. leavesOf (snd q)) ds)) z"
    if e2: "evolves sel (W1 - {n}) s1 s2" for s2
  proof -
    have same: "sameNode (nodeAt sel s1 m) (nodeAt sel s2 m)" if "m \<in> set (concat (map (\<lambda>q. numsOf (snd q)) ds))" for m
      using e2 nums that by (auto simp: evolves_def)
    show "evolves sel (W - set (numsOf ?t)) s s2"
      by (rule evolves_trans [OF evolves_mono [OF y(3)] evolves_mono [OF e2]]) (auto simp: W1_def)
    show "\<forall>q \<in> set ds. indexChild (fst q) = Some (nodeNum (snd q)) \<and> storedTree (nodeAt sel s2) (snd q)"
      using dsk storedTree_same [of "nodeAt sel s1" _ "nodeAt sel s2"] same by auto
    show "\<forall>z. chainTo (nodeAt sel s) (leavesOf ?t) z \<longrightarrow> chainTo (nodeAt sel s2) (concat (map (\<lambda>q. leavesOf (snd q)) ds)) z"
      using leaves_nums_list [of ds] chain1 same chainTo_same [of "nodeAt sel s1" "concat (map (\<lambda>q. leavesOf (snd q)) ds)" _ "nodeAt sel s2"] by blast
  qed
  have link: "FLink (desc nd) = 0 \<or> FLink (desc nd) \<in> W1"
    using world_facts(5) [OF y(1)] n1 nd(1) by (auto simp: linked_def)
  show ?thesis
  proof (cases "recordsFit ns recs")
    case True
    obtain s2 where s2: "steps good sel N {n} (storeNode sel en) s1 () s2" "spare s2 = spare s1" "sameRoot sel s1 s2"
      "countField sel s2 = countField sel s1"
      "nodeAt sel s2 n = Inr \<lparr>desc = (desc nd)\<lparr>NumRecords := of_nat (length recs)\<rparr>, records = recs\<rparr>"
      by (rule store_step [of s1 en]) (use world_facts [OF y(1)] n1 True in \<open>auto simp: en_def\<close>)
    have ws: "world W1 s2" "evolves sel (W1 - {n}) s1 s2"
      using world_store [OF y(1) s2(1-3) n1 s2(5)] True link by simp_all
    have "yields W ?t (Fit (TIndex n ds)) f s s2"
      using ws after [OF ws(2)] s2 y(2,4) nd(2) by (simp add: yields_def W1_def recs_def)
    moreover have "insPath al sel rec (way rec ?t) ups s = (Inr (), s2)" for ups
      using run spread True s2(1) by (simp add: steps_def)
    moreover have "indexPut ns n ds f = Some (Fit (TIndex n ds), f)" using True by (simp add: indexPut_def recs_def)
    ultimately show ?thesis unfolding inserts_def ti by (auto simp: goOn_def)
  next
    case over: False
    obtain q f' where f': "f = q # f'" using f by (cases f) auto
    define mid where "mid = length ds div 2"
    let ?as = "map fst (take mid ds)" and ?bs = "map fst (drop mid ds)"
    have halves: "?as = take (length recs div 2) recs" "?bs = drop (length recs div 2) recs"
      by (simp_all add: recs_def mid_def take_map drop_map)
    let ?g = "Cut (TIndex n (take mid ds)) (keyBytesOf (fst (hd (drop mid ds)))) (TIndex q (drop mid ds))"
    have sp1: "spare s1 = q # f'" using y(2) f' by simp
    have run2: "insPath al sel rec (way rec ?t) ups s
        = bnd (splitBy al sel kindIndexNode (Height (desc nd)) (\<lambda>_. ret ()) en) (\<lambda>(nk, nc). upTo al sel n ups nk nc) s1" for ups
      using run spread over by simp
    show ?thesis
    proof (cases "recordsFit ns ?as \<and> recordsFit ns ?bs")
      case True
      obtain s2 nl nr where s2: "splitBy al sel kindIndexNode (Height (desc nd)) (\<lambda>_. ret ()) en s1 = (Inr (keyBytesOf (hd ?bs), q), s2)"
        "world (insert q W1) s2" "spare s2 = f'" "evolves sel (W1 - {n}) s1 s2" "countField sel s2 = countField sel s1"
        "nodeAt sel s2 n = Inr nl" "records nl = ?as" "Kind (desc nl) = Kind (desc nd)" "FLink (desc nl) = q"
        "nodeAt sel s2 q = Inr nr" "records nr = ?bs" "Kind (desc nr) = kindIndexNode"
        by (rule split_step [OF y(1) nd(1) n1 sp1 ends_index en_def halves conjunct1 [OF True] conjunct2 [OF True],
              of kindIndexNode "Height (desc nd)"])
      have "0 < length ds" by (simp add: ds_def)
      then have "mid < length ds" unfolding mid_def by linarith
      then have bs: "drop mid ds \<noteq> []" by simp
      have q: "q \<in> set (spare s)" "q \<notin> set f'"
        using tinsert_suffix [OF cut] f' good_spare [OF world_facts(1) [OF y(1)]] sp1 by (auto dest: set_mono_suffix)
      then have W: "W \<union> (set (spare s) - set f') = insert q W1" using f' by (auto simp: W1_def)
      have "yields W ?t ?g f' s s2"
        unfolding yields_def W
      proof (intro conjI)
        show "grownStored (nodeAt sel s2) ?g"
          using after(2) [OF s2(4)] s2(6-12) nd(2) by (auto dest: in_set_takeD in_set_dropD)
        show "\<forall>z. chainTo (nodeAt sel s) (leavesOf ?t) z \<longrightarrow> chainTo (nodeAt sel s2) (grownLeaves ?g) z"
          using after(3) [OF s2(4)] by (simp only: grownLeaves.simps leavesOf.simps concat_halves)
      qed (use s2 y(4) after(1) [OF s2(4)] in simp_all)
      moreover have "insPath al sel rec (way rec ?t) ups s = goOn ?t ?g ups s2" for ups
        using run2 s2(1) bs by (simp add: bnd_def goOn_def hd_map)
      moreover have "indexPut ns n ds f = Some (?g, f')"
        using over True f' by (simp add: indexPut_def Let_def recs_def mid_def)
      ultimately show ?thesis unfolding inserts_def ti by auto
    next
      case False
      have "fst (splitBy al sel kindIndexNode (Height (desc nd)) (\<lambda>_. ret ()) en s1) = Inl ErrNodeFull"
        by (rule split_full [OF y(1) nd(1) n1 sp1 ends_index en_def halves False])
      then have "fst (insPath al sel rec (way rec ?t) ups s) = Inl ErrNodeFull" for ups
        unfolding run2 by (auto simp: bnd_def split: prod.split sum.split)
      moreover have "indexPut ns n ds f = None"
        using over False f' by (auto simp: indexPut_def Let_def recs_def mid_def)
      ultimately show ?thesis unfolding inserts_def ti by simp
    qed
  qed
qed

section \<open>The whole tree\<close>

lemma insert_subtree:
  assumes "world W s" "compareRecords sel s = recCmp keyOf cmp" "storedTree (nodeAt sel s) t" "distinct (numsOf t)"
    "set (numsOf t) \<subseteq> W" "ordered keyOf cmp lo hi t" "recIn keyOf cmp lo hi rec"
    "\<forall>r \<in> set (treeRecs t). recCmp keyOf cmp r rec \<noteq> 0" "lo = None \<Longrightarrow> \<exists>n rs. t = TLeaf n rs"
    "treeHeight t \<le> length (spare s)"
  shows "inserts W rec t s"
  using assms(3-)
proof (induction t arbitrary: lo hi rule: tnode_induct)
  case (TLeaf n rs)
  then show ?case using insert_leaf [OF assms(1,2)] by fastforce
next
  case (TIndex n cs)
  have o: "orderedList keyOf cmp lo hi cs" "cs \<noteq> []" "keyOf (fst (hd cs)) = lo"
    using TIndex.prems(4,7) by auto
  obtain xs p ys where c: "cs = xs @ p # ys" "chooseIdx (\<lambda>r. recCmp keyOf cmp r rec) (map fst cs) = length xs"
    "recIn keyOf cmp (keyOf (fst p)) (nextKey keyOf hi ys) rec"
    using choose_child [OF o(1,2) TIndex.prems(5) o(3)] by blast
  have op: "ordered keyOf cmp (keyOf (fst p)) (nextKey keyOf hi ys) (snd p)" "keyOf (fst p) \<noteq> None"
    using o(1) c(1) by (auto simp: orderedList_append recIn_def)
  have at: "atIndex W rec s n xs p ys" using assms(1,2) TIndex.prems c by (simp add: atIndex_def)
  have hp: "treeHeight (snd p) \<le> length (spare s)"
    using treeHeight_child [of p cs n] TIndex.prems(8) c(1) by simp
  have kp: "\<forall>r \<in> set (treeRecs (snd p)). recCmp keyOf cmp r rec \<noteq> 0" using TIndex.prems(6) c(1) by auto
  have sub: "inserts W rec (snd p) s"
    by (rule TIndex.IH [OF _ _ _ _ op(1) c(3) kp _ hp]) (use TIndex.prems(1-3) c(1) op(2) in auto)
  show ?case
  proof (cases "tinsert ns (recCmp keyOf cmp) rec (snd p) (spare s)")
    case None
    then show ?thesis using insert_index_none [OF at sub] c(1) by simp
  next
    case (Some gf)
    then obtain g f where g: "tinsert ns (recCmp keyOf cmp) rec (snd p) (spare s) = Some (g, f)" by (cases gf) auto
    show ?thesis
    proof (cases g)
      case (Fit t)
      then show ?thesis using insert_index_fit [OF at sub] g c(1) by simp
    next
      case (Cut l k r)
      let ?ir = "indexRecordFor k (nodeNum r)"
      have "grownOrdered keyOf cmp (keyOf (fst p)) (nextKey keyOf hi ys) g"
        using tinsert_ordered [OF op(1) c(3) kp _ g] op(2) by simp
      then obtain kr where ir: "indexChild ?ir = Some (nodeNum r)" "keyOf ?ir = Some kr"
        "recIn keyOf cmp (keyOf (fst p)) (nextKey keyOf hi ys) ?ir" "ordered keyOf cmp (keyOf (fst p)) (keyOf ?ir) l"
        "ordered keyOf cmp (keyOf ?ir) (nextKey keyOf hi ys) r"
        unfolding Cut by (auto simp: Let_def)
      from child_split(2) [OF o(1) [unfolded c(1)] ir(4,5,2,3)]
      show ?thesis using insert_index_cut [OF at sub g [unfolded Cut] refl ir(1)] c(1) by simp
    qed
  qed
qed

lemma chooseIdx_less: "cs \<noteq> [] \<Longrightarrow> chooseIdx c (map fst cs) < length cs"
  using length_takeWhile_le [of "\<lambda>r. c r \<le> 0" "map fst cs"] by (cases cs) (auto simp: chooseIdx_def)

lemma descend_way:
  assumes "world W s" "compareRecords sel s = recCmp keyOf cmp" "storedTree (nodeAt sel s) t" "set (numsOf t) \<subseteq> W"
    "ordered keyOf cmp lo hi t" "treeHeight t \<le> d"
  shows "\<exists>idx'. descend_loop d sel rec (nodeNum t) path idx s = (Inr (path @ way rec t, idx'), s)"
  using assms(3-)
proof (induction t arbitrary: d path idx lo hi rule: tnode_induct)
  case (TLeaf n rs)
  then obtain d' where "d = Suc d'" by (cases d) auto
  moreover obtain nd where "nodeAt sel s n = Inr nd" "Kind (desc nd) = kindLeafNode" using TLeaf.prems(1) by (auto split: sum.splits)
  moreover have "unat n < N" "good s" using TLeaf.prems(2) world_facts [OF assms(1)] by auto
  ultimately show ?case using load_node by (simp add: bnd_def getS_def ret_def)
next
  case (TIndex n cs)
  then obtain d' where d: "d = Suc d'" by (cases d) auto
  let ?i = "chooseIdx (\<lambda>r. recCmp keyOf cmp r rec) (map fst cs)"
  obtain nd where nd: "nodeAt sel s n = Inr nd" "Kind (desc nd) = kindIndexNode" "records nd = map fst cs"
    using TIndex.prems(1) by (auto split: sum.splits)
  have n: "unat n < N" "good s" using TIndex.prems(2) world_facts [OF assms(1)] by auto
  have cs: "cs \<noteq> []" using TIndex.prems(3) by simp
  note i = chooseIdx_less [OF cs, of "\<lambda>r. recCmp keyOf cmp r rec"]
  have p: "cs ! ?i \<in> set cs" using i by simp
  then have kid: "indexChild (fst (cs ! ?i)) = Some (nodeNum (snd (cs ! ?i)))" "storedTree (nodeAt sel s) (snd (cs ! ?i))"
    "set (numsOf (snd (cs ! ?i))) \<subseteq> W" using TIndex.prems(1,2) by auto
  have "orderedList keyOf cmp lo hi cs" using TIndex.prems(3) by simp
  then obtain hi' where o: "ordered keyOf cmp (keyOf (fst (cs ! ?i))) hi' (snd (cs ! ?i))" using p by (rule orderedList_member)
  have "treeHeight (snd (cs ! ?i)) \<le> d'" using treeHeight_child [OF p, of n] TIndex.prems(4) d by simp
  from TIndex.IH [OF p kid(2,3) o this, of "path @ [n]" "idx @ [?i]"]
  obtain idx' where "descend_loop d' sel rec (nodeNum (snd (cs ! ?i))) (path @ [n]) (idx @ [?i]) s
      = (Inr ((path @ [n]) @ way rec (snd (cs ! ?i)), idx'), s)" by blast
  then show ?case
    using load_node [OF n(2,1) nd(1)] nd i kid(1) cs d assms(2)
    by (simp add: bnd_def getS_def Let_def kindIndexNode_def kindLeafNode_def)
qed

text \<open>The first record of a stored node.\<close>

lemma stored_first:
  assumes "storedTree (nodeAt sel s) l" "ordered keyOf cmp lo hi l"
  obtains nd where "nodeAt sel s (nodeNum l) = Inr nd" "records nd \<noteq> []" "hd (records nd) = firstRec l"
  using assms by (cases l) (auto simp: firstRec_def hd_map split: sum.splits)

definition rootStep :: "u32 set \<Rightarrow> u32 \<Rightarrow> u32 list \<Rightarrow> bytes list \<Rightarrow> wst \<Rightarrow> wst \<Rightarrow> bool" where
  "rootStep W m f recs s s' \<longleftrightarrow> world (insert m W) s' \<and> spare s' = f \<and> editOf sel s s' \<and> rooted sel m s'
     \<and> countField sel s' = countField sel s \<and> (\<forall>n \<in> W. sameNode (nodeAt sel s n) (nodeAt sel s' n))
     \<and> (\<exists>nd. nodeAt sel s' m = Inr nd \<and> Kind (desc nd) = kindIndexNode \<and> records nd = recs)"

lemma growRoot_step:
  assumes "world W s" "n \<in> W" "nodeAt sel s n = Inr nd" "records nd \<noteq> []" "spare s = m # f"
    and recs: "recs = [indexRecordFor (keyBytesOf (hd (records nd))) n, indexRecordFor k c]"
  shows "if recordsFit ns recs then \<exists>s'. growRoot al sel n k c s = (Inr (), s') \<and> rootStep W m f recs s s'
    else fst (growRoot al sel n k c s) = Inl ErrNodeFull"
proof -
  note w = world_facts [OF assms(1)]
  obtain s1 where s1: "steps good sel N {m} al s m s1" "spare s1 = f" "sameRoot sel s s1" "countField sel s1 = countField sel s"
    using alloc_step [OF w(1) assms(5)] .
  have m: "m \<noteq> 0" "unat m < N" "m \<notin> set f" "m \<notin> W" using good_spare [OF w(1)] assms(5) w(4) by auto
  have g1: "good s1" "al s = (Inr m, s1)" "editOf sel s s1" using s1(1) by (simp_all add: steps_def touched_def)
  have at1: "nodeAt sel s1 x = nodeAt sel s x" if "x \<in> W" for x
    using touched_node [of sel N "{m}" s s1 x] s1(1) w(2,3) that m(4) by (auto simp: steps_def)
  define d where "d = be16 (cell sel 0 s1) 14"
  have td: "treeDepth sel t = (Inr (be16 (cell sel 0 t) 14), t)" if "good t" for t
    using hdr_cell(1) [OF good_placed [OF that] some_nodes [OF that]] by (simp add: treeDepth_def)
  define en where "en = \<lparr>num = m, edesc = \<lparr>FLink = 0, BLink = 0, Kind = kindIndexNode, Height = ucast (d + 1), NumRecords = 0\<rparr>, erecs = recs\<rparr>"
  have run: "growRoot al sel n k c s = bnd (storeNode sel en) (\<lambda>_. bnd (setRootNode sel m) (\<lambda>_.
      bnd (treeDepth sel) (\<lambda>d. setTreeDepth sel (d + 1)))) s1"
    using load_node [OF g1(1) w(2) [OF assms(2)], of nd] at1 [OF assms(2)] assms(3,4) g1(2) td [OF g1(1)]
    by (simp add: growRoot_def bnd_def [of al] bnd_def [of "loadNode sel n"] bnd_def [of "treeDepth sel" _ s1] recs Let_def en_def d_def)
  show ?thesis
  proof (cases "recordsFit ns recs")
    case True
    obtain s2 where s2: "steps good sel N {m} (storeNode sel en) s1 () s2" "spare s2 = spare s1" "sameRoot sel s1 s2"
      "countField sel s2 = countField sel s1"
      "nodeAt sel s2 m = Inr \<lparr>desc = (edesc en)\<lparr>NumRecords := of_nat (length recs)\<rparr>, records = recs\<rparr>"
      by (rule store_step [of s1 en]) (use g1 m True in \<open>auto simp: en_def\<close>)
    have g2: "good s2" using s2(1) by (simp add: steps_def)
    obtain s3 where s3: "steps good sel N {} (setRootNode sel m) s2 () s3" "spare s3 = spare s2" "rooted sel m s3" "countField sel s3 = countField sel s2"
      using root_step [OF g2] by blast
    have g3: "good s3" using s3(1) by (simp add: steps_def)
    obtain s4 where s4: "steps good sel N {} (setTreeDepth sel (be16 (cell sel 0 s3) 14 + 1)) s3 () s4" "spare s4 = spare s3"
      "sameRoot sel s3 s4" "countField sel s4 = countField sel s3"
      using depth_step [OF g3] by blast
    have at: "nodeAt sel s4 x = nodeAt sel s2 x" if "unat x < N" "x \<noteq> 0" for x
      using touched_node [of sel N "{}" s2 s3 x] touched_node [of sel N "{}" s3 s4 x] s3(1) s4(1) that by (simp add: steps_def)
    have atW: "nodeAt sel s4 x = nodeAt sel s x" if "x \<in> W" for x
      using at [of x] touched_node [of sel N "{m}" s1 s2 x] at1 [OF that] s2(1) w(2,3) that m(4) by (auto simp: steps_def)
    have nm: "nodeAt sel s4 m = Inr \<lparr>desc = (edesc en)\<lparr>NumRecords := of_nat (length recs)\<rparr>, records = recs\<rparr>"
      using at [OF m(2,1)] s2(5) by simp
    have "linked (nodeAt sel s4) ns (insert m W)"
      using w(5) atW nm True by (auto simp: linked_def en_def)
    then have "world (insert m W) s4"
      using s4(1,2) s3(2) s2(2) s1(2) m w assms(1,5) by (auto simp: world_def steps_def)
    moreover have "editOf sel s s4"
      using g1(3) s2(1) s3(1) s4(1) editOf_trans unfolding steps_def touched_def by metis
    ultimately have "rootStep W m f recs s s4"
      using s1 s2 s3 s4 nm atW linked_node [OF w(5)] by (simp add: rootStep_def sameRoot_def en_def)
    moreover have "growRoot al sel n k c s = (Inr (), s4)"
      unfolding run using s2(1) s3(1) s4(1) td [OF g3] by (simp add: bnd_def steps_def)
    ultimately show ?thesis using True by auto
  next
    case False
    have "fst (storeNode sel en s1) = Inl ErrNodeFull"
      using False good_size [OF g1(1)] m by (intro storeNode_full [OF good_placed [OF g1(1)]]) (simp_all add: en_def recs)
    then show ?thesis using False unfolding run by (auto simp: bnd_def split: prod.split sum.split)
  qed
qed

text \<open>What an insertion into a tree leaves.\<close>

definition treeStep :: "u32 set \<Rightarrow> tnode \<Rightarrow> u32 list \<Rightarrow> tnode \<Rightarrow> wst \<Rightarrow> wst \<Rightarrow> bool" where
  "treeStep W t fresh t' s s' \<longleftrightarrow> world (W \<union> (set (spare s) - set fresh)) s' \<and> spare s' = fresh \<and> editOf sel s s'
     \<and> rooted sel (nodeNum t') s' \<and> countField sel s' = countField sel s + 1 \<and> storedTree (nodeAt sel s') t'
     \<and> (\<forall>n \<in> W - set (numsOf t). sameNode (nodeAt sel s n) (nodeAt sel s' n))
     \<and> (\<forall>z. chainTo (nodeAt sel s) (leavesOf t) z \<longrightarrow> chainTo (nodeAt sel s') (leavesOf t') z)"

lemma descend_root:
  assumes "world W s" "compareRecords sel s = recCmp keyOf cmp" "rooted sel (nodeNum t) s"
    and "storedTree (nodeAt sel s) t" "set (numsOf t) \<subseteq> W" "ordered keyOf cmp lo hi t" "treeHeight t \<le> 64"
  obtains idx where "rootNode sel s = (Inr (nodeNum t), s)" "descend sel rec s = (Inr (way rec t, idx), s)"
proof -
  have g: "good s" using assms(1) by (rule world_facts)
  have nt: "nodeNum t \<noteq> 0" using assms(5) nodeNum_in world_facts(3) [OF assms(1)] by blast
  have root: "rootNode sel s = (Inr (nodeNum t), s)"
    using hdr_cell(2) [OF good_placed [OF g] some_nodes [OF g], of 2] assms(3) by (simp add: rootNode_def rooted_def rootField_def)
  obtain idx where "descend_loop 64 sel rec (nodeNum t) [] [] s = (Inr ([] @ way rec t, idx), s)"
    using descend_way [OF assms(1,2,4-7)] by blast
  then show thesis using that [of idx] root nt by (simp add: descend_def bnd_def)
qed

lemma insert_root:
  assumes w: "world W s" "compareRecords sel s = recCmp keyOf cmp" "rooted sel (nodeNum t) s"
    and t: "storedTree (nodeAt sel s) t" "distinct (numsOf t)" "set (numsOf t) \<subseteq> W" "ordered keyOf cmp (rootLow keyOf t) None t"
    and rec: "recIn keyOf cmp (rootLow keyOf t) None rec" "\<forall>r \<in> set (treeRecs t). recCmp keyOf cmp r rec \<noteq> 0"
    and room: "treeHeight t \<le> 64" "treeHeight t < length (spare s)"
  shows "case rootInsert ns (recCmp keyOf cmp) rec t (spare s) of
      None \<Rightarrow> fst (insertBy al sel rec s) = Inl ErrNodeFull
    | Some (t', fresh) \<Rightarrow> \<exists>s'. insertBy al sel rec s = (Inr (), s') \<and> treeStep W t fresh t' s s'"
proof -
  let ?lo = "rootLow keyOf t"
  have g: "good s" using w(1) by (rule world_facts)
  have low: "?lo = None \<Longrightarrow> \<exists>n rs. t = TLeaf n rs"
    using ordered_from_first(2) [OF t(4)] by (cases t) (auto simp: rootLow_def firstRec_def recIn_def)
  have nt: "nodeNum t \<in> W" "nodeNum t \<noteq> 0" using t(3) nodeNum_in world_facts(3) [OF w(1)] by blast+
  obtain idx where root: "rootNode sel s = (Inr (nodeNum t), s)" and way: "descend sel rec s = (Inr (way rec t, idx), s)"
    using descend_root [OF w t(1,3,4) room(1)] by blast
  from insertBy_path [OF root nt(2) way pathOf_nonempty] have ins: "insertBy al sel rec s = insPath al sel rec (way rec t) [] s" .
  have sub: "inserts W rec t s"
    by (rule insert_subtree [OF w(1,2) t(1-4) rec low]) (use room(2) in simp_all)
  show ?thesis
  proof (cases "tinsert ns (recCmp keyOf cmp) rec t (spare s)")
    case None
    then show ?thesis using sub ins by (simp add: inserts_def rootInsert_def)
  next
    case (Some gf)
    obtain c f where c: "tinsert ns (recCmp keyOf cmp) rec t (spare s) = Some (c, f)" using Some by (cases gf) auto
    then obtain s1 where s1: "insertBy al sel rec s = goOn t c [] s1" "yields W t c f s s1"
      using sub ins by (auto simp: inserts_def)
    note y = s1(2) [unfolded yields_def]
    show ?thesis
    proof (cases c)
      case (Fit u)
      then have "treeStep W t f u s s1"
        using y w(3) tinsert_shape [OF c] by (simp add: treeStep_def evolves_def sameRoot_def)
      then show ?thesis using c Fit s1(1) by (simp add: rootInsert_def goOn_def)
    next
      case (Cut l k r)
      define W1 where "W1 = W \<union> (set (spare s) - set f)"
      have go: "grownOrdered keyOf cmp ?lo None (Cut l k r)" using tinsert_ordered [OF t(4) rec low c] Cut by simp
      then have ol: "ordered keyOf cmp ?lo (keyOf (indexRecordFor k (nodeNum r))) l" by (simp add: Let_def)
      have st: "storedTree (nodeAt sel s1) l" "storedTree (nodeAt sel s1) r" "world W1 s1" "spare s1 = f"
        using y Cut by (simp_all add: W1_def)
      obtain nd where nd: "nodeAt sel s1 (nodeNum l) = Inr nd" "records nd \<noteq> []" "hd (records nd) = firstRec l"
        using stored_first [OF st(1) ol] .
      have "distinct (numsOf t @ spare s)"
        using t(2,3) good_spare [OF g] world_facts(4) [OF w(1)] by auto
      note nums = tinsert_list [OF c this]
      have sub1: "set (numsOf l) \<subseteq> W1" "set (numsOf r) \<subseteq> W1" "nodeNum l = nodeNum t"
        using nums(2) t(3) tinsert_shape [OF c] Cut by (auto simp: W1_def)
      then have nl: "nodeNum l \<in> W1" using nodeNum_in by blast
      obtain m f' where f: "f = m # f'" using tinsert_shape [OF c] room(2) by (cases f) auto
      define recs where "recs = [indexRecordFor (keyBytesOf (firstRec l)) (nodeNum l), indexRecordFor k (nodeNum r)]"
      have ri: "rootInsert ns (recCmp keyOf cmp) rec t (spare s)
          = (if recordsFit ns recs then Some (newRoot m l k r, f') else None)"
        using c Cut f by (simp add: rootInsert_def recs_def Let_def)
      have run: "insertBy al sel rec s = growRoot al sel (nodeNum l) k (nodeNum r) s1"
        using s1(1) Cut sub1(3) by (simp add: goOn_def upTo_def)
      note grow = growRoot_step [OF st(3) nl nd(1,2) st(4) [unfolded f], of recs k "nodeNum r", unfolded nd(3), OF recs_def]
      show ?thesis
      proof (cases "recordsFit ns recs")
        case True
        then obtain s2 where s2: "insertBy al sel rec s = (Inr (), s2)" "rootStep W1 m f' recs s1 s2" using grow run by auto
        note rs = s2(2) [unfolded rootStep_def]
        have m: "m \<in> set (spare s)" "m \<notin> set f'"
          using tinsert_suffix [OF c] f good_spare [OF world_facts(1) [OF st(3)]] st(4) by (auto dest: set_mono_suffix)
        then have W: "W \<union> (set (spare s) - set f') = insert m W1" using f by (auto simp: W1_def)
        have same: "sameNode (nodeAt sel s1 n) (nodeAt sel s2 n)" if "n \<in> W1" for n using rs that by blast
        have kids: "storedTree (nodeAt sel s2) l" "storedTree (nodeAt sel s2) r"
          using storedTree_same [OF st(1)] storedTree_same [OF st(2)] same sub1 by blast+
        have ch: "chainTo (nodeAt sel s2) (leavesOf l @ leavesOf r) z" if "chainTo (nodeAt sel s) (leavesOf t) z" for z
        proof (rule chainTo_same [of "nodeAt sel s1"])
          show "chainTo (nodeAt sel s1) (leavesOf l @ leavesOf r) z" using y that Cut by simp
          have "fst ` set (leavesOf l @ leavesOf r) \<subseteq> W1"
            using sub1(1,2) leaves_nums [of l] leaves_nums [of r] unfolding set_append image_Un by blast
          then show "sameNode (nodeAt sel s1 n) (nodeAt sel s2 n)" if "n \<in> fst ` set (leavesOf l @ leavesOf r)" for n
            using that same by blast
        qed
        have "treeStep W t f' (newRoot m l k r) s s2"
          unfolding treeStep_def W
        proof (intro conjI)
          show "editOf sel s s2" using y rs editOf_trans by (auto simp: evolves_def)
          show "storedTree (nodeAt sel s2) (newRoot m l k r)"
            using rs kids newRoot_ordered(2) [OF go] go by (auto simp: newRoot_def recs_def Let_def)
          show "\<forall>n \<in> W - set (numsOf t). sameNode (nodeAt sel s n) (nodeAt sel s2 n)"
            using y same sameNode_trans unfolding evolves_def W1_def by blast
        qed (use rs y ch in \<open>simp_all add: newRoot_def\<close>)
        then show ?thesis using ri True s2(1) by simp
      next
        case False
        then show ?thesis using grow run ri by simp
      qed
    qed
  qed
qed

end

end
