(* ===== verification/FreeNodes.thy ===== *)
theory FreeNodes
  imports TreeWrite
begin

text \<open>
  The free nodes of a tree (\<^verbatim>\<open>btmap.go\<close>, \<^verbatim>\<open>allocNode\<close> of \<^verbatim>\<open>btgrow.go\<close>): the clear bits of the map record in
  the header node, below the number of nodes. As long as there is one, \<^verbatim>\<open>allocNode\<close> takes the least,
  sets its bit, counts it and zeroes the node; this is the interface \<open>node_pool\<close>.
\<close>

section \<open>The map record of a header node\<close>

definition recCount :: "bytes \<Rightarrow> nat" where
  "recCount H = unat (be16 H 10)"

definition mapLo :: "bytes \<Rightarrow> nat" where
  "mapLo H = offsetAt (length H) H 2"

definition mapHi :: "bytes \<Rightarrow> nat" where
  "mapHi H = offsetAt (length H) H (recCount H)"

definition mapOf :: "bytes \<Rightarrow> bytes" where
  "mapOf H = gslice H (mapLo H) (mapHi H)"

text \<open>The header record lies before the map, the offset table behind it.\<close>

definition headerShape :: "bytes \<Rightarrow> bool" where
  "headerShape H \<longleftrightarrow> 3 \<le> recCount H \<and> 120 \<le> mapLo H \<and> mapLo H \<le> mapHi H
     \<and> mapHi H + 2 * (recCount H + 1) \<le> length H \<and> length H < 2 ^ 16"

lemma headerShape_bounds:
  assumes "headerShape H"
  shows "128 \<le> length H" "mapHi H + 2 * (recCount H + 1) \<le> length H" "length (mapOf H) = mapHi H - mapLo H"
    "mapLo H + length (mapOf H) = mapHi H"
  using assms by (auto simp: headerShape_def mapOf_def)

text \<open>Edits inside the header record leave the map alone, and so do the bits of the map with the rest.\<close>

lemma header_edit:
  assumes "headerShape H" "12 \<le> i" "i + length xs \<le> 120 \<or> i = mapLo H \<and> i + length xs = mapHi H"
  shows "recCount (overwrite H i xs) = recCount H" "mapLo (overwrite H i xs) = mapLo H"
    "mapHi (overwrite H i xs) = mapHi H" "headerShape (overwrite H i xs)" "length (overwrite H i xs) = length H"
proof -
  have len: "i + length xs \<le> length H" using assms headerShape_bounds [OF assms(1)] by (auto simp: headerShape_def)
  then show l: "length (overwrite H i xs) = length H" by simp
  have lim: "i + length xs \<le> mapHi H" using assms by (auto simp: headerShape_def)
  show r: "recCount (overwrite H i xs) = recCount H"
    using len assms(2) by (simp add: recCount_def be16_overwrite_other)
  have off: "offsetAt (length H) (overwrite H i xs) j = offsetAt (length H) H j" if "j \<le> recCount H" for j
  proof -
    have "i + length xs \<le> length H - 2 * (j + 1)" "2 * (j + 1) \<le> length H"
      using lim headerShape_bounds [OF assms(1)] that by auto
    then show ?thesis using len by (simp add: offsetAt_def be16_overwrite_other)
  qed
  show "mapLo (overwrite H i xs) = mapLo H" "mapHi (overwrite H i xs) = mapHi H"
    using off l r assms(1) by (simp_all add: mapLo_def mapHi_def headerShape_def)
  then show "headerShape (overwrite H i xs)" using l r assms(1) by (simp add: headerShape_def)
qed

lemma mapOf_edit:
  assumes "headerShape H"
  shows "12 \<le> i \<Longrightarrow> i + length xs \<le> 120 \<Longrightarrow> mapOf (overwrite H i xs) = mapOf H"
    "length xs = length (mapOf H) \<Longrightarrow> mapOf (overwrite H (mapLo H) xs) = xs"
proof -
  show "mapOf (overwrite H i xs) = mapOf H" if "12 \<le> i" "i + length xs \<le> 120"
    unfolding mapOf_def using header_edit [OF assms that(1)] that assms headerShape_bounds [OF assms]
    by (simp add: gslice_overwrite_above headerShape_def)
  show "mapOf (overwrite H (mapLo H) xs) = xs" if "length xs = length (mapOf H)"
    unfolding mapOf_def using header_edit [OF assms, of "mapLo H" xs] that assms headerShape_bounds [OF assms]
    by (simp add: gslice_overwrite_same headerShape_def)
qed

section \<open>Free nodes\<close>

definition freeBits :: "nat \<Rightarrow> bytes \<Rightarrow> nat list" where
  "freeBits N m = filter (\<lambda>i. \<not> getBit m i) [0..<min N (8 * length m)]"

definition spareNodes :: "treeSel \<Rightarrow> nat \<Rightarrow> wst \<Rightarrow> u32 list" where
  "spareNodes sel N s = map of_nat (freeBits N (mapOf (cell sel 0 s)))"

definition poolOK :: "treeSel \<Rightarrow> nat \<Rightarrow> nat \<Rightarrow> wst \<Rightarrow> bool" where
  "poolOK sel N ns s \<longleftrightarrow> placed sel N s \<and> 0 < N \<and> nodeSize (writerOf sel s) = ns \<and> 512 \<le> ns \<and> headerShape (cell sel 0 s)
     \<and> unat (be32 (cell sel 0 s) 36) = N \<and> getBit (mapOf (cell sel 0 s)) 0"

lemma freeBits_Cons:
  assumes "freeBits N m = i # is"
  shows "i < N" "i < 8 * length m" "\<not> getBit m i" "\<forall>j < i. getBit m j"
    "freeBits N (setBit m i) = is"
proof -
  let ?L = "min N (8 * length m)"
  have i: "i \<in> set (freeBits N m)" using assms by simp
  then show lim: "i < N" "i < 8 * length m" "\<not> getBit m i" by (auto simp: freeBits_def)
  have split: "[0..<?L] = [0..<i] @ i # [Suc i..<?L]"
    using lim upt_add_eq_append [of 0 i "?L - i"] upt_conv_Cons [of i ?L] by simp
  show all: "\<forall>j < i. getBit m j"
  proof (rule ccontr)
    assume "\<not> ?thesis"
    then obtain j where j: "j < i" "\<not> getBit m j" by blast
    have "sorted_wrt (<) (freeBits N m)" unfolding freeBits_def by (rule sorted_wrt_filter) simp
    moreover have "j \<in> set (freeBits N m)" using j lim by (simp add: freeBits_def)
    ultimately show False using assms j by auto
  qed
  have in_map: "inMap m i" using lim(2) by (simp add: inMap_def less_mult_imp_div_less mult.commute)
  have "filter (\<lambda>j. \<not> getBit m j) [0..<i] = []" using all by (simp add: filter_empty_conv)
  then have rest: "is = filter (\<lambda>j. \<not> getBit m j) [Suc i..<?L]"
    using assms lim(3) unfolding freeBits_def split by simp
  have "filter (\<lambda>j. \<not> getBit (setBit m i) j) [0..<i] = []" using all in_map by (simp add: filter_empty_conv getBit_setBit)
  moreover have "filter (\<lambda>j. \<not> getBit (setBit m i) j) [Suc i..<?L] = is"
    unfolding rest using in_map by (intro filter_cong) (auto simp: getBit_setBit)
  ultimately show "freeBits N (setBit m i) = is"
    unfolding freeBits_def length_setBit split using in_map by (simp add: getBit_setBit)
qed

text \<open>The scan stops at the first clear bit.\<close>

lemma scanBits_first:
  assumes "\<forall>j < i. getBit m j" "\<not> getBit m i" "i < N" "i < L" "N < 2 ^ 32" "k \<le> i"
  shows "scanBits m 0 (of_nat N) [k..<L] = (True, Some (of_nat i))"
proof -
  have small: "\<not> (of_nat N :: u32) \<le> of_nat j" if "j \<le> i" for j
    using assms(3,5) that by (simp add: word_le_nat_alt unat_of_nat)
  show ?thesis
    using assms(6)
  proof (induction "i - k" arbitrary: k)
    case 0
    then have "k = i" by simp
    then show ?case using assms small [of i] by (simp add: upt_conv_Cons Let_def)
  next
    case (Suc d)
    then have k: "k < i" by simp
    have "scanBits m 0 (of_nat N) [Suc k..<L] = (True, Some (of_nat i))" using Suc k by (intro Suc.hyps(1)) auto
    then show ?case using assms k small [of k] by (simp add: upt_conv_Cons Let_def)
  qed
qed

section \<open>Allocating\<close>

lemma poolOK_facts:
  assumes "poolOK sel N ns s"
  shows "placed sel N s" "nodeSize (writerOf sel s) = ns" "headerShape (cell sel 0 s)" "0 < N" "N < 2 ^ 32"
    "length (cell sel 0 s) = ns" "be32 (cell sel 0 s) 36 = of_nat N" "512 \<le> ns" "ns < 2 ^ 16"
proof -
  show p: "placed sel N s" "nodeSize (writerOf sel s) = ns" "headerShape (cell sel 0 s)" "0 < N" "512 \<le> ns"
    using assms by (auto simp: poolOK_def)
  show "length (cell sel 0 s) = ns" using length_cell [OF p(1), of 0] p(2,4) by simp
  then show "ns < 2 ^ 16" using p(3) by (simp add: headerShape_def)
  have "unat (be32 (cell sel 0 s) 36) = N" using assms by (simp add: poolOK_def)
  then show "be32 (cell sel 0 s) 36 = of_nat N" "N < 2 ^ 32"
    using unsigned_less [of "be32 (cell sel 0 s) 36"] by auto
qed

lemma headerMap_run:
  assumes "poolOK sel N ns s"
  shows "headerMapSlice sel s = (Inr \<lparr>stNode = 0, stLo = mapLo (cell sel 0 s), stBytes = mapOf (cell sel 0 s)\<rparr>, s)"
proof -
  note f = poolOK_facts [OF assms]
  note b = headerShape_bounds [OF f(3)]
  have "unat (NumRecords (parseNodeDescriptor (cell sel 0 s))) = recCount (cell sel 0 s)"
    by (simp add: parseNodeDescriptor_def recCount_def)
  moreover have "offsetAt ns (cell sel 0 s) 2 = mapLo (cell sel 0 s)"
    "offsetAt ns (cell sel 0 s) (recCount (cell sel 0 s)) = mapHi (cell sel 0 s)" using f(6) by (simp_all add: mapLo_def mapHi_def)
  ultimately show ?thesis
    using nodeBytes_cell [OF f(1), of 0] f b
    by (simp add: headerMapSlice_def bnd_def Let_def headerShape_def nodeDescriptorLen_def mapOf_def)
qed

lemma spareNodes_Cons:
  assumes "poolOK sel N ns s" "spareNodes sel N s = n # rest"
  obtains i "is" where "freeBits N (mapOf (cell sel 0 s)) = i # is" "n = of_nat i" "rest = map of_nat is" "unat n = i" "n \<noteq> 0"
proof -
  note f = poolOK_facts [OF assms(1)]
  obtain i "is" where i: "freeBits N (mapOf (cell sel 0 s)) = i # is" "n = of_nat i" "rest = map of_nat is"
    using assms(2) by (auto simp: spareNodes_def)
  have "i < 2 ^ 32" using freeBits_Cons(1) [OF i(1)] f(5) by simp
  then have u: "unat n = i" using i(2) by (simp add: unat_of_nat)
  have "getBit (mapOf (cell sel 0 s)) 0" using assms(1) by (simp add: poolOK_def)
  then have "i \<noteq> 0" using freeBits_Cons(3) [OF i(1)] by metis
  then have "n \<noteq> 0" using u by auto
  then show thesis using that i u by blast
qed

lemma firstFree_run:
  assumes "poolOK sel N ns s" "spareNodes sel N s = n # rest"
  shows "firstFreeNode sel s = (Inr (Some n), s)"
proof -
  note f = poolOK_facts [OF assms(1)]
  obtain i "is" where i: "freeBits N (mapOf (cell sel 0 s)) = i # is" "n = of_nat i" using spareNodes_Cons [OF assms] by blast
  note b = freeBits_Cons [OF i(1)]
  have "totalNodes sel s = (Inr (of_nat N), s)" using hdr_cell(2) [OF f(1,4), of 22] f(7) by (simp add: totalNodes_def)
  moreover have "scanBits (mapOf (cell sel 0 s)) 0 (of_nat N) [0..<length (mapOf (cell sel 0 s)) * 8] = (True, Some n)"
    using scanBits_first [OF b(4,3,1) _ f(5), of "length (mapOf (cell sel 0 s)) * 8" 0] b(2) i(2) by (simp add: mult.commute)
  ultimately show ?thesis
    using headerMap_run [OF assms(1)] by (simp add: firstFreeNode_def freeSlot_def walkMap_def bnd_def ret_def)
qed

text \<open>The header node after the bit was set and the count lowered.\<close>

definition claimed :: "bytes \<Rightarrow> nat \<Rightarrow> bytes" where
  "claimed H i = (let H' = overwrite H (mapLo H) (setBit (mapOf H) i) in overwrite H' 40 (enc32 (be32 H' 40 - 1)))"

lemma claimed_facts:
  assumes "headerShape H"
  shows "headerShape (claimed H i)" "mapOf (claimed H i) = setBit (mapOf H) i" "length (claimed H i) = length H"
    "gslice (claimed H i) 14 32 = gslice H 14 32" "be32 (claimed H i) 36 = be32 H 36" "be32 (claimed H i) 40 = be32 H 40 - 1"
proof -
  let ?m = "setBit (mapOf H) i"
  define H' where "H' = overwrite H (mapLo H) ?m"
  have lo: "12 \<le> mapLo H" "mapLo H + length ?m = mapHi H" "120 \<le> mapLo H"
    using assms headerShape_bounds [OF assms] by (auto simp: headerShape_def)
  have e: "headerShape H'" "length H' = length H"
    unfolding H'_def using header_edit(4,5) [OF assms lo(1), of ?m] lo(2) by auto
  have m: "mapOf H' = ?m" unfolding H'_def by (rule mapOf_edit(2) [OF assms]) simp
  have c: "claimed H i = overwrite H' 40 (enc32 (be32 H' 40 - 1))" by (simp add: claimed_def H'_def Let_def)
  have 4: "12 \<le> (40::nat)" "40 + length (enc32 (be32 H' 40 - 1)) \<le> 120" by simp_all
  show "headerShape (claimed H i)" "length (claimed H i) = length H"
    unfolding c using header_edit(4,5) [OF e(1) 4(1), of "enc32 (be32 H' 40 - 1)"] e(2) by simp_all
  show "mapOf (claimed H i) = ?m" unfolding c using mapOf_edit(1) [OF e(1) 4] m by simp
  have len: "128 \<le> length H" "mapLo H + length ?m \<le> length H" using headerShape_bounds [OF assms] lo by auto
  show "gslice (claimed H i) 14 32 = gslice H 14 32"
    unfolding c H'_def using len lo(3) by (simp add: gslice_overwrite_below)
  show "be32 (claimed H i) 36 = be32 H 36" "be32 (claimed H i) 40 = be32 H 40 - 1"
    unfolding c H'_def using len lo(3) by (simp_all add: codec_simps)
qed

lemma claimed_fixed:
  assumes "headerShape H" "fixedByte k"
  shows "claimed H i ! k = H ! k"
proof -
  have "mapLo H + length (setBit (mapOf H) i) \<le> length H" "120 \<le> mapLo H" "128 \<le> length H"
    using assms(1) headerShape_bounds [OF assms(1)] by (auto simp: headerShape_def)
  then show ?thesis using assms(2) by (auto simp: claimed_def Let_def nth_overwrite fixedByte_def)
qed

lemma setDisk_setDisk [simp]: "setDisk d (setDisk e s) = setDisk d s"
  by (simp add: setDisk_def)

lemma upd_upd:
  assumes "placed sel N s" "unat n < N" "length b = nodeSize (writerOf sel s)" "length b' = nodeSize (writerOf sel s)"
  shows "upd sel n b' (upd sel n b s) = upd sel n b' s"
proof -
  have i: "addr sel n s + length b \<le> length (disk (wvol s))" using placed_inside [OF assms(1,2)] assms(3) by simp
  have a: "addr sel n (upd sel n b s) = addr sel n s" by (rule addr_cong) (simp_all add: upd_disk [OF assms(1-3)])
  have "overwrite (overwrite (disk (wvol s)) (addr sel n s) b) (addr sel n s) b' = overwrite (disk (wvol s)) (addr sel n s) b'"
    using i assms(3,4) by (simp add: overwrite_def)
  then show ?thesis unfolding upd_def [of _ _ _ "upd sel n b s"] a by (simp add: upd_def)
qed

lemma claim_run:
  assumes "poolOK sel N ns s" "spareNodes sel N s = n # rest"
  shows "claimNode sel n s = (Inr n, upd sel n (replicate ns 0) (upd sel 0 (claimed (cell sel 0 s) (unat n)) s))"
proof -
  note f = poolOK_facts [OF assms(1)]
  let ?H = "cell sel 0 s"
  let ?m = "setBit (mapOf ?H) (unat n)" and ?H1 = "overwrite ?H (mapLo ?H) (setBit (mapOf ?H) (unat n))"
  obtain i "is" where i: "freeBits N (mapOf ?H) = i # is" "n = of_nat i" "unat n = i" using spareNodes_Cons [OF assms] by blast
  note b = freeBits_Cons [OF i(1)]
  have 0: "unat (0::u32) < N" using f(4) by simp
  have len1: "length ?H1 = ns" using f(3,6) headerShape_bounds [OF f(3)] by simp
  define s1 where "s1 = upd sel 0 ?H1 s"
  have "length (mapOf ?H) < 2 ^ 16" using headerShape_bounds [OF f(3)] f(6,9) by simp
  then have "inStretch n 0 (mapOf ?H)"
    using b(2) i(3) by (simp add: inStretch_def word_le_nat_alt unat_word_ariths unat_of_nat)
  then have bit: "setNodeBit sel n True s = (Inr (), s1)"
    using headerMap_run [OF assms(1)] liveNode_cell [OF f(1) 0] putNode_cell [OF f(1) 0]
    by (simp add: setNodeBit_def walkMap_def bnd_def ret_def Let_def s1_def)
  have p1: "placed sel N s1" "cell sel 0 s1 = ?H1" "nodeSize (writerOf sel s1) = ns"
    using placed_upd [OF f(1) 0] cell_upd [OF f(1) 0 0] len1 f(2) by (simp_all add: s1_def)
  have free: "freeNodes sel s1 = (Inr (be32 ?H1 40), s1)" using hdr_cell(2) [OF p1(1) f(4), of 26] p1(2) by (simp add: freeNodes_def)
  have c: "overwrite ?H1 40 (enc32 (be32 ?H1 40 - 1)) = claimed ?H (unat n)" by (simp add: claimed_def Let_def)
  define s2 where "s2 = upd sel 0 (claimed ?H (unat n)) s"
  have lc: "length (claimed ?H (unat n)) = ns" using claimed_facts(3) [OF f(3)] f(6) by simp
  have set: "setFreeNodes sel (be32 ?H1 40 - 1) s1 = (Inr (), s2)"
    using hdr_cell(3) [OF p1(1) f(4), of 26] p1(2) c upd_upd [OF f(1) 0, of ?H1 "claimed ?H (unat n)"] len1 lc f(2)
    by (simp add: setFreeNodes_def s1_def s2_def)
  have p2: "placed sel N s2" "nodeSize (writerOf sel s2) = ns" using placed_upd [OF f(1) 0] lc f(2) by (simp_all add: s2_def)
  have "eraseNode sel n s2 = (Inr True, upd sel n (replicate ns 0) s2)"
    using eraseNode_cell [OF p2(1), of n] b(1) i(3) p2(2) by simp
  then show ?thesis using bit free set by (simp add: claimNode_def bnd_def ret_def s2_def)
qed

lemma allocNode_run:
  assumes "poolOK sel N ns s" "spareNodes sel N s = n # rest"
  shows "allocNode sel s = (Inr n, upd sel n (replicate ns 0) (upd sel 0 (claimed (cell sel 0 s) (unat n)) s))"
  using firstFree_run [OF assms] claim_run [OF assms] by (simp add: allocNode_def allocNodeBy_def bnd_def)

section \<open>The pool\<close>

lemma poolOK_frame:
  assumes "poolOK sel N ns s" "placed sel N s'" "nodeSize (writerOf sel s') = ns" "headerShape (cell sel 0 s')"
    "be32 (cell sel 0 s') 36 = be32 (cell sel 0 s) 36" "mapOf (cell sel 0 s') = mapOf (cell sel 0 s)"
  shows "poolOK sel N ns s'" "spareNodes sel N s' = spareNodes sel N s"
  using assms by (auto simp: poolOK_def spareNodes_def)

lemma pool_put:
  assumes "poolOK sel N ns s" "unat n < N" "n \<noteq> 0" "length b = ns"
  shows "poolOK sel N ns (upd sel n b s)" "spareNodes sel N (upd sel n b s) = spareNodes sel N s"
proof -
  note f = poolOK_facts [OF assms(1)]
  have "cell sel 0 (upd sel n b s) = cell sel 0 s" using cell_upd [OF f(1) assms(2), of 0 b] f(2,4) assms(3,4) by simp
  then show "poolOK sel N ns (upd sel n b s)" "spareNodes sel N (upd sel n b s) = spareNodes sel N s"
    using poolOK_frame [OF assms(1), of "upd sel n b s"] f assms by simp_all
qed

lemma pool_hdr:
  assumes "poolOK sel N ns s" "off + length xs \<le> 18"
  shows "poolOK sel N ns (upd sel 0 (overwrite (cell sel 0 s) (14 + off) xs) s)"
    "spareNodes sel N (upd sel 0 (overwrite (cell sel 0 s) (14 + off) xs) s) = spareNodes sel N s"
proof -
  note f = poolOK_facts [OF assms(1)]
  let ?b = "overwrite (cell sel 0 s) (14 + off) xs"
  have e: "12 \<le> 14 + off" "14 + off + length xs \<le> 120" using assms(2) by simp_all
  have l: "length ?b = ns" using f(6,8) assms(2) by simp
  have c: "cell sel 0 (upd sel 0 ?b s) = ?b" using cell_upd [OF f(1), of 0 0 ?b] f(2,4) l by simp
  have "be32 ?b 36 = be32 (cell sel 0 s) 36" using f(6,8) assms(2) by (simp add: be32_overwrite_other)
  then show "poolOK sel N ns (upd sel 0 ?b s)" "spareNodes sel N (upd sel 0 ?b s) = spareNodes sel N s"
    using poolOK_frame [OF assms(1), of "upd sel 0 ?b s"] header_edit(4) [OF f(3) e(1)] mapOf_edit(1) [OF f(3) e] e f l
    unfolding c by simp_all
qed

lemma pool_cache:
  "poolOK sel N ns s \<Longrightarrow> poolOK sel N ns (cacheHeader sel f s) \<and> spareNodes sel N (cacheHeader sel f s) = spareNodes sel N s"
  by (simp add: poolOK_def spareNodes_def)

lemma pool_alloc:
  assumes "poolOK sel N ns s" "spareNodes sel N s = n # rest"
    "s' = upd sel n (replicate ns 0) (upd sel 0 (claimed (cell sel 0 s) (unat n)) s)"
  shows "poolOK sel N ns s'" "spareNodes sel N s' = rest" "cell sel 0 s' = claimed (cell sel 0 s) (unat n)"
    "\<And>m. unat m < N \<Longrightarrow> m \<noteq> 0 \<Longrightarrow> m \<noteq> n \<Longrightarrow> cell sel m s' = cell sel m s" "cell sel n s' = replicate ns 0"
proof -
  note f = poolOK_facts [OF assms(1)]
  let ?H = "cell sel 0 s"
  obtain i "is" where i: "freeBits N (mapOf ?H) = i # is" "rest = map of_nat is" "unat n = i" "n \<noteq> 0"
    using spareNodes_Cons [OF assms(1,2)] by blast
  note b = freeBits_Cons [OF i(1)] and c = claimed_facts [OF f(3), of "unat n"]
  have 0: "unat (0::u32) < N" and n: "unat n < N" using f(4) b(1) i(3) by simp_all
  define s1 where "s1 = upd sel 0 (claimed ?H (unat n)) s"
  have l: "length (claimed ?H (unat n)) = nodeSize (writerOf sel s)" using c(3) f(2,6) by simp
  have p1: "placed sel N s1" "nodeSize (writerOf sel s1) = ns" using placed_upd [OF f(1) 0 l] f(2) by (simp_all add: s1_def)
  have cells1: "cell sel m s1 = (if m = 0 then claimed ?H (unat n) else cell sel m s)" if "unat m < N" for m
    using cell_upd [OF f(1) 0 that l] by (simp add: s1_def)
  have s': "s' = upd sel n (replicate ns 0) s1" by (simp add: assms(3) s1_def)
  have cells: "cell sel m s' = (if m = n then replicate ns 0 else cell sel m s1)" if "unat m < N" for m
    unfolding s' using cell_upd [OF p1(1) n that] p1(2) by simp
  show H: "cell sel 0 s' = claimed ?H (unat n)" using cells [OF 0] cells1 [OF 0] i(4) by auto
  show "cell sel m s' = cell sel m s" if "unat m < N" "m \<noteq> 0" "m \<noteq> n" for m using cells cells1 that by simp
  show "cell sel n s' = replicate ns 0" using cells [OF n] by simp
  have in_map: "inMap (mapOf ?H) (unat n)" using b(2) i(3) by (simp add: inMap_def less_mult_imp_div_less mult.commute)
  have "placed sel N s'" "nodeSize (writerOf sel s') = ns" unfolding s' using placed_upd [OF p1(1) n] p1(2) by simp_all
  then show "poolOK sel N ns s'"
    using c f assms(1) in_map unfolding poolOK_def H by (simp add: getBit_setBit)
  show "spareNodes sel N s' = rest"
    unfolding spareNodes_def H c(2) using b(5) i(2,3) by simp
qed

lemma spareNodes_distinct:
  assumes "poolOK sel N ns s"
  shows "distinct (spareNodes sel N s) \<and> 0 \<notin> set (spareNodes sel N s) \<and> (\<forall>n \<in> set (spareNodes sel N s). unat n < N)"
proof -
  note f = poolOK_facts [OF assms]
  let ?F = "freeBits N (mapOf (cell sel 0 s))"
  have u: "unat (of_nat i :: u32) = i \<and> i < N" if "i \<in> set ?F" for i
    using that f(5) by (auto simp: freeBits_def unat_of_nat)
  then have "inj_on (of_nat :: nat \<Rightarrow> u32) (set ?F)" by (metis inj_onI)
  moreover have "distinct ?F" by (simp add: freeBits_def)
  moreover have "i \<noteq> 0" if "i \<in> set ?F" for i
    using that assms by (auto simp: freeBits_def poolOK_def intro: ccontr)
  then have "0 \<notin> (of_nat :: nat \<Rightarrow> u32) ` set ?F" using u by fastforce
  ultimately show ?thesis using u by (auto simp: spareNodes_def distinct_map)
qed

interpretation pool: node_pool sel N ns "allocNode sel" "spareNodes sel N" "poolOK sel N ns" for sel N ns
proof
  fix s assume a: "poolOK sel N ns s"
  note f = poolOK_facts [OF a]
  show "512 \<le> ns" "ns < 2 ^ 16" "0 < N" "placed sel N s" "nodeSize (writerOf sel s) = ns" by (rule f)+
  show "distinct (spareNodes sel N s) \<and> 0 \<notin> set (spareNodes sel N s) \<and> (\<forall>n \<in> set (spareNodes sel N s). unat n < N)"
    by (rule spareNodes_distinct [OF a])
  show "poolOK sel N ns (upd sel n b s) \<and> spareNodes sel N (upd sel n b s) = spareNodes sel N s"
    if "unat n < N" "n \<noteq> 0" "length b = ns" for n b using pool_put [OF a that] by simp
  show "poolOK sel N ns (upd sel 0 (overwrite (cell sel 0 s) (14 + off) xs) s)
      \<and> spareNodes sel N (upd sel 0 (overwrite (cell sel 0 s) (14 + off) xs) s) = spareNodes sel N s"
    if "off + length xs \<le> 18" for off xs using pool_hdr [OF a that] by simp
  show "poolOK sel N ns (cacheHeader sel f s) \<and> spareNodes sel N (cacheHeader sel f s) = spareNodes sel N s" for f
    by (rule pool_cache [OF a])
next
  fix s n rest assume a: "poolOK sel N ns s" "spareNodes sel N s = n # rest"
  let ?s = "upd sel n (replicate ns 0) (upd sel 0 (claimed (cell sel 0 s) (unat n)) s)"
  note f = poolOK_facts [OF a(1)] and p = pool_alloc [OF a refl]
  have s: "?s = setDisk (disk (wvol ?s)) s" by (simp add: upd_def)
  have n: "unat n < N" "unat (0::u32) < N" using spareNodes_distinct [OF a(1)] a(2) f by simp_all
  have c: "length (claimed (cell sel 0 s) (unat n)) = nodeSize (writerOf sel s)" using claimed_facts(3) [OF f(3)] f by simp
  have "editOf sel s ?s"
    by (rule editOf_trans [OF editOf_upd [OF f(1) n(2) c] editOf_upd [OF placed_upd [OF f(1) n(2) c] n(1)]])
      (use f spareNodes_distinct [OF a(1)] a(2) claimed_fixed [OF f(3)] in simp_all)
  then show "\<exists>d. editOf sel s (setDisk d s) \<and> allocNode sel s = (Inr n, setDisk d s) \<and> poolOK sel N ns (setDisk d s)
      \<and> spareNodes sel N (setDisk d s) = rest
      \<and> (\<forall>m. unat m < N \<longrightarrow> m \<noteq> 0 \<longrightarrow> m \<noteq> n \<longrightarrow> cell sel m (setDisk d s) = cell sel m s)
      \<and> gslice (cell sel 0 (setDisk d s)) 14 32 = gslice (cell sel 0 s) 14 32"
    using allocNode_run [OF a] p claimed_facts(4) [OF f(3)] s by (intro exI [of _ "disk (wvol ?s)"]) simp
qed

end
