(* ===== verification/NodePlaces.thy ===== *)
theory NodePlaces
  imports NodeStore
begin

text \<open>
  Where the nodes of a tree lie: extents that do not overlap and hold whole nodes place the nodes without
  overlap, and the writer's cells (\<^verbatim>\<open>nodeBytes\<close>, \<^verbatim>\<open>btwrite.go\<close>) are the nodes that the reader
  (\<^verbatim>\<open>readNode\<close>, \<^verbatim>\<open>btree.go\<close>) gets through the fork.
\<close>

section \<open>Offsets in extents\<close>

fun offsetIn :: "nat \<Rightarrow> extentDescriptor list \<Rightarrow> nat \<Rightarrow> nat option" where
  "offsetIn bs [] k = None"
| "offsetIn bs (e # es) k =
     (if k < extentSpan bs e then Some (unat (StartBlock e) * bs + k) else offsetIn bs es (k - extentSpan bs e))"

definition spansOf :: "nat \<Rightarrow> extentDescriptor list \<Rightarrow> nat" where
  "spansOf bs es = sum_list (map (extentSpan bs) es)"

lemma spansOf_Cons [simp]: "spansOf bs (e # es) = extentSpan bs e + spansOf bs es" "spansOf bs [] = 0"
  by (simp_all add: spansOf_def)

lemma nodeOffset_nat:
  assumes "base \<le> k" "base + spansOf bs es < 2 ^ 63" "k < 2 ^ 63" "length d < 2 ^ 63" "list_all (extentInside d bs) es"
  shows "nodeOffset (int bs) es (int k) (int base) = map_option int (offsetIn bs es (k - base))"
  using assms
proof (induction es arbitrary: base)
  case (Cons e es)
  have span: "uint (BlockCount e) * int bs = int (extentSpan bs e)" by (simp add: extentSpan_def)
  have start: "uint (StartBlock e) * int bs = int (unat (StartBlock e) * bs)" by simp
  have nxt: "wrap64 (int base + int (extentSpan bs e)) = int (base + extentSpan bs e)"
    using Cons.prems(2) wrap64_nat [of "base + extentSpan bs e"] by simp
  have diff: "wrap64 (int k - int base) = int (k - base)"
    using Cons.prems(1,3) wrap64_nat [of "k - base"] by (simp add: of_nat_diff)
  have inside: "unat (StartBlock e) * bs + extentSpan bs e \<le> length d" using Cons.prems(5) by (simp add: extentInside_def)
  show ?case
  proof (cases "k - base < extentSpan bs e")
    case True
    then have "unat (StartBlock e) * bs + (k - base) < 2 ^ 63" using inside Cons.prems(4) by linarith
    then have "wrap64 (int (unat (StartBlock e) * bs) + int (k - base)) = int (unat (StartBlock e) * bs + (k - base))"
      using wrap64_nat by (metis of_nat_add)
    moreover have "int k < int (base + extentSpan bs e)" using True Cons.prems(1) by linarith
    ultimately show ?thesis using True unfolding nodeOffset.simps Let_def span start nxt diff by simp
  next
    case False
    then have "base + extentSpan bs e \<le> k" using Cons.prems(1) by linarith
    then have "nodeOffset (int bs) es (int k) (int (base + extentSpan bs e))
        = map_option int (offsetIn bs es (k - (base + extentSpan bs e)))"
      using Cons.prems by (intro Cons.IH) simp_all
    then show ?thesis
      using False Cons.prems(1) \<open>base + extentSpan bs e \<le> k\<close> unfolding nodeOffset.simps Let_def span start nxt diff by simp
  qed
qed simp

lemma offsetIn_slice:
  assumes "list_all (extentInside d bs) es" "\<forall>e \<in> set es. ns dvd extentSpan bs e" "ns dvd k" "k + ns \<le> spansOf bs es" "0 < ns"
  shows "\<exists>a. offsetIn bs es k = Some a \<and> a + ns \<le> length d \<and> gslice d a (a + ns) = gslice (forkContent d bs es) k (k + ns)"
  using assms
proof (induction es arbitrary: k)
  case (Cons e es)
  have inside: "unat (StartBlock e) * bs + extentSpan bs e \<le> length d" using Cons.prems(1) by (simp add: extentInside_def)
  have len: "length (extentContent d bs e) = extentSpan bs e" using Cons.prems(1) by (simp add: length_extentContent)
  show ?case
  proof (cases "k < extentSpan bs e")
    case True
    have "ns dvd extentSpan bs e - k" using Cons.prems(2,3) True by (simp add: dvd_diff_nat)
    then have fit: "k + ns \<le> extentSpan bs e" using True dvd_imp_le [of ns "extentSpan bs e - k"] by simp
    let ?a = "unat (StartBlock e) * bs + k"
    have "gslice (forkContent d bs (e # es)) k (k + ns) = gslice (extentContent d bs e) k (k + ns)"
      using fit len by (simp add: forkContent_def gslice_def)
    also have "\<dots> = gslice d ?a (?a + ns)"
      using fit by (simp add: extentContent_def gslice_gslice add.assoc)
    finally show ?thesis using True fit inside by simp
  next
    case False
    let ?k = "k - extentSpan bs e"
    have "ns dvd ?k" "?k + ns \<le> spansOf bs es" using Cons.prems(2-4) False by (simp_all add: dvd_diff_nat)
    then obtain a where a: "offsetIn bs es ?k = Some a" "a + ns \<le> length d" "gslice d a (a + ns) = gslice (forkContent d bs es) ?k (?k + ns)"
      using Cons.IH [of ?k] Cons.prems by auto
    have "gslice (forkContent d bs (e # es)) k (k + ns) = gslice (forkContent d bs es) ?k (?k + ns)"
      using False len by (simp add: forkContent_def gslice_def)
    then show ?thesis using a False by simp
  qed
qed simp

text \<open>Extents whose blocks do not overlap.\<close>

definition apartExts :: "nat \<Rightarrow> extentDescriptor \<Rightarrow> extentDescriptor \<Rightarrow> bool" where
  "apartExts bs e f \<longleftrightarrow> unat (StartBlock e) * bs + extentSpan bs e \<le> unat (StartBlock f) * bs
     \<or> unat (StartBlock f) * bs + extentSpan bs f \<le> unat (StartBlock e) * bs"

lemma offsetIn_in:
  assumes "\<forall>e \<in> set es. ns dvd extentSpan bs e" "ns dvd k" "0 < ns" "offsetIn bs es k = Some a"
  shows "\<exists>e \<in> set es. unat (StartBlock e) * bs \<le> a \<and> a + ns \<le> unat (StartBlock e) * bs + extentSpan bs e"
  using assms
proof (induction es arbitrary: k)
  case (Cons e es)
  show ?case
  proof (cases "k < extentSpan bs e")
    case True
    have "ns dvd extentSpan bs e - k" using Cons.prems(1,2) True by (simp add: dvd_diff_nat)
    then have "k + ns \<le> extentSpan bs e" using True dvd_imp_le [of ns "extentSpan bs e - k"] by simp
    then show ?thesis using True Cons.prems(4) by auto
  next
    case False
    have "ns dvd k - extentSpan bs e" using Cons.prems(1,2) by (simp add: dvd_diff_nat)
    then show ?thesis using Cons.IH [of "k - extentSpan bs e"] Cons.prems False by auto
  qed
qed simp

lemma offsetIn_apart:
  assumes "sorted_wrt (apartExts bs) es" "\<forall>e \<in> set es. ns dvd extentSpan bs e" "ns dvd k" "ns dvd l" "k < l" "0 < ns"
    "offsetIn bs es k = Some a" "offsetIn bs es l = Some b"
  shows "a + ns \<le> b \<or> b + ns \<le> a"
  using assms
proof (induction es arbitrary: k l)
  case (Cons e es)
  have kl: "k + ns \<le> l" using Cons.prems(3-5) by (metis dvd_diff_nat dvd_imp_le le_add_diff_inverse less_imp_le nat_add_left_cancel_le zero_less_diff)
  have dvd: "ns dvd k - extentSpan bs e" "ns dvd l - extentSpan bs e" using Cons.prems(2-4) by (simp_all add: dvd_diff_nat)
  consider "l < extentSpan bs e" | "k < extentSpan bs e" "\<not> l < extentSpan bs e" | "\<not> k < extentSpan bs e" by blast
  then show ?case
  proof cases
    case 1
    then show ?thesis using Cons.prems(5,7,8) kl by auto
  next
    case 2
    then have b: "offsetIn bs es (l - extentSpan bs e) = Some b" and a: "a = unat (StartBlock e) * bs + k" using Cons.prems(7,8) by auto
    obtain f where f: "f \<in> set es" "unat (StartBlock f) * bs \<le> b" "b + ns \<le> unat (StartBlock f) * bs + extentSpan bs f"
      using offsetIn_in [OF _ dvd(2) _ b] Cons.prems(2,6) by auto
    have "ns dvd extentSpan bs e - k" using Cons.prems(2,3) 2 by (simp add: dvd_diff_nat)
    then have "k + ns \<le> extentSpan bs e" using 2 dvd_imp_le [of ns "extentSpan bs e - k"] by simp
    moreover have "apartExts bs e f" using Cons.prems(1) f(1) by simp
    ultimately show ?thesis using f a by (auto simp: apartExts_def)
  next
    case 3
    then show ?thesis
      using Cons.IH [of "k - extentSpan bs e" "l - extentSpan bs e"] Cons.prems dvd by auto
  qed
qed simp

section \<open>Nodes in extents\<close>

definition laidOut :: "treeSel \<Rightarrow> nat \<Rightarrow> nat \<Rightarrow> wst \<Rightarrow> bool" where
  "laidOut sel N ns s \<longleftrightarrow>
     (let w = writerOf sel s; bs = unat (BlockSize (vh (wvol s))); es = bwExtents w
      in bwBs w = int bs \<and> nodeSize w = ns \<and> 0 < ns \<and> list_all (extentInside (disk (wvol s)) bs) es
         \<and> spansOf bs es < 2 ^ 63 \<and> length (disk (wvol s)) < 2 ^ 63 \<and> (\<forall>e \<in> set es. ns dvd extentSpan bs e)
         \<and> N * ns \<le> spansOf bs es \<and> sorted_wrt (apartExts bs) es)"

lemma node_room: "n < N \<Longrightarrow> n * ns + ns \<le> N * (ns::nat)"
proof -
  assume "n < N"
  then have "(n + 1) * ns \<le> N * ns" by (intro mult_le_mono1) simp
  then show ?thesis by simp
qed

lemma laidOut_addr:
  assumes "laidOut sel N ns s" "unat n < N"
  shows "nodeAddr sel n s = Inr (Some (addr sel n s))"
    "offsetIn (unat (BlockSize (vh (wvol s)))) (bwExtents (writerOf sel s)) (unat n * ns) = Some (addr sel n s)"
    "cell sel n s = gslice (forkContent (disk (wvol s)) (unat (BlockSize (vh (wvol s)))) (bwExtents (writerOf sel s)))
       (unat n * ns) (unat n * ns + ns)"
proof -
  define w bs es d where "w = writerOf sel s" and "bs = unat (BlockSize (vh (wvol s)))" and "es = bwExtents w" and "d = disk (wvol s)"
  note l = assms(1) [unfolded laidOut_def Let_def, folded w_def bs_def es_def d_def]
  let ?k = "unat n * ns"
  have k: "?k + ns \<le> spansOf bs es" using node_room [OF assms(2), of ns] l by linarith
  obtain a where a: "offsetIn bs es ?k = Some a" "a + ns \<le> length d" "gslice d a (a + ns) = gslice (forkContent d bs es) ?k (?k + ns)"
    using offsetIn_slice [of d bs es ns ?k] l k by auto
  have "nodeOffset (int bs) es (int ?k) (int 0) = map_option int (offsetIn bs es (?k - 0))"
    by (rule nodeOffset_nat [of _ _ _ _ d]) (use l k in auto)
  then have "nodeOffset (bwBs w) es (uint n * int (nodeSize w)) 0 = Some (int a)" using a(1) l by simp
  then have addr: "nodeAddr sel n s = Inr (Some a)"
    using a(2) l by (simp add: nodeAddr_def Let_def flip: w_def es_def d_def)
  then have "addr sel n s = a" by (simp add: addr_def)
  then show "nodeAddr sel n s = Inr (Some (addr sel n s))"
    "offsetIn (unat (BlockSize (vh (wvol s)))) (bwExtents (writerOf sel s)) (unat n * ns) = Some (addr sel n s)"
    "cell sel n s = gslice (forkContent (disk (wvol s)) (unat (BlockSize (vh (wvol s)))) (bwExtents (writerOf sel s)))
       (unat n * ns) (unat n * ns + ns)"
    using addr a l by (simp_all add: cell_def flip: w_def bs_def es_def d_def)
qed

lemma laidOut_placed: "laidOut sel N ns s \<Longrightarrow> placed sel N s"
proof -
  assume lay: "laidOut sel N ns s"
  have "addr sel m s + ns \<le> addr sel n s \<or> addr sel n s + ns \<le> addr sel m s"
    if "unat m < N" "unat n < N" "unat m < unat n" for m n
  proof (rule offsetIn_apart)
    show "offsetIn (unat (BlockSize (vh (wvol s)))) (bwExtents (writerOf sel s)) (unat m * ns) = Some (addr sel m s)"
      "offsetIn (unat (BlockSize (vh (wvol s)))) (bwExtents (writerOf sel s)) (unat n * ns) = Some (addr sel n s)"
      using laidOut_addr(2) [OF lay] that by auto
  qed (use lay that in \<open>auto simp: laidOut_def Let_def\<close>)
  moreover have "unat m < unat n \<or> unat n < unat m" if "m \<noteq> n" for m n :: u32
    using that by (metis linorder_neqE_nat unsigned_word_eqI)
  moreover have "nodeSize (writerOf sel s) = ns" using lay by (simp add: laidOut_def Let_def)
  ultimately show ?thesis
    unfolding placed_def using laidOut_addr(1) [OF lay] by metis
qed

section \<open>The reader's nodes\<close>

text \<open>The volume's cached tree has the fork that the writer writes to.\<close>

definition mirrors :: "treeSel \<Rightarrow> nat \<Rightarrow> nat \<Rightarrow> wst \<Rightarrow> btree \<Rightarrow> bool" where
  "mirrors sel N ns s t \<longleftrightarrow> laidOut sel N ns s \<and> treeOf sel s = Some t \<and> fextents (tf t) = bwExtents (writerOf sel s)
     \<and> 0 \<le> fsize (tf t) \<and> int (N * ns) \<le> fsize (tf t)
     \<and> fsize (tf t) \<le> int (spansOf (unat (BlockSize (vh (wvol s)))) (bwExtents (writerOf sel s)))
     \<and> unat (NodeSize (theader t)) = ns \<and> N \<le> 2 ^ 24 \<and> N * ns \<le> length (disk (wvol s)) \<and> wr (wvol s)"

lemma mirrors_forkOK: "mirrors sel N ns s t \<Longrightarrow> forkOK (wvol s) (tf t)"
  by (simp add: mirrors_def laidOut_def forkOK_def Let_def spansOf_def)

lemma mirrors_read:
  assumes "mirrors sel N ns s t" "unat n < N"
  shows "readNode (wvol s) t n = nodeAt sel s n"
proof -
  note m = assms(1) [unfolded mirrors_def]
  have lay: "laidOut sel N ns s" and ns: "nodeSize (writerOf sel s) = ns" "0 < ns" using m by (auto simp: laidOut_def Let_def)
  have room: "unat n * ns + ns \<le> N * ns" by (rule node_room [OF assms(2)])
  then have i: "int (unat n * ns + ns) \<le> fsize (tf t)" using m by linarith
  then have "unat n * ns + ns \<le> nat (fsize (tf t))" by linarith
  then have "ns \<le> nat (fsize (tf t)) - unat n * ns" by linarith
  then have "gslice (forkBytes (wvol s) (tf t)) (unat n * ns) (unat n * ns + ns) = cell sel n s"
    unfolding laidOut_addr(3) [OF lay assms(2)] forkBytes_def using m by (simp add: gslice_def drop_take)
  then show ?thesis
    using readNode_slice [OF mirrors_forkOK [OF assms(1)] _ ns(2) i] m ns(1) by (simp add: nodeAt_def)
qed

lemma mirrors_edit:
  assumes "mirrors sel N ns s t" "editOf sel s s'"
  obtains t' where "mirrors sel N ns s' t'" "KeyCompare (theader t') = KeyCompare (theader t)" "tf t' = tf t"
proof -
  obtain d f where e: "length d = length (disk (wvol s))" "harmless f" "s' = cacheHeader sel f (setDisk d s)"
    using assms(2) by (auto simp: editOf_def sameOutside_def)
  let ?t = "t\<lparr>theader := f (theader t)\<rparr>"
  have v: "vh (wvol s') = vh (wvol s)" "wr (wvol s') = wr (wvol s)" "length (disk (wvol s')) = length (disk (wvol s))"
    using e by (cases sel; simp add: cacheHeader_def setDisk_def)+
  have w: "writerOf sel s' = writerOf sel s" by (rule editOf_writer [OF assms(2)])
  have inside: "extentInside (disk (wvol s')) bs = extentInside (disk (wvol s)) bs" for bs
    using v(3) by (simp add: extentInside_def fun_eq_iff)
  have "laidOut sel N ns s'" using assms(1) unfolding mirrors_def laidOut_def w v inside by blast
  moreover have "treeOf sel s' = Some ?t" using assms(1) e(3) by (simp add: mirrors_def)
  ultimately have "mirrors sel N ns s' ?t" using assms(1) e(2) unfolding mirrors_def w v by (simp add: harmless_def)
  then show thesis using that e(2) by (simp add: harmless_def)
qed

text \<open>The reader's bound on a walk exceeds the number of nodes.\<close>

lemma le_div_pos: "a * b \<le> c \<Longrightarrow> 0 < b \<Longrightarrow> a \<le> c div (b::int)"
  using zdiv_mono1 [of "a * b" c b] by simp

lemma extentBytes_least:
  assumes "0 < bs" "0 \<le> n" "n \<le> maxForkBytes"
  shows "min (n + int (spansOf bs es)) maxForkBytes \<le> extentBytes_loop (int bs) es n"
  using assms(2,3)
proof (induction es arbitrary: n)
  case (Cons e es)
  have span: "uint (BlockCount e) * int bs = int (extentSpan bs e)" by (simp add: extentSpan_def)
  show ?case
  proof (cases "uint (BlockCount e) > (maxForkBytes - n) div int bs")
    case False
    let ?q = "(maxForkBytes - n) div int bs"
    have "?q * int bs \<le> maxForkBytes - n"
      using div_mult_mod_eq [of "maxForkBytes - n" "int bs"] pos_mod_sign [of "int bs" "maxForkBytes - n"] assms(1) by linarith
    moreover have "uint (BlockCount e) * int bs \<le> ?q * int bs" using False by (intro mult_right_mono) simp_all
    ultimately have "uint (BlockCount e) * int bs \<le> maxForkBytes - n" by linarith
    then have "n + int (extentSpan bs e) \<le> maxForkBytes" unfolding span by simp
    then show ?thesis using Cons.IH [of "n + int (extentSpan bs e)"] Cons.prems False span by (simp add: algebra_simps)
  qed simp
qed simp

lemma mirrors_maxNodes:
  assumes "mirrors sel N ns s t" "0 < N"
  shows "int N \<le> maxNodes (wvol s) t"
proof -
  note m = assms(1) [unfolded mirrors_def laidOut_def Let_def]
  let ?bs = "unat (BlockSize (vh (wvol s)))"
  have "spansOf 0 es = 0" for es by (induction es) (simp_all add: extentSpan_def)
  moreover have "0 < N * ns" using m assms(2) by simp
  ultimately have bs: "0 < ?bs" using m by (cases "?bs = 0") auto
  define span where "span = extentBytes (wvol s) (tf t)"
  have least: "min (int (spansOf ?bs (bwExtents (writerOf sel s)))) maxForkBytes \<le> span"
    unfolding span_def extentBytes_def using extentBytes_least [OF bs, of 0 "fextents (tf t)"] m by (simp add: maxForkBytes_def)
  have cap: "capacity (wvol s) = int (length (disk (wvol s)))" using m by (simp add: capacity_def)
  have "unat (NodeSize (theader t)) = ns" using m by blast
  then have ns: "uint (NodeSize (theader t)) = int ns" by auto
  have "N * ns \<le> 2 ^ 24 * 2 ^ 16"
    using m unsigned_less [of "NodeSize (theader t)", where 'a = nat] by (intro mult_le_mono) auto
  then have "int (N * ns) \<le> int (2 ^ 24 * 2 ^ 16)" by (simp only: of_nat_le_iff)
  moreover have "N * ns \<le> spansOf ?bs (bwExtents (writerOf sel s))" using m by blast
  ultimately have "int (N * ns) \<le> min (int (spansOf ?bs (bwExtents (writerOf sel s)))) maxForkBytes"
    by (simp add: maxForkBytes_def del: of_nat_mult)
  then have "int (N * ns) \<le> span" using least by linarith
  then have "int N * int ns \<le> int (length (disk (wvol s)))" "int N * int ns \<le> span"
    using m by (simp_all flip: of_nat_mult)
  then have "int N \<le> int (length (disk (wvol s))) div int ns" "int N \<le> span div int ns"
    using m by (auto intro: le_div_pos)
  then show ?thesis using m unfolding maxNodes_def Let_def ns span_def [symmetric] cap by auto
qed

end
