(* ===== verification/InsertRecord.thy ===== *)
theory InsertRecord
  imports TreeRefine FreeNodes NodePlaces CatalogSearch Extents
begin

text \<open>
  \<^verbatim>\<open>insert\<close> with \<^verbatim>\<open>allocNode\<close> on the catalog and on the extents-overflow tree: a well-formed tree becomes the
  well-formed tree with one more record. The interfaces \<open>tree_keys\<close> and \<open>tree_writer\<close> are interpreted
  here for both trees.
\<close>

section \<open>Keys of index records\<close>

lemma index_record:
  assumes "recordKeyLen r = Some kl"
  shows "recordKeyLen (indexRecordFor (keyBytesOf r) c) = Some kl"
    "gslice (indexRecordFor (keyBytesOf r) c) 2 (2 + kl) = gslice r 2 (2 + kl)"
    "indexChild (indexRecordFor (keyBytesOf r) c) = Some c"
proof -
  let ?k = "keyBytesOf r" and ?ir = "indexRecordFor (keyBytesOf r) c"
  have r: "kl = unat (be16 r 0)" "2 + kl \<le> length r" using recordKeyLen_Some [OF assms] by auto
  have k: "?k = gslice r 0 (2 + kl)" "length ?k = 2 + kl" using assms r by (simp_all add: keyBytesOf_def)
  obtain pad where pad: "padEven ?k = ?k @ pad" "length (padEven ?k) = (if (2 + kl) mod 2 \<noteq> 0 then 2 + kl + 1 else 2 + kl)"
    using k(2) by (cases "length ?k mod 2 \<noteq> 0") (simp_all add: padEven_def)
  have ir: "?ir = ?k @ pad @ enc32 c" using pad(1) by (simp add: indexRecordFor_def)
  have "be16 ?ir 0 = be16 ?k 0" unfolding ir using k(2) by (intro be16_append_left) simp
  also have "\<dots> = be16 r 0" unfolding k(1) using r be16_gslice [of 0 "2 + kl" 0 r] by simp
  finally show len: "recordKeyLen ?ir = Some kl" using r k(2) ir by (simp add: recordKeyLen_def)
  show "gslice ?ir 2 (2 + kl) = gslice r 2 (2 + kl)"
    unfolding ir using k r by (simp add: gslice_def drop_take)
  have "recordData ?ir = Some (enc32 c)"
    using len pad(2) by (simp add: recordData_def indexRecordFor_def)
  then show "indexChild ?ir = Some c" by (simp add: indexChild_def be32_enc32)
qed

text \<open>The pool of \<open>FreeNodes\<close> is a source of nodes for every kind of keys.\<close>

sublocale tree_keys \<subseteq> writer: tree_writer sel N ns "allocNode sel" "spareNodes sel N" "poolOK sel N ns" cmp keyOf
  for sel N ns ..

interpretation catKeys: tree_keys "compareCatalogKey t" keyFromRecord for t
proof
  fix r k c assume k: "keyFromRecord r = Some k"
  then obtain kl where kl: "recordKeyLen r = Some kl" by (auto simp: keyFromRecord_def split: option.splits)
  show "keyFromRecord (indexRecordFor (keyBytesOf r) c) = Some k"
    using k index_record(1,2) [OF kl] kl by (simp add: keyFromRecord_def)
  show "indexChild (indexRecordFor (keyBytesOf r) c) = Some c" by (rule index_record(3) [OF kl])
qed

interpretation extKeys: tree_keys compareExtentsKey extentsKeyOfRecord
proof
  fix r k c assume k: "extentsKeyOfRecord r = Some k"
  then obtain kl where kl: "recordKeyLen r = Some kl" by (auto simp: extentsKeyOfRecord_def split: option.splits)
  show "extentsKeyOfRecord (indexRecordFor (keyBytesOf r) c) = Some k"
    using k index_record(1,2) [OF kl] kl by (simp add: extentsKeyOfRecord_def)
  show "indexChild (indexRecordFor (keyBytesOf r) c) = Some c" by (rule index_record(3) [OF kl])
qed

section \<open>Well-formed trees\<close>

text \<open>A tree in the nodes of an image: root, nodes, order, leaf chain, and a node bitmap that has none of its
  nodes free.\<close>

definition wellTree :: "(bytes \<Rightarrow> 'k option) \<Rightarrow> ('k \<Rightarrow> 'k \<Rightarrow> int) \<Rightarrow> treeSel \<Rightarrow> nat \<Rightarrow> nat \<Rightarrow> wst \<Rightarrow> tnode \<Rightarrow> bool" where
  "wellTree keyOf cmp sel N ns s t \<longleftrightarrow>
     poolOK sel N ns s \<and> rooted sel (nodeNum t) s \<and> storedTree (nodeAt sel s) t
     \<and> distinct (numsOf t @ spareNodes sel N s) \<and> (\<forall>n \<in> set (numsOf t). n \<noteq> 0 \<and> unat n < N)
     \<and> linked (nodeAt sel s) ns (set (numsOf t)) \<and> chainTo (nodeAt sel s) (leavesOf t) 0
     \<and> ordered keyOf cmp (rootLow keyOf t) None t"

text \<open>Room for an insertion: one free node per level and one for a new root.\<close>

definition roomFor :: "treeSel \<Rightarrow> nat \<Rightarrow> wst \<Rightarrow> tnode \<Rightarrow> bool" where
  "roomFor sel N s t \<longleftrightarrow> treeHeight t \<le> 63 \<and> treeHeight t < length (spareNodes sel N s)"

definition newKey :: "(bytes \<Rightarrow> 'k option) \<Rightarrow> ('k \<Rightarrow> 'k \<Rightarrow> int) \<Rightarrow> tnode \<Rightarrow> bytes \<Rightarrow> bool" where
  "newKey keyOf cmp t rec \<longleftrightarrow>
     recIn keyOf cmp (rootLow keyOf t) None rec \<and> (\<forall>r \<in> set (treeRecs t). recCmp keyOf cmp r rec \<noteq> 0)"

context tree_keys
begin

lemma insert_well:
  assumes "wellTree keyOf cmp sel N ns s t" "compareRecords sel s = recCmp keyOf cmp" "newKey keyOf cmp t rec" "roomFor sel N s t"
  shows "case rootInsert ns (recCmp keyOf cmp) rec t (spareNodes sel N s) of
      None \<Rightarrow> fst (insert_rec sel rec s) = Inl ErrNodeFull
    | Some (t', fresh) \<Rightarrow> \<exists>s'. insert_rec sel rec s = (Inr (), s') \<and> editOf sel s s' \<and> wellTree keyOf cmp sel N ns s' t'
        \<and> spareNodes sel N s' = fresh \<and> countField sel s' = countField sel s + 1
        \<and> inserted rec (treeRecs t) (treeRecs t') \<and> treeHeight t' \<le> 64"
proof -
  let ?W = "set (numsOf t)"
  note w = assms(1) [unfolded wellTree_def] and k = assms(3) [unfolded newKey_def] and r = assms(4) [unfolded roomFor_def]
  have world: "writer.world sel N ns ?W s" unfolding writer.world_def using w by auto
  have ok: "case rootInsert ns (recCmp keyOf cmp) rec t (spareNodes sel N s) of
      None \<Rightarrow> fst (insertBy (allocNode sel) sel rec s) = Inl ErrNodeFull
    | Some (t', fresh) \<Rightarrow> \<exists>s'. insertBy (allocNode sel) sel rec s = (Inr (), s') \<and> writer.treeStep sel N ns ?W t fresh t' s s'"
    by (rule writer.insert_root [OF world assms(2)]) (use w k r in auto)
  show ?thesis
  proof (cases "rootInsert ns (recCmp keyOf cmp) rec t (spareNodes sel N s)")
    case None
    then show ?thesis using ok by (simp add: insert_rec_def)
  next
    case (Some x)
    then obtain t' fresh where ri: "rootInsert ns (recCmp keyOf cmp) rec t (spareNodes sel N s) = Some (t', fresh)" by (cases x) auto
    then obtain s' where s': "insertBy (allocNode sel) sel rec s = (Inr (), s')" "writer.treeStep sel N ns ?W t fresh t' s s'"
      using ok by auto
    have dist: "distinct (numsOf t @ spareNodes sel N s)" using w by simp
    note l = rootInsert_list [OF ri dist]
    note st = s'(2) [unfolded writer.treeStep_def l(2) [symmetric] writer.world_def]
    have o: "ordered keyOf cmp (rootLow keyOf t') None t'" "inserted rec (treeRecs t) (treeRecs t')"
      using rootInsert_ordered [OF _ _ _ ri] w k by auto
    have "wellTree keyOf cmp sel N ns s' t'"
      unfolding wellTree_def using st w l(1) o(1) by auto
    then show ?thesis using ri s'(1) st o(2) l(3) r by (simp add: insert_rec_def)
  qed
qed

end

section \<open>The reader's view\<close>

lemma leaves_count: "length (leavesOf t) \<le> length (numsOf t)"
proof (induction t rule: tnode_induct)
  case (TIndex n cs)
  have "length (concat (map (\<lambda>p. leavesOf (snd p)) ds)) \<le> length (concat (map (\<lambda>p. numsOf (snd p)) ds))"
    if "set ds \<subseteq> set cs" for ds
    using that
  proof (induction ds)
    case (Cons d ds)
    then show ?case using TIndex.IH [of d] by simp
  qed simp
  from this [of cs] show ?case by simp
qed simp

lemma distinct_below: "distinct ns \<Longrightarrow> \<forall>n \<in> set ns. unat (n :: u32) < N \<Longrightarrow> length ns \<le> N"
proof -
  assume d: "distinct ns" "\<forall>n \<in> set ns. unat n < N"
  have "inj_on unat (set ns)" by (rule inj_onI) (rule unsigned_word_eqI)
  then have "card (unat ` set ns) = length ns" using d(1) by (simp add: card_image distinct_card)
  moreover have "card (unat ` set ns) \<le> card {..<N}" using d(2) by (intro card_mono) auto
  ultimately show ?thesis by simp
qed

context tree_keys
begin

lemma wellTree_holds:
  assumes w: "wellTree keyOf cmp sel N ns s t" and m: "mirrors sel N ns s bt" and "treeHeight t \<le> 64"
  shows "holdsTree keyOf cmp (wvol s) bt (Some t)"
proof -
  note w = w [unfolded wellTree_def]
  have N: "0 < N" using w by (auto intro: poolOK_facts)
  have same: "sameNode (nodeAt sel s n) (readNode (wvol s) bt n)" if "n \<in> set (numsOf t)" for n
    using linked_node [of "nodeAt sel s" ns "set (numsOf t)" n] mirrors_read [OF m, of n] w that by simp
  have leaf: "sameNode (nodeAt sel s n) (readNode (wvol s) bt n)" "n \<noteq> 0" if "n \<in> fst ` set (leavesOf t)" for n
    using same leaves_nums that w by blast+
  have "chainTo (readNode (wvol s) bt) (leavesOf t) 0"
    by (rule chainTo_same [of "nodeAt sel s"]) (use w leaf in auto)
  then have chain: "chained (readNode (wvol s) bt) (leavesOf t)" using leaf(2) by (auto simp: chained_chainTo)
  have "length (leavesOf t) \<le> N" using leaves_count [of t] distinct_below [of "numsOf t" N] w by auto
  then have "int (length (leavesOf t)) \<le> maxNodes (wvol s) bt" using mirrors_maxNodes [OF m N] by simp
  moreover have "storedTree (readNode (wvol s) bt) t"
    by (rule storedTree_same [of "nodeAt sel s"]) (use w same in auto)
  moreover have "RootNode (theader bt) = nodeNum t" "nodeNum t \<noteq> 0"
    using w m nodeNum_in [of t] by (auto simp: rooted_def mirrors_def)
  ultimately show ?thesis
    using chain assms(3) ordered_searchable w by (auto simp: holdsTree_def)
qed

lemma wellTree_ascending: "wellTree keyOf cmp sel N ns s t \<Longrightarrow> ascending keyOf cmp (recsOf (Some t))"
  unfolding wellTree_def ascending_def recsOf_def using ordered_ascending by auto

end

section \<open>Lookups after an insertion\<close>

lemma keyCompare_cong:
  assumes "KeyCompare (theader t') = KeyCompare (theader t)"
  shows "compareCatalogKey t' = compareCatalogKey t" "nameEqual env t' = nameEqual env t"
    "keyMatches env t' = keyMatches env t" "namesAgree env t' = namesAgree env t" "lookupSpec env t' = lookupSpec env t"
proof -
  show c: "compareCatalogKey t' = compareCatalogKey t" "nameEqual env t' = nameEqual env t"
    using assms by (simp_all add: compareCatalogKey_def nameEqual_def fun_eq_iff)
  show k: "keyMatches env t' = keyMatches env t" by (intro ext) (simp add: keyMatches_def c split: option.split)
  show "lookupSpec env t' = lookupSpec env t" by (intro ext) (simp add: lookupSpec_def k)
  show "namesAgree env t' = namesAgree env t" by (intro ext) (simp add: namesAgree_def c)
qed

definition foundRec :: "bytes \<Rightarrow> catalogRecord option result" where
  "foundRec rec = bindR (decodeRecord rec) (\<lambda>cr. Inr (Some cr))"

lemma lookupSpec_inserted:
  assumes "inserted rec rs rs'" "namesAgree env t key (rec # rs)"
    "newKey keyFromRecord (compareCatalogKey t) tr rec" "rs = treeRecs tr"
  shows "lookupSpec env t key rs' = (if keyMatches env t key rec then foundRec rec else lookupSpec env t key rs)"
proof -
  obtain xs ys where x: "rs = xs @ ys" "rs' = xs @ rec # ys" using assms(1) by (auto simp: inserted_def)
  have "find P (xs @ zs) = (case find P xs of None \<Rightarrow> find P zs | r \<Rightarrow> r)" for P and zs :: "bytes list"
    by (induction xs) auto
  note app = this
  have none: "find (keyMatches env t key) xs = None" if m: "keyMatches env t key rec"
    unfolding find_None_iff
  proof (intro notI)
    assume "\<exists>r. r \<in> set xs \<and> keyMatches env t key r"
    then obtain r where r: "r \<in> set xs" "keyMatches env t key r" by blast
    obtain k kr where k: "keyFromRecord rec = Some k" "keyFromRecord r = Some kr" "parentID k = parentID key" "parentID kr = parentID key"
      "nameEqual env t (cname k) (cname key)" "nameEqual env t (cname kr) (cname key)"
      using m r(2) by (auto simp: keyMatches_def split: option.splits)
    have agree: "keyHolds keyFromRecord (\<lambda>k. parentID k = parentID key \<longrightarrow>
        (nameEqual env t (cname k) (cname key) \<longleftrightarrow> compareCatalogKey t k key = 0)) r'" if "r' \<in> set (rec # rs)" for r'
      using assms(2) that unfolding namesAgree_def list_all_iff by blast
    have "compareCatalogKey t k key = 0" "compareCatalogKey t kr key = 0"
      using agree [of rec] agree [of r] r(1) x(1) k by (simp_all add: keyHolds_def)
    then have "compareCatalogKey t kr k = 0"
      using catOrder.cmp_trans [of t kr key k] catOrder.cmp_trans [of t k key kr] catOrder.cmp_swap [of t k kr]
        catOrder.cmp_swap [of t k key] catOrder.cmp_swap [of t kr key] by simp
    moreover have "recCmp keyFromRecord (compareCatalogKey t) r rec \<noteq> 0"
      using assms(3,4) r(1) x(1) unfolding newKey_def by (metis Un_iff set_append)
    ultimately show False using k by (simp add: recCmp_def)
  qed
  show ?thesis
    using none by (auto simp: lookupSpec_def x app foundRec_def split: option.split)
qed

end
