(* ===== verification/NodeSamples.thy ===== *)
theory NodeSamples
  imports FreeNodes NodePlaces
begin

text \<open>
  Small transaction states on which the theorems about the tree writers are evaluated: an image that
  starts with the nodes of one tree, 512 bytes each, the first of them a header node.
\<close>

definition headerNode :: "u16 \<Rightarrow> u32 \<Rightarrow> u32 \<Rightarrow> u32 \<Rightarrow> u32 \<Rightarrow> byte \<Rightarrow> bytes" where
  "headerNode depth root recs nodes free used =
     enc32 0 @ enc32 0 @ enc16 0x100 @ enc16 3 @ enc16 0 @ enc16 depth @ enc32 root @ enc32 recs @ enc32 root @ enc32 root
     @ enc16 512 @ enc16 516 @ enc32 nodes @ enc32 free @ replicate 204 0
     @ used # replicate 255 0 @ enc16 504 @ enc16 248 @ enc16 120 @ enc16 14"

text \<open>Behind the nodes the image may have more blocks, \<open>blks\<close>, which the allocator \<open>a\<close> manages.\<close>

definition nodeState :: "treeSel \<Rightarrow> u32 \<Rightarrow> bytes list \<Rightarrow> bytes \<Rightarrow> allocator \<Rightarrow> wst" where
  "nodeState sel root nodes blks a =
     (let t = nodeTree root root keyCompareBinary nodes; t0 = nodeTree 0 0 keyCompareBinary [];
          w = \<lparr>nodeSize = 512, bwExtents = fextents (tf t), bwBs = 512\<rparr>;
          w0 = \<lparr>nodeSize = 512, bwExtents = [], bwBs = 512\<rparr>
      in case sel of
           forkCatalogFile \<Rightarrow>
             \<lparr>wvol = vol.extend ((nodeVol nodes)\<lparr>disk := concat nodes @ blks\<rparr>) \<lparr>catalogTree = t, extentsTree = None\<rparr>,
              walc = a, wcat = w, wext = w0\<rparr>
         | forkExtentsFile \<Rightarrow>
             \<lparr>wvol = vol.extend ((nodeVol nodes)\<lparr>disk := concat nodes @ blks\<rparr>) \<lparr>catalogTree = t0, extentsTree = Some t\<rparr>,
              walc = a, wcat = w0, wext = w\<rparr>)"

lemmas nodeState_simps = nodeState_def Let_def nodeVol_def nodeTree_def vol.defs writerOf_def treeOf_def sampleHeader_def

lemma nodeState_mirrors:
  assumes "\<forall>b \<in> set nodes. length b = 512" "length nodes < 2 ^ 20" "length blks < 2 ^ 50"
  shows "mirrors sel (length nodes) 512 (nodeState sel root nodes blks a) (nodeTree root root keyCompareBinary nodes)"
proof -
  have u: "unat (of_nat (length nodes) :: u32) = length nodes" using assms(2) by (simp add: unat_of_nat)
  show ?thesis
    using assms(2,3) u length_concat_nodes [OF assms(1)]
    by (cases sel) (simp_all add: mirrors_def laidOut_def nodeState_simps extentInside_def extentSpan_def spansOf_def)
qed

lemma nodeState_cell:
  assumes "\<forall>b \<in> set nodes. length b = 512" "length nodes < 2 ^ 20" "unat n < length nodes" "length blks < 2 ^ 50"
  shows "cell sel n (nodeState sel root nodes blks a) = nodes ! unat n"
proof -
  let ?s = "nodeState sel root nodes blks a"
  have lay: "laidOut sel (length nodes) 512 ?s" using nodeState_mirrors [OF assms(1,2,4)] by (simp add: mirrors_def)
  have u: "unat (of_nat (length nodes) :: u32) = length nodes" using assms(2) by (simp add: unat_of_nat)
  have "forkContent (disk (wvol ?s)) 512 (bwExtents (writerOf sel ?s)) = concat nodes"
    using u length_concat_nodes [OF assms(1)]
    by (cases sel) (simp_all add: nodeState_simps forkContent_def extentContent_def extentSpan_def gslice_def)
  then show ?thesis
    using laidOut_addr(3) [OF lay assms(3)] gslice_concat_nodes [OF assms(1,3)]
    by (cases sel) (simp_all add: nodeState_simps)
qed

lemma be_Cons: "1 \<le> i \<Longrightarrow> be16 (x # xs) i = be16 xs (i - 1)" "1 \<le> i \<Longrightarrow> be32 (x # xs) i = be32 xs (i - 1)"
  using be16_append_right [of "[x]" i xs] be32_append_right [of "[x]" i xs] by simp_all

lemma headerNode_facts:
  fixes depth root recs nodes free used
  defines "H \<equiv> headerNode depth root recs nodes free used"
  shows "length H = 512" "headerShape H" "be32 H 16 = root" "be32 H 20 = recs" "be32 H 36 = nodes" "be32 H 40 = free"
    "mapOf H = used # replicate 255 0"
proof -
  show len: "length H = 512" by (simp add: H_def headerNode_def)
  have offs: "be16 H 508 = 120" "be16 H 506 = 248" "be16 H 504 = 504" "be16 H 10 = 3"
    unfolding H_def headerNode_def by (simp_all add: be16_append_right be16_append_left be16_enc16 be_Cons)
  then have m: "recCount H = 3" "mapLo H = 248" "mapHi H = 504"
    by (simp_all add: recCount_def mapLo_def mapHi_def offsetAt_def len)
  then show "headerShape H" by (simp add: headerShape_def len)
  show "be32 H 16 = root" "be32 H 20 = recs" "be32 H 36 = nodes" "be32 H 40 = free"
    unfolding H_def headerNode_def by (simp_all add: be32_append_right be32_append_left be32_enc32)
  show "mapOf H = used # replicate 255 0"
    unfolding mapOf_def m unfolding H_def headerNode_def by (simp add: gslice_def)
qed

text \<open>The bitmap of such a header node: only its first byte has bits set.\<close>

definition clearIn :: "byte \<Rightarrow> nat \<Rightarrow> nat list" where
  "clearIn used k = filter (\<lambda>i. \<not> bit used (7 - i)) [0..<k]"

lemma nodeState_pool:
  assumes "\<forall>b \<in> set rest. length b = 512" "length rest < 8" "bit used 7" "length blks < 2 ^ 50"
    and s: "s = nodeState sel root (headerNode depth root recs (of_nat (Suc (length rest))) free used # rest) blks a"
  shows "poolOK sel (Suc (length rest)) 512 s" "spareNodes sel (Suc (length rest)) s = map of_nat (clearIn used (Suc (length rest)))"
    "rooted sel root s" "countField sel s = recs" "mirrors sel (Suc (length rest)) 512 s
       (nodeTree root root keyCompareBinary (headerNode depth root recs (of_nat (Suc (length rest))) free used # rest))"
    "\<And>i. i < length rest \<Longrightarrow> cell sel (of_nat (Suc i)) s = rest ! i"
proof -
  define H where "H = headerNode depth root recs (of_nat (Suc (length rest))) free used"
  note h = headerNode_facts [of depth root recs "of_nat (Suc (length rest))" free used, folded H_def]
  have all: "\<forall>b \<in> set (H # rest). length b = 512" "length (H # rest) < 2 ^ 20" using assms h(1) by auto
  note s = s [folded H_def]
  show m: "mirrors sel (Suc (length rest)) 512 s (nodeTree root root keyCompareBinary (H # rest))"
    unfolding s using nodeState_mirrors [OF all assms(4), of sel root a] by simp
  have c: "cell sel 0 s = H" unfolding s using nodeState_cell [OF all _ assms(4), of 0 sel root a] by simp
  have lay: "laidOut sel (Suc (length rest)) 512 s" using m by (simp add: mirrors_def)
  have u: "unat (of_nat (Suc (length rest)) :: u32) = Suc (length rest)"
    using assms(2) by (subst unat_of_nat) (simp add: take_bit_nat_eq_self)
  have g: "getBit (mapOf H) i = bit used (7 - i)" if "i < 8" for i
    using that unfolding h(7) by (simp add: getBit_bit)
  show "poolOK sel (Suc (length rest)) 512 s"
    using laidOut_placed [OF lay] lay h g [of 0] assms(3) u unfolding poolOK_def c by (simp add: laidOut_def Let_def)
  show "spareNodes sel (Suc (length rest)) s = map of_nat (clearIn used (Suc (length rest)))"
    unfolding spareNodes_def c freeBits_def clearIn_def using g assms(2)
    by (intro arg_cong [where f = "map _"] filter_cong) (auto simp: h(7))
  show "rooted sel root s" "countField sel s = recs"
    using h(3,4) unfolding rooted_def rootField_def countField_def c by (cases sel; simp add: s nodeState_simps)+
  show "cell sel (of_nat (Suc i)) s = rest ! i" if i: "i < length rest" for i
  proof -
    have "unat (of_nat (Suc i) :: u32) = Suc i" using i assms(2) by (subst unat_of_nat) (simp add: take_bit_nat_eq_self)
    then show ?thesis unfolding s using nodeState_cell [OF all _ assms(4), of "of_nat (Suc i)" sel root a] i by simp
  qed
qed

end
