(* ===== verification/InsertCorrect.thy ===== *)
theory InsertCorrect
  imports InsertRecord NodeSamples
begin

text \<open>
  What \<^verbatim>\<open>allocNode\<close> and \<^verbatim>\<open>insert\<close> do to a tree, as statements about whole transaction states, and their
  instances on small images.
\<close>

section \<open>A tree of one leaf\<close>

text \<open>Node 1 is the only leaf, the nodes 2 and 3 are free.\<close>

definition leafOn :: "treeSel \<Rightarrow> bytes list \<Rightarrow> bytes \<Rightarrow> allocator \<Rightarrow> wst" where
  "leafOn sel rs blks a =
     nodeState sel 1 [headerNode 1 1 (of_nat (length rs)) 4 2 0xC0,
       snd (packNode 512 (sampleDesc kindLeafNode 0) rs), replicate 512 0, replicate 512 0] blks a"

abbreviation leafState :: "treeSel \<Rightarrow> bytes list \<Rightarrow> wst" where
  "leafState sel rs \<equiv> leafOn sel rs [] \<lparr>bitmap = [], bits = 0\<rparr>"

lemma leafState_facts:
  assumes fit: "recordsFit 512 rs" and s: "s = leafOn sel rs blks a" and blks: "length blks < 2 ^ 50"
  shows "poolOK sel 4 512 s" "spareNodes sel 4 s = [2, 3]" "rooted sel 1 s" "countField sel s = of_nat (length rs)"
    "\<exists>bt. mirrors sel 4 512 s bt \<and> KeyCompare (theader bt) = keyCompareBinary"
    "nodeAt sel s 1 = Inr \<lparr>desc = (sampleDesc kindLeafNode 0)\<lparr>NumRecords := of_nat (length rs)\<rparr>, records = rs\<rparr>"
    "roomFor sel 4 s (TLeaf 1 rs)"
proof -
  define leaf where "leaf = snd (packNode 512 (sampleDesc kindLeafNode 0) rs)"
  have all: "\<forall>b \<in> set [leaf, replicate 512 0, replicate 512 0]. length b = 512" using fit by (simp add: leaf_def length_packNode)
  have 8: "length [leaf, replicate 512 0, replicate 512 0] < 8" and top: "bit (0xC0 :: byte) 7" by (simp_all add: bit_iff_odd)
  have s': "s = nodeState sel 1 (headerNode 1 1 (of_nat (length rs)) (of_nat (Suc (length [leaf, replicate 512 0, replicate 512 0]))) 2 0xC0
      # [leaf, replicate 512 0, replicate 512 0]) blks a"
    by (simp add: s leafOn_def leaf_def)
  note p = nodeState_pool [OF all 8 top blks s']
  have four: "Suc (length [leaf, replicate 512 0, replicate 512 (0::byte)]) = 4" by simp
  show p1: "poolOK sel 4 512 s" "rooted sel 1 s" "countField sel s = of_nat (length rs)"
    using p(1,3,4) unfolding four by auto
  have "clearIn 0xC0 4 = [2, 3]" by code_simp
  then show sp: "spareNodes sel 4 s = [2, 3]" using p(2) unfolding four by simp
  then show "roomFor sel 4 s (TLeaf 1 rs)" by (simp add: roomFor_def)
  show "\<exists>bt. mirrors sel 4 512 s bt \<and> KeyCompare (theader bt) = keyCompareBinary"
    using p(5) unfolding four by (intro exI conjI) (assumption, simp add: nodeTree_def)
  have "cell sel 1 s = leaf" using p(6) [of 0] by simp
  then show "nodeAt sel s 1 = Inr \<lparr>desc = (sampleDesc kindLeafNode 0)\<lparr>NumRecords := of_nat (length rs)\<rparr>, records = rs\<rparr>"
    using p1(1) node_roundtrip [OF fit, of "sampleDesc kindLeafNode 0"] by (simp add: nodeAt_def leaf_def poolOK_def)
qed

lemma leafState_well:
  assumes fit: "recordsFit 512 rs" and s: "s = leafOn sel rs blks a" and "ordered keyOf cmp None None (TLeaf 1 rs)"
    and blks: "length blks < 2 ^ 50"
  shows "wellTree keyOf cmp sel 4 512 s (TLeaf 1 rs)"
  unfolding wellTree_def using leafState_facts [OF fit s blks] assms(3)
  by (simp add: linked_def rootLow_def sampleDesc_def fit)

section \<open>Nodes\<close>

text \<open>
  C23. \<^verbatim>\<open>allocNode\<close> (\<^verbatim>\<open>btgrow.go\<close>) on a tree with a free node: it returns the least node number whose bit in
  the map record is clear, sets exactly that bit, lowers the free-node count by one, zeroes that node
  and leaves every other node as it was.
\<close>

theorem alloc_node_takes_least:
  assumes "poolOK sel N ns s" "\<exists>i < min N (8 * length (mapOf (cell sel 0 s))). \<not> getBit (mapOf (cell sel 0 s)) i"
  shows "\<exists>n s'. allocNode sel s = (Inr n, s')
    \<and> unat n = (LEAST i. \<not> getBit (mapOf (cell sel 0 s)) i)
    \<and> mapOf (cell sel 0 s') = setBit (mapOf (cell sel 0 s)) (unat n)
    \<and> be32 (cell sel 0 s') 40 = be32 (cell sel 0 s) 40 - 1
    \<and> cell sel n s' = replicate ns 0 \<and> poolOK sel N ns s'
    \<and> (\<forall>m. unat m < N \<longrightarrow> m \<noteq> 0 \<longrightarrow> m \<noteq> n \<longrightarrow> cell sel m s' = cell sel m s)"
proof -
  let ?m = "mapOf (cell sel 0 s)"
  have "freeBits N ?m \<noteq> []" using assms(2) by (auto simp: freeBits_def filter_empty_conv)
  then obtain n rest where sp: "spareNodes sel N s = n # rest" by (cases "freeBits N ?m") (auto simp: spareNodes_def)
  obtain i "is" where i: "freeBits N ?m = i # is" "unat n = i" using spareNodes_Cons [OF assms(1) sp] by blast
  note b = freeBits_Cons [OF i(1)]
  have "(LEAST j. \<not> getBit ?m j) = i" using b(3,4) by (intro Least_equality) (auto simp: not_le [symmetric])
  moreover define s' where "s' = upd sel n (replicate ns 0) (upd sel 0 (claimed (cell sel 0 s) (unat n)) s)"
  note p = pool_alloc [OF assms(1) sp s'_def]
  have shape: "headerShape (cell sel 0 s)" using assms(1) by (simp add: poolOK_def)
  ultimately show ?thesis
    using allocNode_run [OF assms(1) sp, folded s'_def] p i(2) claimed_facts(2,6) [OF shape] by auto
qed

theorem alloc_node_takes_least_witness:
  "\<exists>s'. allocNode forkCatalogFile (leafState forkCatalogFile [threadRec]) = (Inr 2, s')
     \<and> cell forkCatalogFile 2 s' = replicate 512 0"
proof -
  define s where "s = leafState forkCatalogFile [threadRec]"
  have fit: "recordsFit 512 [threadRec]" by (simp add: recordsFit_alt nodeDescriptorLen_def sample_lengths)
  note f = leafState_facts [OF fit s_def, simplified]
  let ?m = "mapOf (cell forkCatalogFile 0 s)"
  obtain i "is" where i: "freeBits 4 ?m = i # is" "unat (2::u32) = i" using spareNodes_Cons [OF f(1,2)] by blast
  note b = freeBits_Cons [OF i(1)]
  have least: "(LEAST j. \<not> getBit ?m j) = 2" using b(3,4) i(2) by (intro Least_equality) (auto simp: not_le [symmetric])
  obtain n s' where "allocNode forkCatalogFile s = (Inr n, s')" "unat n = 2" "cell forkCatalogFile n s' = replicate 512 0"
    using alloc_node_takes_least [OF f(1)] least b(1-3) by auto
  moreover from \<open>unat n = 2\<close> have "n = 2" by (intro unsigned_word_eqI [where 'a = nat]) simp
  ultimately show ?thesis unfolding s_def by auto
qed

section \<open>Insertion into the catalog\<close>

text \<open>
  C12. \<^verbatim>\<open>insert\<close> on the catalog refines insertion into a search tree. The tree is well formed in the image
  (its nodes decode to it, the leaves are chained, keys are ordered, no node of it is free), the key is new
  and not below the first one, and there are free nodes for a split on every level. Then the loops of
  \<^verbatim>\<open>btops.go\<close> compute the recursive insertion: they fail with \<^verbatim>\<open>errNodeFull\<close> exactly when a half of a split node
  does not fit, and otherwise leave a well-formed tree that has the old records and the new one, with the
  free nodes, the record count and everything outside the nodes accounted for.
\<close>

theorem catalog_insert_correct:
  fixes s defines "cmp \<equiv> compareCatalogKey (catalogTree (wvol s))"
  assumes "wellTree keyFromRecord cmp forkCatalogFile N ns s t" "newKey keyFromRecord cmp t rec"
    and "roomFor forkCatalogFile N s t"
  shows "case rootInsert ns (recCmp keyFromRecord cmp) rec t (spareNodes forkCatalogFile N s) of
      None \<Rightarrow> fst (insert_rec forkCatalogFile rec s) = Inl ErrNodeFull
    | Some (t', fresh) \<Rightarrow> \<exists>s'. insert_rec forkCatalogFile rec s = (Inr (), s') \<and> editOf forkCatalogFile s s'
        \<and> wellTree keyFromRecord cmp forkCatalogFile N ns s' t' \<and> inserted rec (treeRecs t) (treeRecs t')
        \<and> spareNodes forkCatalogFile N s' = fresh \<and> countField forkCatalogFile s' = countField forkCatalogFile s + 1"
proof -
  have "compareRecords forkCatalogFile s = recCmp keyFromRecord cmp"
    by (intro ext) (simp add: compareRecords_def recCmp_def cmp_def)
  from catKeys.insert_well [OF assms(2) [unfolded cmp_def] this [unfolded cmp_def] assms(3) [unfolded cmp_def] assms(4)]
  show ?thesis unfolding cmp_def by (auto split: option.splits)
qed

text \<open>A catalog leaf with one file; a second file record does not fit beside it.\<close>

definition fileRec2 :: bytes where
  "fileRec2 = assembleCatalogRecord (encodeCatalogKey 16 [0x63]) (encodeFileRecord 18 0 0x81A4 sampleData)"

definition fileState :: wst where
  "fileState = leafState forkCatalogFile [fileRec]"

lemma file2:
  "keyFromRecord fileRec2 = Some \<lparr>parentID = 16, cname = [0x63], nameU16 = Some [0x63]\<rparr>" "length fileRec2 = 258"
  "recordKeyLen fileRec = Some 8" "recordKeyLen fileRec2 = Some 8"
proof -
  have u: "length (utf16Encode [c]) = 1" if "c < 128" for c using that by (simp add: utf16Encode_def encodeRune_def validRune_def)
  show "keyFromRecord fileRec2 = Some \<lparr>parentID = 16, cname = [0x63], nameU16 = Some [0x63]\<rparr>" "length fileRec2 = 258"
    by (simp_all add: fileRec2_def record_of_key fitName_ascii)
      (simp_all add: utf16Encode_def encodeRune_def validRune_def assembleCatalogRecord_def length_encodeCatalogKey)
  show "recordKeyLen fileRec = Some 8" "recordKeyLen fileRec2 = Some 8"
    unfolding fileRec_def fileRec2_def using recordKeyLen_catalog [of "[0x62]"] recordKeyLen_catalog [of "[0x63]"] u
    by (simp_all add: assembleCatalogRecord_def)
qed

lemma fileState_cmp:
  "recCmp keyFromRecord (compareCatalogKey (catalogTree (wvol fileState))) fileRec fileRec2 = -1"
  by (simp add: recCmp_def sample_keys file2 compareCatalogKey_ordSign ordSign_def less_prod_def sortUnits_def keyUnits_def
      fileState_def leafOn_def nodeState_simps)

lemma fileState_facts:
  defines "cmp \<equiv> compareCatalogKey (catalogTree (wvol fileState))"
  shows "wellTree keyFromRecord cmp forkCatalogFile 4 512 fileState (TLeaf 1 [fileRec])"
    "newKey keyFromRecord cmp (TLeaf 1 [fileRec]) fileRec2" "roomFor forkCatalogFile 4 fileState (TLeaf 1 [fileRec])"
    "\<exists>t'. rootInsert 512 (recCmp keyFromRecord cmp) fileRec2 (TLeaf 1 [fileRec]) (spareNodes forkCatalogFile 4 fileState) = Some (t', [])
       \<and> treeHeight t' = 2"
proof -
  have fit: "recordsFit 512 [fileRec]" "recordsFit 512 [fileRec2]" "\<not> recordsFit 512 [fileRec, fileRec2]"
    by (simp_all add: recordsFit_alt nodeDescriptorLen_def sample_lengths file2)
  note f = leafState_facts [OF fit(1) fileState_def, simplified]
  have in1: "recIn keyFromRecord cmp None None r" if "r \<in> {fileRec, fileRec2}" for r
    using that by (auto simp: recIn_def within_def sample_keys file2)
  show "wellTree keyFromRecord cmp forkCatalogFile 4 512 fileState (TLeaf 1 [fileRec])"
    by (rule leafState_well [OF fit(1) fileState_def]) (simp_all add: in1)
  show "newKey keyFromRecord cmp (TLeaf 1 [fileRec]) fileRec2"
    using fileState_cmp in1 by (simp add: newKey_def rootLow_def cmp_def)
  show "roomFor forkCatalogFile 4 fileState (TLeaf 1 [fileRec])" by (rule f(7))
  have ins: "insertSorted (recCmp keyFromRecord cmp) [fileRec] fileRec2 = [fileRec, fileRec2]"
    using fileState_cmp by (simp add: insertSorted_def sortSearch.simps cmp_def)
  have keys: "length (keyBytesOf fileRec) = 10" "length (keyBytesOf fileRec2) = 10"
    by (simp_all add: keyBytesOf_def file2 sample_lengths)
  have root: "recordsFit 512 [indexRecordFor (keyBytesOf fileRec) 1, indexRecordFor (keyBytesOf fileRec2) 2]"
    by (simp add: recordsFit_alt nodeDescriptorLen_def indexRecordFor_def padEven_def keys)
  show "\<exists>t'. rootInsert 512 (recCmp keyFromRecord cmp) fileRec2 (TLeaf 1 [fileRec]) (spareNodes forkCatalogFile 4 fileState) = Some (t', [])
      \<and> treeHeight t' = 2"
    using fit root ins by (simp add: f(2) rootInsert_def leafPut_def firstRec_def Let_def newRoot_def)
qed

theorem catalog_insert_correct_witness:
  "\<exists>s' t'. insert_rec forkCatalogFile fileRec2 fileState = (Inr (), s') \<and> treeHeight t' = 2
     \<and> wellTree keyFromRecord (compareCatalogKey (catalogTree (wvol fileState))) forkCatalogFile 4 512 s' t'
     \<and> inserted fileRec2 [fileRec] (treeRecs t') \<and> spareNodes forkCatalogFile 4 s' = []"
proof -
  obtain t' where "rootInsert 512 (recCmp keyFromRecord (compareCatalogKey (catalogTree (wvol fileState)))) fileRec2
      (TLeaf 1 [fileRec]) (spareNodes forkCatalogFile 4 fileState) = Some (t', [])" "treeHeight t' = 2"
    using fileState_facts(4) by blast
  with catalog_insert_correct [OF fileState_facts(1-3)] show ?thesis
    by (intro exI [of _ "snd (insert_rec forkCatalogFile fileRec2 fileState)"] exI [of _ t']) auto
qed

text \<open>
  C9. Insert, then look up: after a successful \<^verbatim>\<open>insert\<close> of a catalog record, \<^verbatim>\<open>lookup\<close> through the volume's own
  tree finds that record under its key, and under every other key exactly what it found before, however
  many nodes were split on the way. The hypothesis \<open>mirrors\<close> says that the volume reads the tree through the
  same extents as the writer, \<open>namesAgree\<close> that the two notions of equal names agree on the names involved.
\<close>

theorem catalog_insert_lookup:
  fixes s defines "ct \<equiv> catalogTree (wvol s)"
  assumes well: "wellTree keyFromRecord (compareCatalogKey ct) forkCatalogFile N ns s t"
    and new: "newKey keyFromRecord (compareCatalogKey ct) t rec" and room: "roomFor forkCatalogFile N s t"
    and mir: "mirrors forkCatalogFile N ns s ct" and names: "namesAgree env ct key (rec # treeRecs t)"
    and ins: "insert_rec forkCatalogFile rec s = (Inr (), s')"
  shows "lookup env (wvol s') (catalogTree (wvol s')) key
    = (if keyMatches env ct key rec then foundRec rec else lookup env (wvol s) ct key)"
proof -
  have cmp: "compareRecords forkCatalogFile s = recCmp keyFromRecord (compareCatalogKey ct)"
    by (intro ext) (simp add: compareRecords_def recCmp_def ct_def)
  have h: "treeHeight t \<le> 64" using room by (simp add: roomFor_def)
  obtain t' where t': "editOf forkCatalogFile s s'" "wellTree keyFromRecord (compareCatalogKey ct) forkCatalogFile N ns s' t'"
    "inserted rec (treeRecs t) (treeRecs t')" "treeHeight t' \<le> 64"
    using catKeys.insert_well [OF well cmp new room] ins by (auto split: option.splits)
  obtain ct' where ct': "mirrors forkCatalogFile N ns s' ct'" "KeyCompare (theader ct') = KeyCompare (theader ct)"
    using mirrors_edit [OF mir t'(1)] by blast
  have eq: "catalogTree (wvol s') = ct'" using ct'(1) by (simp add: mirrors_def treeOf_def)
  note k = keyCompare_cong [OF ct'(2)]
  have "namesAgree env ct key (treeRecs t')" "namesAgree env ct key (treeRecs t)"
    using names t'(3) by (auto simp: namesAgree_def inserted_def)
  then have "lookup env (wvol s') ct' key = lookupSpec env ct key (treeRecs t')"
    "lookup env (wvol s) ct key = lookupSpec env ct key (treeRecs t)"
    using lookup_refines [OF catKeys.wellTree_holds [OF well mir h] catKeys.wellTree_ascending [OF well]]
      lookup_refines [of ct' "wvol s'" "Some t'" env key] catKeys.wellTree_holds [OF t'(2) ct'(1) t'(4)]
      catKeys.wellTree_ascending [OF t'(2)] k
    by (simp_all add: recsOf_def)
  then show ?thesis unfolding eq using lookupSpec_inserted [OF t'(3) names new] by simp
qed

theorem catalog_insert_lookup_witness:
  "\<exists>s'. insert_rec forkCatalogFile fileRec2 fileState = (Inr (), s')
     \<and> lookup sampleEnv (wvol s') (catalogTree (wvol s')) \<lparr>parentID = 16, cname = [0x63], nameU16 = None\<rparr> = foundRec fileRec2
     \<and> lookup sampleEnv (wvol s') (catalogTree (wvol s')) \<lparr>parentID = 16, cname = [0x62], nameU16 = None\<rparr>
       = lookup sampleEnv (wvol fileState) (catalogTree (wvol fileState)) \<lparr>parentID = 16, cname = [0x62], nameU16 = None\<rparr>"
proof -
  let ?ct = "catalogTree (wvol fileState)"
  obtain s' where s': "insert_rec forkCatalogFile fileRec2 fileState = (Inr (), s')"
    using catKeys.insert_well [OF fileState_facts(1) _ fileState_facts(2,3)] fileState_facts(4)
    by (force simp: compareRecords_def recCmp_def)
  have fit: "recordsFit 512 [fileRec]" by (simp add: recordsFit_alt nodeDescriptorLen_def sample_lengths)
  obtain bt where bt: "mirrors forkCatalogFile 4 512 fileState bt" "KeyCompare (theader bt) = keyCompareBinary"
    using leafState_facts(5) [OF fit fileState_def] by auto
  then have ct: "mirrors forkCatalogFile 4 512 fileState ?ct" "KeyCompare (theader ?ct) = keyCompareBinary"
    by (auto simp: mirrors_def treeOf_def)
  have "namesAgree sampleEnv ?ct \<lparr>parentID = 16, cname = [c], nameU16 = None\<rparr> (fileRec2 # treeRecs (TLeaf 1 [fileRec]))"
    if "c = 0x62 \<or> c = 0x63" for c
    using that by (auto simp: namesAgree_def keyHolds_def sample_keys file2 nameEqual_def ct(2) compareCatalogKey_ordSign
        sortUnits_def keyUnits_def ordSign_def less_prod_def utf16Encode_def encodeRune_def validRune_def)
  note l = catalog_insert_lookup [OF fileState_facts(1-3) ct(1) this s']
  show ?thesis
    using s' l [of "0x63"] l [of "0x62"] by (auto simp: keyMatches_def file2 nameEqual_def ct(2))
qed

end
