(* ===== verification/ExtentInsert.thy ===== *)
theory ExtentInsert
  imports InsertCorrect
begin

text \<open>
  Insertion into the extents-overflow tree. All its leaf records have 76 bytes and all its index records 16,
  so cutting a node in the middle always gives two nodes that fit: insertion never fails as long as there
  are free nodes.
\<close>

section \<open>Records of one size\<close>

definition sized :: "nat \<Rightarrow> bytes \<Rightarrow> bool" where
  "sized len r \<longleftrightarrow> length r = len \<and> recordKeyLen r = Some 10"

fun uniform :: "tnode \<Rightarrow> bool" where
  "uniform (TLeaf n rs) = (\<forall>r \<in> set rs. sized 76 r)"
| "uniform (TIndex n cs) = (\<forall>p \<in> set cs. sized 16 (fst p) \<and> uniform (snd p))"

fun grownUniform :: "grown \<Rightarrow> bool" where
  "grownUniform (Fit t) = uniform t"
| "grownUniform (Cut l k r) = (uniform l \<and> uniform r \<and> (\<exists>len. sized len (firstRec l)) \<and> (\<exists>len rec. k = keyBytesOf rec \<and> sized len rec))"

lemma sized_key: "sized len r \<Longrightarrow> length (keyBytesOf r) = 12"
  using recordKeyLen_Some by (fastforce simp: sized_def keyBytesOf_def)

lemma sized_index: "sized len r \<Longrightarrow> sized 16 (indexRecordFor (keyBytesOf r) c)"
  using index_record(1) [of r 10 c] sized_key [of len r]
  by (simp add: sized_def) (simp add: indexRecordFor_def padEven_def)

lemma sum_sized: "\<forall>r \<in> set rs. sized len r \<Longrightarrow> sum_list (map length rs) = len * length rs"
  by (induction rs) (auto simp: sized_def)

lemma fit_sized: "\<forall>r \<in> set rs. sized len r \<Longrightarrow> recordsFit ns rs \<longleftrightarrow> 16 + length rs * (len + 2) \<le> ns"
  by (simp add: recordsFit_alt sum_sized nodeDescriptorLen_def algebra_simps)

text \<open>One record too many: each half fits.\<close>

lemma halves_fit:
  assumes "\<forall>r \<in> set rs. sized len r" "length rs = Suc k" "16 + k * (len + 2) \<le> ns" "\<not> recordsFit ns rs" "16 + (len + 2) \<le> ns"
  shows "recordsFit ns (take (length rs div 2) rs)" "recordsFit ns (drop (length rs div 2) rs)"
    "0 < length rs div 2" "length rs div 2 < length rs"
proof -
  have "k \<noteq> 0" using assms(2,4,5) fit_sized [OF assms(1), of ns] by (cases k) auto
  then show m: "0 < length rs div 2" "length rs div 2 < length rs" using assms(2) by auto
  have part: "recordsFit ns xs" if "set xs \<subseteq> set rs" "length xs \<le> k" for xs
  proof -
    have "length xs * (len + 2) \<le> k * (len + 2)" using that(2) by (rule mult_le_mono1)
    then show ?thesis using fit_sized [of xs len ns] that(1) assms(1,3) by auto
  qed
  show "recordsFit ns (take (length rs div 2) rs)" by (rule part [OF set_take_subset]) (use m assms(2) in simp)
  show "recordsFit ns (drop (length rs div 2) rs)" by (rule part [OF set_drop_subset]) (use m assms(2) in simp)
qed

lemma heads: "0 < m \<Longrightarrow> m < length xs \<Longrightarrow> hd (take m xs) \<in> set xs \<and> hd (drop m xs) \<in> set xs"
  by (cases xs) (auto simp: hd_drop_conv_nth)

text \<open>Every node fits: what \<open>linked\<close> says of the nodes in the image.\<close>

fun nodesFit :: "nat \<Rightarrow> tnode \<Rightarrow> bool" where
  "nodesFit ns (TLeaf n rs) = recordsFit ns rs"
| "nodesFit ns (TIndex n cs) = (recordsFit ns (map fst cs) \<and> (\<forall>p \<in> set cs. nodesFit ns (snd p)))"

lemma stored_nodesFit:
  "storedTree read t \<Longrightarrow> linked read ns W \<Longrightarrow> set (numsOf t) \<subseteq> W \<Longrightarrow> nodesFit ns t"
proof (induction t rule: tnode_induct)
  case (TLeaf n rs)
  then show ?case by (auto simp: linked_def split: sum.splits)
next
  case (TIndex n cs)
  then have "recordsFit ns (map fst cs)" by (auto simp: linked_def split: sum.splits)
  moreover have "nodesFit ns (snd p)" if "p \<in> set cs" for p
    using TIndex.IH [OF that] TIndex.prems that by auto
  ultimately show ?case by simp
qed

section \<open>Insertion never fails\<close>

lemma leafPut_total:
  assumes "\<forall>r \<in> set rs. sized 76 r" "length rs = Suc k" "16 + k * 78 \<le> ns" "94 \<le> ns" "fresh \<noteq> []"
  shows "\<exists>g fresh'. leafPut ns n rs fresh = Some (g, fresh') \<and> grownUniform g"
proof (cases "recordsFit ns rs")
  case True
  then show ?thesis using assms(1) by (simp add: leafPut_def)
next
  case False
  let ?m = "length rs div 2"
  have h: "recordsFit ns (take ?m rs)" "recordsFit ns (drop ?m rs)" "0 < ?m" "?m < length rs"
    using halves_fit [OF assms(1,2) _ False] assms(3,4) by simp_all
  note hd = heads [OF h(3,4)]
  show ?thesis
    using h hd False assms(1,5) by (cases fresh) (auto simp: leafPut_def Let_def firstRec_def dest: in_set_takeD in_set_dropD)
qed

lemma indexPut_total:
  assumes "\<forall>p \<in> set cs. sized 16 (fst p) \<and> uniform (snd p)" "length cs = Suc k" "16 + k * 18 \<le> ns" "94 \<le> ns" "fresh \<noteq> []"
  shows "\<exists>g fresh'. indexPut ns n cs fresh = Some (g, fresh') \<and> grownUniform g"
proof (cases "recordsFit ns (map fst cs)")
  case True
  then show ?thesis using assms(1) by (simp add: indexPut_def)
next
  case False
  let ?m = "length cs div 2"
  have all: "\<forall>r \<in> set (map fst cs). sized 16 r" using assms(1) by auto
  have h: "recordsFit ns (map fst (take ?m cs))" "recordsFit ns (map fst (drop ?m cs))" "0 < ?m" "?m < length cs"
    using halves_fit [OF all _ _ False, of k] assms(2-4) by (simp_all add: take_map drop_map)
  note hd = heads [OF h(3,4)]
  show ?thesis
    using h hd False assms(1,5) by (cases fresh) (auto simp: indexPut_def Let_def firstRec_def dest: in_set_takeD in_set_dropD)
qed

lemma insertSorted_parts: "length (insertSorted c rs rec) = Suc (length rs)" "set (insertSorted c rs rec) = insert rec (set rs)"
proof -
  define i where "i = sortSearch (\<lambda>i. c (rs ! i) rec \<ge> 0) 0 (length rs)"
  have e: "insertSorted c rs rec = take i rs @ rec # drop i rs" by (simp add: insertSorted_def i_def Let_def)
  show "length (insertSorted c rs rec) = Suc (length rs)" by (simp add: e min_def)
  show "set (insertSorted c rs rec) = insert rec (set rs)" using set_append [of "take i rs" "drop i rs"] unfolding append_take_drop_id e by auto
qed

context tree_keys
begin

lemma tinsert_total:
  assumes "uniform t" "nodesFit ns t" "sized 76 rec" "94 \<le> ns" "ordered keyOf cmp lo hi t" "treeHeight t \<le> length fresh"
  shows "\<exists>g fresh'. tinsert ns c rec t fresh = Some (g, fresh') \<and> grownUniform g"
  using assms(1,2,5,6)
proof (induction t arbitrary: lo hi rule: tnode_induct)
  case (TLeaf n rs)
  then have "\<forall>r \<in> set (insertSorted c rs rec). sized 76 r" using assms(3) by (simp add: insertSorted_parts)
  moreover have "16 + length rs * 78 \<le> ns" using TLeaf.prems(1,2) fit_sized [of rs 76 ns] by simp
  moreover have "fresh \<noteq> []" using TLeaf.prems(4) by auto
  ultimately show ?case
    using leafPut_total [of "insertSorted c rs rec" "length rs" ns fresh n] assms(4) by (simp add: insertSorted_parts)
next
  case (TIndex n cs)
  have ne: "cs \<noteq> []" using TIndex.prems(3) by simp
  define i where "i = chooseIdx (\<lambda>r. c r rec) (map fst cs)"
  have i: "i < length cs" unfolding i_def by (rule writer.chooseIdx_less [OF ne])
  then have p: "cs ! i \<in> set cs" by simp
  obtain lo' hi' where o: "ordered keyOf cmp lo' hi' (snd (cs ! i))"
    by (rule orderedList_member [OF _ p, of lo hi]) (use TIndex.prems(3) in auto)
  have hc: "treeHeight (snd (cs ! i)) < treeHeight (TIndex n cs)" by (rule treeHeight_child [OF p])
  obtain g f where g: "tinsert ns c rec (snd (cs ! i)) fresh = Some (g, f)" "grownUniform g"
    using TIndex.IH [OF p _ _ o] TIndex.prems(1,2,4) p hc by auto
  show ?case
  proof (cases g)
    case (Fit u)
    then have "grownUniform (Fit (TIndex n (cs[i := (fst (cs ! i), u)])))"
      using g(2) TIndex.prems(1) p by (auto dest!: set_update_subset_insert [THEN subsetD])
    then show ?thesis using g i Fit by (simp add: i_def Let_def)
  next
    case (Cut l k r)
    let ?ds = "take i cs @ (fst (cs ! i), l) # (indexRecordFor k (nodeNum r), r) # drop (i + 1) cs"
    have "sized 16 (indexRecordFor k (nodeNum r))" using g(2) Cut sized_index by auto
    then have all: "\<forall>q \<in> set ?ds. sized 16 (fst q) \<and> uniform (snd q)"
      using g(2) Cut TIndex.prems(1) p by (auto dest: in_set_takeD in_set_dropD)
    have len: "length ?ds = Suc (length cs)" using i by simp
    have fit: "16 + length cs * 18 \<le> ns" using TIndex.prems(1,2) fit_sized [of "map fst cs" 16 ns] by simp
    have "f \<noteq> []" using tinsert_shape [OF g(1)] hc TIndex.prems(4) by auto
    from indexPut_total [OF all len fit assms(4) this, of n] show ?thesis using g i Cut by (simp add: i_def Let_def)
  qed
qed

lemma rootInsert_total:
  assumes "uniform t" "nodesFit ns t" "sized 76 rec" "94 \<le> ns" "ordered keyOf cmp lo hi t" "treeHeight t < length fresh"
  shows "\<exists>t' fresh'. rootInsert ns c rec t fresh = Some (t', fresh') \<and> uniform t'
    \<and> length fresh \<le> length fresh' + treeHeight t + 1"
proof -
  obtain g f where g: "tinsert ns c rec t fresh = Some (g, f)" "grownUniform g"
    using tinsert_total [OF assms(1-5)] assms(6) by (meson less_imp_le)
  note sh = tinsert_shape [OF g(1)]
  show ?thesis
  proof (cases g)
    case (Fit u)
    then show ?thesis using g sh by (simp add: rootInsert_def)
  next
    case (Cut l k r)
    obtain m f' where f: "f = m # f'" using sh assms(6) by (cases f) auto
    let ?rs = "[indexRecordFor (keyBytesOf (firstRec l)) (nodeNum l), indexRecordFor k (nodeNum r)]"
    have rs: "\<forall>r \<in> set ?rs. sized 16 r" using g(2) Cut sized_index by auto
    then have "recordsFit ns ?rs" using fit_sized [OF rs, of ns] assms(4) by simp
    then show ?thesis using g Cut f sh rs by (simp add: rootInsert_def newRoot_def)
  qed
qed

end

section \<open>The extents-overflow tree\<close>

definition extentsWell :: "nat \<Rightarrow> nat \<Rightarrow> wst \<Rightarrow> tnode \<Rightarrow> bool" where
  "extentsWell N ns s t \<longleftrightarrow> wellTree extentsKeyOfRecord compareExtentsKey forkExtentsFile N ns s t \<and> uniform t"

lemma extents_compare: "compareRecords forkExtentsFile s = recCmp extentsKeyOfRecord compareExtentsKey"
  by (intro ext) (simp add: compareRecords_def recCmp_def)

lemma extents_insert:
  assumes "extentsWell N ns s t" "newKey extentsKeyOfRecord compareExtentsKey t rec" "sized 76 rec" "roomFor forkExtentsFile N s t"
  obtains s' t' where "insert_rec forkExtentsFile rec s = (Inr (), s')" "editOf forkExtentsFile s s'" "extentsWell N ns s' t'"
    "inserted rec (treeRecs t) (treeRecs t')" "countField forkExtentsFile s' = countField forkExtentsFile s + 1"
    "rootInsert ns (recCmp extentsKeyOfRecord compareExtentsKey) rec t (spareNodes forkExtentsFile N s)
      = Some (t', spareNodes forkExtentsFile N s')"
    "length (spareNodes forkExtentsFile N s) \<le> length (spareNodes forkExtentsFile N s') + treeHeight t + 1"
    "treeHeight t' \<le> Suc (treeHeight t)"
proof -
  let ?c = "recCmp extentsKeyOfRecord compareExtentsKey" and ?sp = "spareNodes forkExtentsFile N s"
  note w = assms(1) [unfolded extentsWell_def wellTree_def]
  have ns: "94 \<le> ns" using w by (auto simp: poolOK_def)
  have fit: "nodesFit ns t" using w by (intro stored_nodesFit) auto
  have u: "uniform t" and o: "ordered extentsKeyOfRecord compareExtentsKey (rootLow extentsKeyOfRecord t) None t" using w by auto
  have r: "treeHeight t < length ?sp" using assms(4) by (simp add: roomFor_def)
  obtain t' f where ri: "rootInsert ns ?c rec t ?sp = Some (t', f)" "uniform t'" "length ?sp \<le> length f + treeHeight t + 1"
    using extKeys.rootInsert_total [OF u fit assms(3) ns o r] by blast
  note st = extKeys.insert_well [OF _ extents_compare assms(2,4), of ns] assms(1)
  obtain s' where s': "insert_rec forkExtentsFile rec s = (Inr (), s')" "editOf forkExtentsFile s s'"
    "wellTree extentsKeyOfRecord compareExtentsKey forkExtentsFile N ns s' t'" "spareNodes forkExtentsFile N s' = f"
    "countField forkExtentsFile s' = countField forkExtentsFile s + 1" "inserted rec (treeRecs t) (treeRecs t')"
    using st ri(1) by (auto simp: extentsWell_def)
  have "treeHeight t' \<le> Suc (treeHeight t)" using rootInsert_list(3) [OF ri(1)] w by blast
  then show ?thesis using that [of s' t'] s' ri by (simp add: extentsWell_def)
qed

end
