(* ===== verification/ExtentStore.thy ===== *)
theory ExtentStore
  imports ExtentInsert
begin

text \<open>
  \<^verbatim>\<open>insertExtentRecords\<close> (\<^verbatim>\<open>extwrite.go\<close>) on a well-formed extents-overflow tree, empty or not: the records of a
  fork that has none yet are inserted one after the other, and the fork resolves to its extents.
\<close>

section \<open>Deleting what is not there\<close>

lemma chainTo_member: "chainTo read ls z \<Longrightarrow> (n, rs) \<in> set ls \<Longrightarrow> \<exists>nd. read n = Inr nd \<and> records nd = rs"
  by (induction ls) auto

context tree_keys
begin

lemma path_leaf: "ordered keyOf cmp lo hi t \<Longrightarrow> \<exists>rs. (last (pathOf c t), rs) \<in> set (leavesOf t)"
proof (induction t arbitrary: lo hi rule: tnode_induct)
  case (TIndex n cs)
  have ne: "cs \<noteq> []" using TIndex.prems by simp
  define i where "i = chooseIdx c (map fst cs)"
  have i: "i < length cs" unfolding i_def by (rule writer.chooseIdx_less [OF ne])
  then have p: "cs ! i \<in> set cs" by simp
  obtain hi' where "ordered keyOf cmp (keyOf (fst (cs ! i))) hi' (snd (cs ! i))"
    by (rule orderedList_member [OF _ p, of lo hi]) (use TIndex.prems in auto)
  then obtain rs where "(last (pathOf c (snd (cs ! i))), rs) \<in> set (leavesOf (snd (cs ! i)))" using TIndex.IH [OF p] by blast
  then have "(last (pathOf c (TIndex n cs)), rs) \<in> set (leavesOf (TIndex n cs))"
    using p i by (auto simp: Let_def simp flip: i_def)
  then show ?case ..
qed simp

lemma delete_absent:
  assumes well: "wellTree keyOf cmp sel N ns s t" and cmp: "compareRecords sel s = recCmp keyOf cmp" and "treeHeight t \<le> 64"
    and none: "\<forall>r \<in> set (treeRecs t). \<not> match s r"
  shows "deleteByKey sel probe match s = (Inr False, s)"
proof -
  note w = well [unfolded wellTree_def]
  have o: "ordered keyOf cmp (rootLow keyOf t) None t" and chain: "chainTo (nodeAt sel s) (leavesOf t) 0"
    and nums: "\<forall>n \<in> set (numsOf t). n \<noteq> 0 \<and> unat n < N" using w by simp_all
  have world: "writer.world sel N ns (set (numsOf t)) s" unfolding writer.world_def using w by auto
  obtain idx where root: "rootNode sel s = (Inr (nodeNum t), s)"
    and way: "descend sel (assembleProbe probe) s = (Inr (writer.way (assembleProbe probe) t, idx), s)"
    by (rule writer.descend_root [OF world cmp]) (use w assms(3) in auto)
  let ?n = "last (writer.way (assembleProbe probe) t)"
  obtain rs where rs: "(?n, rs) \<in> set (leavesOf t)" using path_leaf [OF o] by blast
  then obtain nd where nd: "nodeAt sel s ?n = Inr nd" "records nd = rs" using chainTo_member [OF chain] by blast
  have "?n \<in> set (numsOf t)" using imageI [OF rs, of fst] leaves_nums [of t] by auto
  then have n: "unat ?n < N" "nodeNum t \<noteq> 0" using nodeNum_in [of t] nums by auto
  have "\<forall>r \<in> set rs. \<not> match s r" using none rs by (auto simp: treeRecs_def)
  then have all: "takeWhile (\<lambda>r. \<not> match s r) rs = rs" unfolding takeWhile_eq_all_conv .
  have "placed sel N s" using w by (simp add: poolOK_def)
  then show ?thesis
    using root way n(2) loadNode_cell [OF _ n(1), of sel s nd] nd
    by (simp add: deleteByKey_def bnd_def getS_def ret_def Let_def all)
qed

lemma wellTree_sorted: "wellTree keyOf cmp sel N ns s t \<Longrightarrow> sorted_wrt (\<lambda>a b. recCmp keyOf cmp a b < 0) (treeRecs t)"
  unfolding wellTree_def using ordered_sorted by blast

lemma wellTree_within:
  "wellTree keyOf cmp sel N ns s t \<Longrightarrow> r \<in> set (treeRecs t) \<Longrightarrow> recIn keyOf cmp (rootLow keyOf t) None r"
  unfolding wellTree_def using ordered_within by blast

lemma delete_empty: "poolOK sel N ns s \<Longrightarrow> rooted sel 0 s \<Longrightarrow> deleteByKey sel probe match s = (Inr False, s)"
proof -
  assume s: "poolOK sel N ns s" "rooted sel 0 s"
  have "rootNode sel s = (Inr 0, s)"
    using hdr_cell(2) [of sel N s 2] s by (simp add: rootNode_def rooted_def rootField_def poolOK_def)
  then show "deleteByKey sel probe match s = (Inr False, s)" by (simp add: deleteByKey_def bnd_def ret_def)
qed

end

section \<open>One record\<close>

text \<open>The tree may be empty.\<close>

definition extentsHold :: "nat \<Rightarrow> nat \<Rightarrow> wst \<Rightarrow> tnode option \<Rightarrow> bool" where
  "extentsHold N ns s tr \<longleftrightarrow>
     (case tr of
        None \<Rightarrow> poolOK forkExtentsFile N ns s \<and> rooted forkExtentsFile 0 s
          \<and> be32 (cell forkExtentsFile 0 s) 24 = 0 \<and> (\<forall>bt. treeOf forkExtentsFile s = Some bt \<longrightarrow> FirstLeaf (theader bt) = 0)
      | Some t \<Rightarrow> extentsWell N ns s t)"

definition heightOf :: "tnode option \<Rightarrow> nat" where
  "heightOf tr = (case tr of None \<Rightarrow> 0 | Some t \<Rightarrow> treeHeight t)"

definition lowOf :: "tnode option \<Rightarrow> extentsKey option" where
  "lowOf tr = (case tr of None \<Rightarrow> None | Some t \<Rightarrow> rootLow extentsKeyOfRecord t)"

abbreviation extCmp :: "bytes \<Rightarrow> bytes \<Rightarrow> int" where
  "extCmp \<equiv> recCmp extentsKeyOfRecord compareExtentsKey"

abbreviation extIn :: "tnode option \<Rightarrow> bytes \<Rightarrow> bool" where
  "extIn tr rec \<equiv> recIn extentsKeyOfRecord compareExtentsKey (lowOf tr) None rec"

abbreviation extSpare :: "nat \<Rightarrow> wst \<Rightarrow> nat" where
  "extSpare N s \<equiv> length (spareNodes forkExtentsFile N s)"

lemma first_extent:
  assumes "extentsHold N ns s None" "sized 76 rec" "extIn None rec" "0 < extSpare N s"
  obtains s' m where "insert_rec forkExtentsFile rec s = (Inr (), s')" "editOf forkExtentsFile s s'"
    "extentsWell N ns s' (TLeaf m [rec])" "extSpare N s \<le> extSpare N s' + 1"
proof -
  have h: "poolOK forkExtentsFile N ns s" "rooted forkExtentsFile 0 s" using assms(1) by (simp_all add: extentsHold_def)
  have fit: "recordsFit ns [rec]" using fit_sized [of "[rec]" 76 ns] assms(2) h(1) by (simp add: poolOK_def)
  obtain m f where sp: "spareNodes forkExtentsFile N s = m # f" using assms(4) by (cases "spareNodes forkExtentsFile N s") auto
  have m: "m \<noteq> 0" "unat m < N" "m \<notin> set f" "distinct f" using spareNodes_distinct [OF h(1)] sp by auto
  obtain s' nd where s': "insertBy (allocNode forkExtentsFile) forkExtentsFile rec s = (Inr (), s')" "editOf forkExtentsFile s s'"
    "poolOK forkExtentsFile N ns s'" "spareNodes forkExtentsFile N s' = f" "rooted forkExtentsFile m s'"
    "nodeAt forkExtentsFile s' m = Inr nd" "records nd = [rec]" "Kind (desc nd) = kindLeafNode" "FLink (desc nd) = 0"
    using pool.first_record [OF h sp fit] by blast
  have "extentsWell N ns s' (TLeaf m [rec])"
    using s' m fit assms(2,3) by (simp add: extentsWell_def wellTree_def linked_def rootLow_def lowOf_def)
  then show thesis using that [of s' m] s' sp by (simp add: insert_rec_def)
qed

lemma deleteKey_absent:
  assumes "extentsHold N ns s tr" "heightOf tr \<le> 64" "extentsKeyOfRecord rec = Some key" "\<forall>r \<in> set (recsOf tr). extCmp r rec \<noteq> 0"
  shows "deleteKey key s = (Inr (), s)"
proof (cases tr)
  case None
  then show ?thesis
    using extKeys.delete_empty [of forkExtentsFile N ns s] assms(1) by (simp add: deleteKey_def extentsHold_def bnd_def ret_def)
next
  case (Some t)
  let ?match = "\<lambda>_ rec. case extentsKeyOfRecord rec of None \<Rightarrow> False | Some k \<Rightarrow> compareExtentsKey k key = 0"
  have "\<forall>r \<in> set (treeRecs t). \<not> ?match s r"
    using assms(3,4) Some by (auto simp: recCmp_def recsOf_def split: option.splits)
  then have "deleteByKey forkExtentsFile probe ?match s = (Inr False, s)" for probe
    by (intro extKeys.delete_absent [OF _ extents_compare, where N = N and ns = ns and t = t])
      (use assms(1,2) Some in \<open>simp_all add: extentsHold_def extentsWell_def heightOf_def\<close>)
  then show ?thesis by (simp add: deleteKey_def bnd_def ret_def)
qed

lemma extent_step:
  assumes "extentsHold N ns s tr" "sized 76 rec" "extIn tr rec" "\<forall>r \<in> set (recsOf tr). extCmp r rec \<noteq> 0"
    and "heightOf tr \<le> 63" "heightOf tr < extSpare N s"
  obtains s' t' where "insertOrReplace (allocNode forkExtentsFile) rec s = (Inr (), s')" "editOf forkExtentsFile s s'"
    "extentsWell N ns s' t'" "inserted rec (recsOf tr) (treeRecs t')"
    "extSpare N s \<le> extSpare N s' + heightOf tr + 1" "treeHeight t' \<le> Suc (heightOf tr)"
proof -
  obtain key where key: "extentsKeyOfRecord rec = Some key" using assms(3) by (auto simp: recIn_def)
  have run: "insertOrReplace (allocNode forkExtentsFile) rec s = insert_rec forkExtentsFile rec s"
    using deleteKey_absent [OF assms(1) _ key assms(4)] assms(5) key by (simp add: insertOrReplace_def insert_rec_def bnd_def)
  show thesis
  proof (cases tr)
    case None
    obtain s' m where "insert_rec forkExtentsFile rec s = (Inr (), s')" "editOf forkExtentsFile s s'"
      "extentsWell N ns s' (TLeaf m [rec])" "extSpare N s \<le> extSpare N s' + 1"
      by (rule first_extent [of N ns s rec]) (use assms None in \<open>auto simp: heightOf_def\<close>)
    then show ?thesis
      using that [of s' "TLeaf m [rec]"] run None by (simp add: heightOf_def recsOf_def inserted_def treeRecs_def)
  next
    case (Some t)
    obtain s' t' where "insert_rec forkExtentsFile rec s = (Inr (), s')" "editOf forkExtentsFile s s'" "extentsWell N ns s' t'"
      "inserted rec (treeRecs t) (treeRecs t')" "extSpare N s \<le> extSpare N s' + treeHeight t + 1" "treeHeight t' \<le> Suc (treeHeight t)"
      by (rule extents_insert [of N ns s t rec])
        (use assms Some in \<open>auto simp: extentsHold_def newKey_def roomFor_def recsOf_def heightOf_def lowOf_def\<close>)
    then show ?thesis using that [of s' t'] run Some by (simp add: heightOf_def recsOf_def)
  qed
qed

section \<open>All records of a fork\<close>

text \<open>Room for \<open>k\<close> insertions, each of which may split every node of a path.\<close>

definition roomForAll :: "nat \<Rightarrow> wst \<Rightarrow> tnode option \<Rightarrow> nat \<Rightarrow> bool" where
  "roomForAll N s tr k \<longleftrightarrow> heightOf tr + k \<le> 64 \<and> k * (heightOf tr + k) \<le> extSpare N s"

lemma roomForAll_step:
  assumes "roomForAll N s tr (Suc k)"
  shows "extSpare N s \<le> extSpare N s' + heightOf tr + 1 \<Longrightarrow> heightOf tr' \<le> Suc (heightOf tr) \<Longrightarrow> roomForAll N s' tr' k"
    "heightOf tr \<le> 63" "heightOf tr < extSpare N s"
proof -
  have all: "k * (heightOf tr + Suc k) + (heightOf tr + Suc k) \<le> extSpare N s" "heightOf tr + Suc k \<le> 64"
    using assms by (simp_all add: roomForAll_def algebra_simps)
  show "roomForAll N s' tr' k"
    if "extSpare N s \<le> extSpare N s' + heightOf tr + 1" "heightOf tr' \<le> Suc (heightOf tr)"
  proof -
    have "k * (heightOf tr' + k) \<le> k * (heightOf tr + Suc k)" using that(2) by (intro mult_le_mono2) simp
    then show ?thesis using all that by (simp add: roomForAll_def)
  qed
  show "heightOf tr \<le> 63" "heightOf tr < extSpare N s" using all by simp_all
qed

text \<open>A record that goes behind all records of its kind.\<close>

lemma filter_inserted:
  assumes "inserted r xs ys" "sorted_wrt (\<lambda>a b. extCmp a b < 0) ys" "P r" "\<forall>q \<in> set (filter P xs). extCmp q r < 0"
  shows "filter P ys = filter P xs @ [r]"
proof -
  obtain as bs where x: "xs = as @ bs" "ys = as @ r # bs" using assms(1) by (auto simp: inserted_def)
  have swap: "extCmp b a = - extCmp a b" for a b
    by (cases "extentsKeyOfRecord a"; cases "extentsKeyOfRecord b") (simp_all add: recCmp_def, rule extOrder.cmp_swap)
  have "\<not> P b" if b: "b \<in> set bs" for b
  proof
    assume "P b"
    then have "extCmp b r < 0" using assms(4) b x(1) by simp
    moreover have "extCmp r b < 0" using assms(2) b unfolding x(2) by (simp add: sorted_wrt_append)
    ultimately show False using swap [of b r] by simp
  qed
  then have "filter P bs = []" by simp
  then show ?thesis using x assms(3) by simp
qed

lemma extIn_up: "extIn tr r \<Longrightarrow> extCmp r r' < 0 \<Longrightarrow> extIn tr r'"
  using extOrder.cmp_trans by (fastforce simp: recIn_def within_def recCmp_def split: option.splits)

lemma extentsHold_order:
  assumes "extentsWell N ns s t"
  shows "sorted_wrt (\<lambda>a b. extCmp a b < 0) (treeRecs t)" "\<forall>r \<in> set (treeRecs t). extIn (Some t) r"
  using assms extKeys.wellTree_sorted extKeys.wellTree_within unfolding extentsWell_def lowOf_def by fastforce+

lemma extents_all:
  assumes "extentsHold N ns s tr" "\<forall>r \<in> set recs. sized 76 r \<and> extIn tr r \<and> P r" "sorted_wrt (\<lambda>a b. extCmp a b < 0) recs"
    and "\<forall>r \<in> set recs. \<forall>q \<in> set (recsOf tr). extCmp q r \<noteq> 0 \<and> (P q \<longrightarrow> extCmp q r < 0)" "roomForAll N s tr (length recs)"
  shows "\<exists>s' tr'. insertAllRecords (allocNode forkExtentsFile) recs s = (Inr (), s') \<and> editOf forkExtentsFile s s'
    \<and> extentsHold N ns s' tr' \<and> filter P (recsOf tr') = filter P (recsOf tr) @ recs \<and> heightOf tr' \<le> 64"
  using assms
proof (induction recs arbitrary: s tr)
  case Nil
  then show ?case by (auto simp: ret_def roomForAll_def)
next
  case (Cons r recs)
  have room: "heightOf tr \<le> 63" "heightOf tr < extSpare N s" using roomForAll_step(2,3) [of N s tr "length recs"] Cons.prems(5) by auto
  obtain s1 t1 where s1: "insertOrReplace (allocNode forkExtentsFile) r s = (Inr (), s1)" "editOf forkExtentsFile s s1"
    "extentsWell N ns s1 t1" "inserted r (recsOf tr) (treeRecs t1)"
    "extSpare N s \<le> extSpare N s1 + heightOf tr + 1" "treeHeight t1 \<le> Suc (heightOf tr)"
    by (rule extent_step [OF Cons.prems(1) _ _ _ room, of r]) (use Cons.prems in auto)
  note o = extentsHold_order [OF s1(3)]
  have set1: "set (recsOf (Some t1)) = insert r (set (recsOf tr))" using s1(4) unfolding inserted_def recsOf_def [of "Some t1"] by auto
  have flt: "filter P (recsOf (Some t1)) = filter P (recsOf tr) @ [r]"
    using filter_inserted [OF s1(4) o(1)] Cons.prems(2,4) by (simp add: recsOf_def)
  have in1: "extIn (Some t1) r" using o(2) set1 by (simp add: recsOf_def)
  have "\<exists>s' tr'. insertAllRecords (allocNode forkExtentsFile) recs s1 = (Inr (), s') \<and> editOf forkExtentsFile s1 s'
    \<and> extentsHold N ns s' tr' \<and> filter P (recsOf tr') = filter P (recsOf (Some t1)) @ recs \<and> heightOf tr' \<le> 64"
  proof (rule Cons.IH)
    show "extentsHold N ns s1 (Some t1)" using s1(3) by (simp add: extentsHold_def)
    show "\<forall>r \<in> set recs. sized 76 r \<and> extIn (Some t1) r \<and> P r" using Cons.prems(2,3) extIn_up [OF in1] by auto
    show "\<forall>r \<in> set recs. \<forall>q \<in> set (recsOf (Some t1)). extCmp q r \<noteq> 0 \<and> (P q \<longrightarrow> extCmp q r < 0)"
      unfolding set1 using Cons.prems(3,4) by auto
    show "roomForAll N s1 (Some t1) (length recs)"
      using roomForAll_step(1) [of N s tr "length recs" s1 "Some t1"] Cons.prems(5) s1(5,6) by (simp add: heightOf_def)
  qed (use Cons.prems(3) in simp)
  then show ?case using s1(1) flt editOf_trans [OF s1(2)] by (auto simp: bnd_def)
qed

section \<open>The records of a fork\<close>

definition forkRecord :: "byte \<Rightarrow> u32 \<Rightarrow> u32 \<Rightarrow> bytes \<Rightarrow> bool" where
  "forkRecord ft fid block r \<longleftrightarrow> sized 76 r \<and> extentsFor fid ft 0 r \<noteq> []
     \<and> (\<exists>b. extentsKeyOfRecord r = Some \<lparr>exForkType = ft, exFileID = fid, exStartBlock = b\<rparr> \<and> block \<le> b)"

lemma forkRecord_group:
  assumes "g \<noteq> []" "length g \<le> numInlineExtents" "\<forall>e \<in> set g. BlockCount e \<noteq> 0"
  shows "forkRecord ft fid b (assembleRecord (encodeExtentsKey ft fid b) (encodeExtentRecord g))"
proof -
  let ?r = "assembleRecord (encodeExtentsKey ft fid b) (encodeExtentRecord g)"
  have e: "?r = encodeExtentsKey ft fid b @ encodeExtentRecord g" by (simp add: assembleRecord_def padEven_def encodeExtentsKey_def)
  have "length (concat (map encodeExtent g)) = 8 * length g" by (induction g) (auto simp: encodeExtent_def)
  then have len: "length ?r = 76" unfolding e using assms(2) by (simp add: encodeExtentsKey_def encodeExtentRecord_def numInlineExtents_def)
  have "be16 ?r 0 = 10" unfolding e by (simp add: encodeExtentsKey_def be16_append_left be16_enc16)
  then have "sized 76 ?r" using len by (simp add: sized_def recordKeyLen_def)
  then show ?thesis
    using readExts_record [OF assms(3,2)] assms(1) by (simp add: forkRecord_def extents_record_key extentsFor_def)
qed

lemma forkRecord_mono: "forkRecord ft fid block r \<Longrightarrow> block' \<le> block \<Longrightarrow> forkRecord ft fid block' r"
  by (auto simp: forkRecord_def)

lemma forkRecord_less:
  assumes "forkRecord ft fid block r"
    "extentsKeyOfRecord q = Some \<lparr>exForkType = ft, exFileID = fid, exStartBlock = b\<rparr>" "b < block"
  shows "extCmp q r < 0"
  using assms by (auto simp: forkRecord_def recCmp_def compareExtentsKey_ordSign ordSign_def less_prod_def)

lemma extentRecords_facts:
  assumes "\<forall>e \<in> set es. BlockCount e \<noteq> 0" "unat block + countSum es < 2 ^ 32"
  shows "(\<forall>r \<in> set (extentRecords ft fid block es). forkRecord ft fid block r)
    \<and> sorted_wrt (\<lambda>a b. extCmp a b < 0) (extentRecords ft fid block es)"
  using assms
proof (induction "length es" arbitrary: es block rule: less_induct)
  case less
  show ?case
  proof (cases "es = []")
    case False
    let ?g = "take numInlineExtents es" and ?r = "drop numInlineExtents es"
    define b where "b = block + sum_list (map BlockCount ?g)"
    define h where "h = assembleRecord (encodeExtentsKey ft fid block) (encodeExtentRecord ?g)"
    have unf: "extentRecords ft fid block es = h # extentRecords ft fid b ?r"
      using False by (simp add: extentRecords.simps [of ft fid block es] Let_def b_def h_def)
    have g: "?g \<noteq> []" "\<forall>e \<in> set ?g. BlockCount e \<noteq> 0" "length ?g \<le> numInlineExtents"
      using False less.prems(1) by (auto simp: numInlineExtents_def dest: in_set_takeD)
    have sum: "countSum es = countSum ?g + countSum ?r" by (metis append_take_drop_id map_append sum_list_append)
    have "unat (sum_list (map BlockCount ?g)) = countSum ?g" using less.prems(2) sum by (intro unat_sum_list) simp
    then have b: "unat b = unat block + countSum ?g"
      unfolding b_def using less.prems(2) sum by (subst unat_add_small) auto
    then have lt: "block < b" using countSum_pos [OF g(2,1)] by (simp add: word_less_nat_alt)
    have "length ?r < length es" "\<forall>e \<in> set ?r. BlockCount e \<noteq> 0" "unat b + countSum ?r < 2 ^ 32"
      using False less.prems b sum by (auto simp: numInlineExtents_def dest: in_set_dropD)
    note rest = less.hyps [OF this]
    have "extCmp h r < 0" if "r \<in> set (extentRecords ft fid b ?r)" for r
      using rest that forkRecord_less [OF _ _ lt, of ft fid r h] by (simp add: h_def extents_record_key(1))
    moreover have "forkRecord ft fid block h" unfolding h_def by (rule forkRecord_group [OF g(1,3,2)])
    ultimately show ?thesis unfolding unf using rest lt forkRecord_mono [OF _ less_imp_le [OF lt]] by simp
  qed (simp add: extentRecords.simps)
qed

lemma extentsHold_keys: "extentsHold N ns s tr \<Longrightarrow> q \<in> set (recsOf tr) \<Longrightarrow> \<exists>k. extentsKeyOfRecord q = Some k"
  using extentsHold_order(2) by (cases tr) (fastforce simp: extentsHold_def recsOf_def recIn_def)+

lemma compareExtentsKey_less: "exFileID k < exFileID k' \<Longrightarrow> compareExtentsKey k k' \<le> 0"
  by (auto simp: compareExtentsKey_ordSign ordSign_def less_prod_def)

lemma extentsHold_reader:
  assumes "extentsHold N ns s tr" "mirrors forkExtentsFile N ns s bt" "heightOf tr \<le> 64"
  shows "holdsTree extentsKeyOfRecord compareExtentsKey (wvol s) bt tr"
    "ascending extentsKeyOfRecord compareExtentsKey (recsOf tr)"
proof -
  show "holdsTree extentsKeyOfRecord compareExtentsKey (wvol s) bt tr"
    using assms extKeys.wellTree_holds [of forkExtentsFile N ns s _ bt]
    by (auto simp: extentsHold_def extentsWell_def heightOf_def holdsTree_def [of _ _ _ _ None] rooted_def mirrors_def split: option.splits)
  show "ascending extentsKeyOfRecord compareExtentsKey (recsOf tr)"
    using assms(1) extKeys.wellTree_ascending [of forkExtentsFile N ns s]
    by (auto simp: extentsHold_def extentsWell_def recsOf_def [of None] ascending_def [of _ _ "[]"] split: option.splits)
qed

section \<open>Stored forks\<close>

text \<open>The tree has exactly the records that \<^verbatim>\<open>insertExtentRecords\<close> makes for the extents beyond the eighth.\<close>

definition forkStored :: "nat \<Rightarrow> nat \<Rightarrow> wst \<Rightarrow> u32 \<Rightarrow> byte \<Rightarrow> extentDescriptor list \<Rightarrow> bool" where
  "forkStored N ns s fid ft es \<longleftrightarrow> (\<exists>tr. extentsHold N ns s tr \<and> heightOf tr \<le> 64
     \<and> filter (\<lambda>r. extentsFor fid ft 0 r \<noteq> []) (recsOf tr)
       = extentRecords ft fid (sum_list (map BlockCount (take numInlineExtents es))) (drop numInlineExtents es))"

lemma forkStored_resolve:
  assumes "forkStored N ns s fid ft es" "mirrors forkExtentsFile N ns s bt"
    and "\<forall>e \<in> set es. BlockCount e \<noteq> 0" "countSum es < 2 ^ 32"
    and "Extents fd = inlineOf es" "fdTotalBlocks fd = sum_list (map BlockCount es)"
  shows "resolveForkExtents (wvol s) (extentsTree (wvol s)) fid ft fd = Inr es"
proof -
  obtain tr where tr: "extentsHold N ns s tr" "heightOf tr \<le> 64" "filter (\<lambda>r. extentsFor fid ft 0 r \<noteq> []) (recsOf tr)
      = extentRecords ft fid (sum_list (map BlockCount (take numInlineExtents es))) (drop numInlineExtents es)"
    using assms(1) by (auto simp: forkStored_def)
  have "resolveForkExtents (wvol s) (Some bt) fid ft fd = Inr es"
    by (rule resolve_written [OF extentsHold_reader [OF tr(1) assms(2) tr(2)] assms(3-6) tr(3)])
  then show ?thesis using assms(2) by (simp add: mirrors_def treeOf_def)
qed

text \<open>A fork that has no records in the tree yet, with an identifier above the least one of the index.\<close>

definition freshFork :: "u32 \<Rightarrow> byte \<Rightarrow> tnode option \<Rightarrow> bool" where
  "freshFork fid ft tr \<longleftrightarrow> (\<forall>k. lowOf tr = Some k \<longrightarrow> exFileID k < fid)
     \<and> (\<forall>r \<in> set (recsOf tr). \<forall>k. extentsKeyOfRecord r = Some k \<longrightarrow> exFileID k \<noteq> fid \<or> exForkType k \<noteq> ft)"

lemma fork_stored:
  assumes tree: "extentsHold N ns s tr" and new: "freshFork fid ft tr"
    and es: "\<forall>e \<in> set es. BlockCount e \<noteq> 0" "countSum es < 2 ^ 32"
    and start: "start = sum_list (map BlockCount (take numInlineExtents es))"
    and room: "roomForAll N s tr (length (extentRecords ft fid start (drop numInlineExtents es)))"
  obtains s' where "insertExtentRecords (allocNode forkExtentsFile) fid ft start (drop numInlineExtents es) s = (Inr (), s')"
    "editOf forkExtentsFile s s'" "forkStored N ns s' fid ft es"
proof -
  let ?recs = "extentRecords ft fid start (drop numInlineExtents es)" and ?P = "\<lambda>r. extentsFor fid ft 0 r \<noteq> []"
  note fresh = new [unfolded freshFork_def]
  have sum: "countSum es = countSum (take numInlineExtents es) + countSum (drop numInlineExtents es)"
    by (metis append_take_drop_id map_append sum_list_append)
  have "unat start = countSum (take numInlineExtents es)" unfolding start by (rule unat_sum_list) (use es(2) sum in simp)
  then have recs: "\<forall>r \<in> set ?recs. forkRecord ft fid start r" "sorted_wrt (\<lambda>a b. extCmp a b < 0) ?recs"
    using extentRecords_facts [of "drop numInlineExtents es" start ft fid] es sum by (auto dest: in_set_dropD)
  have old: "\<not> ?P q" if "q \<in> set (recsOf tr)" for q
    using fresh that by (auto simp: extentsFor_def split: option.splits)
  have key: "\<exists>b. extentsKeyOfRecord r = Some \<lparr>exForkType = ft, exFileID = fid, exStartBlock = b\<rparr>" if "r \<in> set ?recs" for r
    using recs(1) that by (auto simp: forkRecord_def)
  have "extIn tr r" if "r \<in> set ?recs" for r
    using key [OF that] fresh by (auto simp: recIn_def within_def compareExtentsKey_less)
  moreover have "extCmp q r \<noteq> 0" if q: "q \<in> set (recsOf tr)" "r \<in> set ?recs" for q r
    using key [OF q(2)] extentsHold_keys [OF tree q(1)] fresh q(1)
    by (auto simp: recCmp_def compareExtentsKey_ordSign ordSign_def split: if_splits)
  ultimately obtain s' tr' where s': "insertAllRecords (allocNode forkExtentsFile) ?recs s = (Inr (), s')" "editOf forkExtentsFile s s'"
    "extentsHold N ns s' tr'" "filter ?P (recsOf tr') = filter ?P (recsOf tr) @ ?recs" "heightOf tr' \<le> 64"
    using extents_all [OF tree, of ?recs ?P] recs room old by (auto simp: forkRecord_def)
  then have "forkStored N ns s' fid ft es" unfolding forkStored_def start using old by (intro exI [of _ tr']) simp
  then show thesis using that s'(1,2) by (simp add: insertExtentRecords_def)
qed

section \<open>Properties\<close>

text \<open>
  C13. Insertion into the extents-overflow tree always succeeds: its leaf records have 76 bytes and its index
  records 16, so the halves of a split node fit, and with one free node per level and one for the root
  \<^verbatim>\<open>insert\<close> returns no error and leaves a well-formed tree of the same kind with exactly one more record.
\<close>

theorem extents_insert_succeeds:
  assumes "extentsWell N ns s t" "newKey extentsKeyOfRecord compareExtentsKey t rec" "sized 76 rec" "roomFor forkExtentsFile N s t"
  shows "\<exists>s' t'. insert_rec forkExtentsFile rec s = (Inr (), s') \<and> extentsWell N ns s' t' \<and> inserted rec (treeRecs t) (treeRecs t')
    \<and> countField forkExtentsFile s' = countField forkExtentsFile s + 1 \<and> treeHeight t' \<le> Suc (treeHeight t)"
  by (rule extents_insert [OF assms]) blast

text \<open>A leaf full with the records of six files; the record of a seventh splits it.\<close>

definition spillRec :: "u32 \<Rightarrow> bytes" where
  "spillRec f = assembleRecord (encodeExtentsKey 0 f 8) (encodeExtentRecord [\<lparr>StartBlock = 50, BlockCount = 3\<rparr>])"

definition fullLeaf :: "bytes list" where
  "fullLeaf = map spillRec [16, 17, 18, 19, 20, 21]"

lemma spillRec_facts: "sized 76 (spillRec f)"
    "extentsKeyOfRecord (spillRec f) = Some \<lparr>exForkType = 0, exFileID = f, exStartBlock = 8\<rparr>"
  using forkRecord_group [of "[\<lparr>StartBlock = 50, BlockCount = 3\<rparr>]" 0 f 8]
  by (simp_all add: forkRecord_def spillRec_def extents_record_key numInlineExtents_def)

lemma spillRec_cmp: "extCmp (spillRec f) (spillRec g) = (if f < g then -1 else if f = g then 0 else 1)"
  by (auto simp: recCmp_def spillRec_facts compareExtentsKey_ordSign ordSign_def less_prod_def)

lemma spill_well:
  fixes fs blks a defines "s \<equiv> leafOn forkExtentsFile (map spillRec fs) blks a" and "t \<equiv> TLeaf 1 (map spillRec fs)"
  assumes "fs \<noteq> []" "length fs \<le> 6" "sorted_wrt (<) fs" "length blks < 2 ^ 50"
  shows "extentsWell 4 512 s t" "roomFor forkExtentsFile 4 s t" "\<exists>bt. mirrors forkExtentsFile 4 512 s bt" "extSpare 4 s = 2"
proof -
  have sz: "\<forall>r \<in> set (map spillRec fs). sized 76 r" using spillRec_facts(1) by auto
  have fit: "recordsFit 512 (map spillRec fs)" using fit_sized [OF sz, of 512] assms(4) by simp
  have "sorted_wrt (\<lambda>a b. extCmp a b < 0) (map spillRec fs)"
    unfolding sorted_wrt_map using assms(5) by (rule sorted_wrt_mono_rel [rotated]) (simp add: spillRec_cmp)
  then have "wellTree extentsKeyOfRecord compareExtentsKey forkExtentsFile 4 512 s t"
    unfolding t_def using assms(3,6) spillRec_facts(2)
    by (intro leafState_well [OF fit s_def [THEN meta_eq_to_obj_eq]]) (auto simp: recIn_def within_def)
  then show "extentsWell 4 512 s t" using sz by (simp add: extentsWell_def t_def)
  show "roomFor forkExtentsFile 4 s t" "\<exists>bt. mirrors forkExtentsFile 4 512 s bt" "extSpare 4 s = 2"
    using leafState_facts(2,5,7) [OF fit s_def [THEN meta_eq_to_obj_eq] assms(6)] by (auto simp: t_def)
qed

theorem extents_insert_succeeds_witness:
  "\<exists>s' t'. insert_rec forkExtentsFile (spillRec 22) (leafState forkExtentsFile fullLeaf) = (Inr (), s')
     \<and> extentsWell 4 512 s' t' \<and> inserted (spillRec 22) fullLeaf (treeRecs t') \<and> \<not> recordsFit 512 (fullLeaf @ [spillRec 22])"
proof -
  define fs :: "u32 list" where "fs = [16, 17, 18, 19, 20, 21]"
  have f: "fs \<noteq> []" "length fs \<le> 6" "sorted_wrt (<) fs" by (simp_all add: fs_def)
  note w = spill_well [OF f, of "[]" "\<lparr>bitmap = [], bits = 0\<rparr>", simplified]
  have "newKey extentsKeyOfRecord compareExtentsKey (TLeaf 1 (map spillRec fs)) (spillRec 22)"
    by (simp add: newKey_def rootLow_def recIn_def within_def spillRec_facts spillRec_cmp fs_def)
  moreover have "\<not> recordsFit 512 (map spillRec fs @ [spillRec 22])"
    using fit_sized [of "map spillRec (fs @ [22])" 76 512] spillRec_facts(1) by (simp add: fs_def)
  ultimately show ?thesis
    using extents_insert_succeeds [OF w(1) _ spillRec_facts(1) w(2)] unfolding fullLeaf_def fs_def [symmetric] by fastforce
qed

text \<open>
  C10. A fragmented file is stored: when the extents of a fork beyond the eighth are handed to
  \<^verbatim>\<open>insertExtentRecords\<close> and the tree, empty or well formed, has no records of that fork yet, every record is
  inserted, through whatever splits and new roots that takes, and \<^verbatim>\<open>resolveForkExtents\<close> on the volume afterwards
  returns exactly the fork's extents. The free nodes of the tree have to suffice for the splits, and the
  file's identifier has to be above the least one in the index, as that of a new file is.
\<close>

theorem fragmented_fork_stored:
  assumes tree: "extentsHold N ns s tr" "mirrors forkExtentsFile N ns s bt" and new: "freshFork fid ft tr"
    and es: "\<forall>e \<in> set es. BlockCount e \<noteq> 0" "sum_list (map (\<lambda>e. unat (BlockCount e)) es) < 2 ^ 32"
    and start: "start = sum_list (map BlockCount (take numInlineExtents es))"
    and room: "roomForAll N s tr (length (extentRecords ft fid start (drop numInlineExtents es)))"
    and fd: "Extents fd = inlineOf es" "fdTotalBlocks fd = sum_list (map BlockCount es)"
  shows "\<exists>s'. insertExtentRecords (allocNode forkExtentsFile) fid ft start (drop numInlineExtents es) s = (Inr (), s')
    \<and> resolveForkExtents (wvol s') (extentsTree (wvol s')) fid ft fd = Inr es"
proof -
  obtain s' where s': "insertExtentRecords (allocNode forkExtentsFile) fid ft start (drop numInlineExtents es) s = (Inr (), s')"
    "editOf forkExtentsFile s s'" "forkStored N ns s' fid ft es"
    using fork_stored [OF tree(1) new es start room] .
  obtain bt' where "mirrors forkExtentsFile N ns s' bt'" using mirrors_edit [OF tree(2) s'(2)] by blast
  then show ?thesis using s'(1) forkStored_resolve [OF s'(3) _ es fd] by blast
qed

theorem fragmented_fork_stored_witness:
  "\<exists>s'. insertExtentRecords (allocNode forkExtentsFile) 17 0 8 (drop 8 tenExtents) (leafState forkExtentsFile [spillRec 16]) = (Inr (), s')
     \<and> resolveForkExtents (wvol s') (extentsTree (wvol s')) 17 0
         \<lparr>LogicalSize = 5000, ClumpSize = 0, fdTotalBlocks = 10, Extents = take 8 tenExtents\<rparr> = Inr tenExtents"
proof -
  define fs :: "u32 list" where "fs = [16]"
  have f: "fs \<noteq> []" "length fs \<le> 6" "sorted_wrt (<) fs" by (simp_all add: fs_def)
  note w = spill_well [OF f, of "[]" "\<lparr>bitmap = [], bits = 0\<rparr>", simplified]
  obtain bt where bt: "mirrors forkExtentsFile 4 512 (leafState forkExtentsFile (map spillRec fs)) bt" using w(3) by blast
  have sum8: "sum_list (map BlockCount (take 8 tenExtents)) = 8" by (simp add: ten upt_8)
  have one: "length (extentRecords 0 17 8 (drop 8 tenExtents)) = 1" by (simp add: extentRecords.simps ten numInlineExtents_def)
  have "\<exists>s'. insertExtentRecords (allocNode forkExtentsFile) 17 0 8 (drop numInlineExtents tenExtents)
      (leafState forkExtentsFile (map spillRec fs)) = (Inr (), s')
     \<and> resolveForkExtents (wvol s') (extentsTree (wvol s')) 17 0
         \<lparr>LogicalSize = 5000, ClumpSize = 0, fdTotalBlocks = 10, Extents = take 8 tenExtents\<rparr> = Inr tenExtents"
  proof (rule fragmented_fork_stored [where tr = "Some (TLeaf 1 (map spillRec fs))" and N = 4 and ns = 512 and bt = bt])
    show "extentsHold 4 512 (leafState forkExtentsFile (map spillRec fs)) (Some (TLeaf 1 (map spillRec fs)))"
      using w(1) by (simp add: extentsHold_def)
    show "roomForAll 4 (leafState forkExtentsFile (map spillRec fs)) (Some (TLeaf 1 (map spillRec fs)))
        (length (extentRecords 0 17 8 (drop numInlineExtents tenExtents)))"
      using one w(4) by (simp add: roomForAll_def heightOf_def numInlineExtents_def)
  qed (use bt sum8 in \<open>simp_all add: fs_def recsOf_def treeRecs_def spillRec_facts freshFork_def lowOf_def rootLow_def inlineOf_def ten numInlineExtents_def\<close>,
       simp_all add: tenExtents_def upt_conv_Cons)
  then show ?thesis by (simp add: fs_def numInlineExtents_def)
qed

end
