(* ===== verification/TreeFrame.thy ===== *)
theory TreeFrame
  imports ExtentStore
begin

text \<open>
  What a tree does not notice: edits of the image outside its nodes. Writing the blocks of a file, the counters
  of the volume header or the other tree leaves a well-formed tree well formed.
\<close>

definition sameTree :: "treeSel \<Rightarrow> nat \<Rightarrow> wst \<Rightarrow> wst \<Rightarrow> bool" where
  "sameTree sel N s s' \<longleftrightarrow>
     writerOf sel s' = writerOf sel s \<and> treeOf sel s' = treeOf sel s \<and> length (disk (wvol s')) = length (disk (wvol s))
     \<and> vh (wvol s') = vh (wvol s) \<and> wr (wvol s') = wr (wvol s) \<and> (\<forall>n. unat n < N \<longrightarrow> cell sel n s' = cell sel n s)"

lemma sameTree_refl [simp]: "sameTree sel N s s"
  by (simp add: sameTree_def)

lemma sameTree_trans [trans]: "sameTree sel N s s' \<Longrightarrow> sameTree sel N s' s'' \<Longrightarrow> sameTree sel N s s''"
  by (simp add: sameTree_def)

lemma sameTree_node: "sameTree sel N s s' \<Longrightarrow> unat n < N \<Longrightarrow> nodeAt sel s' n = nodeAt sel s n"
  by (simp add: sameTree_def nodeAt_def)

lemma sameTree_pool:
  assumes "sameTree sel N s s'" "0 < N"
  shows "poolOK sel N ns s' = poolOK sel N ns s" "spareNodes sel N s' = spareNodes sel N s" "rooted sel m s' = rooted sel m s"
    "countField sel s' = countField sel s"
proof -
  note a = assms [unfolded sameTree_def]
  have c: "cell sel 0 s' = cell sel 0 s" using a by simp
  have "placed sel N s' = placed sel N s" using a by (intro placed_cong) auto
  then show "poolOK sel N ns s' = poolOK sel N ns s" using a c by (simp add: poolOK_def)
  show "spareNodes sel N s' = spareNodes sel N s" "rooted sel m s' = rooted sel m s" "countField sel s' = countField sel s"
    using a c by (simp_all add: spareNodes_def rooted_def rootField_def countField_def)
qed

lemma sameTree_mirrors: "sameTree sel N s s' \<Longrightarrow> mirrors sel N ns s' t = mirrors sel N ns s t"
proof -
  assume "sameTree sel N s s'"
  note a = this [unfolded sameTree_def]
  have "extentInside (disk (wvol s')) bs = extentInside (disk (wvol s)) bs" for bs
    using a by (simp add: extentInside_def fun_eq_iff)
  then show ?thesis using a unfolding mirrors_def laidOut_def by simp
qed

text \<open>A tree whose nodes stay while the header of the volume and the cached ends of the leaf chain may change, as
  they do when the volume is opened again.\<close>

definition sameStore :: "treeSel \<Rightarrow> nat \<Rightarrow> wst \<Rightarrow> wst \<Rightarrow> bool" where
  "sameStore sel N s s' \<longleftrightarrow>
     writerOf sel s' = writerOf sel s \<and> length (disk (wvol s')) = length (disk (wvol s))
     \<and> BlockSize (vh (wvol s')) = BlockSize (vh (wvol s)) \<and> wr (wvol s') = wr (wvol s) \<and> (\<forall>n. unat n < N \<longrightarrow> cell sel n s' = cell sel n s)
     \<and> rel_option (\<lambda>t t'. tf t' = tf t \<and> NodeSize (theader t') = NodeSize (theader t) \<and> RootNode (theader t') = RootNode (theader t)
          \<and> (FirstLeaf (theader t) = 0 \<longrightarrow> be32 (cell sel 0 s) 24 = 0 \<longrightarrow> FirstLeaf (theader t') = 0)) (treeOf sel s) (treeOf sel s')"

lemma sameTree_store: "sameTree sel N s s' \<Longrightarrow> sameStore sel N s s'"
  unfolding sameTree_def sameStore_def by (cases "treeOf sel s") simp_all

lemma sameStore_pool:
  assumes "sameStore sel N s s'" "0 < N"
  shows "poolOK sel N ns s' = poolOK sel N ns s" "spareNodes sel N s' = spareNodes sel N s" "rooted sel m s \<Longrightarrow> rooted sel m s'"
proof -
  note a = assms [unfolded sameStore_def]
  have c: "cell sel 0 s' = cell sel 0 s" using a by simp
  have "placed sel N s' = placed sel N s" using a by (intro placed_cong) auto
  then show "poolOK sel N ns s' = poolOK sel N ns s" using a c by (simp add: poolOK_def)
  show "spareNodes sel N s' = spareNodes sel N s" using c by (simp add: spareNodes_def)
  show "rooted sel m s'" if "rooted sel m s"
    using a c that by (cases "treeOf sel s"; cases "treeOf sel s'") (simp_all add: rooted_def rootField_def)
qed

lemma sameStore_well:
  assumes "sameStore sel N s s'" "wellTree keyOf cmp sel N ns s t"
  shows "wellTree keyOf cmp sel N ns s' t"
proof -
  note w = assms(2) [unfolded wellTree_def]
  have N: "0 < N" using w by (auto intro: poolOK_facts)
  have l: "linked (nodeAt sel s) ns (set (numsOf t))" using w by simp
  have "nodeAt sel s' n = nodeAt sel s n" if "unat n < N" for n using assms(1) that by (simp add: sameStore_def nodeAt_def)
  then have same: "sameNode (nodeAt sel s n) (nodeAt sel s' n)" if "n \<in> set (numsOf t)" for n
    using linked_node [OF l that] that w by simp
  have "storedTree (nodeAt sel s') t" by (rule storedTree_same [of "nodeAt sel s"]) (use w same in auto)
  moreover have "linked (nodeAt sel s') ns (set (numsOf t))" by (rule linked_same [OF l same])
  moreover have "chainTo (nodeAt sel s') (leavesOf t) 0"
    by (rule chainTo_same [of "nodeAt sel s"]) (use w same leaves_nums [of t] in auto)
  ultimately show ?thesis unfolding wellTree_def using w sameStore_pool [OF assms(1) N] by simp
qed

lemma sameStore_extents:
  assumes "sameStore forkExtentsFile N s s'" "extentsHold N ns s tr"
  shows "extentsHold N ns s' tr"
proof (cases tr)
  case None
  note h = assms(2) [unfolded extentsHold_def None option.case]
  then have N: "0 < N" by (auto intro: poolOK_facts)
  have "FirstLeaf (theader bt') = 0" if "treeOf forkExtentsFile s' = Some bt'" for bt'
    using assms(1) h that unfolding sameStore_def by (cases "treeOf forkExtentsFile s") auto
  moreover have "cell forkExtentsFile 0 s' = cell forkExtentsFile 0 s" using assms(1) N by (simp add: sameStore_def)
  ultimately show ?thesis using h sameStore_pool [OF assms(1) N] None by (simp add: extentsHold_def)
next
  case (Some t)
  then show ?thesis using assms(2) sameStore_well [OF assms(1), of extentsKeyOfRecord compareExtentsKey ns t]
    by (simp add: extentsHold_def extentsWell_def)
qed

lemma sameStore_mirrors:
  assumes "sameStore sel N s s'" "mirrors sel N ns s t"
  obtains t' where "mirrors sel N ns s' t'" "treeOf sel s' = Some t'" "tf t' = tf t"
proof -
  note a = assms(1) [unfolded sameStore_def]
  have inside: "extentInside (disk (wvol s')) bs = extentInside (disk (wvol s)) bs" for bs using a by (simp add: extentInside_def fun_eq_iff)
  obtain t' where t': "treeOf sel s' = Some t'" "tf t' = tf t" "NodeSize (theader t') = NodeSize (theader t)"
    using a assms(2) by (cases "treeOf sel s'") (auto simp: mirrors_def)
  then have "mirrors sel N ns s' t'" using assms(2) a inside unfolding mirrors_def laidOut_def by simp
  then show thesis using that t' by blast
qed

lemma sameStore_trans [trans]:
  assumes "sameStore sel N s s'" "sameStore sel N s' s''" "0 < N"
  shows "sameStore sel N s s''"
proof -
  have c: "cell sel 0 s' = cell sel 0 s" using assms(1,3) by (simp add: sameStore_def)
  show ?thesis
    using assms(1,2) unfolding sameStore_def c
    by (cases "treeOf sel s"; cases "treeOf sel s'"; cases "treeOf sel s''") auto
qed

lemmas sameTree_well = sameStore_well [OF sameTree_store]
lemmas sameTree_extents = sameStore_extents [OF sameTree_store]

lemma forkStored_store: "sameStore forkExtentsFile N s s' \<Longrightarrow> forkStored N ns s fid ft es \<Longrightarrow> forkStored N ns s' fid ft es"
  unfolding forkStored_def using sameStore_extents by blast

lemmas forkStored_frame = forkStored_store [OF sameTree_store]

section \<open>Edits outside\<close>

lemma sameTree_disk:
  assumes "length d = length (disk (wvol s))" "\<forall>i < length d. inNode sel s i \<longrightarrow> d ! i = disk (wvol s) ! i" "placed sel N s"
  shows "sameTree sel N s (setDisk d s)"
proof -
  have "cell sel n (setDisk d s) = cell sel n s" if n: "unat n < N" for n
  proof -
    have a: "addr sel n (setDisk d s) = addr sel n s" by (rule addr_cong) (use assms(1) in simp_all)
    have i: "addr sel n s + nodeSize (writerOf sel s) \<le> length (disk (wvol s))" by (rule placed_inside [OF assms(3) n])
    have "inNode sel s i" if "addr sel n s \<le> i" "i < addr sel n s + nodeSize (writerOf sel s)" for i
      using that placed_addr [OF assms(3) n] unfolding inNode_def by blast
    then show ?thesis unfolding cell_def a using i assms(1,2) by (intro nth_equalityI) (auto simp: gslice_def)
  qed
  then show ?thesis using assms(1) by (cases sel) (simp_all add: sameTree_def treeOf_def, simp_all add: setDisk_def)
qed

definition treesApart :: "wst \<Rightarrow> bool" where
  "treesApart s \<longleftrightarrow> (\<forall>i. \<not> (inNode forkCatalogFile s i \<and> inNode forkExtentsFile s i))"

lemma treesApart_edit: "editOf sel s s' \<Longrightarrow> treesApart s \<Longrightarrow> treesApart s'"
  using inNode_cong [OF editOf_writer editOf_length] unfolding treesApart_def by blast

lemma sameTree_edit:
  assumes "editOf sel' s s'" "sel' \<noteq> sel" "treesApart s" "placed sel N s"
  shows "sameTree sel N s s'"
proof -
  obtain d f where e: "sameOutside sel' s d" "s' = cacheHeader sel' f (setDisk d s)" using assms(1) by (auto simp: editOf_def)
  have "\<not> inNode sel' s i" if "inNode sel s i" for i
    using that assms(2,3) unfolding treesApart_def by (cases sel; cases sel') auto
  then have 1: "sameTree sel N s (setDisk d s)" using e(1) assms(4) by (intro sameTree_disk) (auto simp: sameOutside_def)
  have "treeOf sel s' = treeOf sel (setDisk d s)" "vh (wvol s') = vh (wvol s)" "wr (wvol s') = wr (wvol s)"
    unfolding e(2) using assms(2) by (cases sel; cases sel'; simp add: treeOf_def cacheHeader_def setDisk_def)+
  then show ?thesis using 1 unfolding e(2) by (simp add: sameTree_def)
qed

end
