(* ===== verification/FileData.thy ===== *)
theory FileData
  imports TreeFrame Write
begin

text \<open>
  The contents of a new file (\<^verbatim>\<open>createFile\<close> of \<^verbatim>\<open>write.go\<close> up to the catalog): blocks are allocated,
  \<^verbatim>\<open>writeForkData\<close> fills them, and the runs beyond the eighth go into the extents-overflow tree. The fork
  that these runs describe has the written bytes.
\<close>

section \<open>Filling the runs\<close>

definition inRuns :: "nat \<Rightarrow> extentDescriptor list \<Rightarrow> nat \<Rightarrow> bool" where
  "inRuns bs runs i \<longleftrightarrow> (\<exists>r \<in> set runs. unat (StartBlock r) * bs \<le> i \<and> i < unat (StartBlock r) * bs + extentSpan bs r)"

lemma inRuns_blocks: "0 < bs \<Longrightarrow> inRuns bs runs i \<longleftrightarrow> i div bs \<in> set (blocksOf runs)"
proof -
  assume bs: "0 < bs"
  have "a * bs \<le> i \<and> i < a * bs + c * bs \<longleftrightarrow> a \<le> i div bs \<and> i div bs < a + c" for a c
    using bs by (simp add: less_eq_div_iff_mult_less_eq div_less_iff_less_mult flip: distrib_right)
  then show ?thesis by (simp add: inRuns_def blocksOf_def runBlocks_def extentSpan_def)
qed

text \<open>The data from \<open>pos\<close> on, cut or padded with zeros to \<open>n\<close> bytes.\<close>

definition padded :: "bytes \<Rightarrow> nat \<Rightarrow> nat \<Rightarrow> bytes" where
  "padded data pos n = map (\<lambda>i. if pos + i < length data then data ! (pos + i) else 0) [0..<n]"

lemma length_padded [simp]: "length (padded data pos n) = n"
  by (simp add: padded_def)

lemma nth_padded: "i < n \<Longrightarrow> padded data pos n ! i = (if pos + i < length data then data ! (pos + i) else 0)"
  by (simp add: padded_def)

lemma padded_add: "padded data pos (m + n) = padded data pos m @ padded data (pos + min (length data - pos) m) n"
  by (intro nth_equalityI) (auto simp: nth_padded nth_append min_def)

lemma padded_piece:
  "n = min (length data - pos) span \<Longrightarrow> gslice data pos (pos + n) @ replicate (span - n) 0 = padded data pos span"
  by (intro nth_equalityI) (auto simp: nth_padded nth_append gslice_def min_def)

lemma take_padded: "length data \<le> n \<Longrightarrow> take (length data) (padded data 0 n) = data"
  by (intro nth_equalityI) (auto simp: nth_padded)

lemma overwrite_twice:
  "length xs = n \<Longrightarrow> i + n + length ys \<le> length b \<Longrightarrow> overwrite (overwrite b i xs) (i + n) ys = overwrite b i (xs @ ys)"
  by (intro nth_equalityI) (auto simp: nth_overwrite nth_append)

lemma extentContent_same:
  assumes "\<forall>i < length d. inRuns bs [r] i \<longrightarrow> d' ! i = d ! i" "length d' = length d" "extentInside d bs r"
  shows "extentContent d' bs r = extentContent d bs r"
  using assms unfolding extentContent_def
  by (intro nth_equalityI) (auto simp: gslice_def extentInside_def inRuns_def)

lemma forkData_written:
  assumes "0 < bs" "list_all (extentInside img bs) runs" "distinct (blocksOf runs)"
  obtains img' where "forkData_loop bs data runs pos img = Inr img'" "length img' = length img"
    "forkContent img' bs runs = padded data pos (spansOf bs runs)"
    "\<forall>i < length img. \<not> inRuns bs runs i \<longrightarrow> img' ! i = img ! i"
  using assms(2,3)
proof (induction runs arbitrary: pos img thesis)
  case Nil
  then show ?case by (simp add: forkContent_def padded_def)
next
  case (Cons r runs)
  let ?off = "unat (StartBlock r) * bs" and ?span = "extentSpan bs r"
  define n where "n = min (length data - pos) ?span"
  define img1 where "img1 = overwrite img ?off (padded data pos ?span)"
  have inside: "?off + ?span \<le> length img" using Cons.prems(2) by (simp add: extentInside_def)
  have n: "length (gslice data pos (pos + n)) = n" by (simp add: n_def)
  have "overwrite (overwrite img ?off (gslice data pos (pos + n))) (?off + n) (replicate (?span - n) 0) = img1"
    unfolding img1_def padded_piece [OF n_def, symmetric] by (rule overwrite_twice [OF n]) (use inside in \<open>simp add: n_def\<close>)
  then have run: "forkData_loop bs data (r # runs) pos img = forkData_loop bs data runs (pos + n) img1"
    using inside by (simp add: Let_def n_def extentSpan_def)
  have len1: "length img1 = length img" using inside by (simp add: img1_def)
  have "list_all (extentInside img1 bs) runs" "distinct (blocksOf runs)"
    using Cons.prems(2,3) len1 by (auto simp: extentInside_def blocksOf_def list_all_iff)
  from Cons.IH [OF _ this, of "pos + n"] obtain img' where img': "forkData_loop bs data runs (pos + n) img1 = Inr img'"
    "length img' = length img1" "forkContent img' bs runs = padded data (pos + n) (spansOf bs runs)"
    "\<forall>i < length img1. \<not> inRuns bs runs i \<longrightarrow> img' ! i = img1 ! i" by blast
  have apart: "\<not> inRuns bs runs i" if "inRuns bs [r] i" for i
    using that Cons.prems(3) unfolding inRuns_blocks [OF assms(1)] by (auto simp: blocksOf_def)
  have "extentContent img' bs r = extentContent img1 bs r"
    by (rule extentContent_same) (use img'(2,4) apart inside len1 in \<open>auto simp: extentInside_def\<close>)
  also have "\<dots> = padded data pos ?span"
    using gslice_overwrite_same [of ?off "padded data pos ?span" img] inside by (simp add: extentContent_def img1_def)
  finally have "forkContent img' bs (r # runs) = padded data pos (spansOf bs (r # runs))"
    using img'(3) by (simp add: forkContent_def padded_add n_def)
  moreover have "img' ! i = img ! i" if "i < length img" "\<not> inRuns bs (r # runs) i" for i
    using that img'(4) len1 inside by (auto simp: inRuns_def img1_def nth_overwrite)
  ultimately show ?case using Cons.prems(1) [of img'] run img'(1,2) len1 by simp
qed

section \<open>The runs of an allocation\<close>

definition nonEmptyRuns :: "fragState \<Rightarrow> bool" where
  "nonEmptyRuns s \<longleftrightarrow> (\<forall>r \<in> set (fruns s). BlockCount r \<noteq> 0)"

lemma fragFlush_nonEmpty: "fragFlush s = Some s' \<Longrightarrow> nonEmptyRuns s \<Longrightarrow> nonEmptyRuns s'"
  by (auto simp: fragFlush_def nonEmptyRuns_def word_neq_0_conv split: if_splits option.splits)

lemma frag_loop_nonEmpty: "frag_loop ns s = Some s' \<Longrightarrow> nonEmptyRuns s \<Longrightarrow> nonEmptyRuns s'"
proof (induction ns arbitrary: s)
  case (Cons n ns)
  have grow: "nonEmptyRuns (s\<lparr>runStart := a, runLen := b\<rparr>)" "nonEmptyRuns (s\<lparr>runLen := b\<rparr>)" for a b
    using Cons.prems(2) by (simp_all add: nonEmptyRuns_def)
  show ?case
    using Cons.prems Cons.IH fragFlush_nonEmpty grow
    by (auto simp: Let_def split: if_splits option.splits)
qed simp

lemma allocFragments_nonEmpty: "allocFragments nb a = (Inr runs, a') \<Longrightarrow> r \<in> set runs \<Longrightarrow> BlockCount r \<noteq> 0"
proof -
  assume run: "allocFragments nb a = (Inr runs, a')" and r: "r \<in> set runs"
  have start: "nonEmptyRuns \<lparr>fbm = m, fruns = [], remaining = c, runStart = 0, runLen = 0\<rparr>" for m c
    by (simp add: nonEmptyRuns_def)
  from run r show ?thesis
    using frag_loop_nonEmpty [OF _ start] fragFlush_nonEmpty
    by (fastforce simp: allocFragments_def nonEmptyRuns_def split: if_splits prod.splits sum.splits option.splits)
qed

lemma allocFragments_ok:
  assumes "nb \<noteq> 0" "allocFragments nb a = (Inr runs, a')"
  shows "sorted_wrt (<) (blocksOf runs)" "length (blocksOf runs) = unat nb" "set (blocksOf runs) \<subseteq> freeSet a"
    "freeSet a' = freeSet a - set (blocksOf runs)"
  using assms by (cases rule: allocFragments_cases [of nb a]; auto simp: freeSet_mark)+

lemma countSum_blocks: "countSum runs = length (blocksOf runs)"
  by (induction runs) (simp_all add: blocksOf_def runBlocks_def)

text \<open>The free blocks lie in the image and belong to no node of the extents-overflow tree.\<close>

definition freeApart :: "treeSel \<Rightarrow> wst \<Rightarrow> bool" where
  "freeApart sel s \<longleftrightarrow>
     (let bs = unat (BlockSize (vh (wvol s)))
      in 0 < bs \<and> (\<forall>n \<in> freeSet (walc s). n * bs + bs \<le> length (disk (wvol s))
           \<and> (\<forall>i. n * bs \<le> i \<longrightarrow> i < n * bs + bs \<longrightarrow> \<not> inNode sel s i)))"

lemma runs_inside:
  assumes "set (blocksOf runs) \<subseteq> freeSet a" "\<forall>n \<in> freeSet a. n * bs + bs \<le> length d" "\<forall>r \<in> set runs. BlockCount r \<noteq> 0"
  shows "list_all (extentInside d bs) runs"
  unfolding list_all_iff
proof
  fix r assume r: "r \<in> set runs"
  let ?l = "unat (StartBlock r) + unat (BlockCount r) - 1"
  have c: "0 < unat (BlockCount r)" using r assms(3) by (simp add: unat_gt_0)
  then have "?l \<in> set (runBlocks r)" by (simp add: runBlocks_def)
  then have "?l \<in> freeSet a" using r assms(1) by (auto simp: blocksOf_def)
  then have "(?l + 1) * bs \<le> length d" using assms(2) by fastforce
  then show "extentInside d bs r" using c by (simp add: extentInside_def extentSpan_def distrib_right)
qed

lemma blocks_fit:
  assumes "distinct xs" "\<forall>n \<in> set xs. n * bs + bs \<le> (L::nat)" "0 < bs"
  shows "length xs * bs \<le> L"
proof -
  have "(n + 1) * bs \<le> L" if "n \<in> set xs" for n using that assms(2) by (simp add: add.commute)
  then have "n + 1 \<le> L div bs" if "n \<in> set xs" for n using that assms(3) by (simp add: less_eq_div_iff_mult_less_eq)
  then have "set xs \<subseteq> {..<L div bs}" by fastforce
  then have "length xs \<le> L div bs" using card_mono [of "{..<L div bs}" "set xs"] distinct_card [OF assms(1)] by simp
  then show ?thesis using mult_le_mono1 [of "length xs" "L div bs" bs] div_times_less_eq_dividend [of L bs] by linarith
qed

section \<open>Placing the data\<close>

text \<open>What \<^verbatim>\<open>placeData\<close> leaves: the runs resolve and hold the data, everything outside them and outside the nodes of
  the extents-overflow tree is as it was.\<close>

definition sameMap :: "allocator \<Rightarrow> allocator \<Rightarrow> bool" where
  "sameMap a a' \<longleftrightarrow> bits a' = bits a \<and> length (bitmap a') = length (bitmap a)"

lemma allocFragments_map:
  assumes "allocFragments nb a = (Inr runs, a')" "nb \<noteq> 0"
  shows "sameMap a a'"
  using assms(2) by (cases rule: allocFragments_cases [of nb a]) (use assms(1) in \<open>auto simp: sameMap_def\<close>)

definition placedData :: "nat \<Rightarrow> nat \<Rightarrow> wst \<Rightarrow> u32 \<Rightarrow> bytes \<Rightarrow> extentDescriptor list \<Rightarrow> wst \<Rightarrow> bool" where
  "placedData N ns s cnid data runs s' \<longleftrightarrow>
     (\<exists>s1. forkStored N ns s' cnid forkTypeData runs \<and> editOf forkExtentsFile s1 s' \<and> sameTree forkExtentsFile N s s1
        \<and> (\<exists>img a'. s1 = setDisk img s\<lparr>walc := a'\<rparr> \<and> length img = length (disk (wvol s)) \<and> freeSet a' = freeSet (walc s) - set (blocksOf runs)
            \<and> sameMap (walc s) a' \<and> forkContent img (unat (BlockSize (vh (wvol s)))) runs = padded data 0 (spansOf (unat (BlockSize (vh (wvol s)))) runs)
            \<and> (\<forall>i < length img. \<not> inRuns (unat (BlockSize (vh (wvol s)))) runs i \<longrightarrow> img ! i = disk (wvol s) ! i)))"

lemma setDisk_walc: "setDisk d (s\<lparr>walc := a\<rparr>) = setDisk d s\<lparr>walc := a\<rparr>"
  by (simp add: setDisk_def)

lemma walc_frame [simp]:
  "writerOf sel (s\<lparr>walc := a\<rparr>) = writerOf sel s" "treeOf sel (s\<lparr>walc := a\<rparr>) = treeOf sel s"
  "inNode sel (s\<lparr>walc := a\<rparr>) i = inNode sel s i" "cell sel n (s\<lparr>walc := a\<rparr>) = cell sel n s"
  "placed sel N (s\<lparr>walc := a\<rparr>) = placed sel N s"
proof -
  show w: "writerOf sel (s\<lparr>walc := a\<rparr>) = writerOf sel s" "treeOf sel (s\<lparr>walc := a\<rparr>) = treeOf sel s"
    by (cases sel; simp add: writerOf_def treeOf_def)+
  have l: "length (disk (wvol (s\<lparr>walc := a\<rparr>))) = length (disk (wvol s))" by simp
  show "inNode sel (s\<lparr>walc := a\<rparr>) i = inNode sel s i" "placed sel N (s\<lparr>walc := a\<rparr>) = placed sel N s"
    by (rule inNode_cong [OF w(1) l], rule placed_cong [OF w(1) l])
  show "cell sel n (s\<lparr>walc := a\<rparr>) = cell sel n s" unfolding cell_def addr_cong [OF w(1) l] w(1) by simp
qed

lemma sameTree_walc [simp]: "sameTree sel N s (s\<lparr>walc := a\<rparr>)"
  by (simp add: sameTree_def)

lemma place_data:
  assumes tree: "extentsHold N ns s tr" "freshFork cnid forkTypeData tr" "freeApart forkExtentsFile s"
    and nb: "nb \<noteq> 0" "allocFragments nb (walc s) = (Inr runs, a')"
    and room: "roomForAll N s tr (length (extentRecords forkTypeData cnid (sum_list (map BlockCount (take numInlineExtents runs)))
      (drop numInlineExtents runs)))"
  obtains s' where "placeData cnid nb data s = (Inr runs, s')" "placedData N ns s cnid data runs s'"
    "\<forall>r \<in> set runs. BlockCount r \<noteq> 0" "countSum runs = unat nb" "\<forall>i. inRuns (unat (BlockSize (vh (wvol s)))) runs i \<longrightarrow> \<not> inNode forkExtentsFile s i"
    "list_all (extentInside (disk (wvol s)) (unat (BlockSize (vh (wvol s))))) runs"
    "unat nb * unat (BlockSize (vh (wvol s))) \<le> length (disk (wvol s))"
proof -
  let ?bs = "unat (BlockSize (vh (wvol s)))" and ?start = "sum_list (map BlockCount (take numInlineExtents runs))"
  have al: "sorted_wrt (<) (blocksOf runs)" "length (blocksOf runs) = unat nb" "set (blocksOf runs) \<subseteq> freeSet (walc s)"
    "freeSet a' = freeSet (walc s) - set (blocksOf runs)"
    using allocFragments_ok [OF nb] by blast+
  have ne: "\<forall>r \<in> set runs. BlockCount r \<noteq> 0" using allocFragments_nonEmpty [OF nb(2)] by blast
  have sum: "countSum runs = unat nb" "countSum runs < 2 ^ 32"
    using al(2) unsigned_less [of nb, where 'a = nat] by (simp_all add: countSum_blocks)
  have bs: "0 < ?bs" and free: "\<forall>n \<in> freeSet (walc s). n * ?bs + ?bs \<le> length (disk (wvol s))"
    and apart: "\<And>n i. n \<in> freeSet (walc s) \<Longrightarrow> n * ?bs \<le> i \<Longrightarrow> i < n * ?bs + ?bs \<Longrightarrow> \<not> inNode forkExtentsFile s i"
    using tree(3) by (auto simp: freeApart_def Let_def)
  obtain img where img: "forkData_loop ?bs data runs 0 (disk (wvol s)) = Inr img" "length img = length (disk (wvol s))"
    "forkContent img ?bs runs = padded data 0 (spansOf ?bs runs)"
    "\<forall>i < length (disk (wvol s)). \<not> inRuns ?bs runs i \<longrightarrow> img ! i = disk (wvol s) ! i"
    by (rule forkData_written [OF bs runs_inside [OF al(3) free ne], where data = data and pos = 0])
      (use al(1) in \<open>auto simp: strict_sorted_iff\<close>)
  define s1 where "s1 = setDisk img s\<lparr>walc := a'\<rparr>"
  have out: "\<not> inNode forkExtentsFile s i" if "inRuns ?bs runs i" for i
  proof -
    from that have "i div ?bs \<in> freeSet (walc s)" using inRuns_blocks [OF bs] al(3) by blast
    moreover have "i div ?bs * ?bs \<le> i" "i < i div ?bs * ?bs + ?bs"
      using bs div_mult_mod_eq [of i ?bs] mod_less_divisor [OF bs, of i] by linarith+
    ultimately show ?thesis using apart by blast
  qed
  have "placed forkExtentsFile N s" using tree(1) by (auto simp: extentsHold_def extentsWell_def wellTree_def poolOK_def split: option.splits)
  then have "sameTree forkExtentsFile N s (setDisk img s)" using img(2,4) out by (intro sameTree_disk) auto
  then have same: "sameTree forkExtentsFile N s s1" unfolding s1_def by (rule sameTree_trans) simp
  have N: "0 < N" using tree(1) by (auto simp: extentsHold_def extentsWell_def wellTree_def poolOK_def split: option.splits)
  have room1: "roomForAll N s1 tr (length (extentRecords forkTypeData cnid ?start (drop numInlineExtents runs)))"
    using room sameTree_pool(2) [OF same N] by (simp add: roomForAll_def)
  have run: "placeData cnid nb data s = bnd (if length runs > numInlineExtents then
        insertExtentRecords (allocNode forkExtentsFile) cnid forkTypeData ?start (drop numInlineExtents runs) else ret ())
      (\<lambda>_. ret runs) s1"
    using nb img(1) by (simp add: placeData_def bnd_def [of "allocBlocks nb"] bnd_def [of "writeForkData runs data"]
        allocBlocks_def writeForkData_def s1_def setDisk_walc)
  obtain s' where s': "insertExtentRecords (allocNode forkExtentsFile) cnid forkTypeData ?start (drop numInlineExtents runs) s1 = (Inr (), s')"
    "editOf forkExtentsFile s1 s'" "forkStored N ns s' cnid forkTypeData runs"
    using fork_stored [OF sameTree_extents [OF same tree(1)] tree(2) ne sum(2) refl room1] .
  have "insertExtentRecords (allocNode forkExtentsFile) cnid forkTypeData ?start [] s1 = (Inr (), s1)"
    by (simp add: insertExtentRecords_def extentRecords.simps ret_def)
  then have "placeData cnid nb data s = (Inr runs, s')" using s'(1) unfolding run by (auto simp: bnd_def ret_def)
  moreover have "placedData N ns s cnid data runs s'"
    unfolding placedData_def using s' img al(4) same allocFragments_map [OF nb(2,1)] by (intro exI [of _ s1] conjI exI [of _ img] exI [of _ a']) (simp_all add: s1_def)
  moreover have "unat nb * ?bs \<le> length (disk (wvol s))"
    using blocks_fit [of "blocksOf runs" ?bs] al(1-3) free bs by (auto simp: strict_sorted_iff)
  ultimately show thesis using that ne sum(1) out runs_inside [OF al(3) free ne] by blast
qed

section \<open>Reading it back\<close>

text \<open>A fork is held: its records are in the extents tree and its blocks have the data.\<close>

definition dataHeld :: "nat \<Rightarrow> nat \<Rightarrow> wst \<Rightarrow> u32 \<Rightarrow> bytes \<Rightarrow> extentDescriptor list \<Rightarrow> bool" where
  "dataHeld N ns s cnid data runs \<longleftrightarrow>
     (let bs = unat (BlockSize (vh (wvol s)))
      in forkStored N ns s cnid forkTypeData runs \<and> list_all (extentInside (disk (wvol s)) bs) runs
         \<and> forkContent (disk (wvol s)) bs runs = padded data 0 (spansOf bs runs))"

lemma forkContent_same:
  assumes "\<forall>i < length d. inRuns bs runs i \<longrightarrow> d' ! i = d ! i" "length d' = length d" "list_all (extentInside d bs) runs"
  shows "forkContent d' bs runs = forkContent d bs runs"
proof -
  have "extentContent d' bs r = extentContent d bs r" if "r \<in> set runs" for r
    by (rule extentContent_same [OF _ assms(2)]) (use that assms in \<open>auto simp: inRuns_def list_all_iff\<close>)
  then show ?thesis unfolding forkContent_def by (auto intro: arg_cong [where f = concat])
qed

lemma placedData_held:
  assumes "placedData N ns s cnid data runs s'" "list_all (extentInside (disk (wvol s)) (unat (BlockSize (vh (wvol s))))) runs"
    and "\<forall>i. inRuns (unat (BlockSize (vh (wvol s)))) runs i \<longrightarrow> \<not> inNode forkExtentsFile s i"
  shows "dataHeld N ns s' cnid data runs" "vh (wvol s') = vh (wvol s)" "length (disk (wvol s')) = length (disk (wvol s))"
proof -
  let ?bs = "unat (BlockSize (vh (wvol s)))"
  obtain img a' where st: "forkStored N ns s' cnid forkTypeData runs" "editOf forkExtentsFile (setDisk img s\<lparr>walc := a'\<rparr>) s'"
    "length img = length (disk (wvol s))" "forkContent img ?bs runs = padded data 0 (spansOf ?bs runs)"
    using assms(1) by (auto simp: placedData_def)
  obtain d f where e: "sameOutside forkExtentsFile (setDisk img s\<lparr>walc := a'\<rparr>) d"
    "s' = cacheHeader forkExtentsFile f (setDisk d (setDisk img s\<lparr>walc := a'\<rparr>))" using st(2) by (auto simp: editOf_def)
  have d: "disk (wvol s') = d" "length d = length img" using e by (simp_all add: sameOutside_def)
  have n: "inNode forkExtentsFile (setDisk img s) i = inNode forkExtentsFile s i" for i
    by (rule inNode_cong) (use st(3) in simp_all)
  show v: "vh (wvol s') = vh (wvol s)" by (simp add: e(2) cacheHeader_def setDisk_def)
  show l: "length (disk (wvol s')) = length (disk (wvol s))" using d st(3) by simp
  have inside: "list_all (extentInside img ?bs) runs" using assms(2) st(3) by (simp add: extentInside_def list_all_iff)
  have "forkContent d ?bs runs = forkContent img ?bs runs"
    by (rule forkContent_same [OF _ d(2) inside]) (use e(1) assms(3) n in \<open>auto simp: sameOutside_def\<close>)
  then show "dataHeld N ns s' cnid data runs"
    unfolding dataHeld_def v d(1) using st(1,3,4) d(2) inside by (simp add: Let_def extentInside_def list_all_iff)
qed

lemma dataHeld_read:
  assumes held: "dataHeld N ns s cnid data runs" and mir: "mirrors forkExtentsFile N ns s bt"
    and runs: "\<forall>r \<in> set runs. BlockCount r \<noteq> 0" "countSum runs = unat nb"
    and size: "length data \<le> unat nb * unat (BlockSize (vh (wvol s)))" "BlockSize (vh (wvol s)) \<noteq> 0"
      "length data \<le> length (disk (wvol s))" "length (disk (wvol s)) \<le> 2 ^ 50" "unat nb * unat (BlockSize (vh (wvol s))) < 2 ^ 63"
    and cf: "fileID cf = cnid" "dataFork cf = \<lparr>LogicalSize = of_nat (length data), ClumpSize = c, fdTotalBlocks = nb, Extents = inlineOf runs\<rparr>"
  shows "bindR (dataForkFor (wvol s) cf) (readAll (wvol s)) = Inr data"
proof -
  let ?bs = "unat (BlockSize (vh (wvol s)))"
  note h = held [unfolded dataHeld_def Let_def]
  have lt: "countSum runs < 2 ^ 32" using runs(2) unsigned_less [of nb, where 'a = nat] by simp
  have tot: "nb = sum_list (map BlockCount runs)"
    using unat_sum_list [OF lt] runs(2) by (intro unsigned_word_eqI [where 'a = nat]) simp
  have res: "resolveForkExtents (wvol s) (extentsTree (wvol s)) cnid forkTypeData (dataFork cf) = Inr runs"
    by (rule forkStored_resolve [OF _ mir runs(1) lt]) (use h cf tot in simp_all)
  have sp: "sum_list (map (extentSpan ?bs) runs) = unat nb * ?bs"
    using runs(2) by (simp add: extentSpan_def [abs_def] sum_list_mult_const flip: runs(2))
  have fs: "sint (of_nat (length data) :: u64) = int (length data)"
    using size(3,4) by (simp add: signed_of_nat signed_take_bit_int_eq_self)
  let ?f = "\<lparr>fsize = int (length data), fextents = runs\<rparr>"
  have "int (length data) \<le> int (unat nb * ?bs)" using size(1) by (simp only: of_nat_le_iff)
  then have "forkOK (wvol s) ?f" using h size(4,5) by (simp add: forkOK_def sp del: of_nat_mult)
  then have "readAll (wvol s) ?f = Inr (forkBytes (wvol s) ?f)"
    by (rule readAll_forkBytes) (use size mir in \<open>auto simp: maxForkBytes_def capacity_def mirrors_def\<close>)
  also have "forkBytes (wvol s) ?f = data"
    using h take_padded [of data "unat nb * ?bs"] size(1) sp by (simp add: forkBytes_def spansOf_def)
  finally show ?thesis using res cf fs by (simp add: dataForkFor_def)
qed

section \<open>Properties\<close>

text \<open>
  C11. What \<^verbatim>\<open>createFile\<close> puts on the volume for a file's contents is what the driver reads back: the blocks that
  the allocator found, in however many fragments, are filled by \<^verbatim>\<open>writeForkData\<close> with the data and zeros, the
  runs beyond the eighth are inserted into the extents-overflow tree, and \<^verbatim>\<open>dataForkFor\<close> with \<^verbatim>\<open>readAll\<close> on the
  file record that \<^verbatim>\<open>createFile\<close> builds returns exactly the data. Free blocks have to lie in the image and
  outside the nodes of the tree, which has to be well formed with room for the records.
\<close>

theorem place_data_readable:
  assumes tree: "extentsHold N ns s tr" "freshFork cnid forkTypeData tr" "freeApart forkExtentsFile s" "mirrors forkExtentsFile N ns s bt"
    and nb: "nb \<noteq> 0" "allocFragments nb (walc s) = (Inr runs, a')" "length data \<le> unat nb * unat (BlockSize (vh (wvol s)))"
    and room: "roomForAll N s tr (length (extentRecords forkTypeData cnid (sum_list (map BlockCount (take numInlineExtents runs)))
      (drop numInlineExtents runs)))" "length (disk (wvol s)) \<le> 2 ^ 50"
    and cf: "fileID cf = cnid" "dataFork cf = \<lparr>LogicalSize = of_nat (length data), ClumpSize = c, fdTotalBlocks = nb, Extents = inlineOf runs\<rparr>"
  shows "\<exists>s'. placeData cnid nb data s = (Inr runs, s') \<and> bindR (dataForkFor (wvol s') cf) (readAll (wvol s')) = Inr data"
proof -
  obtain s' where s': "placeData cnid nb data s = (Inr runs, s')" "placedData N ns s cnid data runs s'"
    "\<forall>r \<in> set runs. BlockCount r \<noteq> 0" "countSum runs = unat nb"
    "\<forall>i. inRuns (unat (BlockSize (vh (wvol s)))) runs i \<longrightarrow> \<not> inNode forkExtentsFile s i"
    "list_all (extentInside (disk (wvol s)) (unat (BlockSize (vh (wvol s))))) runs"
    "unat nb * unat (BlockSize (vh (wvol s))) \<le> length (disk (wvol s))"
    by (rule place_data [OF tree(1-3) nb(1,2) room(1), of data])
  note h = placedData_held [OF s'(2,6,5)]
  obtain s1 where st: "editOf forkExtentsFile s1 s'" "sameTree forkExtentsFile N s s1" using s'(2) by (auto simp: placedData_def)
  obtain bt' where bt': "mirrors forkExtentsFile N ns s' bt'"
    using mirrors_edit [OF _ st(1)] tree(4) sameTree_mirrors [OF st(2)] by blast
  have "BlockSize (vh (wvol s)) \<noteq> 0" using tree(3) by (auto simp: freeApart_def Let_def)
  then have "bindR (dataForkFor (wvol s') cf) (readAll (wvol s')) = Inr data"
    by (intro dataHeld_read [OF h(1) bt' s'(3,4) _ _ _ _ _ cf]) (use h nb(3) room(2) s'(7) in auto)
  then show ?thesis using s'(1) by blast
qed

text \<open>Seven blocks: the four nodes of the tree, and of the rest only the blocks 4 and 6 free.\<close>

definition splitState :: wst where
  "splitState = leafOn forkExtentsFile [spillRec 16] (replicate 1536 9) \<lparr>bitmap = [0xF4], bits = 7\<rparr>"

lemma splitState_facts:
  "extentsHold 4 512 splitState (Some (TLeaf 1 [spillRec 16]))" "freeApart forkExtentsFile splitState"
  "\<exists>bt. mirrors forkExtentsFile 4 512 splitState bt" "length (disk (wvol splitState)) = 3584" "BlockSize (vh (wvol splitState)) = 512"
  "allocFragments 2 (walc splitState) = (Inr [\<lparr>StartBlock = 4, BlockCount = 1\<rparr>, \<lparr>StartBlock = 6, BlockCount = 1\<rparr>], \<lparr>bitmap = [0xFE], bits = 7\<rparr>)"
proof -
  have f: "[16::u32] \<noteq> []" "length [16::u32] \<le> 6" "sorted_wrt (<) [16::u32]" "length (replicate 1536 9) < 2 ^ 50" by simp_all
  note w = spill_well [OF f, where a = "\<lparr>bitmap = [0xF4], bits = 7\<rparr>", simplified, folded splitState_def]
  show "extentsHold 4 512 splitState (Some (TLeaf 1 [spillRec 16]))" using w(1) by (simp add: extentsHold_def)
  show "\<exists>bt. mirrors forkExtentsFile 4 512 splitState bt" by (rule w(3))
  have fit: "recordsFit 512 [spillRec 16]" using fit_sized [of "[spillRec 16]" 76 512] spillRec_facts(1) by simp
  show len: "length (disk (wvol splitState)) = 3584"
    by (simp add: splitState_def leafOn_def nodeState_simps length_packNode [OF fit] headerNode_facts(1))
  show bs: "BlockSize (vh (wvol splitState)) = 512" by (simp add: splitState_def leafOn_def nodeState_simps)
  have a: "walc splitState = \<lparr>bitmap = [0xF4], bits = 7\<rparr>" by (simp add: splitState_def leafOn_def nodeState_simps)
  show "allocFragments 2 (walc splitState) = (Inr [\<lparr>StartBlock = 4, BlockCount = 1\<rparr>, \<lparr>StartBlock = 6, BlockCount = 1\<rparr>], \<lparr>bitmap = [0xFE], bits = 7\<rparr>)"
    unfolding a by (simp add: allocFragments_def allocContiguous_def fragFlush_def sample_eval)
  have free: "freeSet (walc splitState) = {4, 6}" unfolding a freeSet_def
  proof (intro equalityI subsetI)
    fix n assume "n \<in> {n. n < unat (bits \<lparr>bitmap = [0xF4], bits = 7\<rparr>) \<and> \<not> testBlock (bitmap \<lparr>bitmap = [0xF4], bits = 7\<rparr>) n}"
    then have "n \<in> set [0..<7]" "\<not> testBlock [0xF4] n" by simp_all
    then show "n \<in> {4, 6}" by (auto simp: sample_eval)
  qed (auto simp: sample_eval)
  have "i < 2048" if i: "inNode forkExtentsFile splitState i" for i
  proof -
    have wo: "writerOf forkExtentsFile splitState = \<lparr>nodeSize = 512, bwExtents = [\<lparr>StartBlock = 0, BlockCount = 4\<rparr>], bwBs = 512\<rparr>"
      by (simp add: splitState_def leafOn_def nodeState_simps)
    obtain n k where n: "nodeAddr forkExtentsFile n splitState = Inr (Some k)" "i < k + 512"
      using i by (auto simp: inNode_def wo)
    then have "nodeOffset 512 [\<lparr>StartBlock = 0, BlockCount = 4\<rparr>] (uint n * 512) 0 = Some (int k)"
      by (auto simp: nodeAddr_def wo Let_def simp del: nodeOffset.simps split: option.splits if_splits)
    then have u: "uint n < 4" "int k = wrap64 (wrap64 (uint n * 512))" by (auto simp: wrap64_id split: if_splits)
    have "wrap64 (x * 512) = x * 512" if "0 \<le> x" "x < 4" for x by (rule wrap64_id) (use that in simp_all)
    from this [OF uint_nonnegative u(1)] have "wrap64 (uint n * 512) = uint n * 512" .
    then show ?thesis using n(2) u by simp
  qed
  then show "freeApart forkExtentsFile splitState" unfolding freeApart_def Let_def free bs len by fastforce
qed

theorem place_data_readable_witness:
  "\<exists>s'. placeData 17 2 (replicate 600 7) splitState = (Inr [\<lparr>StartBlock = 4, BlockCount = 1\<rparr>, \<lparr>StartBlock = 6, BlockCount = 1\<rparr>], s')
     \<and> bindR (dataForkFor (wvol s') \<lparr>fileID = 17, cfiFlags = 0,
          dataFork = \<lparr>LogicalSize = 600, ClumpSize = 512, fdTotalBlocks = 2,
            Extents = inlineOf [\<lparr>StartBlock = 4, BlockCount = 1\<rparr>, \<lparr>StartBlock = 6, BlockCount = 1\<rparr>]\<rparr>,
          rsrcFork = zeroForkData, permMode = 0x81A4\<rparr>) (readAll (wvol s')) = Inr (replicate 600 7)"
proof -
  obtain bt where "mirrors forkExtentsFile 4 512 splitState bt" using splitState_facts(3) by blast
  then show ?thesis
    by (intro place_data_readable [OF splitState_facts(1) _ splitState_facts(2) _ _ splitState_facts(6), where bt = bt and c = 512])
      (simp_all add: freshFork_def lowOf_def rootLow_def recsOf_def treeRecs_def spillRec_facts splitState_facts(4,5) roomForAll_def
        heightOf_def numInlineExtents_def extentRecords.simps)
qed

end
