(* ===== verification/Openable.thy ===== *)
theory Openable
  imports FileData
begin

text \<open>
  What \<^verbatim>\<open>reopen\<close> (\<^verbatim>\<open>hfsplus.go\<close>) reads of an image: the volume header and the header nodes of the two trees. The
  edits of a transaction change of them only the counters of the volume header and the root, the leaf ends and the
  counts of a tree, so that the image can be reopened at any moment and gives the volume in memory.
\<close>

section \<open>Headers in the image\<close>

definition headerArea :: "nat \<Rightarrow> nat \<Rightarrow> bool" where
  "headerArea L i \<longleftrightarrow> 1024 \<le> i \<and> i < 1536 \<or> L - 1024 \<le> i \<and> i < L - 512"

text \<open>The counters that \<^verbatim>\<open>setHeaderU32\<close> writes; opening does not read them.\<close>

definition counterByte :: "nat \<Rightarrow> bool" where
  "counterByte k \<longleftrightarrow> 0x20 \<le> k \<and> k < 0x28 \<or> 0x40 \<le> k \<and> k < 0x48"

text \<open>The header of a tree as \<^verbatim>\<open>openBTree\<close> parses it from the tree's first node.\<close>

definition headerIn :: "bytes \<Rightarrow> btHeader" where
  "headerIn H = \<lparr>RootNode = be32 H 16, FirstLeaf = be32 H 24, LastLeaf = be32 H 28, NodeSize = be16 H 32,
     KeyCompare = H ! 51, btAttributes = be32 H 52\<rparr>"

definition headed :: "bytes \<Rightarrow> btHeader \<Rightarrow> bool" where
  "headed H h \<longleftrightarrow> H ! 8 = kindHeaderNode \<and> 512 \<le> NodeSize h \<and> NodeSize h AND (NodeSize h - 1) = 0
     \<and> be16 H 32 = NodeSize h \<and> H ! 51 = KeyCompare h \<and> be32 H 52 = btAttributes h"

text \<open>The forks of the two trees lie in the eight inline extents, as the cached trees have them.\<close>

definition inlineForks :: "Volume \<Rightarrow> bool" where
  "inlineForks v \<longleftrightarrow>
     (\<exists>bt. extentsTree v = Some bt \<and> tf bt = newSpecialFork (ExtentsFile (vh v))) \<and> \<not> extentsForkNeedsOverflow (ExtentsFile (vh v))
     \<and> fsize (tf (catalogTree v)) = sint (LogicalSize (CatalogFile (vh v)))
     \<and> (case inlineExtents (Extents (CatalogFile (vh v))) 0 of (exts, covered) \<Rightarrow>
          fextents (tf (catalogTree v)) = exts \<and> fdTotalBlocks (CatalogFile (vh v)) \<le> covered)"

definition openable :: "wst \<Rightarrow> bool" where
  "openable s \<longleftrightarrow> readVolumeHeader (disk (wvol s)) = Inr (vh (wvol s)) \<and> inlineForks (wvol s)
     \<and> (\<forall>sel t. treeOf sel s = Some t \<longrightarrow> headed (cell sel 0 s) (theader t))"

section \<open>Edits that reopening does not see\<close>

definition sealed :: "wst \<Rightarrow> wst \<Rightarrow> bool" where
  "sealed s s' \<longleftrightarrow> length (disk (wvol s')) = length (disk (wvol s)) \<and> vh (wvol s') = vh (wvol s)
     \<and> (\<forall>k < 512. \<not> counterByte k \<longrightarrow> disk (wvol s') ! (1024 + k) = disk (wvol s) ! (1024 + k))
     \<and> (\<forall>sel. (\<exists>f. harmless f \<and> treeOf sel s' = map_option (\<lambda>t. t\<lparr>theader := f (theader t)\<rparr>) (treeOf sel s))
          \<and> (\<forall>k. fixedByte k \<longrightarrow> cell sel 0 s' ! k = cell sel 0 s ! k))"

lemma be_same:
  "(\<And>k. i \<le> k \<Longrightarrow> k < i + 2 \<Longrightarrow> b ! k = c ! k) \<Longrightarrow> be16 b i = be16 c i"
  "(\<And>k. i \<le> k \<Longrightarrow> k < i + 4 \<Longrightarrow> b ! k = c ! k) \<Longrightarrow> be32 b i = be32 c i"
  by (simp_all add: be16_def be32_def)

lemma headed_fixed:
  assumes "\<And>k. fixedByte k \<Longrightarrow> H' ! k = H ! k" "NodeSize h' = NodeSize h" "KeyCompare h' = KeyCompare h" "btAttributes h' = btAttributes h"
  shows "headed H' h' = headed H h"
proof -
  have "be16 H' 32 = be16 H 32" "be32 H' 52 = be32 H 52" by (rule be_same, rule assms(1), simp add: fixedByte_def)+
  moreover have "H' ! 8 = H ! 8" "H' ! 51 = H ! 51" by (rule assms(1), simp add: fixedByte_def)+
  ultimately show ?thesis using assms(2-4) by (simp add: headed_def)
qed

text \<open>Of the volume header, the parsed fields but the number of free blocks.\<close>

lemma header_frame:
  assumes "1536 \<le> length d" "length d' = length d" "readVolumeHeader d = Inr h"
    and same: "\<And>k. k < 512 \<Longrightarrow> \<not> counterByte k \<Longrightarrow> \<not> (0x30 \<le> k \<and> k < 0x34) \<Longrightarrow> d' ! (1024 + k) = d ! (1024 + k)"
  shows "readVolumeHeader d' = Inr (h\<lparr>FreeBlocks := be32 d' 1072\<rparr>)"
proof -
  let ?b = "gslice d 1024 1536" and ?b' = "gslice d' 1024 1536"
  have k: "?b' ! k = ?b ! k" if "k < 512" "\<not> counterByte k" "\<not> (0x30 \<le> k \<and> k < 0x34)" for k
    using same [OF that] that(1) assms(1,2) by (simp add: gslice_def)
  have r: "readerAt d 512 (int volumeHeaderOffset) = (?b, None)" "readerAt d' 512 (int volumeHeaderOffset) = (?b', None)"
    using assms(1,2) by (simp_all add: readerAt_inside volumeHeaderOffset_def)
  have dr: "drop n ?b' = drop n ?b" if "112 \<le> n" for n
    by (rule nth_equalityI) (use that assms(1,2) k in \<open>auto simp: counterByte_def\<close>)
  have b: "be16 ?b' 0 = be16 ?b 0" "be16 ?b' 2 = be16 ?b 2" "be32 ?b' 4 = be32 ?b 4" "be32 ?b' 0x28 = be32 ?b 0x28" "be32 ?b' 0x2C = be32 ?b 0x2C"
    by (rule be_same, rule k; simp add: counterByte_def)+
  have fb: "be32 ?b' 0x30 = be32 d' 1072" using assms(1,2) by (simp add: be32_def gslice_def)
  show ?thesis
    using assms(3) unfolding readVolumeHeader_def r prod.case option.case b fb by (auto simp: dr header_consts split: if_splits)
qed

lemma sealed_header:
  assumes "sealed s s'" "1536 \<le> length (disk (wvol s))" "readVolumeHeader (disk (wvol s)) = Inr (vh (wvol s))"
  shows "readVolumeHeader (disk (wvol s')) = Inr (vh (wvol s'))"
proof -
  note e = assms(1) [unfolded sealed_def]
  let ?d = "disk (wvol s)" and ?d' = "disk (wvol s')"
  have "?d' ! (1024 + k) = ?d ! (1024 + k)" if "k < 512" "\<not> counterByte k" for k using e that by blast
  note k = this
  have h: "readVolumeHeader ?d' = Inr ((vh (wvol s))\<lparr>FreeBlocks := be32 ?d' 1072\<rparr>)"
    by (rule header_frame [OF assms(2) _ assms(3)]) (use e k in auto)
  have "readVolumeHeader ?d = Inr ((vh (wvol s))\<lparr>FreeBlocks := be32 ?d 1072\<rparr>)"
    by (rule header_frame [OF assms(2) _ assms(3)]) simp_all
  moreover have "be32 ?d' 1072 = be32 ?d 1072"
  proof (rule be_same(2))
    fix i assume "1072 \<le> i" "i < 1072 + (4::nat)"
    then obtain j where "i = 1024 + j" "0x30 \<le> j" "j < 0x34" using le_Suc_ex [of 1024 i] by auto
    then show "?d' ! i = ?d ! i" using k [of j] by (simp add: counterByte_def)
  qed
  ultimately show ?thesis using h e assms(3) by simp
qed

lemma sealed_openable:
  assumes "sealed s s'" "1536 \<le> length (disk (wvol s))" "openable s"
  shows "openable s'"
proof -
  note e = assms(1) [unfolded sealed_def] and p = assms(3) [unfolded openable_def]
  have hd: "readVolumeHeader (disk (wvol s')) = Inr (vh (wvol s'))" by (rule sealed_header [OF assms(1,2)]) (use p in simp)
  have t: "\<exists>f. harmless f \<and> treeOf sel s' = map_option (\<lambda>t. t\<lparr>theader := f (theader t)\<rparr>) (treeOf sel s)" for sel using e by blast
  obtain f where f: "treeOf forkExtentsFile s' = map_option (\<lambda>t. t\<lparr>theader := f (theader t)\<rparr>) (treeOf forkExtentsFile s)"
    using t [of forkExtentsFile] by blast
  obtain g where g: "treeOf forkCatalogFile s' = map_option (\<lambda>t. t\<lparr>theader := g (theader t)\<rparr>) (treeOf forkCatalogFile s)"
    using t [of forkCatalogFile] by blast
  have "tf (catalogTree (wvol s')) = tf (catalogTree (wvol s))" using g by (simp add: treeOf_def)
  then have "inlineForks (wvol s')"
    using p e f unfolding inlineForks_def by (auto simp: treeOf_def)
  moreover have "headed (cell sel 0 s') (theader t')" if t': "treeOf sel s' = Some t'" for sel t'
  proof -
    obtain f where f: "harmless f" "treeOf sel s' = map_option (\<lambda>t. t\<lparr>theader := f (theader t)\<rparr>) (treeOf sel s)" using t by blast
    then obtain t where u: "treeOf sel s = Some t" "t' = t\<lparr>theader := f (theader t)\<rparr>" using t' by (cases "treeOf sel s") auto
    have "headed (cell sel 0 s') (theader t') = headed (cell sel 0 s) (theader t)"
      by (rule headed_fixed) (use e f(1) u(2) in \<open>auto simp: harmless_def\<close>)
    then show ?thesis using p u(1) by blast
  qed
  ultimately show ?thesis using hd unfolding openable_def by blast
qed

text \<open>Edits outside the two trees, and edits of one of them.\<close>

lemma sealed_same:
  assumes "\<And>sel. sameTree sel 1 s s'"
    and "\<And>k. k < 512 \<Longrightarrow> \<not> counterByte k \<Longrightarrow> disk (wvol s') ! (1024 + k) = disk (wvol s) ! (1024 + k)"
  shows "sealed s s'"
proof -
  have "harmless (\<lambda>h. h)" by (simp add: harmless_def)
  moreover have "treeOf sel s' = map_option (\<lambda>t. t\<lparr>theader := (\<lambda>h. h) (theader t)\<rparr>) (treeOf sel s)" for sel
    using assms(1) [of sel] by (simp add: sameTree_def option.map_ident)
  ultimately have "\<exists>f. harmless f \<and> treeOf sel s' = map_option (\<lambda>t. t\<lparr>theader := f (theader t)\<rparr>) (treeOf sel s)" for sel by blast
  then show ?thesis using assms unfolding sealed_def by (simp add: sameTree_def)
qed

lemma sealed_edit:
  assumes "editOf sel s s'" "treesApart s" "\<And>sel. placed sel 1 s" "\<And>i. headerArea (length (disk (wvol s))) i \<Longrightarrow> \<not> inNode sel s i"
    and "120 \<le> nodeSize (writerOf sel s)" "1536 \<le> length (disk (wvol s))"
  shows "sealed s s'"
proof -
  obtain d f where e: "sameOutside sel s d" "harmless f" "s' = cacheHeader sel f (setDisk d s)"
    using assms(1) by (auto simp: editOf_def)
  have d: "disk (wvol s') = d" "vh (wvol s') = vh (wvol s)" by (cases sel; simp add: e(3) cacheHeader_def setDisk_def)+
  have a: "addr sel 0 s' = addr sel 0 s" "writerOf sel s' = writerOf sel s" "length d = length (disk (wvol s))"
    using addr_cong [OF editOf_writer [OF assms(1)] editOf_length [OF assms(1)]] editOf_writer [OF assms(1)] e(1)
    by (simp_all add: sameOutside_def)
  have in0: "addr sel 0 s + nodeSize (writerOf sel s) \<le> length (disk (wvol s))" by (rule placed_inside [OF assms(3)]) simp
  have own: "cell sel 0 s' ! k = cell sel 0 s ! k" if k: "fixedByte k" for k
  proof -
    have "k < 120" using k by (auto simp: fixedByte_def)
    then show ?thesis using e(1) k assms(5) in0 a unfolding cell_def d by (simp add: gslice_def sameOutside_def)
  qed
  have "(\<exists>f. harmless f \<and> treeOf sel' s' = map_option (\<lambda>t. t\<lparr>theader := f (theader t)\<rparr>) (treeOf sel' s))
      \<and> (\<forall>k. fixedByte k \<longrightarrow> cell sel' 0 s' ! k = cell sel' 0 s ! k)" for sel'
  proof (cases "sel' = sel")
    case True
    then show ?thesis using own e(2) by (auto simp: e(3))
  next
    case False
    have "sameTree sel' 1 s s'" by (rule sameTree_edit [OF assms(1) _ assms(2,3)]) (use False in simp)
    moreover have "harmless (\<lambda>h. h)" by (simp add: harmless_def)
    ultimately show ?thesis by (intro conjI exI [of _ "\<lambda>h. h"]) (simp_all add: sameTree_def option.map_ident)
  qed
  moreover have "d ! (1024 + k) = disk (wvol s) ! (1024 + k)" if "k < 512" for k
    using e(1) assms(4) [of "1024 + k"] assms(6) that by (simp add: sameOutside_def headerArea_def)
  ultimately show ?thesis using d a(3) unfolding sealed_def by simp
qed

lemma sealed_refl: "sealed s s" by (rule sealed_same) simp_all

end
