(* ===== verification/RecordPatch.thy ===== *)
theory RecordPatch
  imports TreeFrame CatWrite
begin

text \<open>
  Changing a record in place (\<^verbatim>\<open>patchFolderRecord\<close> of \<^verbatim>\<open>catwrite.go\<close>): the record keeps its key and its length, so
  the tree keeps its shape.
\<close>

fun patchTree :: "(bytes \<Rightarrow> bytes) \<Rightarrow> tnode \<Rightarrow> tnode" where
  "patchTree f (TLeaf n rs) = TLeaf n (map f rs)"
| "patchTree f (TIndex n cs) = TIndex n (map (\<lambda>p. (fst p, patchTree f (snd p))) cs)"

lemma patchTree_shape:
  "nodeNum (patchTree f t) = nodeNum t" "numsOf (patchTree f t) = numsOf t" "treeHeight (patchTree f t) = treeHeight t"
  "leavesOf (patchTree f t) = map (\<lambda>(n, rs). (n, map f rs)) (leavesOf t)"
proof -
  show "nodeNum (patchTree f t) = nodeNum t" by (cases t) simp_all
  show "numsOf (patchTree f t) = numsOf t"
  proof (induction t rule: tnode_induct)
    case (TIndex n cs)
    then have "map (\<lambda>p. numsOf (patchTree f (snd p))) cs = map (\<lambda>p. numsOf (snd p)) cs" by simp
    then show ?case by (simp only: patchTree.simps numsOf.simps map_map comp_def snd_conv)
  qed simp
  show "treeHeight (patchTree f t) = treeHeight t"
  proof (induction t rule: tnode_induct)
    case (TIndex n cs)
    then have "map (\<lambda>p. treeHeight (patchTree f (snd p))) cs = map (\<lambda>p. treeHeight (snd p)) cs" by simp
    then show ?case by (simp only: patchTree.simps treeHeight.simps map_map comp_def snd_conv)
  qed simp
  show "leavesOf (patchTree f t) = map (\<lambda>(n, rs). (n, map f rs)) (leavesOf t)"
  proof (induction t rule: tnode_induct)
    case (TIndex n cs)
    then have "map (\<lambda>p. leavesOf (patchTree f (snd p))) cs = map (\<lambda>p. map (\<lambda>(n, rs). (n, map f rs)) (leavesOf (snd p))) cs" by simp
    then show ?case by (simp only: patchTree.simps leavesOf.simps map_map map_concat comp_def snd_conv)
  qed simp
qed

lemma patchTree_low: "ordered keyOf cmp lo hi t \<Longrightarrow> rootLow keyOf (patchTree f t) = rootLow keyOf t"
  by (cases t) (auto simp: rootLow_def hd_map)

lemma fst_patch: "map fst (map (\<lambda>p. (fst p, g (snd p))) cs) = map fst cs"
  by simp

lemma treeRecs_patch: "treeRecs (patchTree f t) = map f (treeRecs t)"
  by (simp add: treeRecs_def patchTree_shape(4) map_concat comp_def case_prod_beta)

lemma patch_stored:
  assumes "storedTree read t" "read n = Inr nd" "Kind (desc nd) = kindLeafNode" "read' n = Inr nd'" "Kind (desc nd') = kindLeafNode"
    "records nd' = map f (records nd)" "\<And>m. m \<in> set (numsOf t) \<Longrightarrow> m \<noteq> n \<Longrightarrow> read' m = read m"
    "\<And>m rs. (m, rs) \<in> set (leavesOf t) \<Longrightarrow> m \<noteq> n \<Longrightarrow> map f rs = rs"
  shows "storedTree read' (patchTree f t)"
  using assms(1,7,8)
proof (induction t rule: tnode_induct)
  case (TLeaf m rs)
  then show ?case using assms(2-6) by (cases "m = n") auto
next
  case (TIndex m cs)
  have "m \<noteq> n" using TIndex.prems(1) assms(2,3) by (auto simp: kindLeafNode_def kindIndexNode_def)
  moreover have "storedTree read' (patchTree f (snd p))" if "p \<in> set cs" for p
    by (rule TIndex.IH [OF that]) (use TIndex.prems that in fastforce)+
  ultimately show ?case
    unfolding patchTree.simps storedTree.simps fst_patch using TIndex.prems by (auto simp: patchTree_shape)
qed

lemma patch_chain:
  assumes "chainTo read ls z" "\<And>m rs nd. (m, rs) \<in> set ls \<Longrightarrow> read m = Inr nd \<Longrightarrow> records nd = rs \<Longrightarrow>
    \<exists>nd'. read' m = Inr nd' \<and> records nd' = map f rs \<and> FLink (desc nd') = FLink (desc nd)"
  shows "chainTo read' (map (\<lambda>(n, rs). (n, map f rs)) ls) z"
  using assms
proof (induction ls)
  case (Cons l ls)
  obtain m rs where l: "l = (m, rs)" by (cases l)
  have "headNum (map (\<lambda>(n, rs). (n, map f rs)) ls) z = headNum ls z" by (cases ls) auto
  then show ?case using Cons.prems Cons.IH unfolding l by fastforce
qed simp

lemma leaves_disjoint:
  "distinct (concat (map snd ls)) \<Longrightarrow> (m, a) \<in> set ls \<Longrightarrow> (n, b) \<in> set ls \<Longrightarrow> m \<noteq> n \<Longrightarrow> set a \<inter> set b = {}"
  by (induction ls) fastforce+

lemma stored_leaf:
  "storedTree read t \<Longrightarrow> (n, rs) \<in> set (leavesOf t) \<Longrightarrow> \<exists>nd. read n = Inr nd \<and> Kind (desc nd) = kindLeafNode \<and> records nd = rs"
  by (induction t rule: tnode_induct) (auto split: sum.splits)

lemma recordsFit_lengths: "map length rs = map length rs' \<Longrightarrow> recordsFit ns rs = recordsFit ns rs'"
  using map_eq_imp_length_eq [of length rs length rs'] by (simp add: recordsFit_alt)

lemma replace_one: "distinct rs \<Longrightarrow> i < length rs \<Longrightarrow> rs[i := r'] = map (id(rs ! i := r')) rs"
  by (intro nth_equalityI) (auto simp: nth_list_update nth_eq_iff_index_eq)

context tree_keys
begin

lemma patch_ordered:
  assumes "\<And>r. r \<in> set (treeRecs t) \<Longrightarrow> keyOf (f r) = keyOf r" "ordered keyOf cmp lo hi t"
  shows "ordered keyOf cmp lo hi (patchTree f t)"
  using assms
proof (induction t arbitrary: lo hi rule: tnode_induct)
  case (TLeaf n rs)
  then have k: "keyOf (f r) = keyOf r" if "r \<in> set rs" for r using that by (simp add: treeRecs_def)
  have "sorted_wrt (\<lambda>a b. recCmp keyOf cmp (f a) (f b) < 0) rs"
    by (rule sorted_wrt_mono_rel [of _ "\<lambda>a b. recCmp keyOf cmp a b < 0"]) (use TLeaf.prems(2) k in \<open>auto simp: recCmp_def\<close>)
  then show ?case using TLeaf.prems(2) k by (auto simp: sorted_wrt_map recIn_def)
next
  case (TIndex n cs)
  have "orderedList keyOf cmp lo hi (map (\<lambda>p. (fst p, patchTree f (snd p))) ds)"
    if "orderedList keyOf cmp lo hi ds" "set ds \<subseteq> set cs" for lo ds
    using that
  proof (induction ds arbitrary: lo)
    case (Cons d ds)
    have d: "d \<in> set cs" using Cons.prems(2) by simp
    have "nextKey keyOf hi (map (\<lambda>p. (fst p, patchTree f (snd p))) ds) = nextKey keyOf hi ds" by (cases ds) (simp_all add: nextKey_def)
    moreover have "ordered keyOf cmp (keyOf (fst d)) (nextKey keyOf hi ds) (patchTree f (snd d))"
      by (rule TIndex.IH [OF d]) (use TIndex.prems(1) d Cons.prems(1) in auto)
    ultimately show ?case using Cons by simp
  qed simp
  then show ?case using TIndex.prems(2) by (auto simp: hd_map)
qed

text \<open>Storing a leaf with one record replaced.\<close>

lemma patch_leaf:
  assumes well: "wellTree keyOf cmp sel N ns s t" and leaf: "(n, rs) \<in> set (leavesOf t)" "nodeAt sel s n = Inr nd" "records nd = rs"
    and i: "i < length rs" "keyOf r' = keyOf (rs ! i)" "length r' = length (rs ! i)"
  obtains s' where "storeNode sel \<lparr>num = n, edesc = desc nd, erecs = rs[i := r']\<rparr> s = (Inr (), s')" "editOf sel s s'"
    "wellTree keyOf cmp sel N ns s' (patchTree (id(rs ! i := r')) t)" "spareNodes sel N s' = spareNodes sel N s"
    "countField sel s' = countField sel s"
proof -
  let ?f = "id(rs ! i := r')" and ?en = "\<lparr>num = n, edesc = desc nd, erecs = rs[i := r']\<rparr>"
  note w = well [unfolded wellTree_def]
  have pool: "poolOK sel N ns s" and dist: "distinct (numsOf t)" and chain: "chainTo (nodeAt sel s) (leavesOf t) 0"
    and lk: "linked (nodeAt sel s) ns (set (numsOf t))" and st: "storedTree (nodeAt sel s) t"
    and o: "ordered keyOf cmp (rootLow keyOf t) None t" and bnd: "\<forall>n \<in> set (numsOf t). n \<noteq> 0 \<and> unat n < N" using w by simp_all
  have n: "n \<in> set (numsOf t)" using imageI [OF leaf(1), of fst] leaves_nums [of t] by auto
  have srt: "sorted_wrt (\<lambda>a b. recCmp keyOf cmp a b < 0) (treeRecs t)" by (rule wellTree_sorted [OF well])
  have key: "\<exists>k. keyOf r = Some k" if "r \<in> set (treeRecs t)" for r using wellTree_within [OF well that] by (auto simp: recIn_def)
  have "recCmp keyOf cmp r r = 0" if "r \<in> set (treeRecs t)" for r using key [OF that] cmp_refl by (auto simp: recCmp_def)
  then have dr: "distinct (treeRecs t)" using srt by (auto simp: distinct_conv_nth sorted_wrt_iff_nth_less) (metis less_irrefl nat_neq_iff nth_mem)
  note leafN = stored_leaf [OF st leaf(1)]
  then have kind: "Kind (desc nd) = kindLeafNode" using leaf(2) by simp
  have sub: "set rs \<subseteq> set (treeRecs t)" "distinct rs" using leaf(1) dr by (auto simp: treeRecs_def distinct_concat_iff)
  have upd: "rs[i := r'] = map ?f rs" by (rule replace_one [OF sub(2) i(1)])
  have len: "map length (rs[i := r']) = map length rs" using i(1,3) by (simp add: map_update list_update_same_conv)
  have "recordsFit ns rs" using lk n leaf(2,3) by (auto simp: linked_def)
  then have fit: "recordsFit ns (erecs ?en)" using recordsFit_lengths [OF len] by simp
  obtain s' where s': "steps (poolOK sel N ns) sel N {n} (storeNode sel ?en) s () s'" "spareNodes sel N s' = spareNodes sel N s"
    "sameRoot sel s s'" "countField sel s' = countField sel s"
    "nodeAt sel s' n = Inr \<lparr>desc = (desc nd)\<lparr>NumRecords := of_nat (length rs)\<rparr>, records = rs[i := r']\<rparr>"
    using pool.store_step [OF pool _ _ fit] bnd n by auto
  have t: "touched sel N {n} s s'" "poolOK sel N ns s'" using s'(1) by (simp_all add: steps_def)
  have other: "nodeAt sel s' m = nodeAt sel s m" if "m \<in> set (numsOf t)" "m \<noteq> n" for m
    using touched_node [OF t(1)] that bnd by simp
  have same: "map ?f rs' = rs'" if "(m, rs') \<in> set (leavesOf t)" "m \<noteq> n" for m rs'
  proof -
    have "rs ! i \<notin> set rs'" using leaves_disjoint [OF _ that(1) leaf(1) that(2)] dr i(1) by (auto simp: treeRecs_def)
    then show ?thesis by (intro map_idI) auto
  qed
  show thesis
  proof (rule that [of s'])
    show "storeNode sel ?en s = (Inr (), s')" "editOf sel s s'" using s'(1) by (simp_all add: steps_def touched_def)
    have "storedTree (nodeAt sel s') (patchTree ?f t)"
      by (rule patch_stored [where read = "nodeAt sel s" and read' = "nodeAt sel s'" and n = n and f = ?f, OF st leaf(2) kind s'(5)])
        (use kind leaf(3) upd other same in auto)
    moreover have "chainTo (nodeAt sel s') (leavesOf (patchTree ?f t)) 0"
      unfolding patchTree_shape
    proof (rule patch_chain [OF chain])
      fix m rs' nd' assume m: "(m, rs') \<in> set (leavesOf t)" "nodeAt sel s m = Inr nd'" "records nd' = rs'"
      have "m \<in> set (numsOf t)" using imageI [OF m(1), of fst] leaves_nums [of t] by auto
      then show "\<exists>nd''. nodeAt sel s' m = Inr nd'' \<and> records nd'' = map ?f rs' \<and> FLink (desc nd'') = FLink (desc nd')"
        using m other same [OF m(1)] s'(5) leaf upd by (cases "m = n") auto
    qed
    moreover have "linked (nodeAt sel s') ns (set (numsOf t))"
      unfolding linked_def
    proof
      fix m assume m: "m \<in> set (numsOf t)"
      show "\<exists>nd. nodeAt sel s' m = Inr nd \<and> recordsFit ns (records nd) \<and> (FLink (desc nd) = 0 \<or> FLink (desc nd) \<in> set (numsOf t))"
        using lk [unfolded linked_def, rule_format, OF m] other [OF m] s'(5) fit leaf(2) by (cases "m = n") auto
    qed
    moreover have "ordered keyOf cmp (rootLow keyOf t) None (patchTree ?f t)"
      by (rule patch_ordered [OF _ o]) (use i(2) in auto)
    ultimately show "wellTree keyOf cmp sel N ns s' (patchTree ?f t)"
      unfolding wellTree_def patchTree_shape patchTree_low [OF o] using w t(2) s'(2,3) by (simp add: sameRoot_def)
  qed (use s' in auto)
qed

end

end
