(* ===== verification/SoundState.thy ===== *)
theory SoundState
  imports Openable RecordPatch
begin

text \<open>
  The state of a transaction as a whole: a well-formed catalog, a well-formed extents-overflow tree, the two
  copies of the volume header and the free blocks, each in its own part of the image. Edits of the header and
  of the catalog leave the contents of a file alone.
\<close>

section \<open>The parts of the image\<close>

text \<open>The two copies of the volume header and the allocation file.\<close>

definition inAlloc :: "wst \<Rightarrow> nat \<Rightarrow> bool" where
  "inAlloc s i \<longleftrightarrow> inRuns (unat (BlockSize (vh (wvol s)))) (allocExtents (wvol s)) i"

definition metaArea :: "wst \<Rightarrow> nat \<Rightarrow> bool" where
  "metaArea s i \<longleftrightarrow> headerArea (length (disk (wvol s))) i \<or> inAlloc s i"

definition areasApart :: "wst \<Rightarrow> bool" where
  "areasApart s \<longleftrightarrow>
     treesApart s \<and> freeApart forkCatalogFile s \<and> freeApart forkExtentsFile s \<and> 2560 \<le> length (disk (wvol s))
     \<and> (\<forall>i. metaArea s i \<longrightarrow> \<not> inNode forkCatalogFile s i \<and> \<not> inNode forkExtentsFile s i
           \<and> i div unat (BlockSize (vh (wvol s))) \<notin> freeSet (walc s))
     \<and> (\<forall>i. inAlloc s i \<longrightarrow> \<not> headerArea (length (disk (wvol s))) i)"

definition soundState :: "nat \<Rightarrow> nat \<Rightarrow> nat \<Rightarrow> nat \<Rightarrow> wst \<Rightarrow> tnode \<Rightarrow> tnode option \<Rightarrow> bool" where
  "soundState Nc nc Ne ne s t tr \<longleftrightarrow>
     wellTree keyFromRecord (compareCatalogKey (catalogTree (wvol s))) forkCatalogFile Nc nc s t \<and> treeHeight t \<le> 64
     \<and> mirrors forkCatalogFile Nc nc s (catalogTree (wvol s))
     \<and> extentsHold Ne ne s tr \<and> heightOf tr \<le> 64 \<and> (\<exists>bt. mirrors forkExtentsFile Ne ne s bt) \<and> areasApart s
     \<and> openable s \<and> allocFileOK (wvol s) (walc s)"

text \<open>The parts depend on the sizes and on where the files lie.\<close>

definition sameLayout :: "wst \<Rightarrow> wst \<Rightarrow> bool" where
  "sameLayout s s' \<longleftrightarrow> length (disk (wvol s')) = length (disk (wvol s)) \<and> BlockSize (vh (wvol s')) = BlockSize (vh (wvol s))
     \<and> AllocationFile (vh (wvol s')) = AllocationFile (vh (wvol s)) \<and> (\<forall>sel. writerOf sel s' = writerOf sel s)"

lemma metaArea_layout: "sameLayout s s' \<Longrightarrow> metaArea s' i = metaArea s i" "sameLayout s s' \<Longrightarrow> inAlloc s' i = inAlloc s i"
  by (simp_all add: sameLayout_def metaArea_def inAlloc_def)

lemma metaArea_cong:
  assumes "length (disk (wvol s')) = length (disk (wvol s))" "vh (wvol s') = vh (wvol s)"
  shows "metaArea s' i = metaArea s i" "inAlloc s' i = inAlloc s i"
  using assms by (simp_all add: metaArea_def inAlloc_def)

lemma areasApart_layout:
  assumes "areasApart s" "sameLayout s s'" "freeSet (walc s') \<subseteq> freeSet (walc s)"
  shows "areasApart s'"
proof -
  have n: "inNode sel s' i = inNode sel s i" for sel i using assms(2) by (intro inNode_cong) (simp_all add: sameLayout_def)
  have v: "length (disk (wvol s')) = length (disk (wvol s))" "BlockSize (vh (wvol s')) = BlockSize (vh (wvol s))"
    using assms(2) by (simp_all add: sameLayout_def)
  show ?thesis
    using assms(1,3) unfolding areasApart_def treesApart_def freeApart_def Let_def n v metaArea_layout [OF assms(2)] by blast
qed

lemma areasApart_cong:
  assumes "areasApart s" "\<And>sel. writerOf sel s' = writerOf sel s" "length (disk (wvol s')) = length (disk (wvol s))"
    and "vh (wvol s') = vh (wvol s)" "freeSet (walc s') \<subseteq> freeSet (walc s)"
  shows "areasApart s'"
  by (rule areasApart_layout [OF assms(1) _ assms(5)]) (use assms(2-4) in \<open>simp add: sameLayout_def\<close>)

section \<open>Edits on the side of the catalog\<close>

text \<open>Edits of the catalog's nodes and of the header: the extents-overflow tree, the bitmap and the bytes elsewhere
  stay.\<close>

definition catalogSide :: "nat \<Rightarrow> wst \<Rightarrow> wst \<Rightarrow> bool" where
  "catalogSide Ne s s' \<longleftrightarrow>
     sameTree forkExtentsFile Ne s s' \<and> writerOf forkCatalogFile s' = writerOf forkCatalogFile s \<and> walc s' = walc s
     \<and> KeyCompare (theader (catalogTree (wvol s'))) = KeyCompare (theader (catalogTree (wvol s)))
     \<and> (\<forall>i < length (disk (wvol s)). \<not> inNode forkCatalogFile s i \<longrightarrow> \<not> metaArea s i
           \<longrightarrow> disk (wvol s') ! i = disk (wvol s) ! i)"

lemma catalogSide_facts:
  assumes "catalogSide Ne s s'"
  shows "writerOf sel s' = writerOf sel s" "length (disk (wvol s')) = length (disk (wvol s))" "vh (wvol s') = vh (wvol s)"
    "inNode sel s' i = inNode sel s i" "walc s' = walc s" "compareCatalogKey (catalogTree (wvol s')) = compareCatalogKey (catalogTree (wvol s))"
proof -
  show w: "writerOf sel s' = writerOf sel s" for sel using assms by (cases sel) (simp_all add: catalogSide_def sameTree_def)
  show l: "length (disk (wvol s')) = length (disk (wvol s))" "vh (wvol s') = vh (wvol s)" "walc s' = walc s"
    using assms by (simp_all add: catalogSide_def sameTree_def)
  show "inNode sel s' i = inNode sel s i" by (rule inNode_cong [OF w l(1)])
  show "compareCatalogKey (catalogTree (wvol s')) = compareCatalogKey (catalogTree (wvol s))"
    using assms by (intro keyCompare_cong(1)) (simp add: catalogSide_def)
qed

lemma catalogSide_trans [trans]:
  assumes "catalogSide Ne s s'" "catalogSide Ne s' s''"
  shows "catalogSide Ne s s''"
proof -
  note f = catalogSide_facts [OF assms(1)]
  have "sameTree forkExtentsFile Ne s s''" using assms sameTree_trans unfolding catalogSide_def by blast
  then show ?thesis using assms f metaArea_cong(1) [OF f(2,3)] unfolding catalogSide_def by simp
qed

lemma catalogSide_areas: "catalogSide Ne s s' \<Longrightarrow> areasApart s \<Longrightarrow> areasApart s'"
  using catalogSide_facts by (intro areasApart_cong [of s s']) auto

lemma catalogSide_edit:
  assumes "editOf forkCatalogFile s s'" "treesApart s" "placed forkExtentsFile Ne s"
  shows "catalogSide Ne s s'"
proof -
  obtain d f where e: "sameOutside forkCatalogFile s d" "harmless f" "s' = cacheHeader forkCatalogFile f (setDisk d s)"
    using assms(1) by (auto simp: editOf_def)
  have "sameTree forkExtentsFile Ne s s'" by (rule sameTree_edit [OF assms(1) _ assms(2,3)]) simp
  moreover have "walc s' = walc s" "KeyCompare (theader (catalogTree (wvol s'))) = KeyCompare (theader (catalogTree (wvol s)))"
    unfolding e(3) using e(2) by (simp_all add: cacheHeader_def setDisk_def harmless_def)
  ultimately show ?thesis
    using e(1) editOf_writer [OF assms(1)] unfolding catalogSide_def e(3) by (simp add: sameOutside_def)
qed

lemma extents_placed: "extentsHold Ne ne s tr \<Longrightarrow> placed forkExtentsFile Ne s"
  by (auto simp: extentsHold_def extentsWell_def wellTree_def poolOK_def split: option.splits)

lemma soundState_placed: "soundState Nc nc Ne ne s t tr \<Longrightarrow> placed forkCatalogFile Nc s" "soundState Nc nc Ne ne s t tr \<Longrightarrow> placed forkExtentsFile Ne s"
  using extents_placed by (auto simp: soundState_def wellTree_def poolOK_def)

text \<open>The header nodes have their place, apart from everything else.\<close>

lemma sound_heads:
  assumes "soundState Nc nc Ne ne s t tr"
  shows "placed sel 1 s" "120 \<le> nodeSize (writerOf sel s)" "metaArea s i \<Longrightarrow> \<not> inNode sel s i" "2560 \<le> length (disk (wvol s))"
    "treesApart s" "headerArea (length (disk (wvol s))) i \<Longrightarrow> \<not> inNode sel s i" "0 < Nc" "0 < Ne"
proof -
  note v = assms [unfolded soundState_def]
  have "\<exists>N ns. poolOK sel N ns s"
    using v by (cases sel) (auto simp: wellTree_def extentsHold_def extentsWell_def split: option.splits)
  then obtain N ns where p: "poolOK sel N ns s" by blast
  then have "placed sel N s" "0 < N" by (simp_all add: poolOK_def)
  then show "placed sel 1 s" by (simp add: placed_def unat_eq_zero)
  show "120 \<le> nodeSize (writerOf sel s)" using p by (auto simp: poolOK_def)
  show m: "\<not> inNode sel s i" if "metaArea s i" for i using v that by (cases sel) (auto simp: areasApart_def)
  show "2560 \<le> length (disk (wvol s))" "treesApart s" using v by (simp_all add: areasApart_def)
  show "\<not> inNode sel s i" if "headerArea (length (disk (wvol s))) i" using m that by (simp add: metaArea_def)
  show "0 < Nc" "0 < Ne" using v by (auto simp: wellTree_def extentsHold_def extentsWell_def poolOK_def split: option.splits)
qed

lemma sound_edit:
  assumes "soundState Nc nc Ne ne s t tr" "editOf sel s s'"
  shows "openable s'"
  by (rule sealed_openable [OF sealed_edit [OF assms(2)]]) (use sound_heads [OF assms(1)] assms(1) in \<open>auto simp: soundState_def\<close>)

lemma allocFileOK_layout:
  assumes "wr v' = wr v" "length (disk v') = length (disk v)" "sameMap a a'" "BlockSize (vh v') = BlockSize (vh v)"
    "AllocationFile (vh v') = AllocationFile (vh v)" "vhTotalBlocks (vh v') = vhTotalBlocks (vh v)"
  shows "allocFileOK v' a' = allocFileOK v a"
proof -
  have "extentInside (disk v') bs = extentInside (disk v) bs" for bs using assms(2) by (simp add: extentInside_def fun_eq_iff)
  then show ?thesis using assms unfolding allocFileOK_def forkOK_def sameMap_def by simp
qed

lemma allocFileOK_cong:
  "wr v' = wr v \<Longrightarrow> vh v' = vh v \<Longrightarrow> length (disk v') = length (disk v) \<Longrightarrow> sameMap a a' \<Longrightarrow> allocFileOK v' a' = allocFileOK v a"
  by (rule allocFileOK_layout) simp_all

text \<open>The catalog itself does not see edits of the header.\<close>

definition headerEdit :: "wst \<Rightarrow> wst \<Rightarrow> bool" where
  "headerEdit s s' \<longleftrightarrow>
     (\<exists>d. s' = setDisk d s \<and> length d = length (disk (wvol s))
        \<and> (\<forall>i < length d. \<not> metaArea s i \<longrightarrow> d ! i = disk (wvol s) ! i)
        \<and> (\<forall>k < 512. \<not> counterByte k \<longrightarrow> d ! (1024 + k) = disk (wvol s) ! (1024 + k)))"

lemma headerEdit_tree:
  assumes "headerEdit s s'" "areasApart s" "placed sel N s"
  shows "sameTree sel N s s'"
proof -
  obtain d where d: "s' = setDisk d s" "length d = length (disk (wvol s))"
    "\<forall>i < length d. \<not> metaArea s i \<longrightarrow> d ! i = disk (wvol s) ! i" using assms(1) by (auto simp: headerEdit_def)
  have "\<not> metaArea s i" if "inNode sel s i" for i
    using that assms(2) unfolding areasApart_def by (cases sel) auto
  then show ?thesis unfolding d(1) using d(2,3) assms(3) by (intro sameTree_disk) auto
qed

lemma headerEdit_sound:
  assumes "headerEdit s s'" "soundState Nc nc Ne ne s t tr"
  shows "soundState Nc nc Ne ne s' t tr" "catalogSide Ne s s'"
proof -
  note v = assms(2) [unfolded soundState_def]
  have ar: "areasApart s" using v by simp
  obtain d where d: "s' = setDisk d s" "length d = length (disk (wvol s))"
    "\<forall>i < length d. \<not> metaArea s i \<longrightarrow> d ! i = disk (wvol s) ! i"
    "\<forall>k < 512. \<not> counterByte k \<longrightarrow> d ! (1024 + k) = disk (wvol s) ! (1024 + k)" using assms(1) by (auto simp: headerEdit_def)
  have pl: "placed forkCatalogFile Nc s" "placed forkExtentsFile Ne s"
    using v extents_placed by (auto simp: wellTree_def poolOK_def)
  note c = headerEdit_tree [OF assms(1) ar pl(1)] and e = headerEdit_tree [OF assms(1) ar pl(2)]
  have tr: "catalogTree (wvol s') = catalogTree (wvol s)" "walc s' = walc s" by (simp_all add: d(1) setDisk_def)
  show side: "catalogSide Ne s s'"
    using e c d tr unfolding catalogSide_def by (simp add: sameTree_def)
  have "sealed s s'" by (rule sealed_same) (use headerEdit_tree [OF assms(1) ar] sound_heads(1) [OF assms(2)] d in auto)
  then have "openable s'" by (rule sealed_openable) (use sound_heads(4) [OF assms(2)] v in simp_all)
  moreover have "allocFileOK (wvol s') (walc s')" using v allocFileOK_cong [of "wvol s'" "wvol s"] c tr by (simp add: sameMap_def sameTree_def)
  ultimately show "soundState Nc nc Ne ne s' t tr"
    unfolding soundState_def tr(1)
    using v sameTree_well [OF c] sameTree_mirrors [OF c] sameTree_extents [OF e] sameTree_mirrors [OF e] catalogSide_areas [OF side] by auto
qed

section \<open>The counters of the header\<close>

definition counterAt :: "nat \<Rightarrow> bool" where
  "counterAt off \<longleftrightarrow> (\<forall>k. off \<le> k \<longrightarrow> k < off + 4 \<longrightarrow> counterByte k)"

lemma counters: "counterAt vhNextCatalogID" "counterAt vhFileCount" "counterAt vhFolderCount" "counterAt vhWriteCount"
  by (simp_all add: counterAt_def counterByte_def vhNextCatalogID_def vhFileCount_def vhFolderCount_def vhWriteCount_def)

lemma counterAt_bound: "counterAt off \<Longrightarrow> off + 4 \<le> 512"
  unfolding counterAt_def counterByte_def by (drule spec [of _ off]) auto

lemma setHeader_edit:
  assumes "counterAt off" "2560 \<le> length (disk (wvol s))"
  obtains s' where "setHeaderU32 off val s = (Inr (), s')" "headerEdit s s'"
proof -
  let ?d = "disk (wvol s)"
  note off = counterAt_bound [OF assms(1)]
  define d where "d = overwrite (overwrite ?d (1024 + off) (enc32 val)) (length ?d - 1024 + off) (enc32 val)"
  have run: "setHeaderU32 off val s = (Inr (), setDisk d s)"
    using off assms(2) setHeaderU32At_ok [of off ?d val] by (simp add: setHeaderU32_def d_def)
  have len: "length d = length ?d" using off assms(2) by (simp add: d_def)
  have "d ! i = ?d ! i" if "i < length ?d" "\<not> metaArea s i" for i
    using that off assms(2) unfolding d_def metaArea_def headerArea_def by (auto simp: nth_overwrite)
  moreover have "d ! (1024 + k) = ?d ! (1024 + k)" if "k < 512" "\<not> counterByte k" for k
  proof -
    have "\<not> (off \<le> k \<and> k < off + 4)" using assms(1) that(2) by (auto simp: counterAt_def)
    then show ?thesis using that(1) off assms(2) unfolding d_def by (auto simp: nth_overwrite)
  qed
  ultimately have "headerEdit s (setDisk d s)" unfolding headerEdit_def using len by auto
  then show thesis using that run by blast
qed

lemma headerU32_run:
  "counterAt off \<Longrightarrow> 2560 \<le> length (disk (wvol s)) \<Longrightarrow> headerU32 off s = (Inr (be32 (disk (wvol s)) (1024 + off)), s)"
  using counterAt_bound [of off] by (simp add: headerU32_def volumeHeaderOffset_def)

lemma counter_run:
  assumes "counterAt off" "2560 \<le> length (disk (wvol s))"
  obtains s' where "bnd (headerU32 off) (\<lambda>n. setHeaderU32 off (f n)) s = (Inr (), s')" "headerEdit s s'"
proof -
  obtain s' where "setHeaderU32 off (f (be32 (disk (wvol s)) (1024 + off))) s = (Inr (), s')" "headerEdit s s'"
    by (rule setHeader_edit [OF assms])
  then show thesis using that [of s'] by (simp add: bnd_def headerU32_run [OF assms])
qed

definition nextID :: "wst \<Rightarrow> u32" where
  "nextID s = (let i = be32 (disk (wvol s)) (1024 + vhNextCatalogID) in if i < firstUserCatalogID then firstUserCatalogID else i)"

lemma nextCNID_run:
  assumes "2560 \<le> length (disk (wvol s))"
  obtains s' where "nextCNID s = (Inr (nextID s), s')" "headerEdit s s'"
proof -
  obtain s' where s': "setHeaderU32 vhNextCatalogID (nextID s + 1) s = (Inr (), s')" "headerEdit s s'"
    by (rule setHeader_edit [OF counters(1) assms])
  have "nextCNID s = (Inr (nextID s), s')"
    using s'(1) by (simp add: nextCNID_def bnd_def headerU32_run [OF counters(1) assms] nextID_def ret_def Let_def)
  then show thesis using that s'(2) by blast
qed

lemma count_runs:
  assumes "2560 \<le> length (disk (wvol s))"
  shows "\<exists>s'. incFileCount d s = (Inr (), s') \<and> headerEdit s s'" "\<exists>s'. incFolderCount d s = (Inr (), s') \<and> headerEdit s s'"
    "\<exists>s'. bumpWriteCount s = (Inr (), s') \<and> headerEdit s s'"
proof -
  have run: "\<exists>s'. bnd (headerU32 off) (\<lambda>n. setHeaderU32 off (f n)) s = (Inr (), s') \<and> headerEdit s s'" if "counterAt off" for off f
    by (rule counter_run [OF that assms, of f]) blast
  show "\<exists>s'. incFileCount d s = (Inr (), s') \<and> headerEdit s s'" "\<exists>s'. incFolderCount d s = (Inr (), s') \<and> headerEdit s s'"
    "\<exists>s'. bumpWriteCount s = (Inr (), s') \<and> headerEdit s s'"
    unfolding incFileCount_def incFolderCount_def bumpWriteCount_def by (rule run, rule counters)+
qed

section \<open>Contents of a file\<close>

text \<open>A file whose blocks lie outside the catalog and the headers keeps its contents under these edits.\<close>

definition fileOn :: "nat \<Rightarrow> nat \<Rightarrow> wst \<Rightarrow> u32 \<Rightarrow> bytes \<Rightarrow> extentDescriptor list \<Rightarrow> bool" where
  "fileOn Ne ne s cnid data runs \<longleftrightarrow> dataHeld Ne ne s cnid data runs
     \<and> (\<forall>i. inRuns (unat (BlockSize (vh (wvol s)))) runs i \<longrightarrow> \<not> inNode forkCatalogFile s i \<and> \<not> metaArea s i)"

lemma fileOn_side:
  assumes "catalogSide Ne s s'" "fileOn Ne ne s cnid data runs"
  shows "fileOn Ne ne s' cnid data runs"
proof -
  note f = catalogSide_facts [OF assms(1)] and h = assms(2) [unfolded fileOn_def dataHeld_def Let_def]
  let ?bs = "unat (BlockSize (vh (wvol s)))"
  have out: "\<not> inNode forkCatalogFile s i" "\<not> metaArea s i" if "inRuns ?bs runs i" for i using h that by blast+
  have "forkContent (disk (wvol s')) ?bs runs = forkContent (disk (wvol s)) ?bs runs"
    by (rule forkContent_same) (use h f out assms(1) in \<open>auto simp: catalogSide_def\<close>)
  moreover have "forkStored Ne ne s' cnid forkTypeData runs"
    using h assms(1) by (intro forkStored_frame [of Ne s s']) (auto simp: catalogSide_def)
  moreover have "list_all (extentInside (disk (wvol s')) ?bs) runs" using h f(2) by (simp add: extentInside_def list_all_iff)
  ultimately show ?thesis unfolding fileOn_def dataHeld_def Let_def f(2,3,4) metaArea_cong(1) [OF f(2,3)] using h by simp
qed

lemma free_apart:
  assumes "areasApart s" "set (blocksOf runs) \<subseteq> freeSet (walc s)" "inRuns (unat (BlockSize (vh (wvol s)))) runs i"
  shows "\<not> inNode sel s i" "\<not> metaArea s i"
proof -
  let ?bs = "unat (BlockSize (vh (wvol s)))"
  note a = assms(1) [unfolded areasApart_def Let_def]
  have bs: "0 < ?bs" using a by (auto simp: freeApart_def Let_def)
  have b: "i div ?bs \<in> freeSet (walc s)" using assms(2,3) inRuns_blocks [OF bs] by blast
  then show "\<not> metaArea s i" using a by blast
  have "i div ?bs * ?bs \<le> i" "i < i div ?bs * ?bs + ?bs"
    using bs div_mult_mod_eq [of i ?bs] mod_less_divisor [OF bs, of i] by linarith+
  then show "\<not> inNode sel s i" using a b unfolding freeApart_def Let_def by (cases sel) blast+
qed

text \<open>Bytes put into free blocks, and edits of the extents-overflow tree, leave the rest alone.\<close>

lemma sound_data:
  assumes snd: "soundState Nc nc Ne ne s t tr" and free: "set (blocksOf runs) \<subseteq> freeSet (walc s)"
    and img: "length img = length (disk (wvol s))" "\<forall>i < length img. \<not> inRuns (unat (BlockSize (vh (wvol s)))) runs i \<longrightarrow> img ! i = disk (wvol s) ! i"
    and a: "freeSet a \<subseteq> freeSet (walc s)" "sameMap (walc s) a"
  shows "soundState Nc nc Ne ne (setDisk img s\<lparr>walc := a\<rparr>) t tr" "placed sel N s \<Longrightarrow> sameTree sel N s (setDisk img s\<lparr>walc := a\<rparr>)"
proof -
  let ?s = "setDisk img s\<lparr>walc := a\<rparr>"
  note v = snd [unfolded soundState_def]
  have ar: "areasApart s" using v by simp
  note out = free_apart [OF ar free]
  have same: "sameTree sel N s ?s" if "placed sel N s" for sel N
  proof -
    have "sameTree sel N s (setDisk img s)" by (rule sameTree_disk) (use img out that in auto)
    then show ?thesis by (rule sameTree_trans) simp
  qed
  then show "sameTree sel N s ?s" if "placed sel N s" using that .
  note c = same [OF soundState_placed(1) [OF snd]] and e = same [OF soundState_placed(2) [OF snd]]
  have ar': "areasApart ?s" by (rule areasApart_cong [OF ar]) (use c img a in \<open>auto simp: sameTree_def\<close>)
  have "\<not> inRuns (unat (BlockSize (vh (wvol s)))) runs (1024 + k)" if "k < 512" for k
    using out(2) [of "1024 + k"] that by (auto simp: metaArea_def headerArea_def)
  then have "sealed s ?s"
    by (intro sealed_same same sound_heads(1) [OF snd]) (use img sound_heads(4) [OF snd] in auto)
  then have op: "openable ?s" by (rule sealed_openable) (use sound_heads(4) [OF snd] v in auto)
  have "allocFileOK (wvol ?s) a" using v allocFileOK_cong [of "wvol ?s" "wvol s" "walc s" a] c a(2) by (simp add: sameTree_def)
  moreover have "catalogTree (wvol ?s) = catalogTree (wvol s)" using c by (simp add: sameTree_def treeOf_def)
  ultimately show "soundState Nc nc Ne ne ?s t tr"
    unfolding soundState_def using v sameTree_well [OF c] sameTree_mirrors [OF c] sameTree_extents [OF e] sameTree_mirrors [OF e] ar' op by auto
qed

lemma extents_edit:
  assumes snd: "soundState Nc nc Ne ne s t tr" and edit: "editOf forkExtentsFile s s'"
    and tr': "extentsHold Ne ne s' tr'" "heightOf tr' \<le> 64"
  shows "soundState Nc nc Ne ne s' t tr'" "sameTree forkCatalogFile Nc s s'"
proof -
  note v = snd [unfolded soundState_def]
  show c: "sameTree forkCatalogFile Nc s s'"
    by (rule sameTree_edit [OF edit _ _ soundState_placed(1) [OF snd]]) (use sound_heads(5) [OF snd] in auto)
  obtain bt' where bt: "mirrors forkExtentsFile Ne ne s' bt'" using mirrors_edit [OF _ edit] v by blast
  have f: "walc s' = walc s" "writerOf sel s' = writerOf sel s" for sel
    using edit editOf_writer [OF edit] by (auto simp: editOf_def cacheHeader_def setDisk_def)
  have "areasApart s'" by (rule areasApart_cong [of s]) (use v f c in \<open>auto simp: sameTree_def\<close>)
  moreover have "allocFileOK (wvol s') (walc s')" using v allocFileOK_cong [of "wvol s'" "wvol s"] c f by (simp add: sameTree_def sameMap_def)
  moreover have "catalogTree (wvol s') = catalogTree (wvol s)" using c by (simp add: sameTree_def treeOf_def)
  ultimately show "soundState Nc nc Ne ne s' t tr'"
    unfolding soundState_def using v sameTree_well [OF c] sameTree_mirrors [OF c] tr' bt sound_edit [OF snd edit] by auto
qed

text \<open>The extents of a new file and its bytes, put down next to a catalog.\<close>

lemma place_file:
  assumes snd: "soundState Nc nc Ne ne s t tr" and new: "freshFork cnid forkTypeData tr"
    and nb: "nb \<noteq> 0" "allocFragments nb (walc s) = (Inr runs, a')"
    and room: "roomForAll Ne s tr (length (extentRecords forkTypeData cnid (sum_list (map BlockCount (take numInlineExtents runs)))
      (drop numInlineExtents runs)))"
  obtains s' tr' where "placeData cnid nb data s = (Inr runs, s')" "soundState Nc nc Ne ne s' t tr'" "fileOn Ne ne s' cnid data runs"
    "sameTree forkCatalogFile Nc s s'" "\<forall>r \<in> set runs. BlockCount r \<noteq> 0" "countSum runs = unat nb"
    "unat nb * unat (BlockSize (vh (wvol s))) \<le> length (disk (wvol s))" "sameLayout s s'"
proof -
  let ?bs = "unat (BlockSize (vh (wvol s)))"
  note v = snd [unfolded soundState_def]
  have ar: "areasApart s" using v by simp
  obtain s' where s': "placeData cnid nb data s = (Inr runs, s')" "placedData Ne ne s cnid data runs s'"
    "\<forall>r \<in> set runs. BlockCount r \<noteq> 0" "countSum runs = unat nb" "\<forall>i. inRuns ?bs runs i \<longrightarrow> \<not> inNode forkExtentsFile s i"
    "list_all (extentInside (disk (wvol s)) ?bs) runs" "unat nb * ?bs \<le> length (disk (wvol s))"
    by (rule place_data [where data = data, OF _ new _ nb room]) (use v in \<open>auto simp: areasApart_def\<close>)
  note h = placedData_held [OF s'(2,6,5)]
  have free: "set (blocksOf runs) \<subseteq> freeSet (walc s)" using allocFragments_ok [OF nb] by blast
  obtain img a1 where st: "editOf forkExtentsFile (setDisk img s\<lparr>walc := a1\<rparr>) s'" "length img = length (disk (wvol s))"
    "freeSet a1 = freeSet (walc s) - set (blocksOf runs)" "sameMap (walc s) a1"
    "\<forall>i < length img. \<not> inRuns ?bs runs i \<longrightarrow> img ! i = disk (wvol s) ! i"
    using s'(2) unfolding placedData_def by blast
  have s1: "soundState Nc nc Ne ne (setDisk img s\<lparr>walc := a1\<rparr>) t tr" "sameTree forkCatalogFile Nc s (setDisk img s\<lparr>walc := a1\<rparr>)"
    by (rule sound_data [OF snd free]; use st soundState_placed(1) [OF snd] in auto)+
  obtain tr' where tr': "extentsHold Ne ne s' tr'" "heightOf tr' \<le> 64"
    using h(1) unfolding dataHeld_def forkStored_def Let_def by blast
  note e = extents_edit [OF s1(1) st(1) tr']
  have w: "writerOf sel s' = writerOf sel s" for sel using editOf_writer [OF st(1)] by simp
  have "fileOn Ne ne s' cnid data runs"
    unfolding fileOn_def h(2) metaArea_cong(1) [OF h(3,2)] using h(1) free_apart [OF ar free] inNode_cong [OF w h(3)] by simp
  moreover have "sameLayout s s'" using h(2,3) w by (simp add: sameLayout_def)
  ultimately show thesis using that s' e(1) sameTree_trans [OF s1(2) e(2)] by blast
qed

end
