(* ===== verification/CatalogSteps.thy ===== *)
theory CatalogSteps
  imports SoundState
begin

text \<open>
  Steps on the catalog of a sound state: the leaf that \<^verbatim>\<open>descend\<close> reaches has the record of the key, an insertion
  and a patched folder record (\<^verbatim>\<open>insertRecord\<close>, \<^verbatim>\<open>patchFolderRecord\<close> of \<^verbatim>\<open>catwrite.go\<close>) leave a sound state.
\<close>

section \<open>The leaf of a record\<close>

context tree_keys
begin

text \<open>The way down to the key of a record of the tree ends in the leaf of that record.\<close>

lemma path_holds:
  assumes "ordered keyOf cmp lo hi t" "lo = None \<Longrightarrow> \<exists>n rs. t = TLeaf n rs" "r \<in> set (treeRecs t)"
    and "keyOf probe \<noteq> None" "recCmp keyOf cmp r probe = 0"
  shows "\<exists>rs. (last (pathOf (\<lambda>x. recCmp keyOf cmp x probe) t), rs) \<in> set (leavesOf t) \<and> r \<in> set rs"
  using assms(1-3)
proof (induction t arbitrary: lo hi rule: tnode_induct)
  case (TLeaf n rs)
  then show ?case by (simp add: treeRecs_def)
next
  case (TIndex n cs)
  have cs: "cs \<noteq> []" "orderedList keyOf cmp lo hi cs" "keyOf (fst (hd cs)) = lo" using TIndex.prems(1,2) by auto
  obtain kr kp where k: "keyOf r = Some kr" "keyOf probe = Some kp" "cmp kr kp = 0"
    using ordered_within [OF TIndex.prems(1,3)] assms(4,5) by (auto simp: recIn_def recCmp_def)
  have "recIn keyOf cmp lo hi r" by (rule ordered_within [OF TIndex.prems(1,3)])
  moreover have "cmp kp kr = 0" using cmp_swap [of kr kp] k(3) by simp
  ultimately have "recIn keyOf cmp lo hi probe"
    using k cmp_trans [of _ kr kp] cmp_le_less [of kp kr] by (auto simp: recIn_def within_def)
  from choose_child [OF cs(2,1) this cs(3)] obtain xs p ys where p: "cs = xs @ p # ys"
    "chooseIdx (\<lambda>x. recCmp keyOf cmp x probe) (map fst cs) = length xs" "recIn keyOf cmp (keyOf (fst p)) (nextKey keyOf hi ys) probe"
    by blast
  obtain q where q: "q \<in> set cs" "r \<in> set (treeRecs (snd q))" using TIndex.prems(3) by auto
  have o: "orderedList keyOf cmp lo (keyOf (fst p)) xs" "ordered keyOf cmp (keyOf (fst p)) (nextKey keyOf hi ys) (snd p)"
    "orderedList keyOf cmp (keyOf (fst p)) hi ys" "keyOf (fst p) \<noteq> None"
    using cs(2) by (auto simp: p(1) orderedList_append recIn_def)
  have geq: "recCmp keyOf cmp (fst p) probe \<le> 0" by (rule recIn_geq [OF p(3) o(4)])
  have "q \<notin> set xs"
  proof
    assume "q \<in> set xs"
    then have "recIn keyOf cmp lo (keyOf (fst p)) r" using orderedList_above(1) [OF o(1)] q(2) by blast
    then have "recCmp keyOf cmp r (fst p) < 0" using o(4) by (rule recIn_less)
    then have "recCmp keyOf cmp r probe < 0" using geq assms(4) by (rule recCmp_trans)
    then show False using assms(5) by simp
  qed
  moreover have "q \<notin> set ys"
  proof
    assume y: "q \<in> set ys"
    note b = orderedList_above [OF o(3) y q(2)]
    have "nextKey keyOf hi ys = keyOf (fst (hd ys))" using y by (cases ys) auto
    then have "recCmp keyOf cmp probe (fst (hd ys)) < 0" using p(3) b(3) recIn_less by metis
    then have "recCmp keyOf cmp probe r < 0" using b(2) k(1) recCmp_trans by blast
    then show False using assms(5) recCmp_swap [of r probe] by simp
  qed
  ultimately have "q = p" using q(1) p(1) by auto
  then obtain rs where "(last (pathOf (\<lambda>x. recCmp keyOf cmp x probe) (snd p)), rs) \<in> set (leavesOf (snd p))" "r \<in> set rs"
    using TIndex.IH [of p, OF _ o(2)] o(4) q(2) p(1) by auto
  then show ?case using pathOf_index [OF p(1,2)] p(1) by auto
qed

text \<open>Records with the same key are the same.\<close>

lemma same_record:
  assumes "sorted_wrt (\<lambda>a b. recCmp keyOf cmp a b < 0) rs" "a \<in> set rs" "b \<in> set rs" "recCmp keyOf cmp a b = 0"
  shows "a = b"
proof -
  obtain i j where i: "i < length rs" "a = rs ! i" and j: "j < length rs" "b = rs ! j"
    using assms(2,3) by (auto simp: in_set_conv_nth)
  have "\<not> i < j" using sorted_wrt_nth_less [OF assms(1), of i j] assms(4) i j by auto
  moreover have "\<not> j < i"
  proof
    assume "j < i"
    then have "recCmp keyOf cmp b a < 0" using sorted_wrt_nth_less [OF assms(1), of j i] i j by auto
    then show False using assms(4) recCmp_swap [of b a] by simp
  qed
  ultimately show ?thesis using i j by (metis nat_neq_iff)
qed

lemma found_leaf:
  assumes well: "wellTree keyOf cmp sel N ns s t" and cmp: "compareRecords sel s = recCmp keyOf cmp" and "treeHeight t \<le> 64"
    and r: "r \<in> set (treeRecs t)" "keyOf probe \<noteq> None" "recCmp keyOf cmp r probe = 0"
  obtains path idx rs nd where "descend sel probe s = (Inr (path, idx), s)" "(last path, rs) \<in> set (leavesOf t)" "r \<in> set rs"
    "nodeAt sel s (last path) = Inr nd" "records nd = rs"
    "loadNode sel (last path) s = (Inr \<lparr>num = last path, edesc = desc nd, erecs = rs\<rparr>, s)"
proof -
  note w = well [unfolded wellTree_def]
  have o: "ordered keyOf cmp (rootLow keyOf t) None t" and nums: "\<forall>n \<in> set (numsOf t). n \<noteq> 0 \<and> unat n < N" using w by simp_all
  have world: "writer.world sel N ns (set (numsOf t)) s" unfolding writer.world_def using w by auto
  obtain idx where way: "descend sel probe s = (Inr (writer.way probe t, idx), s)"
    by (rule writer.descend_root [OF world cmp]) (use w assms(3) in auto)
  have low: "rootLow keyOf t = None \<Longrightarrow> \<exists>n rs. t = TLeaf n rs"
    using ordered_from_first(2) [OF o] by (cases t) (auto simp: rootLow_def firstRec_def recIn_def)
  let ?n = "last (writer.way probe t)"
  obtain rs where rs: "(?n, rs) \<in> set (leavesOf t)" "r \<in> set rs" using path_holds [OF o low r] by blast
  obtain nd where nd: "nodeAt sel s ?n = Inr nd" "records nd = rs" using stored_leaf [OF _ rs(1)] w by blast
  have "?n \<in> set (numsOf t)" using imageI [OF rs(1), of fst] leaves_nums [of t] by auto
  then have "loadNode sel ?n s = (Inr \<lparr>num = ?n, edesc = desc nd, erecs = rs\<rparr>, s)"
    using loadNode_cell [of sel N s ?n nd] nd nums w by (auto simp: poolOK_def)
  then show thesis using that way rs nd by blast
qed

end

section \<open>Keys and records of the catalog\<close>

abbreviation keyAt :: "u32 \<Rightarrow> gostring \<Rightarrow> catalogKey" where
  "keyAt p name \<equiv> \<lparr>parentID = p, cname = name, nameU16 = None\<rparr>"

abbreviation catCmp :: "wst \<Rightarrow> bytes \<Rightarrow> bytes \<Rightarrow> int" where
  "catCmp s \<equiv> recCmp keyFromRecord (compareCatalogKey (catalogTree (wvol s)))"

lemma probe_key: "fitName name \<Longrightarrow> keyFromRecord (assembleProbe (encodeCatalogKey p name)) = Some \<lparr>parentID = p, cname = name, nameU16 = Some (utf16Encode name)\<rparr>"
  using record_of_key(1) [of name p "[]"] by (simp add: assembleProbe_def assembleCatalogRecord_def)

lemma compare_units:
  "compareCatalogKey t k \<lparr>parentID = p, cname = name, nameU16 = Some (utf16Encode name)\<rparr> = compareCatalogKey t k (keyAt p name)"
  by (simp add: compareCatalogKey_ordSign sortUnits_def keyUnits_def utf16Encode_def)

lemma matchesKey_eq: "matchesKey env p name s = keyMatches env (catalogTree (wvol s)) (keyAt p name)"
  by (intro ext) (simp add: matchesKey_def keyMatches_def split: option.split)

text \<open>Where the two notions of equal names agree, a record matches a key when it compares equal.\<close>

lemma match_compare:
  assumes "namesAgree env t key rs" "r \<in> set rs" "keyFromRecord r = Some k"
  shows "keyMatches env t key r \<longleftrightarrow> compareCatalogKey t k key = 0"
proof -
  have "keyHolds keyFromRecord (\<lambda>k. parentID k = parentID key \<longrightarrow>
      (nameEqual env t (cname k) (cname key) \<longleftrightarrow> compareCatalogKey t k key = 0)) r"
    using assms(1,2) unfolding namesAgree_def list_all_iff by blast
  then show ?thesis
    using assms(3) by (auto simp: keyMatches_def keyHolds_def compareCatalogKey_ordSign ordSign_def split: if_splits)
qed

lemma compare_eq_trans: "compareCatalogKey t a c = 0 \<Longrightarrow> compareCatalogKey t b c = 0 \<Longrightarrow> compareCatalogKey t a b = 0"
  by (auto simp: compareCatalogKey_ordSign ordSign_def split: if_splits)

text \<open>A record with other data behind its key.\<close>

definition withData :: "bytes \<Rightarrow> bytes \<Rightarrow> bytes \<Rightarrow> bytes" where
  "withData r data data' = take (length r - length data) r @ data'"

lemma withData_facts:
  assumes "recordData r = Some data" "length data' = length data"
  shows "keyFromRecord (withData r data data') = keyFromRecord r" "length (withData r data data') = length r"
    "recordData (withData r data data') = Some data'"
proof -
  obtain kl off where k: "recordKeyLen r = Some kl" "off = (if (2 + kl) mod 2 \<noteq> 0 then 2 + kl + 1 else 2 + kl)" "off \<le> length r" "data = drop off r"
    using assms(1) by (auto simp: recordData_def Let_def split: option.splits if_splits)
  have kl: "kl = unat (be16 r 0)" "2 + kl \<le> length r" "2 + kl \<le> off" using recordKeyLen_Some [OF k(1)] k(2) by auto
  have w: "withData r data data' = take off r @ data'" using k(3,4) by (simp add: withData_def)
  show len: "length (withData r data data') = length r" unfolding w using k(3,4) assms(2) by simp
  have "be16 (withData r data data') 0 = be16 r 0"
    unfolding w using kl(3) k(3) be16_append_left [of 0 "take off r" data'] be16_append_left [of 0 "take off r" "drop off r"] by simp
  then have rk: "recordKeyLen (withData r data data') = Some kl" using kl len by (simp add: recordKeyLen_def)
  have "gslice (withData r data data') 2 (2 + kl) = gslice r 2 (2 + kl)"
    unfolding w using kl(3) k(3) by (auto simp: gslice_def drop_take min_def)
  then show "keyFromRecord (withData r data data') = keyFromRecord r" by (simp add: keyFromRecord_def rk k(1))
  have "recordData (withData r data data') = (if off > length (withData r data data') then None else Some (drop off (withData r data data')))"
    unfolding recordData_def rk k(2) by simp
  then show "recordData (withData r data data') = Some data'" using len k(3) by (simp add: w)
qed

section \<open>Steps on the catalog\<close>

lemma soundState_compare: "compareRecords forkCatalogFile s = catCmp s"
  by (intro ext) (simp add: compareRecords_def recCmp_def)

lemma catalog_edit:
  assumes snd: "soundState Nc nc Ne ne s t tr" and edit: "editOf forkCatalogFile s s'"
    and well: "wellTree keyFromRecord (compareCatalogKey (catalogTree (wvol s))) forkCatalogFile Nc nc s' t'" "treeHeight t' \<le> 64"
  shows "soundState Nc nc Ne ne s' t' tr" "catalogSide Ne s s'"
proof -
  note v = snd [unfolded soundState_def]
  show side: "catalogSide Ne s s'"
    by (rule catalogSide_edit [OF edit sound_heads(5) [OF snd] soundState_placed(2) [OF snd]])
  obtain ct' where ct': "mirrors forkCatalogFile Nc nc s' ct'" using mirrors_edit [OF _ edit] v by blast
  then have "catalogTree (wvol s') = ct'" by (simp add: mirrors_def treeOf_def)
  moreover have "sameTree forkExtentsFile Ne s s'" using side by (simp add: catalogSide_def)
  moreover have "allocFileOK (wvol s') (walc s')"
    using v allocFileOK_cong [of "wvol s'" "wvol s"] side by (simp add: catalogSide_def sameTree_def sameMap_def)
  ultimately show "soundState Nc nc Ne ne s' t' tr"
    unfolding soundState_def catalogSide_facts(6) [OF side]
    using well ct' v sameTree_extents sameTree_mirrors catalogSide_areas [OF side] sound_edit [OF snd edit] by auto
qed

lemma catalog_step:
  assumes snd: "soundState Nc nc Ne ne s t tr"
    and new: "newKey keyFromRecord (compareCatalogKey (catalogTree (wvol s))) t rec" "roomFor forkCatalogFile Nc s t"
    and ins: "rootInsert nc (catCmp s) rec t (spareNodes forkCatalogFile Nc s) = Some (t', f)"
  obtains s' where "insertRecord rec s = (Inr (), s')" "soundState Nc nc Ne ne s' t' tr" "catalogSide Ne s s'"
    "spareNodes forkCatalogFile Nc s' = f" "inserted rec (treeRecs t) (treeRecs t')"
proof -
  have well: "wellTree keyFromRecord (compareCatalogKey (catalogTree (wvol s))) forkCatalogFile Nc nc s t"
    using snd by (simp add: soundState_def)
  obtain s' where s': "insert_rec forkCatalogFile rec s = (Inr (), s')" "editOf forkCatalogFile s s'"
    "wellTree keyFromRecord (compareCatalogKey (catalogTree (wvol s))) forkCatalogFile Nc nc s' t'"
    "spareNodes forkCatalogFile Nc s' = f" "inserted rec (treeRecs t) (treeRecs t')" "treeHeight t' \<le> 64"
    using catKeys.insert_well [OF well soundState_compare new] ins by auto
  moreover have "insertRecord rec s = (Inr (), s')"
    using s'(1) new(1) by (auto simp: insertRecord_def newKey_def recIn_def)
  ultimately show thesis using that catalog_edit [OF snd s'(2,3,6)] by blast
qed

lemma patch_step:
  assumes snd: "soundState Nc nc Ne ne s t tr" and fo: "fo \<in> set (treeRecs t)" "keyMatches env (catalogTree (wvol s)) (keyAt gp name) fo"
    and names: "namesAgree env (catalogTree (wvol s)) (keyAt gp name) (treeRecs t)" "fitName name"
    and data: "recordData fo = Some data" "mutate data = Some data'" "length data' = length data"
  obtains s' where "patchFolderRecord env gp name mutate s = (Inr (), s')" "catalogSide Ne s s'"
    "soundState Nc nc Ne ne s' (patchTree (id(fo := withData fo data data')) t) tr"
proof -
  let ?ct = "catalogTree (wvol s)" and ?probe = "assembleProbe (encodeCatalogKey gp name)"
  note v = snd [unfolded soundState_def]
  have well: "wellTree keyFromRecord (compareCatalogKey ?ct) forkCatalogFile Nc nc s t" and h: "treeHeight t \<le> 64" using v by simp_all
  have srt: "sorted_wrt (\<lambda>a b. catCmp s a b < 0) (treeRecs t)" by (rule catKeys.wellTree_sorted [OF well])
  have key: "\<exists>k. keyFromRecord r = Some k" if "r \<in> set (treeRecs t)" for r
    using catKeys.wellTree_within [OF well that] by (auto simp: recIn_def)
  obtain kf where kf: "keyFromRecord fo = Some kf" using key [OF fo(1)] by blast
  have zero: "compareCatalogKey ?ct kf (keyAt gp name) = 0" using match_compare [OF names(1) fo(1) kf] fo(2) by simp
  have "catCmp s fo ?probe = 0" using zero by (simp add: recCmp_def kf probe_key [OF names(2)] compare_units)
  then obtain path idx rs nd where p: "descend forkCatalogFile ?probe s = (Inr (path, idx), s)" "(last path, rs) \<in> set (leavesOf t)" "fo \<in> set rs"
    "nodeAt forkCatalogFile s (last path) = Inr nd" "records nd = rs"
    "loadNode forkCatalogFile (last path) s = (Inr \<lparr>num = last path, edesc = desc nd, erecs = rs\<rparr>, s)"
    by (rule catKeys.found_leaf [OF well soundState_compare h fo(1), rotated]) (simp_all add: probe_key [OF names(2)])
  let ?test = "matchesKey env gp name s"
  define i where "i = length (takeWhile (\<lambda>r. \<not> ?test r) rs)"
  have sub: "set rs \<subseteq> set (treeRecs t)" using p(2) by (auto simp: treeRecs_def)
  have tf: "?test fo" using fo(2) by (simp add: matchesKey_eq)
  have i: "i < length rs" unfolding i_def using p(3) tf by (metis length_takeWhile_le nat_less_le takeWhile_eq_all_conv takeWhile_eq_take take_all_iff)
  then have "?test (rs ! i)" unfolding i_def using nth_length_takeWhile [of "\<lambda>r. \<not> ?test r" rs] by simp
  moreover have ri: "rs ! i \<in> set (treeRecs t)" using i sub by auto
  moreover obtain k where k: "keyFromRecord (rs ! i) = Some k" using key [OF ri] by blast
  ultimately have "compareCatalogKey ?ct k (keyAt gp name) = 0"
    using match_compare [OF names(1) ri k] by (simp add: matchesKey_eq)
  then have "catCmp s (rs ! i) fo = 0" using compare_eq_trans [OF _ zero] by (simp add: recCmp_def k kf)
  then have at: "rs ! i = fo" by (rule catKeys.same_record [OF srt ri fo(1)])
  note wd = withData_facts [OF data(1,3)]
  obtain s' where s': "storeNode forkCatalogFile \<lparr>num = last path, edesc = desc nd, erecs = rs[i := withData fo data data']\<rparr> s = (Inr (), s')"
    "editOf forkCatalogFile s s'" "wellTree keyFromRecord (compareCatalogKey ?ct) forkCatalogFile Nc nc s' (patchTree (id(rs ! i := withData fo data data')) t)"
    by (rule catKeys.patch_leaf [OF well p(2,4,5) i, of "withData fo data data'"]) (use wd at in auto)
  have "patchFolderRecord env gp name mutate s = (Inr (), s')"
    using p(1,6) i at data(1,2) s'(1) by (simp add: patchFolderRecord_def bnd_def getS_def Let_def withData_def flip: i_def)
  then show thesis using that catalog_edit [OF snd s'(2,3)] h unfolding at patchTree_shape by blast
qed

end
