(* ===== verification/CatalogEntry.thy ===== *)
theory CatalogEntry
  imports CatalogSteps
begin

text \<open>
  A new entry of the catalog: a record under its name, its thread record, and the count of the parent folder
  (\<^verbatim>\<open>createFile\<close>, \<^verbatim>\<open>MkDir\<close> of \<^verbatim>\<open>write.go\<close>). Every lookup afterwards is known from the lookup before.
\<close>

section \<open>Lookups\<close>

lemma sound_lookup:
  assumes "soundState Nc nc Ne ne s t tr" "namesAgree env (catalogTree (wvol s)) key (treeRecs t)"
  shows "lookup env (wvol s) (catalogTree (wvol s)) key = lookupSpec env (catalogTree (wvol s)) key (treeRecs t)"
proof -
  note v = assms(1) [unfolded soundState_def]
  have well: "wellTree keyFromRecord (compareCatalogKey (catalogTree (wvol s))) forkCatalogFile Nc nc s t"
    "mirrors forkCatalogFile Nc nc s (catalogTree (wvol s))" "treeHeight t \<le> 64" using v by simp_all
  show ?thesis
    using lookup_refines [OF catKeys.wellTree_holds [OF well] catKeys.wellTree_ascending [OF well(1)]] assms(2) by (simp add: recsOf_def)
qed

lemma sound_sorted:
  assumes "soundState Nc nc Ne ne s t tr"
  shows "sorted_wrt (\<lambda>a b. catCmp s a b < 0) (treeRecs t)" "r \<in> set (treeRecs t) \<Longrightarrow> \<exists>k. keyFromRecord r = Some k"
proof -
  have well: "wellTree keyFromRecord (compareCatalogKey (catalogTree (wvol s))) forkCatalogFile Nc nc s t"
    using assms by (simp add: soundState_def)
  show "sorted_wrt (\<lambda>a b. catCmp s a b < 0) (treeRecs t)" by (rule catKeys.wellTree_sorted [OF well])
  show "r \<in> set (treeRecs t) \<Longrightarrow> \<exists>k. keyFromRecord r = Some k" using catKeys.wellTree_within [OF well] by (auto simp: recIn_def)
qed

lemma recCmp_same: "recCmp keyFromRecord (compareCatalogKey ct) x x = 0"
  by (simp add: recCmp_def compareCatalogKey_ordSign ordSign_def split: option.split)

lemma sorted_distinct: "sorted_wrt P xs \<Longrightarrow> (\<And>x. \<not> P x x) \<Longrightarrow> distinct xs"
  by (induction xs) auto

lemma sound_children:
  assumes "soundState Nc nc Ne ne s t tr"
  shows "listChildren (wvol s) (catalogTree (wvol s)) pid = Inr (List.map_filter (childOf pid) (treeRecs t))" "distinct (treeRecs t)"
proof -
  note v = assms [unfolded soundState_def]
  have well: "wellTree keyFromRecord (compareCatalogKey (catalogTree (wvol s))) forkCatalogFile Nc nc s t"
    "mirrors forkCatalogFile Nc nc s (catalogTree (wvol s))" "treeHeight t \<le> 64" using v by simp_all
  show "listChildren (wvol s) (catalogTree (wvol s)) pid = Inr (List.map_filter (childOf pid) (treeRecs t))"
    using children_refines [OF catKeys.wellTree_holds [OF well] catKeys.wellTree_ascending [OF well(1)]] by (simp add: recsOf_def)
  show "distinct (treeRecs t)" by (rule sorted_distinct [OF catKeys.wellTree_sorted [OF well(1)]]) (simp add: recCmp_same)
qed

text \<open>A key that some record of the tree matches is not the key of a new record.\<close>

lemma match_old:
  assumes "newKey keyFromRecord (compareCatalogKey ct) t rec" "namesAgree env ct key (rec # treeRecs t)"
    and "r \<in> set (treeRecs t)" "keyMatches env ct key r"
  shows "\<not> keyMatches env ct key rec"
proof
  assume m: "keyMatches env ct key rec"
  obtain k kr where k: "keyFromRecord rec = Some k" "keyFromRecord r = Some kr"
    using m assms(4) by (auto simp: keyMatches_def split: option.splits)
  have "compareCatalogKey ct k key = 0" "compareCatalogKey ct kr key = 0"
    using match_compare [OF assms(2)] k m assms(3,4) by simp_all
  then have "compareCatalogKey ct kr k = 0" using compare_eq_trans by blast
  then show False using assms(1,3) k by (auto simp: newKey_def recCmp_def)
qed

lemma lookupSpec_found: "lookupSpec env ct key rs = Inr (Some cr) \<Longrightarrow> \<exists>r \<in> set rs. keyMatches env ct key r"
  by (auto simp: lookupSpec_def find_Some_iff split: option.splits)

lemma find_map_same: "(\<forall>r \<in> set rs. P (f r) = P r) \<Longrightarrow> find P (map f rs) = map_option f (find P rs)"
  by (induction rs) auto

text \<open>One record with other data.\<close>

lemma lookupSpec_patched:
  assumes srt: "sorted_wrt (\<lambda>a b. recCmp keyFromRecord (compareCatalogKey ct) a b < 0) rs" and key: "\<forall>r \<in> set rs. \<exists>k. keyFromRecord r = Some k"
    and names: "namesAgree env ct key rs" and fo: "fo \<in> set rs" "keyFromRecord fo' = keyFromRecord fo"
  shows "lookupSpec env ct key (map (id(fo := fo')) rs) = (if keyMatches env ct key fo then foundRec fo' else lookupSpec env ct key rs)"
proof -
  have same: "\<forall>r \<in> set rs. keyMatches env ct key ((id(fo := fo')) r) = keyMatches env ct key r"
    using fo(2) by (simp add: keyMatches_def)
  have uni: "r = fo" if r: "r \<in> set rs" "keyMatches env ct key r" "keyMatches env ct key fo" for r
  proof -
    obtain k kf where k: "keyFromRecord r = Some k" "keyFromRecord fo = Some kf" using key r(1) fo(1) by blast
    then have "compareCatalogKey ct k key = 0" "compareCatalogKey ct kf key = 0"
      using match_compare [OF names] r fo(1) by simp_all
    then have "compareCatalogKey ct k kf = 0" by (rule compare_eq_trans)
    then have "recCmp keyFromRecord (compareCatalogKey ct) r fo = 0" by (simp add: recCmp_def k)
    then show ?thesis by (rule catKeys.same_record [OF srt r(1) fo(1)])
  qed
  have "find (keyMatches env ct key) rs = Some fo" if "keyMatches env ct key fo"
  proof (cases "find (keyMatches env ct key) rs")
    case None
    then show ?thesis using fo(1) that by (simp add: find_None_iff)
  next
    case (Some r)
    then have "r \<in> set rs" "keyMatches env ct key r" by (auto simp: find_Some_iff)
    then show ?thesis using Some uni that by simp
  qed
  moreover have "find (keyMatches env ct key) rs \<noteq> Some fo" if "\<not> keyMatches env ct key fo" using that by (auto simp: find_Some_iff)
  ultimately show ?thesis
    by (auto simp: lookupSpec_def find_map_same [OF same] foundRec_def split: option.splits)
qed

section \<open>A new entry\<close>

text \<open>Room for two records: the insertions into the tree do not overflow a node, and there are free nodes for both.\<close>

definition roomForTwo :: "nat \<Rightarrow> nat \<Rightarrow> wst \<Rightarrow> tnode \<Rightarrow> bytes \<Rightarrow> bytes \<Rightarrow> bool" where
  "roomForTwo Nc nc s t r1 r2 \<longleftrightarrow>
     treeHeight t \<le> 62 \<and> 2 * treeHeight t + 3 \<le> length (spareNodes forkCatalogFile Nc s)
     \<and> (case rootInsert nc (catCmp s) r1 t (spareNodes forkCatalogFile Nc s) of
          None \<Rightarrow> False
        | Some (t1, f1) \<Rightarrow> rootInsert nc (catCmp s) r2 t1 f1 \<noteq> None)"

text \<open>The record of the folder \<open>parent\<close>, found through its thread record.\<close>

definition parentFolder :: "env \<Rightarrow> btree \<Rightarrow> bytes list \<Rightarrow> u32 \<Rightarrow> u32 \<Rightarrow> gostring \<Rightarrow> bytes \<Rightarrow> bool" where
  "parentFolder env ct rs parent gp name fo \<longleftrightarrow>
     (\<exists>cr. lookupSpec env ct (keyAt parent []) rs = Inr (Some cr)
        \<and> (recType cr = recordFolderThread \<or> recType cr = recordFileThread) \<and> threadParent cr = gp \<and> threadName cr = name)
     \<and> fo \<in> set rs \<and> keyMatches env ct (keyAt gp name) fo \<and> fitName name"

definition entryLookup :: "env \<Rightarrow> btree \<Rightarrow> bytes \<Rightarrow> bytes \<Rightarrow> bytes \<Rightarrow> bytes \<Rightarrow> catalogKey \<Rightarrow> catalogRecord option result \<Rightarrow> catalogRecord option result" where
  "entryLookup env ct r1 r2 fo fo' key old =
     (if keyMatches env ct key r1 then foundRec r1
      else if keyMatches env ct key r2 then foundRec r2
      else if keyMatches env ct key fo then foundRec fo' else old)"

lemma length_bumpFolder: "bumpFolder d fd b = Some b' \<Longrightarrow> length b' = length b"
  by (auto simp: bumpFolder_def Let_def split: if_splits)

text \<open>
  What raising the counts of a folder by one must do to the bytes of its record: the valence at offset 4, for a new
  folder the folder count at offset 84 (where the record keeps one), and nothing else.
\<close>

definition countedOnce :: "bool \<Rightarrow> bytes \<Rightarrow> bytes \<Rightarrow> bool" where
  "countedOnce dir fd fd' \<longleftrightarrow> length fd' = length fd \<and> be32 fd' 4 = be32 fd 4 + 1
     \<and> be32 fd' 84 = be32 fd 84 + (if dir \<and> be16 fd 2 AND kHFSHasFolderCountMask \<noteq> 0 then 1 else 0)
     \<and> (\<forall>i < length fd. i \<notin> {4..<8} \<union> {84..<88} \<longrightarrow> fd' ! i = fd ! i)"

lemma bumpFolder_counts:
  assumes "88 \<le> length fd"
  obtains fd' where "bumpFolder 1 (if dir then 1 else 0) fd = Some fd'" "countedOnce dir fd fd'"
proof -
  define g where "g = overwrite fd 4 (enc32 (be32 fd 4 + 1))"
  have g: "length g = length fd" "be32 g 4 = be32 fd 4 + 1" "be32 g 84 = be32 fd 84" "be16 g 2 = be16 fd 2"
    "\<And>i. i < length fd \<Longrightarrow> i \<notin> {4..<8} \<Longrightarrow> g ! i = fd ! i"
    using assms by (auto simp: g_def codec_simps nth_overwrite)
  define h where "h = overwrite g 84 (enc32 (be32 g 84 + (if dir then 1 else 0)))"
  have h: "length h = length fd" "be32 h 4 = be32 fd 4 + 1" "be32 h 84 = be32 fd 84 + (if dir then 1 else 0)"
    "\<And>i. i < length fd \<Longrightarrow> i \<notin> {84..<88} \<Longrightarrow> h ! i = g ! i"
    using assms g by (auto simp: h_def codec_simps nth_overwrite)
  have "bumpFolder 1 (if dir then 1 else 0) fd = Some (if be16 fd 2 AND kHFSHasFolderCountMask = 0 then g else h)"
    using assms g(4) by (simp add: bumpFolder_def Let_def addU32_def flip: g_def h_def) (simp add: h_def)
  moreover have "countedOnce dir fd (if be16 fd 2 AND kHFSHasFolderCountMask = 0 then g else h)"
    using g h by (auto simp: countedOnce_def)
  ultimately show thesis by (rule that)
qed

text \<open>A folder record with its count raised decodes to the same folder with a valence one higher.\<close>

lemma countedOnce_parse:
  assumes "countedOnce dir fd fd'" "88 \<le> length fd" "parseCatalogRecord fd = Some pr" "cfolder pr = Some pf"
  shows "parseCatalogRecord fd' = Some (pr\<lparr>cfolder := Some (pf\<lparr>valence := valence pf + 1\<rparr>)\<rparr>)"
proof -
  have nth: "fd' ! i = fd ! i" if "i < 4 \<or> 8 \<le> i \<and> i < 84" for i using assms(1,2) that by (auto simp: countedOnce_def)
  have "be16 fd' 0 = be16 fd 0" "be16 fd' 2 = be16 fd 2" "be32 fd' 8 = be32 fd 8" by (simp_all add: be16_def be32_def nth)
  moreover have "be32 fd' 4 = be32 fd 4 + 1" "length fd' = length fd" using assms(1) by (simp_all add: countedOnce_def)
  ultimately show ?thesis using assms(3,4) by (auto simp: parseCatalogRecord_def Let_def split: if_splits)
qed

lemma foundRec_counted:
  assumes "recordData fo = Some fd" "foundRec fo = Inr (Some pr)" "cfolder pr = Some pf" "88 \<le> length fd" "countedOnce dir fd fd'"
  shows "foundRec (withData fo fd fd') = Inr (Some (pr\<lparr>cfolder := Some (pf\<lparr>valence := valence pf + 1\<rparr>)\<rparr>))"
proof -
  have "parseCatalogRecord fd = Some pr"
    using assms(1,2) by (auto simp: foundRec_def decodeRecord_def split: option.splits)
  from countedOnce_parse [OF assms(5,4) this assms(3)] show ?thesis
    using withData_facts(3) [OF assms(1), of fd'] assms(5) by (simp add: foundRec_def decodeRecord_def countedOnce_def)
qed

lemma rootInsert_length:
  assumes "rootInsert ns cmp rec t fresh = Some (t', fresh')"
  shows "length fresh \<le> length fresh' + treeHeight t + 1"
proof -
  obtain g f where g: "tinsert ns cmp rec t fresh = Some (g, f)"
    using assms by (auto simp: rootInsert_def split: option.splits)
  show ?thesis
    using tinsert_shape [OF g] assms g by (auto simp: rootInsert_def Let_def split: grown.splits list.splits if_splits)
qed

text \<open>The two insertions.\<close>

lemma insert_two:
  assumes snd: "soundState Nc nc Ne ne s t tr" and room: "roomForTwo Nc nc s t r1 r2"
    and new: "newKey keyFromRecord (compareCatalogKey (catalogTree (wvol s))) t r1"
    and r2: "catCmp s r1 r2 < 0" "\<forall>r \<in> set (treeRecs t). catCmp s r r2 \<noteq> 0" "keyFromRecord r2 \<noteq> None"
  obtains s' t1 t2 where "bnd (insertRecord r1) (\<lambda>_. insertRecord r2) s = (Inr (), s')" "soundState Nc nc Ne ne s' t2 tr" "catalogSide Ne s s'"
    "inserted r1 (treeRecs t) (treeRecs t1)" "inserted r2 (treeRecs t1) (treeRecs t2)"
    "newKey keyFromRecord (compareCatalogKey (catalogTree (wvol s))) t1 r2"
proof -
  let ?ct = "catalogTree (wvol s)"
  obtain t1 f1 t2 f2 where ri: "rootInsert nc (catCmp s) r1 t (spareNodes forkCatalogFile Nc s) = Some (t1, f1)"
    "rootInsert nc (catCmp s) r2 t1 f1 = Some (t2, f2)" using room by (auto simp: roomForTwo_def split: option.splits)
  have len: "2 * treeHeight t + 3 \<le> length (spareNodes forkCatalogFile Nc s)" "treeHeight t \<le> 62" using room by (simp_all add: roomForTwo_def)
  obtain s1 where s1: "insertRecord r1 s = (Inr (), s1)" "soundState Nc nc Ne ne s1 t1 tr" "catalogSide Ne s s1"
    "spareNodes forkCatalogFile Nc s1 = f1" "inserted r1 (treeRecs t) (treeRecs t1)"
    by (rule catalog_step [OF snd new _ ri(1)]) (use len in \<open>auto simp: roomFor_def\<close>)
  note cc = catalogSide_facts(6) [OF s1(3)]
  have well1: "wellTree keyFromRecord (compareCatalogKey ?ct) forkCatalogFile Nc nc s1 t1" using s1(2) cc by (simp add: soundState_def)
  have "r1 \<in> set (treeRecs t1)" using s1(5) by (auto simp: inserted_def)
  from catKeys.wellTree_within [OF well1 this] have in1: "recIn keyFromRecord (compareCatalogKey ?ct) (rootLow keyFromRecord t1) None r1" .
  obtain k1 k2 where k: "keyFromRecord r1 = Some k1" "keyFromRecord r2 = Some k2" using in1 r2(3) by (auto simp: recIn_def)
  have "compareCatalogKey ?ct k1 k2 \<le> 0" using r2(1) k by (simp add: recCmp_def)
  then have "recIn keyFromRecord (compareCatalogKey ?ct) (rootLow keyFromRecord t1) None r2"
    using in1 k catOrder.cmp_trans [of ?ct _ k1 k2] by (auto simp: recIn_def within_def)
  then have new2: "newKey keyFromRecord (compareCatalogKey ?ct) t1 r2"
    using r2(1,2) s1(5) by (auto simp: newKey_def inserted_def)
  have dist: "distinct (numsOf t @ spareNodes forkCatalogFile Nc s)" using snd by (simp add: soundState_def wellTree_def)
  have "treeHeight t1 \<le> Suc (treeHeight t)" by (rule rootInsert_list(3) [OF ri(1) dist])
  then have "roomFor forkCatalogFile Nc s1 t1" using rootInsert_length [OF ri(1)] len s1(4) by (simp add: roomFor_def)
  with new2 ri(2) obtain s2 where s2: "insertRecord r2 s1 = (Inr (), s2)" "soundState Nc nc Ne ne s2 t2 tr" "catalogSide Ne s1 s2"
    "inserted r2 (treeRecs t1) (treeRecs t2)"
    using catalog_step [OF s1(2), of r2 t2 f2] s1(4) unfolding cc by metis
  show thesis
    by (rule that [of s2 t2 t1]) (use s1 s2 new2 catalogSide_trans [OF s1(3) s2(3)] in \<open>auto simp: bnd_def\<close>)
qed

lemma namesAgree_mono: "namesAgree env ct key rs \<Longrightarrow> set rs' \<subseteq> set rs \<Longrightarrow> namesAgree env ct key rs'"
  unfolding namesAgree_def list_all_iff by blast

lemma catalogSide_keys:
  assumes "catalogSide Ne s s'"
  shows "keyMatches env (catalogTree (wvol s')) = keyMatches env (catalogTree (wvol s))"
    "namesAgree env (catalogTree (wvol s')) = namesAgree env (catalogTree (wvol s))"
    "lookupSpec env (catalogTree (wvol s')) = lookupSpec env (catalogTree (wvol s))"
  using keyCompare_cong(3-5) [of "catalogTree (wvol s')" "catalogTree (wvol s)"] assms by (simp_all add: catalogSide_def)

lemma inserted_set: "inserted x xs ys \<Longrightarrow> set ys = insert x (set xs)"
  by (auto simp: inserted_def)

text \<open>What the records of the tree say after both insertions.\<close>

lemma two_lookups:
  assumes ins: "inserted r1 (treeRecs t) (treeRecs t1)" "inserted r2 (treeRecs t1) (treeRecs t2)"
    and new: "newKey keyFromRecord (compareCatalogKey ct) t r1" "newKey keyFromRecord (compareCatalogKey ct) t1 r2"
    and n: "namesAgree env ct key (r1 # r2 # treeRecs t)"
  shows "lookupSpec env ct key (treeRecs t2)
      = (if keyMatches env ct key r2 then foundRec r2 else if keyMatches env ct key r1 then foundRec r1 else lookupSpec env ct key (treeRecs t))"
    "keyMatches env ct key r1 \<Longrightarrow> \<not> keyMatches env ct key r2"
    "r \<in> set (treeRecs t) \<Longrightarrow> keyMatches env ct key r \<Longrightarrow> \<not> keyMatches env ct key r1 \<and> \<not> keyMatches env ct key r2"
    "namesAgree env ct key (treeRecs t2)"
proof -
  have set1: "set (treeRecs t1) = insert r1 (set (treeRecs t))" and set2: "set (treeRecs t2) = insert r2 (set (treeRecs t1))"
    using ins by (simp_all add: inserted_set)
  have n1: "namesAgree env ct key (r2 # treeRecs t1)" "namesAgree env ct key (r1 # treeRecs t)"
    by (rule namesAgree_mono [OF n], use set1 in auto)+
  then show "lookupSpec env ct key (treeRecs t2)
      = (if keyMatches env ct key r2 then foundRec r2 else if keyMatches env ct key r1 then foundRec r1 else lookupSpec env ct key (treeRecs t))"
    using lookupSpec_inserted [OF ins(2) _ new(2) refl] lookupSpec_inserted [OF ins(1) _ new(1) refl] by simp
  show "keyMatches env ct key r1 \<Longrightarrow> \<not> keyMatches env ct key r2" using match_old [OF new(2) n1(1), of r1] set1 by simp
  show "r \<in> set (treeRecs t) \<Longrightarrow> keyMatches env ct key r \<Longrightarrow> \<not> keyMatches env ct key r1 \<and> \<not> keyMatches env ct key r2"
    using match_old [OF new(1) n1(2), of r] match_old [OF new(2) n1(1), of r] set1 by simp
  show "namesAgree env ct key (treeRecs t2)" by (rule namesAgree_mono [OF n]) (use set1 set2 in auto)
qed

text \<open>What a new entry does to the records of the catalog and to lookups.\<close>

definition entered :: "env \<Rightarrow> btree \<Rightarrow> bytes \<Rightarrow> bytes \<Rightarrow> bytes \<Rightarrow> bytes \<Rightarrow> wst \<Rightarrow> tnode \<Rightarrow> wst \<Rightarrow> tnode \<Rightarrow> bool" where
  "entered env ct r1 r2 fo fo' s t s' t' \<longleftrightarrow>
     set (treeRecs t') = {r1, r2, fo'} \<union> (set (treeRecs t) - {fo}) \<and>
     (\<forall>key. namesAgree env ct key (r1 # r2 # treeRecs t) \<longrightarrow> namesAgree env (catalogTree (wvol s')) key (treeRecs t')
        \<and> lookup env (wvol s') (catalogTree (wvol s')) key = entryLookup env ct r1 r2 fo fo' key (lookup env (wvol s) ct key))"

lemma new_entry:
  fixes s defines "ct \<equiv> catalogTree (wvol s)"
  assumes snd: "soundState Nc nc Ne ne s t tr" and room: "roomForTwo Nc nc s t r1 r2"
    and new: "newKey keyFromRecord (compareCatalogKey ct) t r1"
    and r2: "catCmp s r1 r2 < 0" "\<forall>r \<in> set (treeRecs t). catCmp s r r2 \<noteq> 0" "keyFromRecord r2 \<noteq> None"
    and par: "parentFolder env ct (treeRecs t) parent gp name fo" "recordData fo = Some fd" "bumpFolder d e fd = Some fd'"
    and names: "namesAgree env ct (keyAt parent []) (r1 # r2 # treeRecs t)" "namesAgree env ct (keyAt gp name) (r1 # r2 # treeRecs t)"
    and ctr: "\<And>s. 2560 \<le> length (disk (wvol s)) \<Longrightarrow> \<exists>s'. ctr s = (Inr (), s') \<and> headerEdit s s'"
  obtains s' t' where "bnd (insertRecord r1) (\<lambda>_. bnd (insertRecord r2) (\<lambda>_. bnd ctr (\<lambda>_. adjustParentValence env parent d e))) s = (Inr (), s')"
    "soundState Nc nc Ne ne s' t' tr" "catalogSide Ne s s'" "entered env ct r1 r2 fo (withData fo fd fd') s t s' t'"
proof -
  obtain s2 t1 t2 where s2: "bnd (insertRecord r1) (\<lambda>_. insertRecord r2) s = (Inr (), s2)" "soundState Nc nc Ne ne s2 t2 tr" "catalogSide Ne s s2"
    "inserted r1 (treeRecs t) (treeRecs t1)" "inserted r2 (treeRecs t1) (treeRecs t2)" "newKey keyFromRecord (compareCatalogKey ct) t1 r2"
    using insert_two [OF snd room new [unfolded ct_def] r2] unfolding ct_def by metis
  note two = two_lookups [OF s2(4,5) new s2(6)]
  have "2560 \<le> length (disk (wvol s2))" by (rule sound_heads(4) [OF s2(2)])
  from ctr [OF this] obtain s3 where s3: "ctr s2 = (Inr (), s3)" "headerEdit s2 s3" by blast
  note h = headerEdit_sound [OF s3(2) s2(2)]
  note side = catalogSide_trans [OF s2(3) h(2)]
  note k3 = catalogSide_keys [OF side, folded ct_def]
  obtain cr where cr: "lookupSpec env ct (keyAt parent []) (treeRecs t) = Inr (Some cr)"
    "recType cr = recordFolderThread \<or> recType cr = recordFileThread" "threadParent cr = gp" "threadName cr = name"
    and fo: "fo \<in> set (treeRecs t)" "keyMatches env ct (keyAt gp name) fo" "fitName name"
    using par(1) by (auto simp: parentFolder_def)
  have fo2: "fo \<in> set (treeRecs t2)" using fo(1) s2(4,5) by (simp add: inserted_set)
  obtain r where r: "r \<in> set (treeRecs t)" "keyMatches env ct (keyAt parent []) r" using lookupSpec_found [OF cr(1)] by blast
  then have "lookupSpec env ct (keyAt parent []) (treeRecs t2) = Inr (Some cr)" using two(1,3) [OF names(1)] cr(1) by simp
  then have "lookup env (wvol s3) (catalogTree (wvol s3)) (keyAt parent []) = Inr (Some cr)"
    using sound_lookup [OF h(1), of env "keyAt parent []"] two(4) [OF names(1)] unfolding k3 by simp
  then have "threadKeyOf env (wvol s3) parent = Inr (Some (gp, name))" using cr(2-4) by (auto simp: threadKeyOf_def lookupChild_def)
  then have adj: "adjustParentValence env parent d e s3 = patchFolderRecord env gp name (bumpFolder d e) s3"
    by (simp add: adjustParentValence_def bnd_def liftR_def)
  note len = length_bumpFolder [OF par(3)]
  let ?f = "id(fo := withData fo fd fd')"
  obtain s4 where s4: "patchFolderRecord env gp name (bumpFolder d e) s3 = (Inr (), s4)" "catalogSide Ne s3 s4"
    "soundState Nc nc Ne ne s4 (patchTree ?f t2) tr"
    by (rule patch_step [where mutate = "bumpFolder d e" and env = env and gp = gp, OF h(1) fo2 _ _ fo(3) par(2,3) len]) (use fo(2) k3 two(4) [OF names(2)] in auto)
  note side4 = catalogSide_trans [OF side s4(2)] and wd = withData_facts(1) [OF par(2) len]
  note k4 = catalogSide_keys [OF side4, folded ct_def]
  have run: "bnd (insertRecord r1) (\<lambda>_. bnd (insertRecord r2) (\<lambda>_. bnd ctr (\<lambda>_. adjustParentValence env parent d e))) s = (Inr (), s4)"
    using s2(1) s3(1) adj s4(1) by (auto simp: bnd_def split: prod.splits sum.splits)
  have srt: "sorted_wrt (\<lambda>a b. recCmp keyFromRecord (compareCatalogKey ct) a b < 0) (treeRecs t2)"
    using sound_sorted(1) [OF s2(2)] catalogSide_facts(6) [OF s2(3)] by (simp add: ct_def)
  have "entered env ct r1 r2 fo (withData fo fd fd') s t s4 (patchTree ?f t2)"
    unfolding entered_def
  proof (intro conjI allI impI)
    have "r1 \<noteq> fo" "r2 \<noteq> fo" using new r2(2) fo(1) recCmp_same unfolding newKey_def ct_def by metis+
    then show "set (treeRecs (patchTree ?f t2)) = {r1, r2, withData fo fd fd'} \<union> (set (treeRecs t) - {fo})"
      using inserted_set [OF s2(4)] inserted_set [OF s2(5)] fo(1) by (auto simp: treeRecs_patch image_iff)
  next
    fix key assume n: "namesAgree env ct key (r1 # r2 # treeRecs t)"
    have na: "namesAgree env ct key (treeRecs (patchTree ?f t2))"
      using two(4) [OF n] wd by (auto simp: namesAgree_def list_all_iff treeRecs_patch keyHolds_def)
    then have "lookup env (wvol s4) (catalogTree (wvol s4)) key = lookupSpec env ct key (map ?f (treeRecs t2))"
      using sound_lookup [OF s4(3), of env key] unfolding k4 treeRecs_patch by simp
    moreover have "lookupSpec env ct key (map ?f (treeRecs t2)) = (if keyMatches env ct key fo then foundRec (withData fo fd fd') else lookupSpec env ct key (treeRecs t2))"
      by (rule lookupSpec_patched [OF srt _ two(4) [OF n] fo2 wd]) (use sound_sorted(2) [OF s2(2)] in blast)
    moreover have "lookup env (wvol s) ct key = lookupSpec env ct key (treeRecs t)"
      unfolding ct_def by (rule sound_lookup [OF snd namesAgree_mono [OF n [unfolded ct_def]]]) auto
    ultimately show "lookup env (wvol s4) (catalogTree (wvol s4)) key = entryLookup env ct r1 r2 fo (withData fo fd fd') key (lookup env (wvol s) ct key)"
      using two(1-3) [OF n] fo(1) unfolding k4 by (auto simp: entryLookup_def)
    show "namesAgree env (catalogTree (wvol s4)) key (treeRecs (patchTree ?f t2))" using na unfolding k4 .
  qed
  then show thesis using that run s4(3) side4 by blast
qed

section \<open>A new name under a new identifier\<close>

lemma new_keys:
  assumes "fitName name" "parent < cnid" "\<And>r. r \<in> set rs \<Longrightarrow> \<exists>k. keyFromRecord r = Some k \<and> parentID k \<noteq> cnid"
    and r: "r1 = assembleCatalogRecord (encodeCatalogKey parent name) d1" "r2 = assembleCatalogRecord (encodeCatalogKey cnid []) d2"
  shows "recCmp keyFromRecord (compareCatalogKey ct) r1 r2 < 0" "\<forall>r \<in> set rs. recCmp keyFromRecord (compareCatalogKey ct) r r2 \<noteq> 0"
    "keyFromRecord r2 \<noteq> None" "keyMatches env ct (keyAt parent name) r1"
proof -
  have k1: "keyFromRecord r1 = Some \<lparr>parentID = parent, cname = name, nameU16 = Some (utf16Encode name)\<rparr>"
    unfolding r by (rule record_of_key(1) [OF assms(1)])
  have k2: "keyFromRecord r2 = Some \<lparr>parentID = cnid, cname = [], nameU16 = Some (utf16Encode [])\<rparr>"
    unfolding r by (rule record_of_key(1)) (simp add: fitName_def utf16Encode_def)
  show "recCmp keyFromRecord (compareCatalogKey ct) r1 r2 < 0"
    using assms(2) by (simp add: recCmp_def k1 k2 compareCatalogKey_ordSign ordSign_def less_prod_def)
  show "\<forall>r \<in> set rs. recCmp keyFromRecord (compareCatalogKey ct) r r2 \<noteq> 0"
  proof
    fix r assume "r \<in> set rs"
    then obtain k where "keyFromRecord r = Some k" "parentID k \<noteq> cnid" using assms(3) by blast
    then show "recCmp keyFromRecord (compareCatalogKey ct) r r2 \<noteq> 0" by (simp add: recCmp_def k2 compareCatalogKey_def)
  qed
  show "keyFromRecord r2 \<noteq> None" "keyMatches env ct (keyAt parent name) r1" by (simp_all add: k1 k2 keyMatches_def nameEqual_def)
qed

lemma roomForTwo_same:
  assumes "sameTree forkCatalogFile Nc s s'" "0 < Nc"
  shows "roomForTwo Nc nc s' t r1 r2 = roomForTwo Nc nc s t r1 r2"
proof -
  have ct: "catalogTree (wvol s') = catalogTree (wvol s)" using assms(1) by (simp add: sameTree_def treeOf_def)
  show ?thesis unfolding roomForTwo_def ct sameTree_pool(2) [OF assms] ..
qed

text \<open>The lookup of the parent folder before and after.\<close>

lemma parent_lookups:
  fixes s defines "ct \<equiv> catalogTree (wvol s)"
  assumes snd: "soundState Nc nc Ne ne s t tr" and e: "entered env ct r1 r2 fo fo' s t s' t'"
    and new: "newKey keyFromRecord (compareCatalogKey ct) t r1" "keyFromRecord r2 = Some k2"
      "\<forall>r \<in> set (treeRecs t). \<forall>k. keyFromRecord r = Some k \<longrightarrow> parentID k \<noteq> parentID k2"
    and fo: "parentFolder env ct (treeRecs t) parent gp fname fo"
    and names: "namesAgree env ct (keyAt gp fname) (r1 # r2 # treeRecs t)"
  shows "lookup env (wvol s) ct (keyAt gp fname) = foundRec fo"
    "lookup env (wvol s') (catalogTree (wvol s')) (keyAt gp fname) = foundRec fo'"
proof -
  let ?key = "keyAt gp fname"
  have f: "fo \<in> set (treeRecs t)" "keyMatches env ct ?key fo" using fo by (simp_all add: parentFolder_def)
  have n: "namesAgree env ct ?key (treeRecs t)" "namesAgree env ct ?key (r1 # treeRecs t)" by (rule namesAgree_mono [OF names], auto)+
  have srt: "sorted_wrt (\<lambda>a b. recCmp keyFromRecord (compareCatalogKey ct) a b < 0) (treeRecs t)"
    "\<forall>r \<in> set (treeRecs t). \<exists>k. keyFromRecord r = Some k"
    using sound_sorted [OF snd] by (auto simp: ct_def)
  have "lookupSpec env ct ?key (map (id(fo := fo)) (treeRecs t)) = foundRec fo"
    using lookupSpec_patched [OF srt n(1) f(1) refl] f(2) by simp
  then show "lookup env (wvol s) ct ?key = foundRec fo"
    using sound_lookup [OF snd, of env ?key] n(1) by (simp add: fun_upd_idem ct_def)
  have "\<not> keyMatches env ct ?key r1" by (rule match_old [OF new(1) n(2) f])
  moreover have "\<not> keyMatches env ct ?key r2"
    using f new(2,3) by (auto simp: keyMatches_def split: option.splits)
  ultimately show "lookup env (wvol s') (catalogTree (wvol s')) ?key = foundRec fo'"
    using e names f(2) by (simp add: entered_def entryLookup_def)
qed

text \<open>The entry is made in a later state \<open>s2\<close> of the transaction, which has the catalog of \<open>s\<close> still.\<close>

lemma enter_step:
  fixes s defines "ct \<equiv> catalogTree (wvol s)"
  assumes snd: "soundState Nc nc Ne ne s t tr" and snd2: "soundState Nc nc Ne ne s2 t tr2" and same: "sameTree forkCatalogFile Nc s s2"
    and r: "r1 = assembleCatalogRecord (encodeCatalogKey parent name) d1" "r2 = assembleCatalogRecord (encodeCatalogKey cnid []) d2"
    and room: "roomForTwo Nc nc s t r1 r2"
    and new: "newKey keyFromRecord (compareCatalogKey ct) t r1" "fitName name" "parent < cnid"
      "\<forall>r \<in> set (treeRecs t). \<forall>k. keyFromRecord r = Some k \<longrightarrow> parentID k \<noteq> cnid"
    and par: "parentFolder env ct (treeRecs t) parent gp fname fo" "recordData fo = Some fd" "bumpFolder d e fd = Some fd'"
    and names: "namesAgree env ct (keyAt parent []) (r1 # r2 # treeRecs t)" "namesAgree env ct (keyAt gp fname) (r1 # r2 # treeRecs t)"
    and ctr: "\<And>s. 2560 \<le> length (disk (wvol s)) \<Longrightarrow> \<exists>s'. ctr s = (Inr (), s') \<and> headerEdit s s'"
  obtains s' t' where "bnd (insertRecord r1) (\<lambda>_. bnd (insertRecord r2) (\<lambda>_. bnd ctr (\<lambda>_. adjustParentValence env parent d e))) s2 = (Inr (), s')"
    "soundState Nc nc Ne ne s' t' tr2" "catalogSide Ne s2 s'" "entered env ct r1 r2 fo (withData fo fd fd') s t s' t'"
proof -
  have ct2: "catalogTree (wvol s2) = ct" using same by (simp add: sameTree_def treeOf_def ct_def)
  have "\<exists>k. keyFromRecord r = Some k \<and> parentID k \<noteq> cnid" if "r \<in> set (treeRecs t)" for r
    using sound_sorted(2) [OF snd that] new(4) that by blast
  note k = new_keys [OF new(2,3) this r]
  obtain s' t' where s': "bnd (insertRecord r1) (\<lambda>_. bnd (insertRecord r2) (\<lambda>_. bnd ctr (\<lambda>_. adjustParentValence env parent d e))) s2 = (Inr (), s')"
    "soundState Nc nc Ne ne s' t' tr2" "catalogSide Ne s2 s'" "entered env ct r1 r2 fo (withData fo fd fd') s2 t s' t'"
    by (rule new_entry [OF snd2 _ _ _ _ _ _ par(2,3) _ _ ctr, unfolded ct2, of r1 r2 env parent gp fname])
      (use k room roomForTwo_same [OF same sound_heads(7) [OF snd]] new(1) par(1) names in auto)
  have "lookup env (wvol s2) ct key = lookup env (wvol s) ct key" if n: "namesAgree env ct key (r1 # r2 # treeRecs t)" for key
  proof -
    have "namesAgree env ct key (treeRecs t)" by (rule namesAgree_mono [OF n]) auto
    then show ?thesis using sound_lookup [OF snd, of env key] sound_lookup [OF snd2, of env key] by (simp add: ct2 flip: ct_def)
  qed
  then have "entered env ct r1 r2 fo (withData fo fd fd') s t s' t'" using s'(4) unfolding entered_def by simp
  then show thesis using that s'(1-3) by blast
qed

end
