(* ===== verification/FileCreate.thy ===== *)
theory FileCreate
  imports CatalogEntry
begin

text \<open>
  \<^verbatim>\<open>createFile\<close> (\<^verbatim>\<open>write.go\<close>) as a whole: identifier, blocks and data, catalog records, counters. Afterwards the
  name leads to the file, the file has the data, and every other name leads where it led before.
\<close>

section \<open>The records of a new file\<close>

definition fileDesc :: "wst \<Rightarrow> bytes \<Rightarrow> extentDescriptor list \<Rightarrow> forkData" where
  "fileDesc s data runs =
     \<lparr>LogicalSize = of_nat (length data), ClumpSize = BlockSize (vh (wvol s)),
      fdTotalBlocks = fileBlocks (uint (BlockSize (vh (wvol s)))) data, Extents = inlineOf runs\<rparr>"

definition fileRecord :: "env \<Rightarrow> wst \<Rightarrow> u32 \<Rightarrow> gostring \<Rightarrow> bytes \<Rightarrow> u16 \<Rightarrow> extentDescriptor list \<Rightarrow> bytes" where
  "fileRecord env s parent name data mode runs =
     assembleCatalogRecord (encodeCatalogKey parent name) (encodeFileRecord (nextID s) (envNow env) mode (fileDesc s data runs))"

definition fileThread :: "wst \<Rightarrow> u32 \<Rightarrow> gostring \<Rightarrow> bytes" where
  "fileThread s parent name = assembleCatalogRecord (encodeCatalogKey (nextID s) []) (encodeFileThreadRecord parent name)"

text \<open>Room for the data: the allocator finds \<open>runs\<close>, and the extents-overflow tree has room for those beyond the eighth.\<close>

definition roomForData :: "nat \<Rightarrow> wst \<Rightarrow> tnode option \<Rightarrow> u32 \<Rightarrow> bytes \<Rightarrow> extentDescriptor list \<Rightarrow> bool" where
  "roomForData Ne s tr cnid data runs \<longleftrightarrow>
     (let bs = BlockSize (vh (wvol s)); nb = fileBlocks (uint bs) data
      in (length data + unat bs - 1) div unat bs < 2 ^ 32 \<and> length (disk (wvol s)) \<le> 2 ^ 50
         \<and> freshFork cnid forkTypeData tr
         \<and> (if nb = 0 then runs = []
            else (\<exists>a'. allocFragments nb (walc s) = (Inr runs, a'))
                 \<and> roomForAll Ne s tr (length (extentRecords forkTypeData cnid
                     (sum_list (map BlockCount (take numInlineExtents runs))) (drop numInlineExtents runs)))))"

lemma fileBlocks_count:
  assumes "(length data + unat bs - 1) div unat bs < 2 ^ 32" "bs \<noteq> (0 :: u32)"
  shows "unat (fileBlocks (uint bs) data) = (length data + unat bs - 1) div unat bs"
    "length data \<le> unat (fileBlocks (uint bs) data) * unat bs"
proof -
  let ?q = "(length data + unat bs - 1) div unat bs"
  have bs: "0 < unat bs" using assms(2) by (simp add: unat_gt_0)
  have "int (length data) + uint bs - 1 = int (length data + unat bs - 1)" using bs by (simp add: of_nat_diff)
  then have "fileBlocks (uint bs) data = word_of_int (int ?q)" by (simp add: fileBlocks_def zdiv_int)
  then have "fileBlocks (uint bs) data = of_nat ?q" by simp
  then show u: "unat (fileBlocks (uint bs) data) = ?q" using assms(1) by (simp add: unat_of_nat take_bit_nat_eq_self)
  have "length data + unat bs - 1 < unat bs + ?q * unat bs" by (rule dividend_less_div_times [OF bs])
  then show "length data \<le> unat (fileBlocks (uint bs) data) * unat bs" unfolding u using bs by linarith
qed

text \<open>Placing the data of a file of any size, empty ones included.\<close>

lemma place_any:
  assumes snd: "soundState Nc nc Ne ne s t tr" and room: "roomForData Ne s tr cnid data runs"
  obtains s' tr' where "placeData cnid (fileBlocks (uint (BlockSize (vh (wvol s)))) data) data s = (Inr runs, s')"
    "soundState Nc nc Ne ne s' t tr'" "fileOn Ne ne s' cnid data runs" "sameTree forkCatalogFile Nc s s'"
    "\<forall>r \<in> set runs. BlockCount r \<noteq> 0" "countSum runs = unat (fileBlocks (uint (BlockSize (vh (wvol s)))) data)"
    "unat (fileBlocks (uint (BlockSize (vh (wvol s)))) data) * unat (BlockSize (vh (wvol s))) \<le> length (disk (wvol s))" "sameLayout s s'"
proof (cases "fileBlocks (uint (BlockSize (vh (wvol s)))) data = 0")
  case True
  note r = room [unfolded roomForData_def Let_def]
  have runs: "runs = []" using r True by simp
  have ex: "extentsHold Ne ne s tr" "heightOf tr \<le> 64" using snd by (simp_all add: soundState_def)
  have "BlockSize (vh (wvol s)) \<noteq> 0" using snd by (auto simp: soundState_def areasApart_def freeApart_def Let_def)
  have "filter (\<lambda>r. extentsFor cnid forkTypeData 0 r \<noteq> []) (recsOf tr) = []"
    using r by (auto simp: freshFork_def extentsFor_def filter_empty_conv split: option.splits)
  then have "forkStored Ne ne s cnid forkTypeData []"
    using ex by (auto simp: forkStored_def extentRecords.simps)
  then have "fileOn Ne ne s cnid data []"
    by (simp add: fileOn_def dataHeld_def Let_def inRuns_def forkContent_def padded_def)
  then show ?thesis using that [of s tr] snd runs True by (simp add: placeData_def ret_def sameLayout_def)
next
  case False
  note r = room [unfolded roomForData_def Let_def]
  obtain a' where "allocFragments (fileBlocks (uint (BlockSize (vh (wvol s)))) data) (walc s) = (Inr runs, a')" using r False by auto
  from place_file [OF snd _ False this, of cnid data] show ?thesis using r False that by auto
qed

lemma roomForData_same:
  assumes "sameTree forkExtentsFile Ne s s'" "0 < Ne" "walc s' = walc s"
  shows "roomForData Ne s' tr cnid data runs = roomForData Ne s tr cnid data runs"
  using assms(1,3) sameTree_pool(2) [OF assms(1,2)] by (simp add: roomForData_def roomForAll_def sameTree_def)

section \<open>Creating a file\<close>

lemma decode_fileRecord:
  "fitName name \<Longrightarrow> foundRec (fileRecord env s parent name data mode runs)
     = Inr (Some \<lparr>recType = recordFile, cfolder = None, cfile = Some \<lparr>fileID = nextID s, cfiFlags = kHFSThreadExistsMask,
              dataFork = fileDesc s data runs, rsrcFork = zeroForkData, permMode = mode\<rparr>, threadName = [], threadParent = 0\<rparr>)"
  by (simp add: foundRec_def decodeRecord_def fileRecord_def record_of_key parse_file wf_forkData_def fileDesc_def)

text \<open>Identifier and data.\<close>

lemma start_file:
  assumes snd: "soundState Nc nc Ne ne s t tr" and data: "roomForData Ne s tr (nextID s) data runs"
  obtains s1 s2 tr2 where "nextCNID s = (Inr (nextID s), s1)"
    "placeData (nextID s) (fileBlocks (uint (BlockSize (vh (wvol s)))) data) data s1 = (Inr runs, s2)"
    "soundState Nc nc Ne ne s2 t tr2" "fileOn Ne ne s2 (nextID s) data runs" "sameTree forkCatalogFile Nc s s2"
    "\<forall>r \<in> set runs. BlockCount r \<noteq> 0" "countSum runs = unat (fileBlocks (uint (BlockSize (vh (wvol s)))) data)"
    "unat (fileBlocks (uint (BlockSize (vh (wvol s)))) data) * unat (BlockSize (vh (wvol s))) \<le> length (disk (wvol s))" "sameLayout s s2"
proof -
  have L: "2560 \<le> length (disk (wvol s))" by (rule sound_heads(4) [OF snd])
  obtain s1 where s1: "nextCNID s = (Inr (nextID s), s1)" "headerEdit s s1" by (rule nextCNID_run [OF L])
  note h = headerEdit_sound [OF s1(2) snd]
  have e1: "vh (wvol s1) = vh (wvol s)" "walc s1 = walc s" "length (disk (wvol s1)) = length (disk (wvol s))"
    using s1(2) by (auto simp: headerEdit_def setDisk_def)
  have Ne: "0 < Ne" using snd by (auto simp: soundState_def extentsHold_def extentsWell_def wellTree_def poolOK_def split: option.splits)
  have same: "sameTree forkCatalogFile Nc s s1" "sameTree forkExtentsFile Ne s s1"
    by (rule headerEdit_tree [OF s1(2)], use snd soundState_placed [OF snd] in \<open>auto simp: soundState_def\<close>)+
  have room1: "roomForData Ne s1 tr (nextID s) data runs" using data roomForData_same [OF same(2) Ne e1(2)] by simp
  have lay1: "sameLayout s s1" using e1 catalogSide_facts(1) [OF h(2)] by (simp add: sameLayout_def)
  show thesis
    by (rule place_any [OF h(1) room1]) (unfold e1, rule that [OF s1(1)], use sameTree_trans [OF same(1)] lay1 in \<open>auto simp: sameLayout_def\<close>)
qed

lemma file_read:
  assumes snd: "soundState Nc nc Ne ne s t tr" and data: "roomForData Ne s tr (nextID s) data runs"
    and snd': "soundState Nc nc Ne ne s' t' tr'" and fl: "fileOn Ne ne s' (nextID s) data runs" and lay: "sameLayout s s'"
    and cf: "fileID cf = nextID s" "dataFork cf = fileDesc s data runs"
  shows "bindR (dataForkFor (wvol s') cf) (readAll (wvol s')) = Inr data"
proof -
  let ?bs = "BlockSize (vh (wvol s))" and ?nb = "fileBlocks (uint (BlockSize (vh (wvol s)))) data"
  have bs: "?bs \<noteq> 0" using snd by (auto simp: soundState_def areasApart_def freeApart_def Let_def)
  have r: "\<forall>r \<in> set runs. BlockCount r \<noteq> 0" "countSum runs = unat ?nb" "unat ?nb * unat ?bs \<le> length (disk (wvol s))"
    by (rule start_file [OF snd data], blast)+
  obtain bt where bt: "mirrors forkExtentsFile Ne ne s' bt" using snd' by (auto simp: soundState_def)
  have v': "BlockSize (vh (wvol s')) = ?bs" "length (disk (wvol s')) = length (disk (wvol s))" using lay by (simp_all add: sameLayout_def)
  show ?thesis
    by (rule dataHeld_read [OF _ bt r(1,2) _ _ _ _ _ cf(1)])
      (use fl cf(2) r(3) bs v' data fileBlocks_count(2) [of data ?bs] in \<open>auto simp: fileOn_def fileDesc_def roomForData_def Let_def\<close>)
qed

lemma create_file:
  fixes s defines "ct \<equiv> catalogTree (wvol s)"
  assumes snd: "soundState Nc nc Ne ne s t tr" and data: "roomForData Ne s tr (nextID s) data runs"
    and r1: "r1 = fileRecord env s parent name data mode runs" and r2: "r2 = fileThread s parent name"
    and room: "roomForTwo Nc nc s t r1 r2"
    and new: "newKey keyFromRecord (compareCatalogKey ct) t r1" "fitName name" "parent < nextID s"
      "\<forall>r \<in> set (treeRecs t). \<forall>k. keyFromRecord r = Some k \<longrightarrow> parentID k \<noteq> nextID s"
    and par: "parentFolder env ct (treeRecs t) parent gp fname fo" "recordData fo = Some fd" "bumpFolder 1 0 fd = Some fd'"
    and names: "namesAgree env ct (keyAt parent []) (r1 # r2 # treeRecs t)" "namesAgree env ct (keyAt gp fname) (r1 # r2 # treeRecs t)"
  obtains s' t' tr' where "createFile env parent name data mode s = (Inr (), s')" "soundState Nc nc Ne ne s' t' tr'"
    "entered env ct r1 r2 fo (withData fo fd fd') s t s' t'" "fileOn Ne ne s' (nextID s) data runs" "sameLayout s s'"
proof -
  let ?bs = "BlockSize (vh (wvol s))" and ?nb = "fileBlocks (uint (BlockSize (vh (wvol s)))) data"
  have bs: "?bs \<noteq> 0" using snd by (auto simp: soundState_def areasApart_def freeApart_def Let_def)
  obtain s1 s2 tr2 where s2: "nextCNID s = (Inr (nextID s), s1)" "placeData (nextID s) ?nb data s1 = (Inr runs, s2)"
    "soundState Nc nc Ne ne s2 t tr2" "fileOn Ne ne s2 (nextID s) data runs" "sameTree forkCatalogFile Nc s s2" "sameLayout s s2"
    by (rule start_file [OF snd data])
  have ctr: "\<exists>s'. incFileCount 1 s = (Inr (), s') \<and> headerEdit s s'" if "2560 \<le> length (disk (wvol s))" for s
    by (rule count_runs(1) [OF that])
  obtain s' t' where s': "bnd (insertRecord r1) (\<lambda>_. bnd (insertRecord r2) (\<lambda>_. bnd (incFileCount 1) (\<lambda>_. adjustParentValence env parent 1 0))) s2 = (Inr (), s')"
    "soundState Nc nc Ne ne s' t' tr2" "catalogSide Ne s2 s'" "entered env ct r1 r2 fo (withData fo fd fd') s t s' t'"
    unfolding ct_def
    by (rule enter_step [OF snd s2(3,5) r1 [unfolded fileRecord_def] r2 [unfolded fileThread_def] room new [unfolded ct_def] par [unfolded ct_def]
          names [unfolded ct_def] ctr])
  have "createFile env parent name data mode s = (Inr (), s')"
    using s2(1,2) s'(1) bs by (simp add: createFile_def bnd_def getS_def Let_def r1 r2 fileRecord_def fileThread_def fileDesc_def)
  moreover have "sameLayout s s'" using catalogSide_facts(1-3) [OF s'(3)] s2(6) by (simp add: sameLayout_def)
  ultimately show thesis using that s'(2,4) fileOn_side [OF s'(3) s2(4)] by blast
qed

end
