(* ===== verification/FormatState.thy ===== *)
theory FormatState
  imports Formatted FileCreate
begin

text \<open>
  The transaction that \<^verbatim>\<open>begin\<close> starts on a freshly formatted volume is in a sound state: one catalog leaf with
  the root folder and its thread, an empty extents-overflow tree, and free blocks behind the special files.
\<close>

section \<open>Trees in one run of blocks\<close>

definition runWriter :: "nat \<Rightarrow> nat \<Rightarrow> btreeWriter" where
  "runWriter st c = \<lparr>nodeSize = 4096, bwExtents = [\<lparr>StartBlock = of_nat st, BlockCount = of_nat c\<rparr>], bwBs = 4096\<rparr>"

lemma run_laid:
  assumes w: "writerOf sel s = runWriter st c" and bs: "BlockSize (vh (wvol s)) = 4096"
    and len: "length (disk (wvol s)) = 4096 * N" "N < 2 ^ 32" "st + c \<le> N"
  shows "laidOut sel c 4096 s" "unat n < c \<Longrightarrow> addr sel n s = 4096 * (st + unat n)"
    "inNode sel s i \<Longrightarrow> 4096 * st \<le> i \<and> i < 4096 * (st + c)"
proof -
  let ?es = "[\<lparr>StartBlock = of_nat st, BlockCount = of_nat c\<rparr>] :: extentDescriptor list"
  have u: "unat (of_nat st :: u32) = st" "unat (of_nat c :: u32) = c" using len by simp_all
  have inside: "list_all (extentInside (disk (wvol s)) 4096) ?es" "spansOf 4096 ?es = 4096 * c"
    using len u by (simp_all add: extentInside_def extentSpan_def)
  show lay: "laidOut sel c 4096 s"
    unfolding laidOut_def Let_def w bs using inside len u by (simp add: runWriter_def extentSpan_def)
  have off: "nodeOffset 4096 ?es (uint n * 4096) 0 = (if unat n < c then Some (int (4096 * (st + unat n))) else None)" for n :: u32
  proof -
    have n: "unat n < 2 ^ 32" using unsigned_less [of n, where 'a = nat] by simp
    have "nodeOffset (int 4096) ?es (int (unat n * 4096)) (int 0) = map_option int (offsetIn 4096 ?es (unat n * 4096 - 0))"
      by (rule nodeOffset_nat [OF _ _ _ _ inside(1)]) (use n len inside(2) in auto)
    then show ?thesis using u by (simp add: extentSpan_def mult.commute)
  qed
  have at: "nodeAddr sel n s = (if unat n < c then Inr (Some (4096 * (st + unat n))) else Inr None)" for n
  proof (cases "unat n < c")
    case True
    have "\<not> int (4096 * (st + unat n)) + int 4096 > int (4096 * N)" using True len(3) by (simp flip: of_nat_add)
    then show ?thesis
      using off [of n] True len(1) unfolding nodeAddr_def Let_def w
      by (simp add: runWriter_def del: nodeOffset.simps of_nat_mult of_nat_add)
  next
    case False
    then show ?thesis
      using off [of n] unfolding nodeAddr_def Let_def w by (simp add: runWriter_def del: nodeOffset.simps)
  qed
  show "addr sel n s = 4096 * (st + unat n)" if "unat n < c" using that by (simp add: addr_def at)
  show "4096 * st \<le> i \<and> i < 4096 * (st + c)" if "inNode sel s i"
    using that by (auto simp: inNode_def at w runWriter_def split: if_splits)
qed

section \<open>The header nodes\<close>

lemma mkfs_headerNode:
  fixes p defines "H \<equiv> MkfsOpen.headerNode p"
  assumes "0 < unat (pusedNodes p)" "unat (pusedNodes p) \<le> 16"
  shows "headerShape H" "be32 H 36 = ptotalNodes p" "be32 H 20 = leafRecordCount p" "length (mapOf H) = 3840"
    "i < 8 * 3840 \<Longrightarrow> getBit (mapOf H) i \<longleftrightarrow> i < unat (pusedNodes p)"
proof -
  let ?front = "overwrite (headerFront p) 248 (headerMapBytes p)"
  have lm: "length (headerMapBytes p) = 3840" by (simp add: headerMapBytes_def)
  have lf: "length ?front = 4096" using lm by simp
  have tab: "be16 H (4096 - 2 * (i + 1)) = [14, 120, 248, 4088] ! i" if "i < 4" for i
    using writeOffsetTable_nth [where i = i and offs = "[14, 120, 248, 4088]" and b = ?front] that lf unfolding H_def headerNode_eq by simp
  have offs: "be16 H 4090 = 248" "be16 H 4088 = 4088" using tab [of 2] tab [of 3] by simp_all
  have "be16 (headerFront p) 10 = 3"
    by (simp add: headerFront_def writeNodeDescriptor_def be16_overwrite_inside encodeDescriptor_def be16_append_right be_Cons be16_enc16)
  then have rc: "recCount H = 3" by (simp add: recCount_def H_def headerNode_same)
  have lo: "mapLo H = 248" "mapHi H = 4088" using offs rc by (simp_all add: mapLo_def mapHi_def offsetAt_def H_def)
  show "headerShape H" using rc lo by (simp add: headerShape_def H_def)
  have z: "gslice (headerFront p) 248 4088 = replicate 3840 0"
  proof -
    have "\<forall>w \<in> set (headerFields p). clear 248 4088 w" by (simp add: headerFields_def clear_def)
    moreover have "fieldsIn (length blankNode) (headerFields p)" using headerFields_in by simp
    ultimately have "gslice (headerFront p) 248 4088 = gslice blankNode 248 4088" using puts_outside by (simp add: headerFront_above)
    also have "\<dots> = replicate (min (4088 - 248) (4096 - 248)) 0" by (simp only: blankNode_def gslice_def drop_replicate take_replicate)
    finally show ?thesis by simp
  qed
  have m: "mapOf H = foldl setBit (replicate 3840 0) [0..<unat (pusedNodes p)]"
  proof -
    have "gslice H 248 4088 = gslice ?front 248 4088" unfolding H_def headerNode_eq by (subst writeOffsetTable_below) (simp_all add: lm)
    also have "\<dots> = headerMapBytes p" using gslice_overwrite_same [of 248 "headerMapBytes p" "headerFront p"] lm by simp
    finally show ?thesis unfolding mapOf_def lo headerMapBytes_def z .
  qed
  show "length (mapOf H) = 3840" unfolding m by simp
  show "getBit (mapOf H) i \<longleftrightarrow> i < unat (pusedNodes p)" if "i < 8 * 3840"
  proof -
    have "\<forall>k \<in> set [0..<unat (pusedNodes p)]. inMap (replicate 3840 0) k" using assms by (auto simp: inMap_def)
    moreover have "\<not> getBit (replicate 3840 0) i" using that by (simp add: getBit_bit)
    moreover have "inMap (replicate 3840 0) i" using that by (simp add: inMap_def)
    ultimately show ?thesis unfolding m using bits.test_mark_run [of "[0..<unat (pusedNodes p)]" "replicate 3840 0" i] by simp
  qed
  show "be32 H 36 = ptotalNodes p" "be32 H 20 = leafRecordCount p"
    unfolding H_def using headerNode_same(3) [of 36 p] headerNode_same(3) [of 20 p] headerFront_be(2) [of 36 "ptotalNodes p" p]
      headerFront_be(2) [of 20 "leafRecordCount p" p] by (simp_all add: headerFields_def)
qed

section \<open>The first transaction\<close>

definition mkfsTxn :: "nat \<Rightarrow> mkfsBuilder \<Rightarrow> wst" where
  "mkfsTxn N b = \<lparr>wvol = mkfsVolume N b, walc = \<lparr>bitmap = bitmapImage N, bits = of_nat N\<rparr>,
     wcat = runWriter (bitmapBlocks N + 3) (catalogBlocks N), wext = runWriter (bitmapBlocks N + 1) 2\<rparr>"

lemma newBTreeWriter_exact:
  assumes "specialFork v sel = runFork sz start cnt" "cnt \<noteq> 0"
  shows "newBTreeWriter v tree sel
    = Inr \<lparr>nodeSize = unat (NodeSize (theader tree)), bwExtents = [\<lparr>StartBlock = start, BlockCount = cnt\<rparr>], bwBs = blockSizeOf v\<rparr>"
proof -
  have "resolveForkExtents v et fid ft (runFork sz start cnt) = Inr [\<lparr>StartBlock = start, BlockCount = cnt\<rparr>]" for et fid ft
    unfolding resolveForkExtents_def inlineExtents_run [OF assms(2)] by (simp add: runFork_def split: option.split)
  then show ?thesis using assms unfolding newBTreeWriter_def Let_def assms(1) by (simp add: runFork_def)
qed

lemma mkfs_begin:
  assumes "freshBuilder N b"
    and mk: "envMakeBytes env (int (4096 * bitmapBlocks N)) (int (4096 * N) + 4096) = Inr buf"
  shows "beginTxn env (mkfsVolume N b) = Inr (mkfsTxn N b)"
proof -
  let ?v = "mkfsVolume N b"
  have bd: "0 < catalogBlocks N" "catalogBlocks N < 2 ^ 32"
    using assms(1) layout_bounds [of N] by (simp_all add: freshBuilder_def)
  have "specialFork ?v forkExtentsFile = ExtentsFile (mkfsHeader N (mcaseSensitive b))"
    "specialFork ?v forkCatalogFile = CatalogFile (mkfsHeader N (mcaseSensitive b))"
    by (simp_all add: specialFork_def mkfsVolume_def)
  note sf = this [unfolded mkfsHeader_forks]
  have v: "extentsTree ?v = Some (extTree N)" "catalogTree ?v = catTreeOf N (mcaseSensitive b)" "blockSizeOf ?v = 4096"
    "NodeSize (theader (extTree N)) = 4096" "NodeSize (theader (catTreeOf N (mcaseSensitive b))) = 4096"
    by (simp_all add: mkfsVolume_def mkfsHeader_def extTree_def catTreeOf_def btHeaderOf_def extParams_def catParams_def)
  have "newBTreeWriter ?v (extTree N) forkExtentsFile = Inr (runWriter (bitmapBlocks N + 1) 2)"
    using newBTreeWriter_exact [OF sf(1), of "extTree N"] v by (simp add: runWriter_def)
  moreover have "newBTreeWriter ?v (catTreeOf N (mcaseSensitive b)) forkCatalogFile = Inr (runWriter (bitmapBlocks N + 3) (catalogBlocks N))"
    using newBTreeWriter_exact [OF sf(2) of_nat_ne0 [OF bd], of "catTreeOf N (mcaseSensitive b)"] v by (simp add: runWriter_def)
  ultimately show ?thesis
    using mkfs_allocator [OF assms] v by (simp add: beginTxn_def newExtentsWriter_def newCatWriter_def mkfsTxn_def)
qed

lemma mkfs_laid:
  assumes "freshBuilder N b" defines "A \<equiv> bitmapBlocks N" and "C \<equiv> catalogBlocks N"
  shows "laidOut forkCatalogFile C 4096 (mkfsTxn N b)" "laidOut forkExtentsFile 2 4096 (mkfsTxn N b)"
    "inNode forkCatalogFile (mkfsTxn N b) i \<Longrightarrow> 4096 * (A + 3) \<le> i \<and> i < 4096 * (A + 3 + C)"
    "inNode forkExtentsFile (mkfsTxn N b) i \<Longrightarrow> 4096 * (A + 1) \<le> i \<and> i < 4096 * (A + 3)"
    "cell forkCatalogFile 0 (mkfsTxn N b) = MkfsOpen.headerNode (catParams N (mcaseSensitive b))"
    "cell forkCatalogFile 1 (mkfsTxn N b) = rootLeaf b"
    "cell forkExtentsFile 0 (mkfsTxn N b) = MkfsOpen.headerNode extParams"
proof -
  let ?s = "mkfsTxn N b"
  have N: "mkfsFits N" "N < 2 ^ 32" using assms(1) by (simp_all add: freshBuilder_def mkfsFits_def)
  note bd = layout_bounds [OF N(1), folded A_def C_def]
  have v: "BlockSize (vh (wvol ?s)) = 4096" "length (disk (wvol ?s)) = 4096 * N" "disk (wvol ?s) = mkfsImage N b"
    using N by (simp_all add: mkfsTxn_def mkfsVolume_def mkfsHeader_def length_mkfsImage)
  have w: "writerOf forkCatalogFile ?s = runWriter (A + 3) C" "writerOf forkExtentsFile ?s = runWriter (A + 1) 2"
    by (simp_all add: writerOf_def mkfsTxn_def A_def C_def)
  have le: "A + 3 + C \<le> N" "A + 1 + 2 \<le> N" using bd by linarith+
  note c = run_laid [OF w(1) v(1,2) N(2) le(1)] and e = run_laid [OF w(2) v(1,2) N(2) le(2)]
  show "laidOut forkCatalogFile C 4096 ?s" "laidOut forkExtentsFile 2 4096 ?s" by (rule c(1), rule e(1))
  show "inNode forkCatalogFile ?s i \<Longrightarrow> 4096 * (A + 3) \<le> i \<and> i < 4096 * (A + 3 + C)" by (rule c(3))
  show "inNode forkExtentsFile ?s i \<Longrightarrow> 4096 * (A + 1) \<le> i \<and> i < 4096 * (A + 3)" using e(3) [of i] by simp
  have m: "(4096 * (A + 1), MkfsOpen.headerNode extParams) \<in> set (mkfsWrites N b)" "(4096 * (A + 4), rootLeaf b) \<in> set (mkfsWrites N b)"
    "(4096 * (A + 3), MkfsOpen.headerNode (catParams N (mcaseSensitive b))) \<in> set (mkfsWrites N b)"
    unfolding mkfsWrites_def A_def by (simp_all only: list.set insert_iff) simp_all
  have fit: "recordsFit 4096 (rootRecords b)" using assms(1) by (simp add: freshBuilder_def)
  have lr: "length (rootLeaf b) = 4096" using fit by (simp add: rootLeaf_def length_packNode)
  note node = mkfsImage_node [OF N(1)]
  show "cell forkCatalogFile 0 ?s = MkfsOpen.headerNode (catParams N (mcaseSensitive b))"
    using c(2) [of 0] node [OF m(3)] bd v(3) w(1) by (simp add: cell_def runWriter_def)
  show "cell forkCatalogFile 1 ?s = rootLeaf b"
    using c(2) [of 1] node [OF m(2) lr] bd v(3) w(1) by (simp add: cell_def runWriter_def) (simp add: add.commute)
  show "cell forkExtentsFile 0 ?s = MkfsOpen.headerNode extParams"
    using e(2) [of 0] node [OF m(1)] v(3) w(2) by (simp add: cell_def runWriter_def)
qed

lemma mkfs_pools:
  assumes "freshBuilder N b" defines "C \<equiv> catalogBlocks N"
  shows "poolOK forkCatalogFile C 4096 (mkfsTxn N b)" "poolOK forkExtentsFile 2 4096 (mkfsTxn N b)"
    "spareNodes forkCatalogFile C (mkfsTxn N b) = map of_nat [2..<C]" "spareNodes forkExtentsFile 2 (mkfsTxn N b) = [1]"
    "rooted forkCatalogFile 1 (mkfsTxn N b)" "rooted forkExtentsFile 0 (mkfsTxn N b)"
proof -
  let ?s = "mkfsTxn N b" and ?pc = "catParams N (mcaseSensitive b)"
  have N: "mkfsFits N" using assms(1) by (simp add: freshBuilder_def)
  note bd = layout_bounds [OF N, folded C_def]
  note l = mkfs_laid [OF assms(1), folded C_def]
  have p: "unat (pusedNodes ?pc) = 2" "unat (pusedNodes extParams) = 1" "ptotalNodes ?pc = of_nat C" "ptotalNodes extParams = 2"
    by (simp_all add: catParams_def extParams_def C_def)
  note hc = mkfs_headerNode [of ?pc, folded l(5), unfolded p] and he = mkfs_headerNode [of extParams, folded l(7), unfolded p]
  have w: "nodeSize (writerOf sel ?s) = 4096" for sel by (cases sel) (simp_all add: writerOf_def mkfsTxn_def runWriter_def)
  show "poolOK forkCatalogFile C 4096 ?s"
    using laidOut_placed [OF l(1)] hc(1,2,5) bd w by (simp add: poolOK_def)
  show "poolOK forkExtentsFile 2 4096 ?s"
    using laidOut_placed [OF l(2)] he(1,2,5) w by (simp add: poolOK_def)
  have f: "filter (\<lambda>i. \<not> i < k) [0..<n] = [k..<n]" for k n :: nat
    by (induction n) auto
  have "freeBits C (mapOf (cell forkCatalogFile 0 ?s)) = filter (\<lambda>i. \<not> i < 2) [0..<C]"
    unfolding freeBits_def using hc(4,5) bd by (intro filter_cong) auto
  then show "spareNodes forkCatalogFile C ?s = map of_nat [2..<C]" by (simp only: spareNodes_def f)
  have "freeBits 2 (mapOf (cell forkExtentsFile 0 ?s)) = filter (\<lambda>i. \<not> i < 1) [0..<2]"
    unfolding freeBits_def using he(4,5) by (intro filter_cong) auto
  then show "spareNodes forkExtentsFile 2 ?s = [1]" by (simp add: spareNodes_def upt_conv_Cons)
  show "rooted forkCatalogFile 1 ?s" "rooted forkExtentsFile 0 ?s"
    unfolding rooted_def rootField_def l(5,7)
    by (simp_all add: headerNode_fields treeOf_def mkfsTxn_def mkfsVolume_def catTreeOf_def extTree_def btHeaderOf_def catParams_def extParams_def)
qed

lemma mkfs_mirrors:
  assumes "freshBuilder N b"
  shows "mirrors forkCatalogFile (catalogBlocks N) 4096 (mkfsTxn N b) (catalogTree (mkfsVolume N b))"
    "mirrors forkExtentsFile 2 4096 (mkfsTxn N b) (extTree N)"
proof -
  have N: "mkfsFits N" "N < 2 ^ 32" using assms(1) by (simp_all add: freshBuilder_def mkfsFits_def)
  note bd = layout_bounds [OF N(1)] and l = mkfs_laid [OF assms]
  have u: "unat (of_nat (catalogBlocks N) :: u32) = catalogBlocks N" using bd by simp
  have len: "length (mkfsImage N b) = 4096 * N" using N by (simp add: length_mkfsImage)
  note d = mirrors_def mkfsTxn_def mkfsVolume_def treeOf_def writerOf_def runWriter_def runOf_def mkfsHeader_def extentSpan_def
  show "mirrors forkCatalogFile (catalogBlocks N) 4096 (mkfsTxn N b) (catalogTree (mkfsVolume N b))"
    using l(1) bd u len by (simp add: d catTreeOf_def btHeaderOf_def catParams_def)
  show "mirrors forkExtentsFile 2 4096 (mkfsTxn N b) (extTree N)"
    using l(2) bd len by (simp add: d extTree_def btHeaderOf_def extParams_def)
qed

text \<open>The allocation file, behind the boot block.\<close>

lemma mkfs_alloc:
  assumes "freshBuilder N b" defines "A \<equiv> bitmapBlocks N"
  shows "allocExtents (mkfsVolume N b) = [\<lparr>StartBlock = 1, BlockCount = of_nat A\<rparr>]"
    "inAlloc (mkfsTxn N b) i \<longleftrightarrow> 4096 \<le> i \<and> i < 4096 * (A + 1)"
    "allocFileOK (mkfsVolume N b) \<lparr>bitmap = bitmapImage N, bits = of_nat N\<rparr>"
proof -
  let ?v = "mkfsVolume N b"
  have N: "mkfsFits N" "N < 2 ^ 32" using assms(1) by (simp_all add: freshBuilder_def mkfsFits_def)
  note bd = layout_bounds [OF N(1), folded A_def]
  have v: "BlockSize (vh ?v) = 4096" "length (disk ?v) = 4096 * N" "unat (BlockSize (vh ?v)) = 4096"
    using N by (simp_all add: mkfsVolume_def mkfsHeader_def length_mkfsImage)
  have ne: "of_nat A \<noteq> (0 :: u32)" by (rule of_nat_ne0) (use bd in simp_all)
  have u: "unat (of_nat A :: u32) = A" using bd by simp
  have es: "Extents (AllocationFile (vh ?v)) = \<lparr>StartBlock = 1, BlockCount = of_nat A\<rparr> # replicate 7 \<lparr>StartBlock = 0, BlockCount = 0\<rparr>"
    by (simp add: mkfsVolume_def mkfsHeader_forks runFork_def A_def)
  show al: "allocExtents ?v = [\<lparr>StartBlock = 1, BlockCount = of_nat A\<rparr>]" unfolding es using ne by (simp add: eval_nat_numeral)
  show "inAlloc (mkfsTxn N b) i \<longleftrightarrow> 4096 \<le> i \<and> i < 4096 * (A + 1)"
    using al v(3) u by (simp add: inAlloc_def inRuns_def mkfsTxn_def extentSpan_def mult.commute)
  have f: "newSpecialFork (AllocationFile (vh ?v)) = runOf 1 A"
    using sint_small [of "4096 * A"] bd newSpecialFork_run [OF ne, of "of_nat (4096 * A)" 1]
    by (simp add: mkfsVolume_def mkfsHeader_forks runOf_def A_def del: of_nat_mult)
  have "filter (\<lambda>e. BlockCount e \<noteq> 0) (Extents (AllocationFile (vh ?v))) = allocExtents ?v" unfolding al es using ne by simp
  moreover have "forkOK ?v (newSpecialFork (AllocationFile (vh ?v)))" unfolding f
    by (rule run_fork(1) [OF v(1,2) N(2)]) (use bd in simp)
  moreover have "misses 4096 1072 1076 \<lparr>StartBlock = 1, BlockCount = of_nat A\<rparr>"
    "misses 4096 (4096 * N - 976) (4096 * N - 972) \<lparr>StartBlock = 1, BlockCount = of_nat A\<rparr>"
    using bd u by (auto simp: misses_def extentSpan_def)
  ultimately show "allocFileOK ?v \<lparr>bitmap = bitmapImage N, bits = of_nat N\<rparr>"
    unfolding allocFileOK_def al v f using bd N
    by (simp add: mkfsVolume_def mkfsHeader_def goodBlockSize_def runOf_def maxForkBytes_def A_def)
qed

lemma mkfs_openable:
  assumes "freshBuilder N b"
  shows "openable (mkfsTxn N b)"
proof -
  let ?s = "mkfsTxn N b" and ?v = "mkfsVolume N b"
  have N: "mkfsFits N" using assms by (simp add: freshBuilder_def)
  note bd = layout_bounds [OF N] and l = mkfs_laid [OF assms]
  have ne: "of_nat (catalogBlocks N) \<noteq> (0 :: u32)" using bd by (intro of_nat_ne0) simp_all
  have sz: "sint (of_nat (4096 * catalogBlocks N) :: u64) = int (4096 * catalogBlocks N)" by (rule sint_small) (use bd in simp)
  have "\<not> extentsForkNeedsOverflow (ExtentsFile (vh ?v))"
    by (simp add: mkfsVolume_def mkfsHeader_forks extentsForkNeedsOverflow_def runFork_def eval_nat_numeral)
  then have "inlineForks ?v"
    by (simp add: inlineForks_def mkfsVolume_def mkfsHeader_forks extTree_def catTreeOf_def newSpecialFork_run inlineExtents_run [OF ne]
        runOf_def del: of_nat_add of_nat_mult) (simp add: runFork_def sz del: of_nat_add of_nat_mult)
  moreover have "headed (cell sel 0 ?s) (theader t)" if "treeOf sel ?s = Some t" for sel t
  proof -
    have tr: "treeOf forkExtentsFile ?s = Some (extTree N)" "treeOf forkCatalogFile ?s = Some (catTreeOf N (mcaseSensitive b))"
      by (simp_all add: treeOf_def mkfsTxn_def mkfsVolume_def)
    have p: "NodeSize (btHeaderOf p) = 4096 \<Longrightarrow> headed (MkfsOpen.headerNode p) (btHeaderOf p)" for p
      by (simp add: headed_def headerNode_fields btHeaderOf_def)
    show ?thesis
    proof (cases sel)
      case forkExtentsFile
      then have "theader t = btHeaderOf extParams" using that tr(1) by (auto simp: extTree_def)
      then show ?thesis using forkExtentsFile l(7) p [of extParams] by (simp add: btHeaderOf_def extParams_def)
    next
      case forkCatalogFile
      then have "theader t = btHeaderOf (catParams N (mcaseSensitive b))" using that tr(2) by (auto simp: catTreeOf_def)
      then show ?thesis using forkCatalogFile l(5) p [of "catParams N (mcaseSensitive b)"] by (simp add: btHeaderOf_def catParams_def)
    qed
  qed
  moreover have "readVolumeHeader (disk ?v) = Inr (vh ?v)" using mkfsImage_header [OF assms] by (simp add: mkfsVolume_def)
  ultimately show ?thesis by (simp add: openable_def mkfsTxn_def)
qed

lemma mkfs_areas:
  assumes "freshBuilder N b"
  shows "areasApart (mkfsTxn N b)"
proof -
  let ?s = "mkfsTxn N b" and ?A = "bitmapBlocks N" and ?C = "catalogBlocks N"
  have N: "mkfsFits N" "N < 2 ^ 32" using assms(1) by (simp_all add: freshBuilder_def mkfsFits_def)
  note bd = layout_bounds [OF N(1)] and l = mkfs_laid [OF assms]
  have v: "unat (BlockSize (vh (wvol ?s))) = 4096" "length (disk (wvol ?s)) = 4096 * N"
    using N by (simp_all add: mkfsTxn_def mkfsVolume_def mkfsHeader_def length_mkfsImage)
  have free: "freeSet (walc ?s) = {?A + 3 + ?C..<N - 1}" by (rule mkfs_free [OF N(1)]) (simp_all add: mkfsTxn_def)
  have c: "\<not> inNode forkCatalogFile ?s i" if "i < 4096 * (?A + 3) \<or> 4096 * (?A + 3 + ?C) \<le> i" for i using l(3) [of i] that by linarith
  have e: "\<not> inNode forkExtentsFile ?s i" if "i < 4096 * (?A + 1) \<or> 4096 * (?A + 3) \<le> i" for i using l(4) [of i] that by linarith
  have "treesApart ?s" unfolding treesApart_def using l(3,4) by fastforce
  moreover have "freeApart forkCatalogFile ?s" "freeApart forkExtentsFile ?s"
    unfolding freeApart_def Let_def v free using c e bd by auto
  moreover have "\<not> inNode forkCatalogFile ?s i \<and> \<not> inNode forkExtentsFile ?s i \<and> i div 4096 \<notin> freeSet (walc ?s)"
    if h: "metaArea ?s i" for i
  proof -
    have top: "4096 * (N - 1) \<le> 4096 * N - 1024" by (simp add: diff_mult_distrib2)
    have "1024 \<le> i \<and> i < 1536 \<or> 4096 * N - 1024 \<le> i \<or> i < 4096 * (?A + 1)"
      using h unfolding metaArea_def headerArea_def v mkfs_alloc(2) [OF assms] by blast
    then have i: "i < 4096 * (?A + 1) \<or> 4096 * (N - 1) \<le> i" using top by (elim disjE) (simp, metis le_trans, simp)
    have "?A + 3 + ?C \<le> N - 1" using bd(7) by linarith
    then have "4096 * (?A + 3 + ?C) \<le> 4096 * (N - 1)" by (rule mult_le_mono2)
    then have "i < 4096 * (?A + 1) \<or> 4096 * (?A + 3 + ?C) \<le> i" using i bd(1) by auto
    moreover have "i div 4096 < ?A + 1 \<or> N - 1 \<le> i div 4096"
      using i by (auto simp: less_eq_div_iff_mult_less_eq div_less_iff_less_mult mult.commute)
    ultimately show ?thesis using c [of i] e [of i] bd free by auto
  qed
  moreover have "\<not> headerArea (4096 * N) i" if "inAlloc ?s i" for i
  proof -
    have "4096 \<le> i" "i < 4096 * (?A + 1)" using that unfolding mkfs_alloc(2) [OF assms] by blast+
    moreover have "4096 * (?A + 1) + 4096 \<le> 4096 * N" using bd(3) mult_le_mono2 [of "?A + 2" N 4096] by simp
    ultimately have "\<not> i < 1536" "\<not> 4096 * N - 1024 \<le> i" by linarith+
    then show ?thesis unfolding headerArea_def by blast
  qed
  ultimately show ?thesis unfolding areasApart_def v using bd by simp
qed

lemma mkfs_sound:
  assumes "freshBuilder N b" "fitName (mlabel b)"
  shows "soundState (catalogBlocks N) 4096 2 4096 (mkfsTxn N b) (TLeaf 1 (rootRecords b)) None"
proof -
  let ?s = "mkfsTxn N b" and ?C = "catalogBlocks N" and ?ct = "catTreeOf N (mcaseSensitive b)"
  have N: "mkfsFits N" and fit: "recordsFit 4096 (rootRecords b)" using assms(1) by (simp_all add: freshBuilder_def)
  note bd = layout_bounds [OF N] and l = mkfs_laid [OF assms(1)] and p = mkfs_pools [OF assms(1)]
  have ct: "catalogTree (wvol ?s) = ?ct" by (simp add: mkfsTxn_def mkfsVolume_def)
  have w: "nodeSize (writerOf forkCatalogFile ?s) = 4096" by (simp add: writerOf_def mkfsTxn_def runWriter_def)
  have node: "nodeAt forkCatalogFile ?s 1 = Inr \<lparr>desc = rootDesc, records = rootRecords b\<rparr>"
    using node_roundtrip [OF fit, of rootDesc] by (simp add: nodeAt_def l(6) w rootLeaf_def rootDesc_def)
  obtain r1 r2 where r: "rootRecords b = [r1, r2]"
    "keyFromRecord r1 = Some \<lparr>parentID = 1, cname = mlabel b, nameU16 = Some (utf16Encode (mlabel b))\<rparr>"
    "keyFromRecord r2 = Some \<lparr>parentID = 2, cname = [], nameU16 = Some []\<rparr>" by (rule mkfs_keys [OF assms(2)])
  have o: "ordered keyFromRecord (compareCatalogKey ?ct) None None (TLeaf 1 (rootRecords b))"
    by (simp add: r recCmp_def recIn_def within_def compareCatalogKey_ordSign ordSign_def less_prod_def)
  have "(1 :: u32) \<notin> of_nat ` {2..<?C}" using bd of_nat_inverse by (auto simp: word_unat_eq_iff)
  moreover have "distinct (map of_nat [2..<?C] :: u32 list)" using spareNodes_distinct [OF p(1)] p(3) by simp
  ultimately have "wellTree keyFromRecord (compareCatalogKey ?ct) forkCatalogFile ?C 4096 ?s (TLeaf 1 (rootRecords b))"
    unfolding wellTree_def using p(1,3,5) node o fit bd by (simp add: linked_def rootLow_def rootDesc_def)
  moreover have "extentsHold 2 4096 ?s None"
    unfolding extentsHold_def using p(2,6) l(7) by (simp add: headerNode_fields treeOf_def mkfsTxn_def mkfsVolume_def extTree_def btHeaderOf_def extParams_def)
  moreover have "wvol ?s = mkfsVolume N b" "walc ?s = \<lparr>bitmap = bitmapImage N, bits = of_nat N\<rparr>" by (simp_all add: mkfsTxn_def)
  ultimately show ?thesis
    unfolding soundState_def ct using mkfs_mirrors [OF assms(1)] mkfs_areas [OF assms(1)] mkfs_openable [OF assms(1)] mkfs_alloc(3) [OF assms(1)]
    by (auto simp: heightOf_def mkfsVolume_tree)
qed

end
