(* ===== verification/Commit.thy ===== *)
theory Commit
  imports FileCreate Session
begin

text \<open>
  The end of a transaction: \<^verbatim>\<open>commit\<close> (\<^verbatim>\<open>write.go\<close>) writes the bitmap and the count of free blocks and parses the
  image again. In a sound state this succeeds and leaves a sound state with the same trees, records and files, so
  that what was found before the commit is found after it.
\<close>

section \<open>Trees that stay\<close>

text \<open>A state in which every tree has its nodes where they were and that can be opened is sound again.\<close>

definition reread :: "wst \<Rightarrow> wst \<Rightarrow> bool" where
  "reread s s' \<longleftrightarrow> (\<forall>sel N. 0 < N \<longrightarrow> placed sel N s \<longrightarrow> sameStore sel N s s') \<and> sameLayout s s' \<and> walc s' = walc s
     \<and> KeyCompare (theader (catalogTree (wvol s'))) = KeyCompare (theader (catalogTree (wvol s)))
     \<and> vhTotalBlocks (vh (wvol s')) = vhTotalBlocks (vh (wvol s)) \<and> wr (wvol s') = wr (wvol s)
     \<and> (\<forall>i < length (disk (wvol s)). \<not> metaArea s i \<longrightarrow> disk (wvol s') ! i = disk (wvol s) ! i)"

lemma reread_sound:
  assumes "reread s s'" "openable s'" "soundState Nc nc Ne ne s t tr"
  shows "soundState Nc nc Ne ne s' t tr"
proof -
  note r = assms(1) [unfolded reread_def] and v = assms(3) [unfolded soundState_def]
  have c: "sameStore forkCatalogFile Nc s s'" and e: "sameStore forkExtentsFile Ne s s'"
    using r soundState_placed [OF assms(3)] sound_heads(7,8) [OF assms(3)] by blast+
  have k: "compareCatalogKey (catalogTree (wvol s')) = compareCatalogKey (catalogTree (wvol s))" by (rule keyCompare_cong) (use r in simp)
  obtain ct' where ct': "mirrors forkCatalogFile Nc nc s' ct'" "treeOf forkCatalogFile s' = Some ct'"
    by (rule sameStore_mirrors [OF c]) (use v in auto)
  have "catalogTree (wvol s') = ct'" using ct'(2) by (simp add: treeOf_def)
  moreover obtain bt where "mirrors forkExtentsFile Ne ne s bt" using v by blast
  then obtain bt' where "mirrors forkExtentsFile Ne ne s' bt'" by (rule sameStore_mirrors [OF e])
  moreover have "areasApart s'" by (rule areasApart_layout [of s]) (use v r in auto)
  moreover have "allocFileOK (wvol s') (walc s')"
    using v r allocFileOK_layout [of "wvol s'" "wvol s" "walc s" "walc s'"] by (simp add: sameLayout_def sameMap_def)
  ultimately show ?thesis
    unfolding soundState_def k using v assms(2) ct'(1) sameStore_well [OF c] sameStore_extents [OF e] by auto
qed

lemma reread_lookup:
  assumes "reread s s'" "soundState Nc nc Ne ne s t tr" "soundState Nc nc Ne ne s' t tr" "namesAgree env (catalogTree (wvol s)) key (treeRecs t)"
  shows "lookup env (wvol s') (catalogTree (wvol s')) key = lookup env (wvol s) (catalogTree (wvol s)) key"
proof -
  have "KeyCompare (theader (catalogTree (wvol s'))) = KeyCompare (theader (catalogTree (wvol s)))" using assms(1) by (simp add: reread_def)
  note k = keyCompare_cong [OF this]
  show ?thesis using sound_lookup [OF assms(2,4)] sound_lookup [OF assms(3), of env key] assms(4) by (simp add: k)
qed

lemma reread_file:
  assumes "reread s s'" "soundState Nc nc Ne ne s t tr" "fileOn Ne ne s cnid data runs"
  shows "fileOn Ne ne s' cnid data runs"
proof -
  note r = assms(1) [unfolded reread_def] and h = assms(3) [unfolded fileOn_def dataHeld_def Let_def]
  have lay: "sameLayout s s'" using r by blast
  have v: "BlockSize (vh (wvol s')) = BlockSize (vh (wvol s))" "length (disk (wvol s')) = length (disk (wvol s))"
    "\<And>sel. writerOf sel s' = writerOf sel s" using lay by (simp_all add: sameLayout_def)
  let ?bs = "unat (BlockSize (vh (wvol s)))"
  have same: "\<forall>i < length (disk (wvol s)). \<not> metaArea s i \<longrightarrow> disk (wvol s') ! i = disk (wvol s) ! i" using r by blast
  have inside: "list_all (extentInside (disk (wvol s)) ?bs) runs" and out: "\<And>i. inRuns ?bs runs i \<Longrightarrow> \<not> metaArea s i" using h by blast+
  have "forkContent (disk (wvol s')) ?bs runs = forkContent (disk (wvol s)) ?bs runs"
    by (rule forkContent_same [OF _ v(2) inside]) (use out same in blast)
  moreover have "sameStore forkExtentsFile Ne s s'" using r soundState_placed(2) [OF assms(2)] sound_heads(8) [OF assms(2)] by blast
  then have "forkStored Ne ne s' cnid forkTypeData runs" by (rule forkStored_store) (use h in blast)
  moreover have "list_all (extentInside (disk (wvol s')) ?bs) runs" using h v by (simp add: extentInside_def list_all_iff)
  ultimately show ?thesis
    unfolding fileOn_def dataHeld_def Let_def v(1) metaArea_layout(1) [OF lay] inNode_cong [OF v(3,2)] using h by simp
qed

lemma reread_trans:
  assumes "reread s s'" "reread s' s''"
  shows "reread s s''"
proof -
  note a = assms(1) [unfolded reread_def] and b = assms(2) [unfolded reread_def]
  have lay: "sameLayout s s'" using a by blast
  have "sameStore sel N s s''" if "0 < N" "placed sel N s" for sel N
  proof -
    have "placed sel N s' = placed sel N s" by (rule placed_cong) (use lay in \<open>simp_all add: sameLayout_def\<close>)
    then show ?thesis using a b that sameStore_trans [of sel N s s' s''] by blast
  qed
  then show ?thesis
    using a b metaArea_layout(1) [OF lay] unfolding reread_def by (simp add: sameLayout_def)
qed

section \<open>Writing the bitmap\<close>

lemma gslice_byte: "i < length b \<Longrightarrow> gslice b i (i + 1) = [b ! i]"
  by (simp add: gslice_def take_Suc_conv_app_nth)

lemma flush_disk:
  assumes snd: "soundState Nc nc Ne ne s t tr"
  obtains d where "flushA (walc s) (wvol s) = (Inr (), (wvol s)\<lparr>disk := d, vh := (vh (wvol s))\<lparr>FreeBlocks := freeCount (walc s)\<rparr>\<rparr>)"
    "length d = length (disk (wvol s))" "\<forall>i < length d. \<not> metaArea s i \<longrightarrow> d ! i = disk (wvol s) ! i"
    "\<forall>k < 512. \<not> (0x30 \<le> k \<and> k < 0x34) \<longrightarrow> d ! (1024 + k) = disk (wvol s) ! (1024 + k)" "be32 d 1072 = freeCount (walc s)"
proof -
  let ?v = "wvol s" and ?a = "walc s" let ?es = "allocExtents ?v" and ?bs = "unat (BlockSize (vh ?v))" and ?m = "bitmap ?a" and ?L = "length (disk ?v)"
  have ok: "allocFileOK ?v ?a" and ar: "areasApart s" using snd by (simp_all add: soundState_def)
  have L: "2560 \<le> ?L" by (rule sound_heads(4) [OF snd])
  have f: "fextents (newSpecialFork (AllocationFile (vh ?v))) = ?es" "fsize (newSpecialFork (AllocationFile (vh ?v))) = int (length ?m)"
    using ok by (simp_all add: allocFileOK_def newSpecialFork_def)
  have fok: "list_all (extentInside (disk ?v) ?bs) ?es" "length ?m \<le> sum_list (map (extentSpan ?bs) ?es)" "sorted_wrt apart ?es" "?es \<noteq> []"
    using ok f by (auto simp: allocFileOK_def forkOK_def)
  obtain zs where zs: "Extents (AllocationFile (vh ?v)) = ?es @ zs" by (metis takeWhile_dropWhile_id)
  have nz: "\<forall>e \<in> set ?es. BlockCount e \<noteq> 0" by (auto dest: set_takeWhileD)
  obtain img where img: "flush_loop ?m ?bs (Extents (AllocationFile (vh ?v))) (disk ?v) 0 = Inr img" "length img = ?L"
    "\<And>lo hi. \<forall>e \<in> set ?es. misses ?bs lo hi e \<Longrightarrow> gslice img lo hi = gslice (disk ?v) lo hi"
    using flush_loop_spec [OF fok(1) nz fok(3), of 0 ?m zs] fok(2,4) unfolding zs [symmetric] by auto
  have same: "img ! i = disk ?v ! i" if "i < ?L" "\<not> inAlloc s i" for i
  proof -
    have "\<forall>e \<in> set ?es. misses ?bs i (i + 1) e" using that(2) by (auto simp: inAlloc_def inRuns_def misses_def not_le not_less)
    then show ?thesis using img(3) [of i "i + 1"] gslice_byte [of i img] gslice_byte [of i "disk ?v"] that(1) img(2) by simp
  qed
  let ?e = "enc32 (freeCount ?a)"
  define d where "d = overwrite (overwrite img 1072 ?e) (?L - 976) ?e"
  have len: "length d = ?L" using L img(2) by (simp add: d_def)
  have "flushA ?a ?v = (Inr (), ?v\<lparr>disk := d, vh := (vh ?v)\<lparr>FreeBlocks := freeCount ?a\<rparr>\<rparr>)"
    using img(1,2) L by (simp add: flushA_def setHeaderFreeBlocks_def setHeaderU32At_ok d_def)
  moreover have "d ! i = disk ?v ! i" if "i < ?L" "\<not> metaArea s i" for i
    using that same [of i] L img(2) unfolding d_def metaArea_def headerArea_def by (auto simp: nth_overwrite)
  moreover have "d ! (1024 + k) = disk ?v ! (1024 + k)" if "k < 512" "\<not> (0x30 \<le> k \<and> k < 0x34)" for k
  proof -
    have "\<not> inAlloc s (1024 + k)" using ar that(1) by (auto simp: areasApart_def headerArea_def)
    then show ?thesis using that same [of "1024 + k"] L img(2) unfolding d_def by (auto simp: nth_overwrite)
  qed
  moreover have "be32 d 1072 = freeCount ?a"
  proof -
    have "be32 d 1072 = be32 (overwrite img 1072 ?e) 1072" unfolding d_def using L img(2) by (intro be32_overwrite_other) auto
    then show ?thesis using L img(2) by (simp add: be32_overwrite_same)
  qed
  ultimately show thesis using that len by auto
qed

lemma flush_sound:
  assumes snd: "soundState Nc nc Ne ne s t tr"
  obtains v where "flushA (walc s) (wvol s) = (Inr (), v)" "reread s (s\<lparr>wvol := v\<rparr>)" "soundState Nc nc Ne ne (s\<lparr>wvol := v\<rparr>) t tr"
proof -
  note v = snd [unfolded soundState_def]
  obtain d where d: "flushA (walc s) (wvol s) = (Inr (), (wvol s)\<lparr>disk := d, vh := (vh (wvol s))\<lparr>FreeBlocks := freeCount (walc s)\<rparr>\<rparr>)"
    "length d = length (disk (wvol s))" "\<forall>i < length d. \<not> metaArea s i \<longrightarrow> d ! i = disk (wvol s) ! i"
    "\<forall>k < 512. \<not> (0x30 \<le> k \<and> k < 0x34) \<longrightarrow> d ! (1024 + k) = disk (wvol s) ! (1024 + k)" "be32 d 1072 = freeCount (walc s)"
    by (rule flush_disk [OF snd])
  define s' where "s' = s\<lparr>wvol := (wvol s)\<lparr>disk := d, vh := (vh (wvol s))\<lparr>FreeBlocks := freeCount (walc s)\<rparr>\<rparr>\<rparr>"
  have w: "writerOf sel s' = writerOf sel s" "treeOf sel s' = treeOf sel s" "disk (wvol s') = d" for sel
    by (cases sel; simp add: s'_def writerOf_def treeOf_def)+
  have c: "cell sel n s' = cell sel n (setDisk d s)" for sel n
  proof -
    have "addr sel n s' = addr sel n (setDisk d s)" by (rule addr_cong) (use w in simp_all)
    then show ?thesis using w by (simp add: cell_def)
  qed
  have store: "sameStore sel N s s'" if "placed sel N s" for sel N
  proof -
    have "sameTree sel N s (setDisk d s)" by (rule sameTree_disk) (use d(2,3) that sound_heads(3) [OF snd] in auto)
    then show ?thesis using w c d(2) unfolding sameTree_def sameStore_def by (cases "treeOf sel s") (auto simp: s'_def)
  qed
  have re: "reread s s'" unfolding reread_def using store w d(2,3) by (auto simp: s'_def sameLayout_def writerOf_def)
  have "readVolumeHeader d = Inr ((vh (wvol s))\<lparr>FreeBlocks := be32 d 1072\<rparr>)"
    by (rule header_frame [of "disk (wvol s)"]) (use d v sound_heads(4) [OF snd] in \<open>auto simp: openable_def\<close>)
  moreover have "inlineForks (wvol s')" using v by (simp add: openable_def inlineForks_def s'_def)
  moreover have "headed (cell sel 0 s') (theader t)" if "treeOf sel s' = Some t" for sel t
    using that v store [OF sound_heads(1) [OF snd]] w by (simp add: openable_def sameStore_def)
  ultimately have "openable s'" using d(5) unfolding openable_def by (simp add: s'_def)
  then show thesis using that d(1) re reread_sound [OF re _ snd] by (simp add: s'_def)
qed

section \<open>Opening again\<close>

text \<open>\<^verbatim>\<open>openBTree\<close> on the fork of a tree parses the header in the tree's first node.\<close>

lemma open_mirrored:
  assumes mir: "mirrors sel N ns s t" and "0 < N" "512 \<le> ns" and hd: "headed (cell sel 0 s) (theader t)"
  shows "openBTree (wvol s) (tf t) = Inr (t\<lparr>theader := headerIn (cell sel 0 s)\<rparr>)"
proof -
  let ?H = "cell sel 0 s" and ?f = "tf t"
  note m = mir [unfolded mirrors_def]
  have lay: "laidOut sel N ns s" and ns: "nodeSize (writerOf sel s) = ns" using m by (auto simp: laidOut_def Let_def)
  have p: "placed sel N s" by (rule laidOut_placed [OF lay])
  have len: "length ?H = ns" using length_cell [OF p, of 0] assms(2) ns by simp
  have "1 * ns \<le> N * ns" using assms(2) by (intro mult_le_mono1) simp
  then have sz: "int ns \<le> fsize ?f" using m by linarith
  have c: "gslice (forkContent (disk (wvol s)) (unat (BlockSize (vh (wvol s)))) (bwExtents (writerOf sel s))) 0 ns = ?H"
    using laidOut_addr(3) [OF lay, of 0] assms(2) by simp
  have "120 \<le> nat (fsize ?f)" using sz assms(3) by linarith
  then have "take 120 (forkBytes (wvol s) ?f) = take 120 ?H"
    using c [symmetric] assms(3) m unfolding forkBytes_def by (simp add: gslice_def min_def)
  then have "readAt (wvol s) ?f (nodeDescriptorLen + 106) 0 = (take 120 ?H, None)"
    using readAt_window [OF mirrors_forkOK [OF mir], of 0 120] sz assms(3) by (simp add: nodeDescriptorLen_def)
  moreover have "filled 120 (take 120 ?H) = take 120 ?H" using len assms(3) by (simp add: filled_def)
  moreover have "Kind (parseNodeDescriptor (take 120 ?H)) = kindHeaderNode"
    using hd len assms(3) by (simp add: parseNodeDescriptor_prefix) (simp add: parseNodeDescriptor_def headed_def)
  moreover have "drop 14 (take 120 ?H) = gslice ?H 14 120" by (simp add: gslice_def drop_take)
  moreover have "gslice ?H 14 120 ! 37 = ?H ! 51" using len assms(3) by (simp add: gslice_def)
  ultimately show ?thesis
    using hd len assms(3) by (cases t) (simp add: openBTree_def nodeDescriptorLen_def codec_simps headed_def headerIn_def Let_def not_less)
qed

lemma reopen_trees:
  assumes snd: "soundState Nc nc Ne ne s t tr"
  obtains bt where "extentsTree (wvol s) = Some bt"
    "reopen (wvol s) = (Inr (), (wvol s)\<lparr>extentsTree := Some (bt\<lparr>theader := headerIn (cell forkExtentsFile 0 s)\<rparr>),
       catalogTree := (catalogTree (wvol s))\<lparr>theader := headerIn (cell forkCatalogFile 0 s)\<rparr>\<rparr>)"
proof -
  let ?v = "wvol s" let ?ct = "catalogTree ?v"
  note w = snd [unfolded soundState_def] and N = sound_heads(7,8) [OF snd]
  have op: "readVolumeHeader (disk ?v) = Inr (vh ?v)" "inlineForks ?v" "\<And>sel t. treeOf sel s = Some t \<Longrightarrow> headed (cell sel 0 s) (theader t)"
    using w by (simp_all add: openable_def)
  obtain bt where bt: "mirrors forkExtentsFile Ne ne s bt" "extentsTree ?v = Some bt" using w by (auto simp: mirrors_def treeOf_def)
  have ns: "512 \<le> nc" "512 \<le> ne" using w by (auto simp: wellTree_def extentsHold_def extentsWell_def poolOK_def split: option.splits)
  let ?bt = "bt\<lparr>theader := headerIn (cell forkExtentsFile 0 s)\<rparr>" and ?ct' = "?ct\<lparr>theader := headerIn (cell forkCatalogFile 0 s)\<rparr>"
  have e: "openBTree ?v (tf bt) = Inr ?bt" by (rule open_mirrored [OF bt(1) N(2) ns(2)]) (rule op(3), simp add: treeOf_def bt(2))
  have c: "openBTree ?v (tf ?ct) = Inr ?ct'"
    by (rule open_mirrored [of forkCatalogFile Nc nc]) (use w N ns op(3) in \<open>auto simp: treeOf_def\<close>)
  have big: "0 < f" if "int (N * ns) \<le> f" "0 < N" "512 \<le> ns" for f and N ns :: nat
  proof -
    have "0 < N * ns" using that(2,3) by simp
    then show ?thesis using that(1) by linarith
  qed
  have "int (Ne * ne) \<le> fsize (tf bt)" "int (Nc * nc) \<le> fsize (tf ?ct)" using bt(1) w by (simp_all add: mirrors_def)
  then have sz: "0 < fsize (tf bt)" "0 < fsize (tf ?ct)" using big N ns by blast+
  have fe: "newSpecialFork (ExtentsFile (vh ?v)) = tf bt" "\<not> extentsForkNeedsOverflow (ExtentsFile (vh ?v))" using op(2) bt(2) by (auto simp: inlineForks_def)
  have "openExtentsTree ?v = Some ?bt" unfolding openExtentsTree_def Let_def fe(1) using e sz(1) fe(2) by simp
  moreover have "newSpecialForkResolved ?v (Some x) kHFSCatalogFileID (CatalogFile (vh ?v)) = Inr (tf ?ct)" for x
    using op(2) unfolding inlineForks_def newSpecialForkResolved_def resolveForkExtents_def
    by (auto split: prod.splits intro!: fork.equality)
  ultimately have "openTrees ?v = (Inr (), ?v\<lparr>extentsTree := Some ?bt, catalogTree := ?ct'\<rparr>)"
    unfolding openTrees_Inr using c sz(2) by (intro exI [of _ "tf ?ct"] exI [of _ ?ct']) simp
  then show thesis using that [of bt] bt(2) op(1) by (simp add: reopen_def)
qed

lemma reopen_sound:
  assumes snd: "soundState Nc nc Ne ne s t tr"
  obtains v where "reopen (wvol s) = (Inr (), v)" "reread s (s\<lparr>wvol := v\<rparr>)" "soundState Nc nc Ne ne (s\<lparr>wvol := v\<rparr>) t tr"
proof -
  note w = snd [unfolded soundState_def]
  obtain bt where bt: "extentsTree (wvol s) = Some bt"
    and run: "reopen (wvol s) = (Inr (), (wvol s)\<lparr>extentsTree := Some (bt\<lparr>theader := headerIn (cell forkExtentsFile 0 s)\<rparr>),
       catalogTree := (catalogTree (wvol s))\<lparr>theader := headerIn (cell forkCatalogFile 0 s)\<rparr>\<rparr>)"
    by (rule reopen_trees [OF snd])
  define s' where "s' = s\<lparr>wvol := (wvol s)\<lparr>extentsTree := Some (bt\<lparr>theader := headerIn (cell forkExtentsFile 0 s)\<rparr>),
       catalogTree := (catalogTree (wvol s))\<lparr>theader := headerIn (cell forkCatalogFile 0 s)\<rparr>\<rparr>\<rparr>"
  have f: "writerOf sel s' = writerOf sel s" "disk (wvol s') = disk (wvol s)" "vh (wvol s') = vh (wvol s)" "wr (wvol s') = wr (wvol s)" for sel
    by (cases sel; simp add: s'_def writerOf_def)+
  have tr: "treeOf sel s' = map_option (\<lambda>t. t\<lparr>theader := headerIn (cell sel 0 s)\<rparr>) (treeOf sel s)" for sel
    by (cases sel) (simp_all add: treeOf_def s'_def bt)
  have c: "cell sel n s' = cell sel n s" for sel n
  proof -
    have "addr sel n s' = addr sel n s" by (rule addr_cong) (use f in simp_all)
    then show ?thesis using f by (simp add: cell_def)
  qed
  have hd: "headed (cell sel 0 s) (theader t)" if "treeOf sel s = Some t" for sel t using w that by (simp add: openable_def)
  have root: "RootNode (theader t) = be32 (cell sel 0 s) 16" if "treeOf sel s = Some t" for sel t
    using w that by (cases sel) (auto simp: wellTree_def extentsHold_def extentsWell_def rooted_def rootField_def split: option.splits)
  have "sameStore sel N s s'" for sel N
    using hd [of sel] root [of sel] unfolding sameStore_def tr
    by (cases "treeOf sel s") (auto simp: f c headerIn_def headed_def)
  moreover have "KeyCompare (theader (catalogTree (wvol s'))) = KeyCompare (theader (catalogTree (wvol s)))"
    using hd [of forkCatalogFile "catalogTree (wvol s)"] by (simp add: treeOf_def s'_def headerIn_def headed_def)
  moreover have "walc s' = walc s" by (simp add: s'_def)
  ultimately have re: "reread s s'" unfolding reread_def sameLayout_def by (simp add: f)
  have "inlineForks (wvol s')" using w bt by (simp add: openable_def inlineForks_def s'_def)
  moreover have "headed (cell sel 0 s') (theader t')" if t': "treeOf sel s' = Some t'" for sel t'
  proof -
    obtain t where t: "treeOf sel s = Some t" "t' = t\<lparr>theader := headerIn (cell sel 0 s)\<rparr>" using t' by (auto simp: tr)
    then show ?thesis using hd [OF t(1)] by (simp add: c headed_def headerIn_def)
  qed
  ultimately have "openable s'" using w f unfolding openable_def by simp
  then show thesis using that run re reread_sound [OF re _ snd] by (simp add: s'_def)
qed

section \<open>Commit\<close>

lemma commit_sound:
  assumes snd: "soundState Nc nc Ne ne s t tr"
  obtains s' where "commit s = (Inr (), s')" "reread s s'" "soundState Nc nc Ne ne s' t tr"
proof -
  obtain v where v: "flushA (walc s) (wvol s) = (Inr (), v)" "reread s (s\<lparr>wvol := v\<rparr>)" "soundState Nc nc Ne ne (s\<lparr>wvol := v\<rparr>) t tr"
    by (rule flush_sound [OF snd])
  obtain v' where "reopen v = (Inr (), v')" "reread (s\<lparr>wvol := v\<rparr>) (s\<lparr>wvol := v'\<rparr>)" "soundState Nc nc Ne ne (s\<lparr>wvol := v'\<rparr>) t tr"
    using reopen_sound [OF v(3)] by auto
  then show thesis using that [of "s\<lparr>wvol := v'\<rparr>"] v(1) reread_trans [OF v(2)] by (simp add: commit_def)
qed

end
