(* ===== verification/FileWrite.thy ===== *)
theory FileWrite
  imports Commit
begin

text \<open>
  The transaction behind \<^verbatim>\<open>WriteFile\<close> and \<^verbatim>\<open>Symlink\<close> (\<^verbatim>\<open>write.go\<close>): begin, create the file, count the write, commit. On
  a volume whose transactions start in a sound state it succeeds, and the volume it leaves finds and reads the file.
\<close>

section \<open>Edits after the file is there\<close>

lemma headerEdit_reread:
  assumes "headerEdit s s'" "soundState Nc nc Ne ne s t tr"
  shows "reread s s'"
proof -
  note side = headerEdit_sound(2) [OF assms]
  obtain d where d: "s' = setDisk d s" "\<forall>i < length d. \<not> metaArea s i \<longrightarrow> d ! i = disk (wvol s) ! i" "length d = length (disk (wvol s))"
    using assms(1) by (auto simp: headerEdit_def)
  have "sameStore sel N s s'" if "placed sel N s" for sel N
    by (rule sameTree_store, rule headerEdit_tree [OF assms(1) _ that]) (use assms(2) in \<open>simp add: soundState_def\<close>)
  moreover have "sameLayout s s'" using catalogSide_facts(1-3) [OF side] by (simp add: sameLayout_def)
  ultimately show ?thesis using d unfolding reread_def by (simp add: setDisk_def)
qed

lemma reread_entered:
  assumes "entered env ct r1 r2 fo fo' s t s' t'" "reread s' s''" "soundState Nc nc Ne ne s' t' tr" "soundState Nc nc Ne ne s'' t' tr"
  shows "entered env ct r1 r2 fo fo' s t s'' t'"
proof -
  have "KeyCompare (theader (catalogTree (wvol s''))) = KeyCompare (theader (catalogTree (wvol s')))" using assms(2) by (simp add: reread_def)
  note k = keyCompare_cong(4) [OF this]
  show ?thesis
    unfolding entered_def k
  proof (intro conjI allI impI)
    show "set (treeRecs t') = {r1, r2, fo'} \<union> (set (treeRecs t) - {fo})" using assms(1) by (simp add: entered_def)
  next
    fix key assume "namesAgree env ct key (r1 # r2 # treeRecs t)"
    with assms(1) have n: "namesAgree env (catalogTree (wvol s')) key (treeRecs t')"
      and l: "lookup env (wvol s') (catalogTree (wvol s')) key = entryLookup env ct r1 r2 fo fo' key (lookup env (wvol s) ct key)"
      unfolding entered_def by blast+
    show "namesAgree env (catalogTree (wvol s')) key (treeRecs t')" by (rule n)
    show "lookup env (wvol s'') (catalogTree (wvol s'')) key = entryLookup env ct r1 r2 fo fo' key (lookup env (wvol s) ct key)"
      using l reread_lookup [OF assms(2-4) n] by simp
  qed
qed

text \<open>Counting the write and committing.\<close>

lemma finish_sound:
  assumes snd: "soundState Nc nc Ne ne s t tr"
  obtains s' where "bnd bumpWriteCount (\<lambda>_. commit) s = (Inr (), s')" "reread s s'" "soundState Nc nc Ne ne s' t tr"
proof -
  obtain s1 where s1: "bumpWriteCount s = (Inr (), s1)" "headerEdit s s1" using count_runs(3) [OF sound_heads(4) [OF snd]] by blast
  note snd1 = headerEdit_sound(1) [OF s1(2) snd]
  obtain s' where "commit s1 = (Inr (), s')" "reread s1 s'" "soundState Nc nc Ne ne s' t tr" by (rule commit_sound [OF snd1])
  then show thesis using that s1(1) reread_trans [OF headerEdit_reread [OF s1(2) snd]] by (simp add: bnd_def)
qed

section \<open>The transaction\<close>

lemma create_txn:
  fixes s defines "ct \<equiv> catalogTree (wvol s)"
  assumes start: "beginTxn env v = Inr s"
    and snd: "soundState Nc nc Ne ne s t tr" and data: "roomForData Ne s tr (nextID s) data runs"
    and r1: "r1 = fileRecord env s parent name data mode runs" and r2: "r2 = fileThread s parent name"
    and room: "roomForTwo Nc nc s t r1 r2"
    and new: "newKey keyFromRecord (compareCatalogKey ct) t r1" "fitName name" "parent < nextID s"
      "\<forall>r \<in> set (treeRecs t). \<forall>k. keyFromRecord r = Some k \<longrightarrow> parentID k \<noteq> nextID s"
    and par: "parentFolder env ct (treeRecs t) parent gp fname fo" "recordData fo = Some fd" "bumpFolder 1 0 fd = Some fd'"
    and names: "namesAgree env ct (keyAt parent []) (r1 # r2 # treeRecs t)" "namesAgree env ct (keyAt gp fname) (r1 # r2 # treeRecs t)"
  obtains s' t' tr' where "createTxn env parent name data mode v = (Inr (), wvol s')" "soundState Nc nc Ne ne s' t' tr'"
    "entered env ct r1 r2 fo (withData fo fd fd') s t s' t'"
    "\<And>cf. fileID cf = nextID s \<Longrightarrow> dataFork cf = fileDesc s data runs \<Longrightarrow> bindR (dataForkFor (wvol s') cf) (readAll (wvol s')) = Inr data"
proof -
  obtain s1 t' tr' where s1: "createFile env parent name data mode s = (Inr (), s1)" "soundState Nc nc Ne ne s1 t' tr'"
    "entered env ct r1 r2 fo (withData fo fd fd') s t s1 t'" "fileOn Ne ne s1 (nextID s) data runs" "sameLayout s s1"
    using create_file [OF snd data r1 r2 room new [unfolded ct_def] par [unfolded ct_def] names [unfolded ct_def]] unfolding ct_def by metis
  obtain s' where s': "bnd bumpWriteCount (\<lambda>_. commit) s1 = (Inr (), s')" "reread s1 s'" "soundState Nc nc Ne ne s' t' tr'"
    by (rule finish_sound [OF s1(2)])
  have "createTxn env parent name data mode v = (Inr (), wvol s')"
    using start s1(1) s'(1) by (simp add: createTxn_def runTxn_def bnd_def)
  moreover have "sameLayout s s'" using s1(5) s'(2) by (simp add: reread_def sameLayout_def)
  ultimately show thesis
    using that s'(3) reread_entered [OF s1(3) s'(2) s1(2) s'(3)] file_read [OF snd data s'(3) reread_file [OF s'(2) s1(2,4)]] by blast
qed

section \<open>A new file at a path\<close>

lemma begin_volume: "beginTxn env v = Inr s \<Longrightarrow> wvol s = v"
  by (auto simp: beginTxn_def bindR_def split: sum.splits option.splits)

lemma no_match: "\<forall>r \<in> set rs. \<not> keyMatches env t key r \<Longrightarrow> lookupSpec env t key rs = Inr None"
  unfolding lookupSpec_def by (metis find_None_iff option.case(1))

lemma name_absent:
  assumes "soundState Nc nc Ne ne s t tr" "newKey keyFromRecord (compareCatalogKey (catalogTree (wvol s))) t rec"
    and "keyMatches env (catalogTree (wvol s)) (keyAt parent name) rec" "namesAgree env (catalogTree (wvol s)) (keyAt parent name) (rec # treeRecs t)"
  shows "lookupChild env (wvol s) parent name = Inr None"
proof -
  have "namesAgree env (catalogTree (wvol s)) (keyAt parent name) (treeRecs t)" by (rule namesAgree_mono [OF assms(4)]) auto
  then show ?thesis
    using sound_lookup [OF assms(1), of env "keyAt parent name"] no_match match_old [OF assms(2,4)] assms(3) unfolding lookupChild_def by metis
qed

lemma write_new_file:
  fixes s perm defines "ct \<equiv> catalogTree (wvol s)" and "mode \<equiv> sIFREG OR permBits perm"
  assumes v: "wr v" "resolveParent env v p = Inr (parent, name)" and start: "beginTxn env v = Inr s"
    and snd: "soundState Nc nc Ne ne s t tr" and data: "roomForData Ne s tr (nextID s) data runs"
    and r1: "r1 = fileRecord env s parent name data mode runs" and r2: "r2 = fileThread s parent name"
    and room: "roomForTwo Nc nc s t r1 r2"
    and new: "newKey keyFromRecord (compareCatalogKey ct) t r1" "fitName name" "parent < nextID s"
      "\<forall>r \<in> set (treeRecs t). \<forall>k. keyFromRecord r = Some k \<longrightarrow> parentID k \<noteq> nextID s"
    and par: "parentFolder env ct (treeRecs t) parent gp fname fo" "recordData fo = Some fd" "bumpFolder 1 0 fd = Some fd'"
    and names: "namesAgree env ct (keyAt parent []) (r1 # r2 # treeRecs t)" "namesAgree env ct (keyAt gp fname) (r1 # r2 # treeRecs t)"
      "namesAgree env ct (keyAt parent name) (r1 # r2 # treeRecs t)"
  obtains s' t' tr' cf where "WriteFile env p data perm v = (Inr (), wvol s')" "soundState Nc nc Ne ne s' t' tr'"
    "entered env ct r1 r2 fo (withData fo fd fd') s t s' t'"
    "lookupChild env (wvol s') parent name = Inr (Some \<lparr>recType = recordFile, cfolder = None, cfile = Some cf, threadName = [], threadParent = 0\<rparr>)"
    "permMode cf = mode" "cfiFlags cf = kHFSThreadExistsMask" "bindR (dataForkFor (wvol s') cf) (readAll (wvol s')) = Inr data"
proof -
  let ?key = "keyAt parent name"
  have wv: "wvol s = v" by (rule begin_volume [OF start])
  obtain s' t' tr' where s': "createTxn env parent name data mode v = (Inr (), wvol s')" "soundState Nc nc Ne ne s' t' tr'"
    "entered env ct r1 r2 fo (withData fo fd fd') s t s' t'"
    and rd: "\<And>cf. fileID cf = nextID s \<Longrightarrow> dataFork cf = fileDesc s data runs \<Longrightarrow> bindR (dataForkFor (wvol s') cf) (readAll (wvol s')) = Inr data"
    using create_txn [OF start snd data r1 r2 room new [unfolded ct_def] par [unfolded ct_def] names(1,2) [unfolded ct_def]] unfolding ct_def by metis
  have m: "keyMatches env ct ?key r1" by (rule new_keys(4) [OF new(2,3) _ r1 [unfolded fileRecord_def] refl, of "[]"]) simp
  have "namesAgree env ct ?key (r1 # treeRecs t)" by (rule namesAgree_mono [OF names(3)]) auto
  then have "lookupChild env v parent name = Inr None" using name_absent [OF snd] new(1) m unfolding ct_def wv by blast
  then have w: "WriteFile env p data perm v = (Inr (), wvol s')"
    using v start s'(1) by (simp add: WriteFile_def guarded_def bnd_def liftR_def ret_def mode_def)
  have "lookupChild env (wvol s') parent name = foundRec r1"
    using s'(3) names(3) m by (simp add: entered_def lookupChild_def entryLookup_def)
  also have "\<dots> = Inr (Some \<lparr>recType = recordFile, cfolder = None, cfile = Some \<lparr>fileID = nextID s, cfiFlags = kHFSThreadExistsMask,
              dataFork = fileDesc s data runs, rsrcFork = zeroForkData, permMode = mode\<rparr>, threadName = [], threadParent = 0\<rparr>)"
    unfolding r1 by (rule decode_fileRecord [OF new(2)])
  finally show thesis by (rule that [OF w s'(2,3)]) (use rd in simp_all)
qed

end
