(* ===== verification/FolderWrite.thy ===== *)
theory FolderWrite
  imports FileWrite
begin

text \<open>
  \<^verbatim>\<open>MkDir\<close> (\<^verbatim>\<open>write.go\<close>): a new folder in the catalog with its thread record, counted in the volume header and in its parent.
\<close>

section \<open>The records of a new folder\<close>

definition folderData :: "env \<Rightarrow> wst \<Rightarrow> u32 \<Rightarrow> bytes" where
  "folderData env s perm =
     (let f = overwrite (encodeFolderRecord (nextID s) (envNow env) 0) 42 (enc16 (sIFDIR OR permBits perm))
      in if CaseSensitive (wvol s) then setHasFolderCount f 0 else f)"

definition folderRecord :: "env \<Rightarrow> wst \<Rightarrow> u32 \<Rightarrow> gostring \<Rightarrow> u32 \<Rightarrow> bytes" where
  "folderRecord env s parent name perm = assembleCatalogRecord (encodeCatalogKey parent name) (folderData env s perm)"

definition folderThread :: "wst \<Rightarrow> u32 \<Rightarrow> gostring \<Rightarrow> bytes" where
  "folderThread s parent name = assembleCatalogRecord (encodeCatalogKey (nextID s) []) (encodeFolderThreadRecord parent name)"

lemma length_folderRecord: "length (encodeFolderRecord fid t val) = 88"
  by (simp add: encodeFolderRecord_def catalogFolderLen_def)

lemma parse_folderData:
  "parseCatalogRecord (folderData env s perm)
   = Some \<lparr>recType = recordFolder, cfolder = Some \<lparr>folderID = nextID s, valence = 0,
             cfoFlags = (if CaseSensitive (wvol s) then kHFSHasFolderCountMask else 0)\<rparr>,
           cfile = None, threadName = [], threadParent = 0\<rparr>"
  by (simp add: folderData_def Let_def parseCatalogRecord_def setHasFolderCount_def length_folderRecord folder_fields codec_simps)

lemma decode_folderRecord:
  "fitName name \<Longrightarrow> foundRec (folderRecord env s parent name perm)
     = Inr (Some \<lparr>recType = recordFolder, cfolder = Some \<lparr>folderID = nextID s, valence = 0,
              cfoFlags = (if CaseSensitive (wvol s) then kHFSHasFolderCountMask else 0)\<rparr>, cfile = None, threadName = [], threadParent = 0\<rparr>)"
  by (simp add: foundRec_def decodeRecord_def folderRecord_def record_of_key parse_folderData)

section \<open>The transaction\<close>

lemma bnd_assoc: "bnd (bnd m f) g = bnd m (\<lambda>x. bnd (f x) g)"
  by (intro ext) (simp add: bnd_def split: prod.split sum.split)

lemma make_folder:
  fixes s defines "ct \<equiv> catalogTree (wvol s)"
  assumes v: "wr v" "resolveParent env v p = Inr (parent, name)" and start: "beginTxn env v = Inr s"
    and snd: "soundState Nc nc Ne ne s t tr"
    and r1: "r1 = folderRecord env s parent name perm" and r2: "r2 = folderThread s parent name"
    and room: "roomForTwo Nc nc s t r1 r2"
    and new: "newKey keyFromRecord (compareCatalogKey ct) t r1" "fitName name" "parent < nextID s"
      "\<forall>r \<in> set (treeRecs t). \<forall>k. keyFromRecord r = Some k \<longrightarrow> parentID k \<noteq> nextID s"
    and par: "parentFolder env ct (treeRecs t) parent gp fname fo" "recordData fo = Some fd" "bumpFolder 1 1 fd = Some fd'"
    and names: "namesAgree env ct (keyAt parent []) (r1 # r2 # treeRecs t)" "namesAgree env ct (keyAt gp fname) (r1 # r2 # treeRecs t)"
      "namesAgree env ct (keyAt parent name) (r1 # r2 # treeRecs t)"
  obtains s' t' where "MkDir env p perm v = (Inr (), wvol s')" "soundState Nc nc Ne ne s' t' tr"
    "entered env ct r1 r2 fo (withData fo fd fd') s t s' t'" "lookupChild env (wvol s') parent name = foundRec r1"
proof -
  let ?key = "keyAt parent name"
  have wv: "wvol s = v" by (rule begin_volume [OF start])
  obtain s1 where s1: "nextCNID s = (Inr (nextID s), s1)" "headerEdit s s1" by (rule nextCNID_run [OF sound_heads(4) [OF snd]])
  note snd1 = headerEdit_sound(1) [OF s1(2) snd]
  have same: "sameTree forkCatalogFile Nc s s1"
    by (rule headerEdit_tree [OF s1(2) _ soundState_placed(1) [OF snd]]) (use snd in \<open>simp add: soundState_def\<close>)
  then have cs: "CaseSensitive (wvol s1) = CaseSensitive (wvol s)" by (simp add: sameTree_def treeOf_def CaseSensitive_def)
  have ctr: "\<exists>s'. incFolderCount 1 s = (Inr (), s') \<and> headerEdit s s'" if "2560 \<le> length (disk (wvol s))" for s
    by (rule count_runs(2) [OF that])
  obtain s2 t' where s2: "bnd (insertRecord r1) (\<lambda>_. bnd (insertRecord r2) (\<lambda>_. bnd (incFolderCount 1) (\<lambda>_. adjustParentValence env parent 1 1))) s1 = (Inr (), s2)"
    "soundState Nc nc Ne ne s2 t' tr" "entered env ct r1 r2 fo (withData fo fd fd') s t s2 t'"
    unfolding ct_def
    by (rule enter_step [OF snd snd1 same r1 [unfolded folderRecord_def] r2 [unfolded folderThread_def] room new [unfolded ct_def]
          par [unfolded ct_def] names(1,2) [unfolded ct_def] ctr])
  obtain s' where s': "bnd bumpWriteCount (\<lambda>_. commit) s2 = (Inr (), s')" "reread s2 s'" "soundState Nc nc Ne ne s' t' tr"
    by (rule finish_sound [OF s2(2)])
  let ?entry = "\<lambda>a b. bnd (insertRecord a) (\<lambda>_. bnd (insertRecord b) (\<lambda>_. bnd (incFolderCount 1) (\<lambda>_.
      bnd (adjustParentValence env parent 1 1) (\<lambda>_. bnd bumpWriteCount (\<lambda>_. commit)))))"
  have "bnd (bnd (insertRecord r1) (\<lambda>_. bnd (insertRecord r2) (\<lambda>_. bnd (incFolderCount 1) (\<lambda>_. adjustParentValence env parent 1 1))))
      (\<lambda>_. bnd bumpWriteCount (\<lambda>_. commit)) s1 = (Inr (), s')"
    unfolding bnd_def [of "bnd (insertRecord r1) _"] using s2(1) s'(1) by simp
  then have body: "?entry r1 r2 s1 = (Inr (), s')" by (simp add: bnd_assoc)
  have m: "keyMatches env ct ?key r1" by (rule new_keys(4) [OF new(2,3) _ r1 [unfolded folderRecord_def] refl, of "[]"]) simp
  have "namesAgree env ct ?key (r1 # treeRecs t)" by (rule namesAgree_mono [OF names(3)]) auto
  then have "lookupChild env v parent name = Inr None" using name_absent [OF snd] new(1) m unfolding ct_def wv by blast
  then have "MkDir env p perm v = runTxn env (bnd nextCNID (\<lambda>cnid. bnd (getS (\<lambda>s. CaseSensitive (wvol s))) (\<lambda>cs.
        let f = overwrite (encodeFolderRecord cnid (envNow env) 0) 42 (enc16 (sIFDIR OR permBits perm)); f = if cs then setHasFolderCount f 0 else f
        in ?entry (assembleCatalogRecord (encodeCatalogKey parent name) f)
             (assembleCatalogRecord (encodeCatalogKey cnid []) (encodeFolderThreadRecord parent name))))) v"
    using v by (simp add: MkDir_def guarded_def bnd_def [of "liftR _"] liftR_def Let_def)
  also have "\<dots> = (Inr (), wvol s')"
    using start s1(1) cs body
    by (simp add: runTxn_def bnd_def [of nextCNID] bnd_def [of "getS _"] getS_def folderData_def Let_def r1 r2 folderRecord_def folderThread_def)
  finally have "MkDir env p perm v = (Inr (), wvol s')" .
  moreover note e = reread_entered [OF s2(3) s'(2) s2(2) s'(3)]
  moreover have "lookupChild env (wvol s') parent name = foundRec r1"
    using e names(3) m by (simp add: entered_def lookupChild_def entryLookup_def)
  ultimately show thesis using that s'(3) by blast
qed

end
