(* ===== verification/FreshFile.thy ===== *)
theory FreshFile
  imports FormatState FolderWrite
begin

text \<open>
  The formatter, \<^verbatim>\<open>WriteFile\<close> and \<^verbatim>\<open>ReadFile\<close> together: on a freshly formatted volume a file in the root folder can be
  written, and it is read back, also from the bytes of the image.
\<close>

section \<open>The next identifier and the free blocks\<close>

lemma fresh_nextID:
  assumes "freshBuilder N b"
  shows "nextID (mkfsTxn N b) = 16"
proof -
  let ?V = "encodeVolumeHeader (finalBuilder N b)"
  have N: "mkfsFits N" using assms by (simp add: freshBuilder_def)
  have "gslice (mkfsImage N b) (1024 + 64) (1024 + 68) = gslice ?V 64 68"
    by (rule mkfsImage_part [OF N]) (simp_all add: mkfsWrites_def)
  moreover have "(64, enc32 16) \<in> set (volumeFields (finalBuilder N b))"
    by (simp add: volumeFields_def Let_def finalBuilder_def layoutOf_def)
  then have "gslice ?V 64 (64 + length (enc32 16)) = enc32 16"
    unfolding encodeVolumeHeader_puts by (rule puts_field [rotated]) (use volumeFields_in in simp)
  ultimately have "gslice (mkfsImage N b) 1088 (1088 + 4) = enc32 16" by simp
  then have "be32 (mkfsImage N b) 1088 = 16" by (rule be32_field)
  then show ?thesis by (simp add: nextID_def mkfsTxn_def mkfsVolume_def vhNextCatalogID_def firstUserCatalogID_def)
qed

lemma fresh_alloc:
  assumes "freshBuilder N b" "nb \<noteq> 0" "unat nb \<le> N - 1 - (bitmapBlocks N + 3 + catalogBlocks N)"
  obtains start a' where "allocFragments nb (walc (mkfsTxn N b)) = (Inr [\<lparr>StartBlock = start, BlockCount = nb\<rparr>], a')"
proof -
  let ?a = "walc (mkfsTxn N b)" and ?S = "bitmapBlocks N + 3 + catalogBlocks N"
  have N: "mkfsFits N" "N < 2 ^ 32" using assms(1) by (simp_all add: freshBuilder_def mkfsFits_def)
  have free: "freeSet ?a = {?S..<N - 1}" by (rule mkfs_free [OF N(1)]) (simp_all add: mkfsTxn_def)
  have bits: "unat (bits ?a) = N" using N by (simp add: mkfsTxn_def)
  have c: "0 < unat nb" using assms(2) by (simp add: unat_gt_0)
  then have "{?S..<?S + unat nb} \<subseteq> freeSet ?a" unfolding free using assms(3) by auto
  then have "windowFree (bitmap ?a) ?S (unat nb)" by (auto simp: freeSet_def windowFree_def)
  moreover have "?S + unat nb \<le> unat (bits ?a)" unfolding bits using assms(3) c by simp
  ultimately have room: "\<exists>s. s + unat nb \<le> unat (bits ?a) \<and> windowFree (bitmap ?a) s (unat nb)" by blast
  show thesis
    using assms(2)
  proof (cases rule: allocContiguous_cases [of nb ?a])
    case (fits s)
    then show thesis using that assms(2) by (simp add: allocFragments_def)
  next
    case full
    then show thesis using room by blast
  qed
qed

section \<open>The root folder\<close>

lemma rootRecords_parts:
  fixes b defines "fd \<equiv> (if mcaseSensitive b then setHasFolderCount (encodeFolderRecord 2 (mnow b) 0) 0 else encodeFolderRecord 2 (mnow b) 0)"
  assumes "fitName (mlabel b)"
  obtains fo th where "rootRecords b = [fo, th]" "recordData fo = Some fd" "length fd = 88"
    "keyFromRecord fo = Some \<lparr>parentID = 1, cname = mlabel b, nameU16 = Some (utf16Encode (mlabel b))\<rparr>"
    "keyFromRecord th = Some \<lparr>parentID = 2, cname = [], nameU16 = Some []\<rparr>"
    "decodeRecord th = Inr \<lparr>recType = recordFolderThread, cfolder = None, cfile = None, threadName = mlabel b, threadParent = 1\<rparr>"
proof -
  obtain fo th where r: "rootRecords b = [fo, th]"
    "keyFromRecord fo = Some \<lparr>parentID = 1, cname = mlabel b, nameU16 = Some (utf16Encode (mlabel b))\<rparr>"
    "keyFromRecord th = Some \<lparr>parentID = 2, cname = [], nameU16 = Some []\<rparr>"
    "recordData th = Some (encodeFolderThreadRecord 1 (mlabel b))" by (rule mkfs_keys [OF assms(2)])
  have "fo = assembleCatalogRecord (encodeCatalogKey 1 (mlabel b)) fd"
    using r(1) by (simp add: rootRecords_def Let_def fd_def cnidRootParent_def cnidRootFolder_def)
  then have "recordData fo = Some fd" using record_of_key(2) [OF assms(2)] by simp
  moreover have "length (encodeFolderRecord fid t val) = 88" for fid t val by (simp add: encodeFolderRecord_def catalogFolderLen_def)
  then have "length fd = 88" by (simp add: fd_def length_setHasFolderCount)
  moreover have "decodeRecord th = Inr \<lparr>recType = recordFolderThread, cfolder = None, cfile = None, threadName = mlabel b, threadParent = 1\<rparr>"
    using parse_thread [OF assms(2), of recordFolderThread 1] r(4) by (simp add: decodeRecord_def encodeFolderThreadRecord_def)
  ultimately show thesis using that r by blast
qed

text \<open>A leaf with room takes the record, and needs no new node.\<close>

lemma leaf_takes:
  assumes "recordsFit ns (rec # rs)"
  shows "rootInsert ns c rec (TLeaf n rs) fresh = Some (TLeaf n (insertSorted c rs rec), fresh)"
    "recordsFit ns (r # insertSorted c rs rec) = recordsFit ns (r # rec # rs)"
proof -
  obtain i where e: "insertSorted c rs rec = take i rs @ rec # drop i rs" by (auto simp: insertSorted_def Let_def)
  have "sum_list (map length (take i rs)) + sum_list (map length (drop i rs)) = sum_list (map length rs)"
    by (metis append_take_drop_id map_append sum_list_append)
  then have sum: "sum_list (map length (insertSorted c rs rec)) = sum_list (map length (rec # rs))" by (simp add: e)
  then show "recordsFit ns (r # insertSorted c rs rec) = recordsFit ns (r # rec # rs)"
    by (simp add: recordsFit_alt insertSorted_parts(1))
  have "recordsFit ns (insertSorted c rs rec)" using assms sum by (simp add: recordsFit_alt insertSorted_parts(1))
  then show "rootInsert ns c rec (TLeaf n rs) fresh = Some (TLeaf n (insertSorted c rs rec), fresh)"
    by (simp add: rootInsert_def leafPut_def Let_def)
qed

lemma fresh_room:
  assumes "freshBuilder N b" "goodLabel (mlabel b)" "goodLabel name" "7 \<le> catalogBlocks N"
    and r: "r1 = assembleCatalogRecord (encodeCatalogKey parent name) d1" "r2 = assembleCatalogRecord (encodeCatalogKey cnid []) (encodeThreadRecord rt parent name)"
    and "length d1 \<le> 248"
  shows "roomForTwo (catalogBlocks N) 4096 (mkfsTxn N b) (TLeaf 1 (rootRecords b)) r1 r2"
proof -
  let ?rs = "rootRecords b" and ?u = "\<lambda>n. length (utf16Encode n)"
  have "length (encodeFolderRecord fid t val) = 88" for fid t val by (simp add: encodeFolderRecord_def catalogFolderLen_def)
  then have "sum_list (map length ?rs) = 8 + 2 * ?u (mlabel b) + 88 + (8 + 10 + 2 * ?u (mlabel b))"
    by (simp add: rootRecords_def Let_def assembleCatalogRecord_def length_encodeCatalogKey encodeFolderThreadRecord_def
        encodeThreadRecord_def length_setHasFolderCount) (simp add: utf16Encode_def)
  moreover have "length r1 \<le> 8 + 2 * ?u name + 248" "length r2 = 8 + (10 + 2 * ?u name)"
    using assms(7) by (simp_all add: r assembleCatalogRecord_def length_encodeCatalogKey encodeThreadRecord_def Let_def length_encodeUnits)
      (simp add: utf16Encode_def)
  ultimately have "recordsFit 4096 (r2 # r1 # ?rs)"
    using assms(2,3) by (simp add: recordsFit_alt nodeDescriptorLen_def goodLabel_def)
  moreover from this have "recordsFit 4096 (r1 # ?rs)" by (simp add: recordsFit_alt)
  moreover have "5 \<le> length (spareNodes forkCatalogFile (catalogBlocks N) (mkfsTxn N b))"
    using mkfs_pools(3) [OF assms(1)] assms(4) by simp
  ultimately show ?thesis by (simp add: roomForTwo_def leaf_takes)
qed

lemma fresh_data:
  assumes "freshBuilder N b" "(length data + 4095) div 4096 \<le> N - 1 - (bitmapBlocks N + 3 + catalogBlocks N)"
  obtains runs where "roomForData 2 (mkfsTxn N b) None (nextID (mkfsTxn N b)) data runs"
proof -
  let ?s = "mkfsTxn N b" and ?q = "(length data + 4095) div 4096"
  have N: "mkfsFits N" "N < 2 ^ 32" using assms(1) by (simp_all add: freshBuilder_def mkfsFits_def)
  have v: "BlockSize (vh (wvol ?s)) = 4096" "length (disk (wvol ?s)) = 4096 * N"
    using N by (simp_all add: mkfsTxn_def mkfsVolume_def mkfsHeader_def length_mkfsImage)
  have q: "?q < 2 ^ 32" using assms(2) N(2) by linarith
  have nb: "unat (fileBlocks 4096 data) = ?q" using fileBlocks_count(1) [of data 4096] q by simp
  have base: "(length data + unat (4096 :: u32) - 1) div unat (4096 :: u32) < 2 ^ 32" "length (disk (wvol ?s)) \<le> 2 ^ 50"
    "freshFork (nextID ?s) forkTypeData None" using q v(2) N(2) by (simp_all add: freshFork_def lowOf_def recsOf_def)
  show thesis
  proof (cases "fileBlocks 4096 data = 0")
    case True
    then show thesis using that [of "[]"] base by (simp add: roomForData_def v(1))
  next
    case False
    obtain start a' where al: "allocFragments (fileBlocks 4096 data) (walc ?s) = (Inr [\<lparr>StartBlock = start, BlockCount = fileBlocks 4096 data\<rparr>], a')"
      by (rule fresh_alloc [OF assms(1) False]) (use assms(2) nb in auto)
    have "roomForAll 2 ?s None (length (extentRecords forkTypeData (nextID ?s) x []))" for x
      by (simp add: extentRecords.simps roomForAll_def heightOf_def)
    then have "roomForData 2 ?s None (nextID ?s) data [\<lparr>StartBlock = start, BlockCount = fileBlocks 4096 data\<rparr>]"
      using base al False by (simp add: roomForData_def v(1) numInlineExtents_def)
    then show thesis by (rule that)
  qed
qed

lemma rootFolder_parse:
  obtains pr pf where "parseCatalogRecord (if cs then setHasFolderCount (encodeFolderRecord fid t 0) 0 else encodeFolderRecord fid t 0) = Some pr"
    "cfolder pr = Some pf"
proof -
  have "\<exists>pr pf. parseCatalogRecord (if cs then setHasFolderCount (encodeFolderRecord fid t 0) 0 else encodeFolderRecord fid t 0) = Some pr
      \<and> cfolder pr = Some pf"
    by (simp add: parseCatalogRecord_def setHasFolderCount_def length_folderRecord folder_fields codec_simps)
  then show thesis using that by blast
qed

text \<open>The hypotheses of \<open>enter_step\<close> about the catalog, for a name with a unit that counts in the order of names.\<close>

lemma fresh_catalog:
  fixes N b defines "s \<equiv> mkfsTxn N b" and "ct \<equiv> catalogTree (mkfsVolume N b)" and "rs \<equiv> rootRecords b"
  assumes r1: "r1 = assembleCatalogRecord (encodeCatalogKey 2 name) d1" and r2: "r2 = assembleCatalogRecord (encodeCatalogKey (nextID s) []) d2"
    and "freshBuilder N b" "fitName (mlabel b)" "fitName name" "sortUnits ct (keyAt 2 name) \<noteq> []"
  obtains fo fd fd' pr pf where "newKey keyFromRecord (compareCatalogKey ct) (TLeaf 1 rs) r1"
    "\<forall>r \<in> set rs. \<forall>k. keyFromRecord r = Some k \<longrightarrow> parentID k \<noteq> nextID s"
    "parentFolder env ct rs 2 1 (mlabel b) fo" "recordData fo = Some fd" "bumpFolder d e fd = Some fd'"
    "\<forall>key \<in> {keyAt 2 [], keyAt 1 (mlabel b), keyAt 2 name}. namesAgree env ct key (r1 # r2 # rs)"
    "88 \<le> length fd" "foundRec fo = Inr (Some pr)" "cfolder pr = Some pf"
proof -
  define fd where "fd = (if mcaseSensitive b then setHasFolderCount (encodeFolderRecord 2 (mnow b) 0) 0 else encodeFolderRecord 2 (mnow b) 0)"
  obtain fo th where r: "rs = [fo, th]" "recordData fo = Some fd" "length fd = 88"
    "keyFromRecord fo = Some \<lparr>parentID = 1, cname = mlabel b, nameU16 = Some (utf16Encode (mlabel b))\<rparr>"
    "keyFromRecord th = Some \<lparr>parentID = 2, cname = [], nameU16 = Some []\<rparr>"
    "decodeRecord th = Inr \<lparr>recType = recordFolderThread, cfolder = None, cfile = None, threadName = mlabel b, threadParent = 1\<rparr>"
    using rootRecords_parts [OF assms(7)] unfolding rs_def fd_def by metis
  have id: "nextID s = 16" unfolding s_def by (rule fresh_nextID [OF assms(6)])
  have k1: "keyFromRecord r1 = Some \<lparr>parentID = 2, cname = name, nameU16 = Some (utf16Encode name)\<rparr>"
    unfolding r1 by (rule record_of_key(1) [OF assms(8)])
  have k2: "keyFromRecord r2 = Some \<lparr>parentID = 16, cname = [], nameU16 = Some (utf16Encode [])\<rparr>"
    unfolding r2 id by (rule record_of_key(1)) (simp add: fitName_def utf16Encode_def)
  have ne: "name \<noteq> []" using assms(9) by (auto simp: sortUnits_def keyUnits_def foldedUnits_def)
  have su: "sortUnits ct \<lparr>parentID = p, cname = n, nameU16 = Some (utf16Encode n)\<rparr> = sortUnits ct (keyAt p n)" for p n
    by (simp add: sortUnits_def keyUnits_def utf16Encode_def)
  have se: "sortUnits ct (keyAt q []) = []" "sortUnits ct \<lparr>parentID = p, cname = [], nameU16 = Some []\<rparr> = []" for p q
    by (simp_all add: sortUnits_def keyUnits_def foldedUnits_def)
  have "sortUnits ct (keyAt q name) = sortUnits ct (keyAt 2 name)" for q by (simp add: sortUnits_def keyUnits_def)
  then have sq: "sortUnits ct (keyAt q name) \<noteq> []" for q using assms(9) by metis
  have cmp: "compareCatalogKey ct a b = ordSign (parentID a, sortUnits ct a) (parentID b, sortUnits ct b)" for a b
    by (rule compareCatalogKey_ordSign)
  have "newKey keyFromRecord (compareCatalogKey ct) (TLeaf 1 rs) r1"
    using assms(9) by (simp add: newKey_def rootLow_def treeRecs_def r recIn_def within_def recCmp_def k1 cmp su se ordSign_def)
  moreover have "\<forall>r \<in> set rs. \<forall>k. keyFromRecord r = Some k \<longrightarrow> parentID k \<noteq> nextID s" by (simp add: r id)
  moreover have "parentFolder env ct rs 2 1 (mlabel b) fo"
    using assms(7) by (simp add: parentFolder_def lookupSpec_def keyMatches_def nameEqual_def r)
  moreover have "bumpFolder d e fd \<noteq> None" using r(3) by (simp add: bumpFolder_def Let_def)
  then obtain fd' where "bumpFolder d e fd = Some fd'" by blast
  moreover have "\<forall>key \<in> {keyAt 2 [], keyAt 1 (mlabel b), keyAt 2 name}. namesAgree env ct key (r1 # r2 # rs)"
    using ne sq [of 2] not_sym [OF sq [of 2]] by (auto simp: namesAgree_def keyHolds_def r k1 k2 cmp su se ordSign_def nameEqual_def)
  moreover obtain pr pf where "parseCatalogRecord fd = Some pr" "cfolder pr = Some pf"
    unfolding fd_def by (rule rootFolder_parse)
  then have "foundRec fo = Inr (Some pr)" "cfolder pr = Some pf" by (simp_all add: foundRec_def decodeRecord_def r(2))
  ultimately show thesis using that r(2,3) by (metis order_refl)
qed

text \<open>The two records of an entry: key and data.\<close>

lemma file_entry:
  assumes "r1 = fileRecord env s parent name data mode runs" "r2 = fileThread s parent name"
  shows "r1 = assembleCatalogRecord (encodeCatalogKey parent name) (encodeFileRecord (nextID s) (envNow env) mode (fileDesc s data runs))"
    "r2 = assembleCatalogRecord (encodeCatalogKey (nextID s) []) (encodeThreadRecord recordFileThread parent name)"
    "length (encodeFileRecord (nextID s) (envNow env) mode (fileDesc s data runs)) \<le> 248"
  using assms by (simp_all add: fileRecord_def fileThread_def encodeFileThreadRecord_def)

lemma folder_entry:
  assumes "r1 = folderRecord env s parent name perm" "r2 = folderThread s parent name"
  shows "r1 = assembleCatalogRecord (encodeCatalogKey parent name) (folderData env s perm)"
    "r2 = assembleCatalogRecord (encodeCatalogKey (nextID s) []) (encodeThreadRecord recordFolderThread parent name)"
    "length (folderData env s perm) \<le> 248"
  using assms
  by (simp_all add: folderRecord_def folderThread_def encodeFolderThreadRecord_def folderData_def Let_def length_folderRecord length_setHasFolderCount)

section \<open>Writing a file there\<close>

lemma fresh_write:
  assumes "freshBuilder N b" "goodLabel (mlabel b)" "goodLabel name" "7 \<le> catalogBlocks N"
    and "sortUnits (catalogTree (mkfsVolume N b)) (keyAt 2 name) \<noteq> []"
    and "(length data + 4095) div 4096 \<le> N - 1 - (bitmapBlocks N + 3 + catalogBlocks N)"
    and start: "beginTxn env (mkfsVolume N b) = Inr (mkfsTxn N b)" and p: "splitPath p = [name]"
  obtains v' where "WriteFile env p data perm (mkfsVolume N b) = (Inr (), v')" "ReadFile env v' p = Inr data"
proof -
  let ?s = "mkfsTxn N b" and ?ct = "catalogTree (mkfsVolume N b)" and ?t = "TLeaf 1 (rootRecords b)" and ?mode = "sIFREG OR permBits perm"
  have fit: "fitName (mlabel b)" "fitName name" using assms(2,3) by (simp_all add: goodLabel_fitName)
  obtain runs where data: "roomForData 2 ?s None (nextID ?s) data runs" by (rule fresh_data [OF assms(1,6)])
  define r1 r2 where "r1 = fileRecord env ?s 2 name data ?mode runs" and "r2 = fileThread ?s 2 name"
  note e = file_entry [OF r1_def r2_def]
  have rs: "treeRecs ?t = rootRecords b" by (simp add: treeRecs_def)
  have ct: "catalogTree (wvol ?s) = ?ct" by (simp add: mkfsTxn_def)
  obtain fo fd fd' pr pf where c: "newKey keyFromRecord (compareCatalogKey ?ct) ?t r1"
    "\<forall>r \<in> set (rootRecords b). \<forall>k. keyFromRecord r = Some k \<longrightarrow> parentID k \<noteq> nextID ?s"
    "parentFolder env ?ct (rootRecords b) 2 1 (mlabel b) fo" "recordData fo = Some fd" "bumpFolder 1 0 fd = Some fd'"
    "\<forall>key \<in> {keyAt 2 [], keyAt 1 (mlabel b), keyAt 2 name}. namesAgree env ?ct key (r1 # r2 # rootRecords b)"
    "88 \<le> length fd" "foundRec fo = Inr (Some pr)" "cfolder pr = Some pf"
    by (rule fresh_catalog [OF e(1,2) assms(1) fit assms(5), where env = env and d = 1 and e = 0])
  have v: "wr (mkfsVolume N b)" "resolveParent env (mkfsVolume N b) p = Inr (2, name)"
    using p by (simp_all add: mkfsVolume_def resolveParent_def cnidRootFolder_def)
  obtain v' cf where v': "WriteFile env p data perm (mkfsVolume N b) = (Inr (), v')"
    "lookupChild env v' 2 name = Inr (Some \<lparr>recType = recordFile, cfolder = None, cfile = Some cf, threadName = [], threadParent = 0\<rparr>)"
    "cfiFlags cf = kHFSThreadExistsMask" "bindR (dataForkFor v' cf) (readAll v') = Inr data"
    by (rule write_new_file [OF v start mkfs_sound [OF assms(1) fit(1)] data r1_def r2_def
          fresh_room [OF assms(1-4) e], unfolded ct rs, OF c(1) fit(2) _ c(2,3,4,5)])
      (use c(6) fresh_nextID [OF assms(1)] in auto)
  have "ReadFile env v' p = Inr data"
    using v'(2-4) by (simp add: ReadFile_def lookupPath_def p lookupChild_def cnidRootFolder_def isCompressed_def kHFSThreadExistsMask_def)
  then show thesis using that v'(1) by blast
qed

text \<open>A volume of a thousand blocks, formatted with the default label.\<close>

definition freshBuild :: mkfsBuilder where
  "freshBuild = newBuilder sampleEnv 4096000 \<lparr>cfgLabel = [], cfgCaseSensitive = True\<rparr>"

lemma freshBuild_facts:
  "freshBuilder 1000 freshBuild" "goodLabel (mlabel freshBuild)" "catalogBlocks 1000 = 256" "bitmapBlocks 1000 = 1"
  "sortUnits (catalogTree (mkfsVolume 1000 freshBuild)) (keyAt 2 [0x62]) \<noteq> []" "goodLabel [0x62]"
proof -
  have l: "mlabel freshBuild = gotest" "mcaseSensitive freshBuild" by (simp_all add: freshBuild_def newBuilder_def Let_def)
  show "freshBuilder 1000 freshBuild"
    using newBuilder_fresh [of 4096000 "\<lparr>cfgLabel = [], cfgCaseSensitive = True\<rparr>" sampleEnv]
    by (simp add: freshBuild_def volumeLabel_default goodLabel_gotest)
  show "goodLabel (mlabel freshBuild)" using l goodLabel_gotest by simp
  show "catalogBlocks 1000 = 256" "bitmapBlocks 1000 = 1" by (simp_all add: catalogBlocks_def bitmapBlocks_def)
  show "goodLabel [0x62]" by (simp add: goodLabel_def utf16Encode_def encodeRune_def validRune_def)
  show "sortUnits (catalogTree (mkfsVolume 1000 freshBuild)) (keyAt 2 [0x62]) \<noteq> []"
    using l(2) by (simp add: mkfsVolume_tree catTreeOf_def btHeaderOf_def catParams_def sortUnits_def keyUnits_def utf16Encode_def
        encodeRune_def validRune_def)
qed

lemma freshBuild_start:
  "wr (mkfsVolume 1000 freshBuild)" "resolveParent sampleEnv (mkfsVolume 1000 freshBuild) [0x62] = Inr (2, [0x62])"
  "beginTxn sampleEnv (mkfsVolume 1000 freshBuild) = Inr (mkfsTxn 1000 freshBuild)"
proof -
  show "wr (mkfsVolume 1000 freshBuild)" "resolveParent sampleEnv (mkfsVolume 1000 freshBuild) [0x62] = Inr (2, [0x62])"
    by (simp_all add: mkfsVolume_def resolveParent_def splitPath_def cnidRootFolder_def)
  obtain buf where "envMakeBytes sampleEnv (int (4096 * bitmapBlocks 1000)) (int (4096 * 1000) + 4096) = Inr buf"
    using sampleEnv_make [of "int (4096 * bitmapBlocks 1000)" "int (4096 * 1000) + 4096"] by (auto simp: freshBuild_facts(4))
  then show "beginTxn sampleEnv (mkfsVolume 1000 freshBuild) = Inr (mkfsTxn 1000 freshBuild)" by (rule mkfs_begin [OF freshBuild_facts(1)])
qed

section \<open>Properties\<close>

text \<open>
  C2. Writing a new file, from the path to the committed image. The transaction starts in a sound state (well-formed
  catalog and extents-overflow tree, bitmap and headers, each in its own part of the image), the path leads to a folder
  found through its thread record, the name is new there, the identifier unused, and there is room for the data and for
  two catalog records. Then \<^verbatim>\<open>WriteFile\<close> succeeds and leaves a sound state. The records of its catalog are those
  of before, the file's, its thread's, and in place of the folder's record one with a valence higher by one and the other bytes the same;
  the folder decodes to the same folder with that valence. A lookup of any key finds the new file under
  the name, its thread record under the identifier, the changed folder, and anything else as before; the
  file has the permissions asked for and its fork reads as exactly the data; and when the volume was what its image
  opens to, so is the new one.
\<close>

theorem write_file_correct:
  fixes s perm defines "ct \<equiv> catalogTree (wvol s)" and "mode \<equiv> sIFREG OR permBits perm"
  assumes v: "wr v" "resolveParent env v p = Inr (parent, name)" and start: "beginTxn env v = Inr s"
    and snd: "soundState Nc nc Ne ne s t tr" and data: "roomForData Ne s tr (nextID s) data runs"
    and r1: "r1 = fileRecord env s parent name data mode runs" and r2: "r2 = fileThread s parent name"
    and room: "roomForTwo Nc nc s t r1 r2"
    and new: "newKey keyFromRecord (compareCatalogKey ct) t r1" "fitName name" "parent < nextID s"
      "\<forall>r \<in> set (treeRecs t). \<forall>k. keyFromRecord r = Some k \<longrightarrow> parentID k \<noteq> nextID s"
    and par: "parentFolder env ct (treeRecs t) parent gp fname fo" "recordData fo = Some fd" "88 \<le> length fd"
      "foundRec fo = Inr (Some pr)" "cfolder pr = Some pf"
    and names: "namesAgree env ct (keyAt parent []) (r1 # r2 # treeRecs t)" "namesAgree env ct (keyAt gp fname) (r1 # r2 # treeRecs t)"
      "namesAgree env ct (keyAt parent name) (r1 # r2 # treeRecs t)"
  shows "\<exists>s' t' tr' cf fd'. WriteFile env p data perm v = (Inr (), wvol s') \<and> soundState Nc nc Ne ne s' t' tr'
    \<and> set (treeRecs t') = {r1, r2, withData fo fd fd'} \<union> (set (treeRecs t) - {fo}) \<and> countedOnce False fd fd'
    \<and> lookup env (wvol s) ct (keyAt gp fname) = Inr (Some pr)
    \<and> lookup env (wvol s') (catalogTree (wvol s')) (keyAt gp fname) = Inr (Some (pr\<lparr>cfolder := Some (pf\<lparr>valence := valence pf + 1\<rparr>)\<rparr>))
    \<and> (\<forall>key. namesAgree env ct key (r1 # r2 # treeRecs t) \<longrightarrow>
          lookup env (wvol s') (catalogTree (wvol s')) key
            = entryLookup env ct r1 r2 fo (withData fo fd fd') key (lookup env (wvol s) ct key))
    \<and> lookupChild env (wvol s') parent name
        = Inr (Some \<lparr>recType = recordFile, cfolder = None, cfile = Some cf, threadName = [], threadParent = 0\<rparr>)
    \<and> permMode cf = mode \<and> bindR (dataForkFor (wvol s') cf) (readAll (wvol s')) = Inr data
    \<and> (OpenWritable (disk v) = Inr v \<longrightarrow> OpenWritable (disk (wvol s')) = Inr (wvol s'))"
proof -
  obtain fd' where b: "bumpFolder 1 0 fd = Some fd'" "countedOnce False fd fd'" using bumpFolder_counts [OF par(3), of False] by auto
  obtain s' t' tr' cf where s': "WriteFile env p data perm v = (Inr (), wvol s')" "soundState Nc nc Ne ne s' t' tr'"
    "entered env ct r1 r2 fo (withData fo fd fd') s t s' t'"
    "lookupChild env (wvol s') parent name = Inr (Some \<lparr>recType = recordFile, cfolder = None, cfile = Some cf, threadName = [], threadParent = 0\<rparr>)"
    "permMode cf = mode" "bindR (dataForkFor (wvol s') cf) (readAll (wvol s')) = Inr data"
    using write_new_file [OF v start snd data r1 [unfolded mode_def] r2 room new [unfolded ct_def] par(1) [unfolded ct_def] par(2) b(1) names [unfolded ct_def]]
    unfolding ct_def mode_def by metis
  have k2: "keyFromRecord r2 = Some \<lparr>parentID = nextID s, cname = [], nameU16 = Some (utf16Encode [])\<rparr>"
    unfolding r2 fileThread_def by (rule record_of_key(1)) (simp add: fitName_def utf16Encode_def)
  have "\<forall>r \<in> set (treeRecs t). \<forall>k. keyFromRecord r = Some k
      \<longrightarrow> parentID k \<noteq> parentID \<lparr>parentID = nextID s, cname = [], nameU16 = Some (utf16Encode [])\<rparr>" using new(4) by simp
  note l = parent_lookups [OF snd s'(3) [unfolded ct_def] new(1) [unfolded ct_def] k2 this par(1) [unfolded ct_def] names(2) [unfolded ct_def], folded ct_def]
  have "OpenWritable (disk (wvol s')) = Inr (wvol s')" if "OpenWritable (disk v) = Inr v"
    using settlesD [OF settles_mutators(1) s'(1)] that by (simp add: openedOf_def opened_def)
  then show ?thesis
    using s' b(2) l par(4) foundRec_counted [OF par(2,4,5,3) b(2)] unfolding entered_def by (metis (no_types, lifting))
qed

theorem write_file_correct_witness:
  "\<exists>s' t' tr'. WriteFile sampleEnv [0x62] (replicate 5000 7) 0x1A4 (mkfsVolume 1000 freshBuild) = (Inr (), wvol s')
     \<and> soundState 256 4096 2 4096 s' t' tr'"
proof -
  let ?s = "mkfsTxn 1000 freshBuild" and ?ct = "catalogTree (mkfsVolume 1000 freshBuild)" and ?t = "TLeaf 1 (rootRecords freshBuild)"
  let ?mode = "sIFREG OR permBits 0x1A4"
  note f = freshBuild_facts
  have fit: "fitName (mlabel freshBuild)" "fitName [0x62]" using f(2,6) by (simp_all add: goodLabel_fitName)
  obtain runs where data: "roomForData 2 ?s None (nextID ?s) (replicate 5000 7) runs"
    by (rule fresh_data [OF f(1), of "replicate 5000 7"]) (simp_all add: f(3,4))
  define r1 r2 where "r1 = fileRecord sampleEnv ?s 2 [0x62] (replicate 5000 7) ?mode runs" and "r2 = fileThread ?s 2 [0x62]"
  note e = file_entry [OF r1_def r2_def]
  have rs: "treeRecs ?t = rootRecords freshBuild" by (simp add: treeRecs_def)
  have ct: "catalogTree (wvol ?s) = ?ct" by (simp add: mkfsTxn_def)
  obtain fo fd fd' pr pf where c: "newKey keyFromRecord (compareCatalogKey ?ct) ?t r1"
    "\<forall>r \<in> set (rootRecords freshBuild). \<forall>k. keyFromRecord r = Some k \<longrightarrow> parentID k \<noteq> nextID ?s"
    "parentFolder sampleEnv ?ct (rootRecords freshBuild) 2 1 (mlabel freshBuild) fo" "recordData fo = Some fd" "bumpFolder 1 0 fd = Some fd'"
    "\<forall>key \<in> {keyAt 2 [], keyAt 1 (mlabel freshBuild), keyAt 2 [0x62]}. namesAgree sampleEnv ?ct key (r1 # r2 # rootRecords freshBuild)"
    "88 \<le> length fd" "foundRec fo = Inr (Some pr)" "cfolder pr = Some pf"
    by (rule fresh_catalog [OF e(1,2) f(1) fit f(5), where env = sampleEnv and d = 1 and e = 0])
  have room: "roomForTwo (catalogBlocks 1000) 4096 ?s ?t r1 r2"
    by (rule fresh_room [OF f(1,2,6) _ e]) (simp add: f(3))
  have "\<exists>s' t' tr'. WriteFile sampleEnv [0x62] (replicate 5000 7) 0x1A4 (mkfsVolume 1000 freshBuild) = (Inr (), wvol s')
      \<and> soundState (catalogBlocks 1000) 4096 2 4096 s' t' tr'"
    using write_file_correct [OF freshBuild_start mkfs_sound [OF f(1) fit(1)] data r1_def r2_def room, unfolded ct rs, OF c(1) fit(2) _ c(2-4,7-9)] c(6)
      fresh_nextID [OF f(1)] by fastforce
  then show ?thesis by (simp add: f(3))
qed

text \<open>
  C3. Making a folder: under the conditions of a new file, but for the data, \<^verbatim>\<open>MkDir\<close> succeeds and commits a sound state. The records
  of its catalog are those of before, the new folder's, its thread's, and in place of the parent's record one whose valence
  is higher by one, as is its folder count where the record keeps one, and the other bytes are the same; the parent decodes to the
  same folder with that valence. A lookup of any key finds the new, empty folder under the name, its thread record under the
  identifier, the changed parent, and anything else as before; and when the volume
  was what its image opens to, so is the new one.
\<close>

theorem mkdir_correct:
  fixes s defines "ct \<equiv> catalogTree (wvol s)"
  assumes v: "wr v" "resolveParent env v p = Inr (parent, name)" and start: "beginTxn env v = Inr s"
    and snd: "soundState Nc nc Ne ne s t tr"
    and r1: "r1 = folderRecord env s parent name perm" and r2: "r2 = folderThread s parent name"
    and room: "roomForTwo Nc nc s t r1 r2"
    and new: "newKey keyFromRecord (compareCatalogKey ct) t r1" "fitName name" "parent < nextID s"
      "\<forall>r \<in> set (treeRecs t). \<forall>k. keyFromRecord r = Some k \<longrightarrow> parentID k \<noteq> nextID s"
    and par: "parentFolder env ct (treeRecs t) parent gp fname fo" "recordData fo = Some fd" "88 \<le> length fd"
      "foundRec fo = Inr (Some pr)" "cfolder pr = Some pf"
    and names: "namesAgree env ct (keyAt parent []) (r1 # r2 # treeRecs t)" "namesAgree env ct (keyAt gp fname) (r1 # r2 # treeRecs t)"
      "namesAgree env ct (keyAt parent name) (r1 # r2 # treeRecs t)"
  shows "\<exists>s' t' fd'. MkDir env p perm v = (Inr (), wvol s') \<and> soundState Nc nc Ne ne s' t' tr
    \<and> set (treeRecs t') = {r1, r2, withData fo fd fd'} \<union> (set (treeRecs t) - {fo}) \<and> countedOnce True fd fd'
    \<and> lookup env (wvol s) ct (keyAt gp fname) = Inr (Some pr)
    \<and> lookup env (wvol s') (catalogTree (wvol s')) (keyAt gp fname) = Inr (Some (pr\<lparr>cfolder := Some (pf\<lparr>valence := valence pf + 1\<rparr>)\<rparr>))
    \<and> (\<forall>key. namesAgree env ct key (r1 # r2 # treeRecs t) \<longrightarrow>
          lookup env (wvol s') (catalogTree (wvol s')) key
            = entryLookup env ct r1 r2 fo (withData fo fd fd') key (lookup env (wvol s) ct key))
    \<and> lookupChild env (wvol s') parent name = Inr (Some \<lparr>recType = recordFolder, cfolder = Some \<lparr>folderID = nextID s, valence = 0,
          cfoFlags = (if CaseSensitive v then kHFSHasFolderCountMask else 0)\<rparr>, cfile = None, threadName = [], threadParent = 0\<rparr>)
    \<and> (OpenWritable (disk v) = Inr v \<longrightarrow> OpenWritable (disk (wvol s')) = Inr (wvol s'))"
proof -
  obtain fd' where b: "bumpFolder 1 1 fd = Some fd'" "countedOnce True fd fd'" using bumpFolder_counts [OF par(3), of True] by auto
  obtain s' t' where s': "MkDir env p perm v = (Inr (), wvol s')" "soundState Nc nc Ne ne s' t' tr"
    "entered env ct r1 r2 fo (withData fo fd fd') s t s' t'" "lookupChild env (wvol s') parent name = foundRec r1"
    using make_folder [OF v start snd r1 r2 room new [unfolded ct_def] par(1) [unfolded ct_def] par(2) b(1) names [unfolded ct_def]] unfolding ct_def by metis
  have k2: "keyFromRecord r2 = Some \<lparr>parentID = nextID s, cname = [], nameU16 = Some (utf16Encode [])\<rparr>"
    unfolding r2 folderThread_def by (rule record_of_key(1)) (simp add: fitName_def utf16Encode_def)
  have "\<forall>r \<in> set (treeRecs t). \<forall>k. keyFromRecord r = Some k
      \<longrightarrow> parentID k \<noteq> parentID \<lparr>parentID = nextID s, cname = [], nameU16 = Some (utf16Encode [])\<rparr>" using new(4) by simp
  note l = parent_lookups [OF snd s'(3) [unfolded ct_def] new(1) [unfolded ct_def] k2 this par(1) [unfolded ct_def] names(2) [unfolded ct_def], folded ct_def]
  have "OpenWritable (disk (wvol s')) = Inr (wvol s')" if "OpenWritable (disk v) = Inr v"
    using settlesD [OF settles_mutators(2) s'(1)] that by (simp add: openedOf_def opened_def)
  then show ?thesis
    using s'(1-3) s'(4) [unfolded r1 decode_folderRecord [OF new(2)] begin_volume [OF start]] b(2) l par(4)
      foundRec_counted [OF par(2,4,5,3) b(2)] unfolding entered_def by (metis (no_types, lifting))
qed

theorem mkdir_correct_witness:
  "\<exists>s' t'. MkDir sampleEnv [0x62] 0x1ED (mkfsVolume 1000 freshBuild) = (Inr (), wvol s') \<and> soundState 256 4096 2 4096 s' t' None"
proof -
  let ?s = "mkfsTxn 1000 freshBuild" and ?ct = "catalogTree (mkfsVolume 1000 freshBuild)" and ?t = "TLeaf 1 (rootRecords freshBuild)"
  note f = freshBuild_facts
  have fit: "fitName (mlabel freshBuild)" "fitName [0x62]" using f(2,6) by (simp_all add: goodLabel_fitName)
  define r1 r2 where "r1 = folderRecord sampleEnv ?s 2 [0x62] 0x1ED" and "r2 = folderThread ?s 2 [0x62]"
  note e = folder_entry [OF r1_def r2_def]
  have rs: "treeRecs ?t = rootRecords freshBuild" by (simp add: treeRecs_def)
  have ct: "catalogTree (wvol ?s) = ?ct" by (simp add: mkfsTxn_def)
  obtain fo fd fd' pr pf where c: "newKey keyFromRecord (compareCatalogKey ?ct) ?t r1"
    "\<forall>r \<in> set (rootRecords freshBuild). \<forall>k. keyFromRecord r = Some k \<longrightarrow> parentID k \<noteq> nextID ?s"
    "parentFolder sampleEnv ?ct (rootRecords freshBuild) 2 1 (mlabel freshBuild) fo" "recordData fo = Some fd" "bumpFolder 1 1 fd = Some fd'"
    "\<forall>key \<in> {keyAt 2 [], keyAt 1 (mlabel freshBuild), keyAt 2 [0x62]}. namesAgree sampleEnv ?ct key (r1 # r2 # rootRecords freshBuild)"
    "88 \<le> length fd" "foundRec fo = Inr (Some pr)" "cfolder pr = Some pf"
    by (rule fresh_catalog [OF e(1,2) f(1) fit f(5), where env = sampleEnv and d = 1 and e = 1])
  have room: "roomForTwo (catalogBlocks 1000) 4096 ?s ?t r1 r2" by (rule fresh_room [OF f(1,2,6) _ e]) (simp add: f(3))
  have "\<exists>s' t'. MkDir sampleEnv [0x62] 0x1ED (mkfsVolume 1000 freshBuild) = (Inr (), wvol s')
      \<and> soundState (catalogBlocks 1000) 4096 2 4096 s' t' None"
    using mkdir_correct [OF freshBuild_start(1-3) mkfs_sound [OF f(1) fit(1)] r1_def r2_def room, unfolded ct rs, OF c(1) fit(2) _ c(2-4,7-9)] c(6)
      fresh_nextID [OF f(1)] by fastforce
  then show ?thesis by (simp add: f(3))
qed

text \<open>What the formatter and the first transaction give for a name in the root folder.\<close>

lemma fresh_setup:
  fixes env sz cfg defines "N \<equiv> nat (sz div 4096)" and "b \<equiv> newBuilder env sz cfg"
  assumes "49152 \<le> sz" "sz < 2 ^ 44" "goodLabel (volumeLabel cfg)" "goodLabel name"
    and "if cfgCaseSensitive cfg then name \<noteq> [] else foldedUnits (utf16Encode name) \<noteq> []"
    and "\<And>n lim. 0 \<le> n \<Longrightarrow> n \<le> lim \<Longrightarrow> \<exists>buf. envMakeBytes env n lim = Inr buf"
  shows "freshBuilder N b" "goodLabel (mlabel b)" "7 \<le> catalogBlocks N" "Mkfs env sz cfg = Inr (mkfsImage N b)"
    "OpenWritable (mkfsImage N b) = Inr (mkfsVolume N b)" "openedOf (length (mkfsImage N b)) (mkfsVolume N b)"
    "beginTxn env (mkfsVolume N b) = Inr (mkfsTxn N b)" "sortUnits (catalogTree (mkfsVolume N b)) (keyAt 2 name) \<noteq> []"
proof -
  have sz: "32768 \<le> sz" using assms(3) by simp
  show fresh: "freshBuilder N b" unfolding N_def b_def by (rule newBuilder_fresh [OF sz assms(4,5)])
  have b: "mlabel b = volumeLabel cfg" "mcaseSensitive b = cfgCaseSensitive cfg" by (simp_all add: b_def newBuilder_def Let_def volumeLabel_def)
  show "goodLabel (mlabel b)" using b(1) assms(5) by simp
  have "12 \<le> N" using assms(3) zdiv_mono1 [of 49152 sz 4096] by (simp add: N_def)
  then show "7 \<le> catalogBlocks N" unfolding catalogBlocks_def bitmapBlocks_def by auto
  show "Mkfs env sz cfg = Inr (mkfsImage N b)" using Mkfs_eq [OF sz] fresh by (simp add: N_def b_def)
  show op: "OpenWritable (mkfsImage N b) = Inr (mkfsVolume N b)" by (rule mkfs_opened [OF fresh])
  then show "openedOf (length (mkfsImage N b)) (mkfsVolume N b)" by (simp add: openedOf_def opened_def mkfsVolume_def)
  obtain buf where "envMakeBytes env (int (4096 * bitmapBlocks N)) (int (4096 * N) + 4096) = Inr buf"
    using assms(8) [of "int (4096 * bitmapBlocks N)" "int (4096 * N) + 4096"] layout_bounds(3) [of N] fresh by (auto simp: freshBuilder_def)
  then show "beginTxn env (mkfsVolume N b) = Inr (mkfsTxn N b)" by (rule mkfs_begin [OF fresh])
  have "utf16Encode name \<noteq> []" if "name \<noteq> []" using utf16Decode_Encode [of name] assms(6) that by (auto simp: goodLabel_def)
  moreover have "utf16Encode [] = []" by (simp add: utf16Encode_def)
  ultimately show "sortUnits (catalogTree (mkfsVolume N b)) (keyAt 2 name) \<noteq> []"
    using assms(7)
    by (auto simp: mkfsVolume_tree catTreeOf_def btHeaderOf_def catParams_def sortUnits_def keyUnits_def b foldedUnits_def
        keyCompareBinary_def keyCompareCaseFold_def split: if_splits)
qed

text \<open>
  C1. Format, open, write, read: on a volume that \<^verbatim>\<open>Mkfs\<close> made, of twelve blocks or more, \<^verbatim>\<open>WriteFile\<close> of a path in the
  root folder succeeds for every contents that fits the free blocks, and \<^verbatim>\<open>ReadFile\<close> of that path then returns exactly the
  contents, from the volume in memory as from its image opened afresh. The name has valid characters, at most 255
  UTF-16 units, and at least one unit that the volume's order of names does not ignore.
\<close>

theorem fresh_write_read:
  fixes sz defines "N \<equiv> nat (sz div 4096)"
  assumes "49152 \<le> sz" "sz < 2 ^ 44" "goodLabel (volumeLabel cfg)" "splitPath p = [name]" "goodLabel name"
    and "if cfgCaseSensitive cfg then name \<noteq> [] else foldedUnits (utf16Encode name) \<noteq> []"
    and "\<And>n lim. 0 \<le> n \<Longrightarrow> n \<le> lim \<Longrightarrow> \<exists>buf. envMakeBytes env n lim = Inr buf"
    and "(length data + 4095) div 4096 + bitmapBlocks N + catalogBlocks N + 4 \<le> N"
  shows "\<exists>im v v'. Mkfs env sz cfg = Inr im \<and> OpenWritable im = Inr v \<and> WriteFile env p data perm v = (Inr (), v')
    \<and> ReadFile env v' p = Inr data \<and> OpenWritable (disk v') = Inr v'"
proof -
  define b where "b = newBuilder env sz cfg"
  note f = fresh_setup [OF assms(2-4,6-8), folded N_def b_def]
  have fits: "(length data + 4095) div 4096 \<le> N - 1 - (bitmapBlocks N + 3 + catalogBlocks N)" using assms(9) by simp
  obtain v' where w: "WriteFile env p data perm (mkfsVolume N b) = (Inr (), v')" "ReadFile env v' p = Inr data"
    by (rule fresh_write [OF f(1,2) assms(6) f(3,8) fits f(7) assms(5)])
  have "OpenWritable (disk v') = Inr v'" using settlesD [OF settles_mutators(1) w(1) f(6)] by (simp add: openedOf_def opened_def)
  then show ?thesis using f(4,5) w by blast
qed

theorem fresh_write_read_witness:
  "\<exists>im v v'. Mkfs sampleEnv 4096000 \<lparr>cfgLabel = [], cfgCaseSensitive = True\<rparr> = Inr im \<and> OpenWritable im = Inr v
     \<and> WriteFile sampleEnv [0x2F, 0x62] (replicate 5000 7) 0x1A4 v = (Inr (), v')
     \<and> ReadFile sampleEnv v' [0x2F, 0x62] = Inr (replicate 5000 7) \<and> OpenWritable (disk v') = Inr v'"
proof -
  have good: "goodLabel (volumeLabel \<lparr>cfgLabel = [], cfgCaseSensitive = True\<rparr>)" by (simp add: volumeLabel_default goodLabel_gotest)
  have path: "splitPath [0x2F, 0x62] = [[0x62]]" by (simp add: splitPath_def)
  show ?thesis
    by (rule fresh_write_read [OF _ _ good path freshBuild_facts(6) _ sampleEnv_make])
      (simp_all add: catalogBlocks_def bitmapBlocks_def)
qed

end
