(* ===== verification/Attempts.thy ===== *)
theory Attempts
  imports Formatted
begin

text \<open>
  Operations that fail. A mutator whose guards refuse a call leaves the volume alone, and one that fails
  half way keeps the edits it made; but neither ever changes the size of the image, and the
  volume stays one on which the next operation can start.
\<close>

section \<open>Refused calls\<close>

text \<open>What the guards see of a path: where it leads and what is there.\<close>

definition atPath :: "env \<Rightarrow> Volume \<Rightarrow> gostring \<Rightarrow> u32 \<Rightarrow> gostring \<Rightarrow> catalogRecord option \<Rightarrow> bool" where
  "atPath env v p parent name found \<longleftrightarrow>
     resolveParent env v p = Inr (parent, name) \<and> lookupChild env v parent name = Inr found"

lemma refused_readOnly:
  assumes "\<not> wr v"
  shows "WriteFile env p data perm v = (Inl ErrReadOnly, v)" "MkDir env p perm v = (Inl ErrReadOnly, v)"
    "DeleteFile env p v = (Inl ErrReadOnly, v)" "DeleteDir env p v = (Inl ErrReadOnly, v)"
    "Rename env p q v = (Inl ErrReadOnly, v)" "Symlink env target p v = (Inl ErrReadOnly, v)"
    "Truncate env p newSize v = (Inl ErrReadOnly, v)" "SetLabel env l v = (Inl ErrReadOnly, v)"
    "SetFinderInfo env p info v = (Inl ErrReadOnly, v)"
  using assms by (simp_all add: guarded_def WriteFile_def MkDir_def DeleteFile_def DeleteDir_def Rename_def Symlink_def
      Truncate_def SetLabel_def SetFinderInfo_def)

lemma refused_existing:
  assumes "wr v" "atPath env v p parent name (Some rec)"
  shows "MkDir env p perm v = (Inl ErrExists, v)" "Symlink env target p v = (Inl ErrExists, v)"
    "cfile rec = None \<Longrightarrow> DeleteFile env p v = (Inl ErrNotRegular, v)"
    "cfile rec = None \<Longrightarrow> 0 \<le> newSize \<Longrightarrow> Truncate env p newSize v = (Inl ErrNotRegular, v)"
    "cfolder rec = None \<Longrightarrow> DeleteDir env p v = (Inl ErrNotDirectory, v)"
  using assms
  by (simp_all add: atPath_def guarded_def MkDir_def Symlink_def DeleteFile_def Truncate_def DeleteDir_def existing_def monad_simps)

lemma refused_missing:
  assumes "wr v" "atPath env v p parent name None"
  shows "DeleteFile env p v = (Inl ErrNotFound, v)" "DeleteDir env p v = (Inl ErrNotFound, v)"
    "0 \<le> newSize \<Longrightarrow> Truncate env p newSize v = (Inl ErrNotFound, v)"
    "resolveParent env v q = Inr x \<Longrightarrow> Rename env p q v = (Inl ErrNotFound, v)"
  using assms
  by (simp_all add: atPath_def guarded_def DeleteFile_def Truncate_def DeleteDir_def Rename_def existing_def monad_simps split: prod.split)

text \<open>A successful \<^verbatim>\<open>MkDir\<close> found nothing at its path.\<close>

lemma mkdir_absent:
  assumes "MkDir env p perm v = (Inr (), v')" "resolveParent env v p = Inr (parent, name)"
  shows "atPath env v p parent name None"
  using assms by (auto simp: atPath_def MkDir_def guarded_def bnd_eq_Inr liftR_def raise_def split: if_splits option.splits)

lemma Open_readOnly: "Open rs sz = Inr u \<Longrightarrow> \<not> wr u"
  by (auto simp: Open_def bindR_def openTrees_Inr split: sum.splits prod.splits)

section \<open>Calls with any outcome\<close>

lemma keeps_runTxn [keeps_rules]: "keeps (steady n) m \<Longrightarrow> keeps (usable n) (runTxn env m)"
  by (rule keepsI) (auto simp: runTxn_def steady_def split: sum.split prod.split dest!: keeps_run begin_usable)

lemma keeps_guarded [keeps_rules]: "keeps I m \<Longrightarrow> keeps I (guarded m)"
  by (simp add: keeps_def keepsAt_def guarded_def)

lemma keeps_txns [keeps_rules]:
  "keeps (usable n) (createTxn env parent name data mode)" "keeps (usable n) (removeTxn env parent name cf)"
  "keeps (usable n) (existing env parent name)"
  unfolding createTxn_def removeTxn_def existing_def by (intro keeps_rules)+

lemma keeps_mutators:
  "keeps (usable n) (WriteFile env p data perm)" "keeps (usable n) (MkDir env p perm)" "keeps (usable n) (DeleteFile env p)"
  "keeps (usable n) (DeleteDir env p)" "keeps (usable n) (Rename env p q)" "keeps (usable n) (Symlink env target p)"
  "keeps (usable n) (Truncate env p newSize)" "keeps (usable n) (SetLabel env l)" "keeps (usable n) (SetFinderInfo env p info)"
  unfolding WriteFile_def MkDir_def DeleteFile_def DeleteDir_def Rename_def Symlink_def Truncate_def SetLabel_def
    SetFinderInfo_def Let_def
  by (intro keeps_rules)+

text \<open>A call of one of the mutators, whatever it returns.\<close>

inductive attempt :: "env \<Rightarrow> Volume \<Rightarrow> Volume \<Rightarrow> bool" for env where
  aWriteFile: "WriteFile env p data perm v = (r, v') \<Longrightarrow> attempt env v v'"
| aMkDir: "MkDir env p perm v = (r, v') \<Longrightarrow> attempt env v v'"
| aDeleteFile: "DeleteFile env p v = (r, v') \<Longrightarrow> attempt env v v'"
| aDeleteDir: "DeleteDir env p v = (r, v') \<Longrightarrow> attempt env v v'"
| aRename: "Rename env p q v = (r, v') \<Longrightarrow> attempt env v v'"
| aSymlink: "Symlink env target p v = (r, v') \<Longrightarrow> attempt env v v'"
| aTruncate: "Truncate env p newSize v = (r, v') \<Longrightarrow> attempt env v v'"
| aSetLabel: "SetLabel env l v = (r, v') \<Longrightarrow> attempt env v v'"
| aSetFinderInfo: "SetFinderInfo env p info v = (r, v') \<Longrightarrow> attempt env v v'"

lemma attempt_usable: "attempt env v v' \<Longrightarrow> usable n v \<Longrightarrow> usable n v'"
  by (induction rule: attempt.induct) (rule keeps_run, rule keeps_mutators, assumption+)+

lemma attempts_usable: "(attempt env)\<^sup>*\<^sup>* v v' \<Longrightarrow> usable n v \<Longrightarrow> usable n v'"
  by (induction rule: rtranclp_induct) (auto intro: attempt_usable)

text \<open>
  C7. The image is mutated in place, never resized: open any image for writing and call the nine mutators in
  any order with any arguments, each succeeding or failing at any point; then the volume still has
  an image of the first length, the size it was opened with, write access, and trees whose cached node size is a legal
  one, so every transaction that begins on it works with nodes of 512 bytes or more.
\<close>

theorem attempts_keep_size:
  assumes "OpenWritable im = Inr v" "(attempt env)\<^sup>*\<^sup>* v v'"
  shows "length (disk v') = length im \<and> vsize v' = int (length im) \<and> wr v' \<and> 512 \<le> NodeSize (theader (catalogTree v'))
    \<and> (\<forall>s. beginTxn env v' = Inr s \<longrightarrow> 512 \<le> nodeSize (wcat s) \<and> 512 \<le> nodeSize (wext s))"
proof -
  have "disk v = im" by (rule OpenWritable_disk [OF assms(1)])
  then have "opened v" using assms(1) by (simp add: opened_def)
  then have "usable (length im) v" using opened_usable \<open>disk v = im\<close> by blast
  from attempts_usable [OF assms(2) this] have u: "usable (length im) v'" .
  then show ?thesis using begin_usable [OF u] by (auto simp: usable_def steady_def)
qed

theorem attempts_keep_size_witness:
  "\<exists>v. OpenWritable (disk v) = Inr v \<and> SetLabel sampleEnv [0x20] v = (Inl ErrCorrupt, v) \<and> vsize v = int (length (disk v))"
proof -
  obtain v where v: "OpenWritable (disk v) = Inr v" using sample_volume by blast
  have "wr v" using v by (auto simp: OpenWritable_def bindR_eq_Inr)
  then have step: "SetLabel sampleEnv [0x20] v = (Inl ErrCorrupt, v)"
    by (simp add: SetLabel_def guarded_def trimSpace_def isSpace_def raise_def)
  then have "(attempt sampleEnv)\<^sup>*\<^sup>* v v" by (auto intro: aSetLabel)
  with attempts_keep_size [OF v this] v step show ?thesis by blast
qed

end
