(* ===== verification/FreshFolder.thy ===== *)
theory FreshFolder
  imports FreshFile Attempts
begin

text \<open>
  The formatter and \<^verbatim>\<open>MkDir\<close> together: what is listed afterwards, and the calls that are refused before and after, on a path with nothing
  there, one where a folder is, and a volume that was opened for reading.
\<close>

text \<open>A list in which one element has an image.\<close>

lemma map_filter_one:
  assumes "distinct xs" "r \<in> set xs" "f r = Some y" "\<And>x. x \<in> set xs \<Longrightarrow> x \<noteq> r \<Longrightarrow> f x = None"
  shows "List.map_filter f xs = [y]"
proof -
  obtain ys zs where xs: "xs = ys @ r # zs" "r \<notin> set ys" "r \<notin> set zs"
    using assms(1,2) by (metis distinct.simps(2) distinct_append in_set_conv_decomp not_distinct_conv_prefix split_list)
  have none: "List.map_filter f us = []" if "\<forall>x \<in> set us. f x = None" for us
    using that by (induction us) (simp_all add: map_filter_Cons)
  have "List.map_filter f (us @ ws) = List.map_filter f us @ List.map_filter f ws" for us ws
    by (simp add: List.map_filter_def)
  moreover have "\<forall>x \<in> set ys. f x = None" "\<forall>x \<in> set zs. f x = None" using xs assms(4) by auto
  ultimately show ?thesis using none assms(3) by (simp add: xs(1) map_filter_Cons)
qed

lemma fresh_mkdir:
  assumes "freshBuilder N b" "goodLabel (mlabel b)" "goodLabel name" "7 \<le> catalogBlocks N"
    and "sortUnits (catalogTree (mkfsVolume N b)) (keyAt 2 name) \<noteq> []"
    and start: "beginTxn env (mkfsVolume N b) = Inr (mkfsTxn N b)" and p: "splitPath p = [name]"
  obtains v' rec fo k where "atPath env (mkfsVolume N b) p 2 name None" "MkDir env p perm (mkfsVolume N b) = (Inr (), v')"
    "atPath env v' p 2 name (Some rec)" "cfile rec = None" "cfolder rec = Some fo"
    "listChildren (mkfsVolume N b) (catalogTree (mkfsVolume N b)) 2 = Inr []" "folderID fo = 16" "cname k = name"
    "listChildren v' (catalogTree v') 2 = Inr [\<lparr>ckey = k, crec = rec\<rparr>]" "listChildren v' (catalogTree v') 16 = Inr []"
proof -
  let ?s = "mkfsTxn N b" and ?ct = "catalogTree (mkfsVolume N b)" and ?t = "TLeaf 1 (rootRecords b)"
  have fit: "fitName (mlabel b)" "fitName name" using assms(2,3) by (simp_all add: goodLabel_fitName)
  define r1 r2 where "r1 = folderRecord env ?s 2 name perm" and "r2 = folderThread ?s 2 name"
  note e = folder_entry [OF r1_def r2_def]
  have rs: "treeRecs ?t = rootRecords b" by (simp add: treeRecs_def)
  have ct: "catalogTree (wvol ?s) = ?ct" "wvol ?s = mkfsVolume N b" by (simp_all add: mkfsTxn_def)
  obtain fo fd fd' pr pf where c: "newKey keyFromRecord (compareCatalogKey ?ct) ?t r1"
    "\<forall>r \<in> set (rootRecords b). \<forall>k. keyFromRecord r = Some k \<longrightarrow> parentID k \<noteq> nextID ?s"
    "parentFolder env ?ct (rootRecords b) 2 1 (mlabel b) fo" "recordData fo = Some fd" "bumpFolder 1 1 fd = Some fd'"
    "\<forall>key \<in> {keyAt 2 [], keyAt 1 (mlabel b), keyAt 2 name}. namesAgree env ?ct key (r1 # r2 # rootRecords b)"
    "88 \<le> length fd" "foundRec fo = Inr (Some pr)" "cfolder pr = Some pf"
    by (rule fresh_catalog [OF e(1,2) assms(1) fit assms(5), where env = env and d = 1 and e = 1])
  note snd = mkfs_sound [OF assms(1) fit(1)]
  have path: "resolveParent env v p = Inr (2, name)" for v using p by (simp add: resolveParent_def cnidRootFolder_def)
  have wr: "wr (mkfsVolume N b)" by (simp add: mkfsVolume_def)
  have less: "2 < nextID ?s" using fresh_nextID [OF assms(1)] by simp
  have names: "namesAgree env ?ct (keyAt 2 []) (r1 # r2 # rootRecords b)" "namesAgree env ?ct (keyAt 1 (mlabel b)) (r1 # r2 # rootRecords b)"
    "namesAgree env ?ct (keyAt 2 name) (r1 # r2 # rootRecords b)" using c(6) by simp_all
  obtain s' :: wst and t' where m: "MkDir env p perm (mkfsVolume N b) = (Inr (), wvol s')"
    "soundState (catalogBlocks N) 4096 2 4096 s' t' None" "entered env ?ct r1 r2 fo (withData fo fd fd') ?s ?t s' t'"
    "lookupChild env (wvol s') 2 name = foundRec r1"
    by (rule make_folder [OF wr path start snd r1_def r2_def fresh_room [OF assms(1-4) e], unfolded ct(1) rs, OF c(1) fit(2) less c(2-5) names]) blast
  have absent: "atPath env (mkfsVolume N b) p 2 name None" by (rule mkdir_absent [OF m(1) path])
  obtain rf th where root: "rootRecords b = [rf, th]" "keyFromRecord rf = Some \<lparr>parentID = 1, cname = mlabel b, nameU16 = Some (utf16Encode (mlabel b))\<rparr>"
    "decodeRecord th = Inr \<lparr>recType = recordFolderThread, cfolder = None, cfile = None, threadName = mlabel b, threadParent = 1\<rparr>"
    using rootRecords_parts [OF fit(1)] by metis
  have old: "childOf q r = None" if "r \<in> set (rootRecords b)" "q \<noteq> 1" for q r
    using that by (auto simp: root childOf_def split: option.split)
  have k1: "keyFromRecord r1 = Some \<lparr>parentID = 2, cname = name, nameU16 = Some (utf16Encode name)\<rparr>"
    unfolding e(1) by (rule record_of_key(1) [OF fit(2)])
  have k2: "keyFromRecord r2 = Some \<lparr>parentID = 16, cname = [], nameU16 = Some (utf16Encode [])\<rparr>"
    unfolding e(2) fresh_nextID [OF assms(1)] by (rule record_of_key(1)) (simp add: fitName_def utf16Encode_def)
  have "recordData r2 = Some (encodeThreadRecord recordFolderThread 2 name)"
    unfolding e(2) by (rule record_of_key(2)) (simp add: fitName_def utf16Encode_def)
  then have thread: "childOf q r2 = None" for q
    using parse_thread [OF fit(2), of recordFolderThread 2] by (simp add: childOf_def k2 decodeRecord_def)
  define rec where "rec = \<lparr>recType = recordFolder, cfolder = Some \<lparr>folderID = nextID ?s, valence = 0,
      cfoFlags = (if CaseSensitive (wvol ?s) then kHFSHasFolderCountMask else 0)\<rparr>, cfile = None, threadName = [], threadParent = 0\<rparr>"
  have found: "foundRec r1 = Inr (Some rec)" unfolding r1_def rec_def by (rule decode_folderRecord [OF fit(2)])
  then have dec: "decodeRecord r1 = Inr rec" by (cases "decodeRecord r1") (simp_all add: foundRec_def)
  have len: "length fd' = length fd" by (rule length_bumpFolder [OF c(5)])
  obtain kf where "keyFromRecord fo = Some kf" "parentID kf = 1"
    using c(3) by (auto simp: parentFolder_def keyMatches_def split: option.splits)
  then have patched: "childOf q (withData fo fd fd') = None" if "q \<noteq> 1" for q
    using withData_facts(1) [OF c(4) len] that by (simp add: childOf_def)
  have recs: "set (treeRecs t') = {r1, r2, withData fo fd fd'} \<union> (set (rootRecords b) - {fo})" using m(3) rs by (simp add: entered_def)
  note ch = sound_children [OF m(2)]
  have other: "childOf q x = None" if "x \<in> set (treeRecs t')" "x \<noteq> r1" "q \<noteq> 1" for q x
    using that recs old thread patched by auto
  have "List.map_filter (childOf 2) (treeRecs t')
      = [\<lparr>ckey = \<lparr>parentID = 2, cname = name, nameU16 = Some (utf16Encode name)\<rparr>, crec = rec\<rparr>]"
    by (rule map_filter_one [OF ch(2), of r1]) (use recs other k1 dec in \<open>simp_all add: childOf_def rec_def record_consts\<close>)
  moreover have "childOf 16 x = None" if "x \<in> set (treeRecs t')" for x
    using other [OF that] k1 by (cases "x = r1") (simp_all add: childOf_def)
  then have "List.map_filter (childOf 16) (treeRecs t') = []" by (simp add: List.map_filter_def filter_empty_conv)
  moreover have "listChildren (mkfsVolume N b) ?ct 2 = Inr []"
    using sound_children(1) [OF snd, of 2] old by (simp add: ct rs root map_filter_Cons)
  ultimately show thesis
    using that [of "wvol s'" rec "the (cfolder rec)" "\<lparr>parentID = 2, cname = name, nameU16 = Some (utf16Encode name)\<rparr>"] absent m(1,4) path found ch(1) fresh_nextID [OF assms(1)] unfolding atPath_def by (simp add: rec_def)
qed

text \<open>
  C4. Format, open, make a folder, and what is refused: on a volume that \<^verbatim>\<open>Mkfs\<close> made, of twelve blocks or more, deleting
  or truncating at a path of the root folder is refused with \<^verbatim>\<open>ErrNotFound\<close>; \<^verbatim>\<open>MkDir\<close> of it succeeds, and its image opens to the volume
  in memory; then \<^verbatim>\<open>MkDir\<close> and \<^verbatim>\<open>Symlink\<close> there are refused with \<^verbatim>\<open>ErrExists\<close>, and deleting, truncating or reading it as a file
  with \<^verbatim>\<open>ErrNotRegular\<close>; opened for reading, the new image refuses every mutator with \<^verbatim>\<open>ErrReadOnly\<close>. A refused call leaves the
  volume as it was.
\<close>

theorem fresh_mkdir_refusals:
  assumes "49152 \<le> sz" "sz < 2 ^ 44" "goodLabel (volumeLabel cfg)" "splitPath p = [name]" "goodLabel name"
    and "if cfgCaseSensitive cfg then name \<noteq> [] else foldedUnits (utf16Encode name) \<noteq> []"
    and "\<And>n lim. 0 \<le> n \<Longrightarrow> n \<le> lim \<Longrightarrow> \<exists>buf. envMakeBytes env n lim = Inr buf" and "0 \<le> newSize"
  shows "\<exists>im v v' u. Mkfs env sz cfg = Inr im \<and> OpenWritable im = Inr v
    \<and> DeleteFile env p v = (Inl ErrNotFound, v) \<and> DeleteDir env p v = (Inl ErrNotFound, v)
    \<and> Truncate env p newSize v = (Inl ErrNotFound, v)
    \<and> MkDir env p perm v = (Inr (), v') \<and> OpenWritable (disk v') = Inr v'
    \<and> MkDir env p perm' v' = (Inl ErrExists, v') \<and> Symlink env target p v' = (Inl ErrExists, v')
    \<and> DeleteFile env p v' = (Inl ErrNotRegular, v') \<and> Truncate env p newSize v' = (Inl ErrNotRegular, v')
    \<and> ReadFile env v' p = Inl ErrNotRegular
    \<and> Open (disk v') (int (length (disk v'))) = Inr u
    \<and> WriteFile env p data perm u = (Inl ErrReadOnly, u) \<and> MkDir env p perm u = (Inl ErrReadOnly, u)
    \<and> DeleteFile env p u = (Inl ErrReadOnly, u) \<and> DeleteDir env p u = (Inl ErrReadOnly, u)
    \<and> Rename env p q u = (Inl ErrReadOnly, u) \<and> Symlink env target p u = (Inl ErrReadOnly, u)
    \<and> Truncate env p newSize u = (Inl ErrReadOnly, u) \<and> SetLabel env name u = (Inl ErrReadOnly, u)
    \<and> SetFinderInfo env p info u = (Inl ErrReadOnly, u)"
proof -
  define N b where "N = nat (sz div 4096)" and "b = newBuilder env sz cfg"
  note f = fresh_setup [OF assms(1-3,5-7), folded N_def b_def]
  let ?v = "mkfsVolume N b"
  obtain v' rec fo where m: "atPath env ?v p 2 name None" "MkDir env p perm ?v = (Inr (), v')"
    "atPath env v' p 2 name (Some rec)" "cfile rec = None" "cfolder rec = Some fo"
    by (rule fresh_mkdir [OF f(1,2) assms(5) f(3,8,7) assms(4)])
  have o': "OpenWritable (disk v') = Inr v'" using settlesD [OF settles_mutators(2) m(2) f(6)] by (simp add: openedOf_def opened_def)
  have wr: "wr ?v" "wr v'" using opened_facts(1) f(6) o' by (auto simp: openedOf_def opened_def)
  obtain u where u: "Open (disk v') (int (length (disk v'))) = Inr u" using o' by (auto simp: OpenWritable_def bindR_eq_Inr)
  have rd: "ReadFile env v' p = Inl ErrNotRegular"
    using m(3-5) by (simp add: atPath_def ReadFile_def lookupPath_def assms(4) lookupChild_def cnidRootFolder_def)
  show ?thesis
    by (intro exI conjI; (rule f(4,5) m(2) o' u rd refused_missing [OF wr(1) m(1)] refused_existing [OF wr(2) m(3)]
          refused_readOnly [OF Open_readOnly [OF u]] m(4) assms(8))+)
qed

theorem fresh_mkdir_refusals_witness:
  "\<exists>im v v'. Mkfs sampleEnv 4096000 \<lparr>cfgLabel = [], cfgCaseSensitive = True\<rparr> = Inr im \<and> OpenWritable im = Inr v
     \<and> DeleteFile sampleEnv [0x2F, 0x62] v = (Inl ErrNotFound, v) \<and> MkDir sampleEnv [0x2F, 0x62] 0x1ED v = (Inr (), v')
     \<and> MkDir sampleEnv [0x2F, 0x62] 0x1ED v' = (Inl ErrExists, v') \<and> ReadFile sampleEnv v' [0x2F, 0x62] = Inl ErrNotRegular"
proof -
  have good: "goodLabel (volumeLabel \<lparr>cfgLabel = [], cfgCaseSensitive = True\<rparr>)" by (simp add: volumeLabel_default goodLabel_gotest)
  have path: "splitPath [0x2F, 0x62] = [[0x62]]" by (simp add: splitPath_def)
  have *: "49152 \<le> (4096000 :: int)" "(4096000 :: int) < 2 ^ 44" "(0 :: int) \<le> 0" by simp_all
  have **: "if cfgCaseSensitive \<lparr>cfgLabel = [], cfgCaseSensitive = True\<rparr> then [0x62 :: rune] \<noteq> []
    else foldedUnits (utf16Encode [0x62]) \<noteq> []" by simp
  show ?thesis
    using fresh_mkdir_refusals [OF *(1,2) good path freshBuild_facts(6) ** sampleEnv_make *(3), where perm = "0x1ED" and perm' = "0x1ED"
        and target = "[]" and data = "[]" and q = "[]" and info = "[]"]
    by blast
qed



end
