(* ===== verification/Slices.thy ===== *)
theory Slices
  imports Volume
begin

text \<open>
  The parsers of the reader once more, with every slice expression and index of the Go code checked: out of range is
  a \<open>Panic\<close>. The parsers of the other theories read a missing byte as an arbitrary value; the lemmas show that they never do,
  because each guard comes before the slices it protects. (Go allows a slice up to the capacity of the
  buffer; here it must stay within the length, which is stricter.)
\<close>

section \<open>Checked slices\<close>

definition slice :: "bytes \<Rightarrow> nat \<Rightarrow> nat \<Rightarrow> bytes result" where
  "slice b lo hi = (if lo \<le> hi \<and> hi \<le> length b then Inr (gslice b lo hi) else Inl Panic)"

definition at8 :: "bytes \<Rightarrow> nat \<Rightarrow> byte result" where
  "at8 b i = (if i < length b then Inr (b ! i) else Inl Panic)"

definition at16 :: "bytes \<Rightarrow> nat \<Rightarrow> u16 result" where
  "at16 b off = bindR (slice b off (off + 2)) (\<lambda>s. Inr (be16 s 0))"

definition at32 :: "bytes \<Rightarrow> nat \<Rightarrow> u32 result" where
  "at32 b off = bindR (slice b off (off + 4)) (\<lambda>s. Inr (be32 s 0))"

definition at64 :: "bytes \<Rightarrow> nat \<Rightarrow> u64 result" where
  "at64 b off = bindR (slice b off (off + 8)) (\<lambda>s. Inr (be64 s 0))"

fun mapR :: "('a \<Rightarrow> 'b result) \<Rightarrow> 'a list \<Rightarrow> 'b list result" where
  "mapR f [] = Inr []"
| "mapR f (x # xs) = bindR (f x) (\<lambda>y. bindR (mapR f xs) (\<lambda>ys. Inr (y # ys)))"

section \<open>The parsers\<close>

text \<open>\<^verbatim>\<open>volume.go\<close>\<close>

definition checkedExtent :: "bytes \<Rightarrow> nat \<Rightarrow> extentDescriptor result" where
  "checkedExtent b off =
     bindR (at32 b off) (\<lambda>s. bindR (at32 b (off + 4)) (\<lambda>c. Inr \<lparr>StartBlock = s, BlockCount = c\<rparr>))"

definition checkedForkData :: "bytes \<Rightarrow> forkData result" where
  "checkedForkData b =
     bindR (at64 b 0) (\<lambda>l. bindR (at32 b 8) (\<lambda>c. bindR (at32 b 12) (\<lambda>t.
     bindR (mapR (\<lambda>i. checkedExtent b (16 + 8 * i)) [0..<numInlineExtents]) (\<lambda>es.
       Inr \<lparr>LogicalSize = l, ClumpSize = c, fdTotalBlocks = t, Extents = es\<rparr>))))"

definition checkedVolumeHeader :: "bytes \<Rightarrow> volumeHeader result" where
  "checkedVolumeHeader rs =
     (case readerAt rs 512 (int volumeHeaderOffset) of
        (_, Some e) \<Rightarrow> Inl e
      | (buf, None) \<Rightarrow>
          let fork = \<lambda>k. bindR (slice buf (specialBase + k * forkDataLen) (length buf)) checkedForkData
          in bindR (at16 buf 0) (\<lambda>sig.
             if sig \<noteq> sigHFSPlus \<and> sig \<noteq> sigHFSX then Inl ErrBadHeader
             else bindR (at16 buf 2) (\<lambda>ver. bindR (at32 buf 4) (\<lambda>attr. bindR (at32 buf 0x28) (\<lambda>bs.
                  bindR (at32 buf 0x2C) (\<lambda>tot. bindR (at32 buf 0x30) (\<lambda>fr.
                  if \<not> goodBlockSize bs then Inl ErrCorrupt
                  else bindR (fork 0) (\<lambda>af. bindR (fork 1) (\<lambda>ef. bindR (fork 2) (\<lambda>cf.
                       bindR (fork 3) (\<lambda>tf. bindR (fork 4) (\<lambda>sf.
                         Inr \<lparr>Signature = sig, Version = ver, vhAttributes = attr, BlockSize = bs, vhTotalBlocks = tot,
                              FreeBlocks = fr, AllocationFile = af, ExtentsFile = ef, CatalogFile = cf,
                              AttributesFile = tf, StartupFile = sf, caseSensitive = False\<rparr>))))))))))))"

text \<open>\<^verbatim>\<open>btree.go\<close>\<close>

definition checkedDescriptor :: "bytes \<Rightarrow> nodeDescriptor result" where
  "checkedDescriptor b =
     bindR (at32 b 0) (\<lambda>f. bindR (at32 b 4) (\<lambda>l. bindR (at8 b 8) (\<lambda>k. bindR (at8 b 9) (\<lambda>h. bindR (at16 b 10) (\<lambda>n.
       Inr \<lparr>FLink = f, BLink = l, Kind = k, Height = h, NumRecords = n\<rparr>)))))"

definition checkedBTree :: "'a vol_scheme \<Rightarrow> fork \<Rightarrow> btree result" where
  "checkedBTree v f =
     (case readAt v f (nodeDescriptorLen + 106) 0 of
        (_, Some e) \<Rightarrow> Inl e
      | (xs, None) \<Rightarrow>
          let buf = filled (nodeDescriptorLen + 106) xs
          in bindR (checkedDescriptor buf) (\<lambda>nd.
             if Kind nd \<noteq> kindHeaderNode then Inl ErrCorrupt
             else bindR (slice buf nodeDescriptorLen (length buf)) (\<lambda>h.
                  bindR (at32 h 2) (\<lambda>root. bindR (at32 h 10) (\<lambda>first. bindR (at32 h 14) (\<lambda>last.
                  bindR (at16 h 18) (\<lambda>size. bindR (at8 h 37) (\<lambda>cmp. bindR (at32 h 38) (\<lambda>attr.
                    if size < 512 \<or> size AND (size - 1) \<noteq> 0 then Inl ErrCorrupt
                    else Inr \<lparr>tf = f, theader = \<lparr>RootNode = root, FirstLeaf = first, LastLeaf = last, NodeSize = size,
                           KeyCompare = cmp, btAttributes = attr\<rparr>\<rparr>)))))))))"

fun checkedCuts :: "nat \<Rightarrow> bytes \<Rightarrow> nat list \<Rightarrow> bytes list result" where
  "checkedCuts ns buf (s # e # offs) =
     (if s < nodeDescriptorLen \<or> e > ns \<or> s > e then Inl ErrCorrupt
      else bindR (slice buf s e) (\<lambda>r. bindR (checkedCuts ns buf (e # offs)) (\<lambda>rs. Inr (r # rs))))"
| "checkedCuts ns buf _ = Inr []"

text \<open>The position \<^verbatim>\<open>ns - 2*(i+1)\<close> of an offset must not be negative.\<close>

definition checkedOffset :: "nat \<Rightarrow> bytes \<Rightarrow> nat \<Rightarrow> nat result" where
  "checkedOffset ns buf i =
     (if 2 * (i + 1) > ns then Inl Panic else bindR (at16 buf (ns - 2 * (i + 1))) (\<lambda>o'. Inr (unat o')))"

definition checkedNode :: "'a vol_scheme \<Rightarrow> btree \<Rightarrow> u32 \<Rightarrow> node result" where
  "checkedNode v t n =
     (let ns = unat (NodeSize (theader t))
      in case readAt v (tf t) ns (uint n * int ns) of
           (_, Some e) \<Rightarrow> Inl e
         | (xs, None) \<Rightarrow>
             let buf = filled ns xs
             in bindR (checkedDescriptor buf) (\<lambda>d.
                let nrec = unat (NumRecords d)
                in if (nrec + 1) * 2 > ns then Inl ErrCorrupt
                   else bindR (mapR (checkedOffset ns buf) [0..<nrec + 1]) (\<lambda>offs.
                        bindR (checkedCuts ns buf offs) (\<lambda>rs. Inr \<lparr>desc = d, records = rs\<rparr>))))"

definition checkedKeyLen :: "bytes \<Rightarrow> nat option result" where
  "checkedKeyLen rec =
     (if length rec < 2 then Inr None
      else bindR (at16 rec 0) (\<lambda>l. if 2 + unat l > length rec then Inr None else Inr (Some (unat l))))"

definition checkedData :: "bytes \<Rightarrow> bytes option result" where
  "checkedData rec =
     bindR (checkedKeyLen rec) (\<lambda>kl. case kl of
       None \<Rightarrow> Inr None
     | Some keyLen \<Rightarrow>
         let dataStart = (if (2 + keyLen) mod 2 \<noteq> 0 then 2 + keyLen + 1 else 2 + keyLen)
         in if dataStart > length rec then Inr None
            else bindR (slice rec dataStart (length rec)) (\<lambda>d. Inr (Some d)))"

definition checkedChild :: "bytes \<Rightarrow> u32 option result" where
  "checkedChild rec =
     bindR (checkedData rec) (\<lambda>d. case d of
       None \<Rightarrow> Inr None
     | Some data \<Rightarrow> if length data < 4 then Inr None else bindR (at32 data 0) (\<lambda>c. Inr (Some c)))"

text \<open>\<^verbatim>\<open>catalog.go\<close>\<close>

fun checkedUnits :: "bytes \<Rightarrow> nat \<Rightarrow> nat \<Rightarrow> units option result" where
  "checkedUnits b off 0 = Inr (Some [])"
| "checkedUnits b off (Suc n) =
     (if off + 2 > length b then Inr None
      else bindR (at16 b off) (\<lambda>u. bindR (checkedUnits b (off + 2) n) (\<lambda>us. Inr (map_option (\<lambda>us. u # us) us))))"

fun checkedUnitsUpTo :: "bytes \<Rightarrow> nat \<Rightarrow> nat \<Rightarrow> units result" where
  "checkedUnitsUpTo b off 0 = Inr []"
| "checkedUnitsUpTo b off (Suc n) =
     (if off + 2 \<le> length b
      then bindR (at16 b off) (\<lambda>u. bindR (checkedUnitsUpTo b (off + 2) n) (\<lambda>us. Inr (u # us))) else Inr [])"

definition checkedCatalogKey :: "bytes \<Rightarrow> catalogKey option result" where
  "checkedCatalogKey b =
     (if length b < 6 then Inr None
      else bindR (at32 b 0) (\<lambda>p. bindR (at16 b 4) (\<lambda>n. bindR (checkedUnits b 6 (unat n)) (\<lambda>us.
             Inr (map_option (\<lambda>us. \<lparr>parentID = p, cname = utf16Decode us, nameU16 = Some us\<rparr>) us)))))"

definition checkedRecordKey :: "bytes \<Rightarrow> catalogKey option result" where
  "checkedRecordKey rec =
     bindR (checkedKeyLen rec) (\<lambda>kl. case kl of
       None \<Rightarrow> Inr None | Some n \<Rightarrow> bindR (slice rec 2 (2 + n)) checkedCatalogKey)"

definition checkedCatalogRecord :: "bytes \<Rightarrow> catalogRecord option result" where
  "checkedCatalogRecord data =
     (if length data < 2 then Inr None
      else bindR (at16 data 0) (\<lambda>rt.
        let bare = \<lparr>recType = rt, cfolder = None, cfile = None, threadName = [], threadParent = 0\<rparr>
        in if rt = recordFolder then
             if length data < 14 then Inr None
             else bindR (at16 data 2) (\<lambda>fl. bindR (at32 data 4) (\<lambda>va. bindR (at32 data 8) (\<lambda>fid.
                    Inr (Some (bare\<lparr>cfolder := Some \<lparr>folderID = fid, valence = va, cfoFlags = fl\<rparr>\<rparr>)))))
           else if rt = recordFile then
             if length data < 88 + forkDataLen then Inr None
             else bindR (at16 data 2) (\<lambda>fl. bindR (at32 data 8) (\<lambda>fid. bindR (at16 data 42) (\<lambda>mode.
                  bindR (bindR (slice data 88 (88 + forkDataLen)) checkedForkData) (\<lambda>df.
                  bindR (if length data \<ge> 168 + forkDataLen
                         then bindR (slice data 168 (168 + forkDataLen)) checkedForkData else Inr zeroForkData) (\<lambda>rf.
                    Inr (Some (bare\<lparr>cfile := Some \<lparr>fileID = fid, cfiFlags = fl, dataFork = df, rsrcFork = rf,
                      permMode = mode\<rparr>\<rparr>)))))))
           else if rt = recordFolderThread \<or> rt = recordFileThread then
             if length data < 10 then Inr None
             else bindR (at32 data 4) (\<lambda>p. bindR (at16 data 8) (\<lambda>n. bindR (checkedUnitsUpTo data 10 (unat n)) (\<lambda>us.
                    Inr (Some (bare\<lparr>threadParent := p, threadName := utf16Decode us\<rparr>)))))
           else Inr (Some bare)))"

text \<open>\<^verbatim>\<open>extents.go\<close>\<close>

definition checkedExtentsKey :: "bytes \<Rightarrow> extentsKey option result" where
  "checkedExtentsKey rec =
     bindR (checkedKeyLen rec) (\<lambda>kl. case kl of
       None \<Rightarrow> Inr None
     | Some n \<Rightarrow> bindR (slice rec 2 (2 + n)) (\<lambda>b.
         if length b < 10 then Inr None
         else bindR (at8 b 0) (\<lambda>ft. bindR (at32 b 2) (\<lambda>fid. bindR (at32 b 6) (\<lambda>st.
                Inr (Some \<lparr>exForkType = ft, exFileID = fid, exStartBlock = st\<rparr>))))))"

fun checkedExts :: "nat \<Rightarrow> bytes \<Rightarrow> extentDescriptor list result" where
  "checkedExts 0 data = Inr []"
| "checkedExts (Suc n) data =
     (if length data < 8 then Inr []
      else bindR (checkedExtent data 0) (\<lambda>e.
        if BlockCount e = 0 then Inr []
        else bindR (bindR (slice data 8 (length data)) (checkedExts n)) (\<lambda>es. Inr (e # es))))"

section \<open>No parser leaves its buffer\<close>

lemma slice_ok [simp]: "lo \<le> hi \<Longrightarrow> hi \<le> length b \<Longrightarrow> slice b lo hi = Inr (gslice b lo hi)"
  by (simp add: slice_def)

lemma at_ok [simp]: "i < length b \<Longrightarrow> at8 b i = Inr (b ! i)" "off + 2 \<le> length b \<Longrightarrow> at16 b off = Inr (be16 b off)"
  "off + 4 \<le> length b \<Longrightarrow> at32 b off = Inr (be32 b off)" "off + 8 \<le> length b \<Longrightarrow> at64 b off = Inr (be64 b off)"
  by (simp_all add: at8_def at16_def at32_def at64_def be16_def be32_def be64_def gslice_def add.assoc add.commute [of off])

lemma mapR_ok: "(\<And>x. x \<in> set xs \<Longrightarrow> f x = Inr (g x)) \<Longrightarrow> mapR f xs = Inr (map g xs)"
  by (induction xs) auto

lemma gslice_rest: "length b \<le> hi \<Longrightarrow> gslice b lo hi = drop lo b"
  by (simp add: gslice_def)

lemma checkedForkData_ok: "forkDataLen \<le> length b \<Longrightarrow> checkedForkData b = Inr (parseForkData b)"
proof -
  assume len: "forkDataLen \<le> length b"
  have "mapR (\<lambda>i. checkedExtent b (16 + 8 * i)) [0..<numInlineExtents] = Inr (map (\<lambda>i. parseExtent b (16 + 8 * i)) [0..<numInlineExtents])"
    by (rule mapR_ok) (use len in \<open>simp add: checkedExtent_def parseExtent_def header_consts add.assoc\<close>)
  then show ?thesis using len by (simp add: checkedForkData_def parseForkData_def header_consts)
qed

lemma checkedVolumeHeader_ok: "checkedVolumeHeader rs = readVolumeHeader rs"
proof (cases "readerAt rs 512 (int volumeHeaderOffset)")
  case (Pair buf e)
  show ?thesis
  proof (cases e)
    case None
    have "length buf = 512" using length_readerAt [of rs 512 "int volumeHeaderOffset"] Pair None by simp
    then show ?thesis
      using Pair None by (simp add: checkedVolumeHeader_def readVolumeHeader_def Let_def gslice_rest checkedForkData_ok header_consts)
  qed (simp add: checkedVolumeHeader_def readVolumeHeader_def Pair)
qed

lemma checkedDescriptor_ok: "12 \<le> length b \<Longrightarrow> checkedDescriptor b = Inr (parseNodeDescriptor b)"
  by (simp add: checkedDescriptor_def parseNodeDescriptor_def)

lemma filled_at_least: "n \<le> length (filled n xs)"
  by (simp add: filled_def)

lemma checkedBTree_ok: "checkedBTree v f = openBTree v f"
proof (cases "readAt v f 120 0")
  case (Pair xs e)
  show ?thesis
  proof (cases e)
    case None
    define buf where "buf = filled 120 xs"
    have len: "120 \<le> length buf" using filled_at_least [of 120 xs] by (simp add: buf_def)
    then have "checkedDescriptor buf = Inr (parseNodeDescriptor buf)" by (simp add: checkedDescriptor_ok)
    moreover have "slice buf 14 (length buf) = Inr (drop 14 buf)" "42 \<le> length (drop 14 buf)" using len by (simp_all add: gslice_rest)
    ultimately show ?thesis
      using Pair None by (simp add: checkedBTree_def openBTree_def Let_def nodeDescriptorLen_def flip: buf_def)
  qed (simp add: checkedBTree_def openBTree_def Pair nodeDescriptorLen_def)
qed

lemma checkedCuts_ok:
  "ns \<le> length buf \<Longrightarrow> checkedCuts ns buf offs = (case cutRecords ns buf offs of None \<Rightarrow> Inl ErrCorrupt | Some rs \<Rightarrow> Inr rs)"
  by (induction ns buf offs rule: checkedCuts.induct) (auto split: option.split)

lemma checkedNode_ok:
  assumes "512 \<le> NodeSize (theader t)"
  shows "checkedNode v t n = readNode v t n"
proof -
  define ns where "ns = unat (NodeSize (theader t))"
  have ns: "512 \<le> ns" using assms by (simp add: ns_def word_le_nat_alt)
  have parse: "bindR (checkedDescriptor buf) (\<lambda>d. let nrec = unat (NumRecords d)
      in if (nrec + 1) * 2 > ns then Inl ErrCorrupt
         else bindR (mapR (checkedOffset ns buf) [0..<nrec + 1]) (\<lambda>offs.
              bindR (checkedCuts ns buf offs) (\<lambda>rs. Inr \<lparr>desc = d, records = rs\<rparr>))) = parseNode ns buf"
    if len: "ns \<le> length buf" for buf
  proof -
    let ?n = "unat (NumRecords (parseNodeDescriptor buf)) + 1"
    have d: "checkedDescriptor buf = Inr (parseNodeDescriptor buf)" using len ns by (simp add: checkedDescriptor_ok)
    have "mapR (checkedOffset ns buf) [0..<?n] = Inr (map (offsetAt ns buf) [0..<?n])" if "?n * 2 \<le> ns"
    proof (rule mapR_ok)
      fix i assume "i \<in> set [0..<?n]"
      then have "i + 1 \<le> ?n" by auto
      from mult_le_mono2 [OF this, of 2] have "2 * (i + 1) \<le> ns" using that by (simp only: mult.commute [of ?n 2])
      then show "checkedOffset ns buf i = Inr (offsetAt ns buf i)" using len by (simp add: checkedOffset_def offsetAt_def)
    qed
    then show ?thesis by (simp add: d parseNode_def Let_def checkedCuts_ok [OF len] del: upt_Suc split: option.split)
  qed
  show ?thesis
    unfolding checkedNode_def readNode_def Let_def ns_def [symmetric]
    using parse [unfolded Let_def] filled_at_least by (auto split: prod.split option.split)
qed

lemma checkedKeyLen_ok: "checkedKeyLen rec = Inr (recordKeyLen rec)"
  by (simp add: checkedKeyLen_def recordKeyLen_def Let_def)

lemma checkedData_ok: "checkedData rec = Inr (recordData rec)"
  by (simp add: checkedData_def recordData_def checkedKeyLen_ok Let_def gslice_rest split: option.split)

lemma checkedChild_ok: "checkedChild rec = Inr (indexChild rec)"
  by (simp add: checkedChild_def indexChild_def checkedData_ok split: option.split)

lemma checkedUnits_ok: "checkedUnits b off n = Inr (readUnits b off n)"
  by (induction b off n rule: checkedUnits.induct) auto

lemma checkedUnitsUpTo_ok: "checkedUnitsUpTo b off n = Inr (readUnitsUpTo b off n)"
  by (induction b off n rule: checkedUnitsUpTo.induct) auto

lemma checkedCatalogKey_ok: "checkedCatalogKey b = Inr (parseCatalogKey b)"
  by (simp add: checkedCatalogKey_def parseCatalogKey_def checkedUnits_ok split: option.split)

lemma checkedRecordKey_ok: "checkedRecordKey rec = Inr (keyFromRecord rec)"
  by (auto simp: checkedRecordKey_def keyFromRecord_def checkedKeyLen_ok checkedCatalogKey_ok split: option.split dest: recordKeyLen_Some)

lemma checkedCatalogRecord_ok: "checkedCatalogRecord data = Inr (parseCatalogRecord data)"
  by (auto simp: checkedCatalogRecord_def parseCatalogRecord_def Let_def checkedForkData_ok checkedUnitsUpTo_ok header_consts)

lemma checkedExtentsKey_ok: "checkedExtentsKey rec = Inr (extentsKeyOfRecord rec)"
  by (auto simp: checkedExtentsKey_def extentsKeyOfRecord_def parseExtentsKey_def checkedKeyLen_ok split: option.split dest: recordKeyLen_Some)

lemma checkedExts_ok: "checkedExts n data = Inr (readExts n data)"
  by (induction n arbitrary: data) (auto simp: checkedExtent_def parseExtent_def gslice_rest)

section \<open>Properties\<close>

text \<open>
  C15. No image makes the reading half of the driver panic. First, for every sequence of bytes and every path,
  \<^verbatim>\<open>Open\<close> returns an error or a volume, and on such a volume \<^verbatim>\<open>ReadFile\<close>, \<^verbatim>\<open>ReadLink\<close>,
  \<^verbatim>\<open>OpenFile\<close>, \<^verbatim>\<open>ListDir\<close> and \<^verbatim>\<open>Stat\<close> return a value or an error, although the slices of \<^verbatim>\<open>fork.readAt\<close> are taken with
  offsets off the disk. Second, every parser on the way (volume header, B-tree header, node, record key and
  data, catalog record, extents record), run with each of its slices and indices checked, returns on every input what the
  parser without checks returns: no guard is missing.
\<close>

theorem read_api_never_panics:
  "(case Open rs sz of
      Inl e \<Rightarrow> e \<noteq> Panic
    | Inr v \<Rightarrow> ReadFile env v path \<noteq> Inl Panic \<and> ReadLink env v path \<noteq> Inl Panic
        \<and> OpenFork env v path \<noteq> Inl Panic \<and> ListDir env v path \<noteq> Inl Panic \<and> Stat env v path \<noteq> Inl Panic)
   \<and> checkedVolumeHeader rs = readVolumeHeader rs
   \<and> checkedBTree v f = openBTree v f
   \<and> (case openBTree v f of Inl e \<Rightarrow> True | Inr t \<Rightarrow> checkedNode v t n = readNode v t n)
   \<and> checkedData rec = Inr (recordData rec)
   \<and> checkedChild rec = Inr (indexChild rec)
   \<and> checkedRecordKey rec = Inr (keyFromRecord rec)
   \<and> checkedCatalogRecord data = Inr (parseCatalogRecord data)
   \<and> checkedExtentsKey rec = Inr (extentsKeyOfRecord rec)
   \<and> checkedExts k data = Inr (readExts k data)"
proof -
  have "512 \<le> NodeSize (theader t)" if "openBTree v f = Inr t" for t
    using that by (auto simp: openBTree_def Let_def split: prod.splits option.splits if_splits)
  then have "case openBTree v f of Inl e \<Rightarrow> True | Inr t \<Rightarrow> checkedNode v t n = readNode v t n"
    by (auto simp: checkedNode_ok split: sum.split)
  then show ?thesis
    using Open_sane [of rs sz] read_noPanic
    by (auto simp: checkedVolumeHeader_ok checkedBTree_ok checkedData_ok checkedChild_ok checkedRecordKey_ok
        checkedCatalogRecord_ok checkedExtentsKey_ok checkedExts_ok split: sum.splits)
qed

end
