(* ===== verification/Spec2Isabelle.thy ===== *)
theory Spec2Isabelle
  imports GrowBound FreshFolder Slices
begin

text \<open>
  \<^bold>\<open>A verification development for the HFS+ driver under \<^verbatim>\<open>src/\<close>.\<close>

  The program is a Go package that reads, writes and formats HFS+ and HFSX volumes. Its parts,
  bottom up, and the theories that model them:

  \<^item> \<open>Prelude\<close>, \<open>Bytes\<close>: machine integers as words, Go's \<^verbatim>\<open>int64\<close> wrap-around, errors as values
    (\<^verbatim>\<open>errors.go\<close>), slices, big-endian codecs, bitmaps in byte lists. Code that edits the image
    keeps its edits when it returns an error, so operations have type \<open>('s, 'a) op\<close> and return
    the state on both branches.
  \<^item> \<open>VolumeHeader\<close> (\<^verbatim>\<open>volume.go\<close>): the volume header and fork descriptors.
  \<^item> \<open>Fork\<close> (\<^verbatim>\<open>fork.go\<close>): reading a fork through its extents, on hostile sizes too.
  \<^item> \<open>Alloc\<close> (\<^verbatim>\<open>alloc.go\<close>): the allocation bitmap; the interface \<open>block_pool\<close>.
  \<^item> \<open>Names\<close> (\<^verbatim>\<open>catalog_search.go\<close>): case folding and the order of names; the interface
    \<open>key_order\<close>. \<open>utf16Encode\<close> and \<open>utf16Decode\<close> there model the package
    \<^verbatim>\<open>unicode/utf16\<close> that the driver calls.
  \<^item> \<open>BTree\<close> (\<^verbatim>\<open>btree.go\<close>): nodes, the guarded walk along the leaves, the descent; the interface
    \<open>search_tree\<close>, interpreted for catalog keys in \<open>CatalogSearch\<close> and for extent keys in
    \<open>Extents\<close>.
  \<^item> \<open>NodeCodec\<close> (\<^verbatim>\<open>mkfs.go\<close>, \<^verbatim>\<open>btwrite.go\<close>): the layout of a node in its bytes.
  \<^item> \<open>Catalog\<close> (\<^verbatim>\<open>catalog.go\<close>, encoders of \<^verbatim>\<open>mkfs.go\<close>): keys and records of the catalog.
  \<^item> \<open>CatalogSearch\<close> (\<^verbatim>\<open>catalog_search.go\<close>): \<^verbatim>\<open>lookup\<close> and \<^verbatim>\<open>listChildren\<close>.
  \<^item> \<open>Extents\<close> (\<^verbatim>\<open>extents.go\<close>): the extents-overflow tree and the extent list of a fork.
  \<^item> \<open>Volume\<close> (\<^verbatim>\<open>hfsplus.go\<close>, \<^verbatim>\<open>openfile.go\<close>, \<^verbatim>\<open>openreader.go\<close>): opening, paths, the reading
    interface. \<open>Slices\<close>: the parsers of the reader again, with every slice and index checked, so that a guard that
    is missing shows as a \<open>Panic\<close>.
  \<^item> \<open>BTWrite\<close> (\<^verbatim>\<open>btwrite.go\<close>, \<^verbatim>\<open>btmap.go\<close>): the mutable view of a tree and its node bitmap.
  \<^item> \<open>BTOps\<close> (\<^verbatim>\<open>btops.go\<close>), \<open>BTDelete\<close> (\<^verbatim>\<open>btdelete.go\<close>), \<open>BTGrow\<close> (\<^verbatim>\<open>btgrow.go\<close>): insertion,
    deletion, and growth of a tree's file.
  \<^item> \<open>ExtWrite\<close> (\<^verbatim>\<open>extwrite.go\<close>), \<open>CatWrite\<close> (\<^verbatim>\<open>catwrite.go\<close>): the records of the two trees.
  \<^item> \<open>Write\<close> (\<^verbatim>\<open>write.go\<close>, \<^verbatim>\<open>finderinfo.go\<close>): transactions and the mutating interface.
  \<^item> \<open>Mkfs\<close> (\<^verbatim>\<open>mkfs.go\<close>): the formatter.

  Theories that hold no code of their own but what it amounts to:

  \<^item> \<open>Reopen\<close>, \<open>Session\<close>: volumes with the same view of the image; every mutator ends in a commit and
    leaves a volume that opening the image afresh would give. \<open>MkfsOpen\<close>, \<open>Formatted\<close>: what the formatter
    writes opens as an empty volume.
  \<^item> \<open>GrowBound\<close>: the recursion of \<^verbatim>\<open>allocNode\<close> through the growth of the extents file ends.
  \<^item> \<open>TreeOrder\<close>, \<open>TreeInsert\<close>: ordered search trees, and insertion into them as a recursive function; the
    interface \<open>tree_keys\<close>.
  \<^item> \<open>NodeStore\<close>, \<open>NodePlaces\<close>, \<open>FreeNodes\<close>: the nodes of a tree as cells of the image, where the extents
    put them, and the free ones; the interface \<open>node_pool\<close>, interpreted by the node bitmap.
  \<^item> \<open>TreeWrite\<close>, \<open>TreeRefine\<close>: the loops of \<^verbatim>\<open>btops.go\<close>, over any node pool and any keys, compute the
    recursive insertion; the interface \<open>tree_writer\<close>.
  \<^item> \<open>InsertRecord\<close>, \<open>InsertCorrect\<close>: the same for the two trees of a volume with their own keys and
    \<^verbatim>\<open>allocNode\<close>, and for what the reader finds afterwards. \<open>ExtentInsert\<close>, \<open>ExtentStore\<close>: in the
    extents-overflow tree insertion never fails, and the records of a fork resolve to its extents.
    \<open>NodeSamples\<close> has small images on which these theorems are evaluated.
  \<^item> \<open>TreeFrame\<close>: what edits outside a tree's nodes leave of it. \<open>FileData\<close>: the data of a new file, from
    the allocated blocks to what the reader returns. \<open>RecordPatch\<close>: a record changed in place.
  \<^item> \<open>Openable\<close>: what \<^verbatim>\<open>reopen\<close> reads of an image, and that edits of a transaction keep it. \<open>SoundState\<close>: the
    parts of the image apart from each other, and what edits of one leave of the others.
    \<open>CatalogSteps\<close>, \<open>CatalogEntry\<close>, \<open>FileCreate\<close>: a new entry of the catalog with its thread record and the
    count of its folder, up to \<^verbatim>\<open>createFile\<close>. \<open>Commit\<close>, \<open>FileWrite\<close>: \<^verbatim>\<open>commit\<close> succeeds in a sound state and
    loses nothing, up to \<^verbatim>\<open>WriteFile\<close>. \<open>FolderWrite\<close>: the same for \<^verbatim>\<open>MkDir\<close>. \<open>FormatState\<close>, \<open>FreshFile\<close>: the first transaction on a formatted volume
    starts in a sound state, so that format, open, write, read and reopen compose.
  \<^item> \<open>Attempts\<close>, \<open>FreshFolder\<close>: calls that fail. What the guards refuse leaves the volume alone, and no call,
    wherever it stops, resizes the image, ends write access or leaves trees of an illegal node size.
    \<open>FreshFolder\<close> also lists the root of a formatted volume after \<^verbatim>\<open>MkDir\<close>.

  \<^bold>\<open>State.\<close> A \<open>Volume\<close> holds the bytes of the image, the parsed header and the two opened trees.
  The image in memory is both what \<^verbatim>\<open>rs\<close> reads and what \<^verbatim>\<open>img\<close> writes, as \<^verbatim>\<open>OpenWritable\<close> sets them
  up. A mutation works on \<open>wst\<close>, which adds the allocator and the two tree writers; the pointers
  among them are fields of one record.

  \<^bold>\<open>Loops.\<close> Loops over data are structural or have a termination proof. The reader's walk along
  the leaf chain is bounded by \<^verbatim>\<open>maxNodes\<close>. Four loops of the writer follow links or collapse
  roots without a guard (\<^verbatim>\<open>walkMap\<close>, \<^verbatim>\<open>addMapNode\<close>, \<^verbatim>\<open>deleteAllForFork\<close>, \<^verbatim>\<open>maybeShrinkRoot\<close>); their
  fuel is the number of 32-bit node numbers, so \<open>NoReturn\<close> stands for a chain that is a cycle.
  The recursion of \<^verbatim>\<open>allocNode\<close> through the growth of the extents file is fuelled by the number of
  free allocation blocks.

  \<^bold>\<open>Parameters.\<close> \<open>env\<close> holds what the driver only calls: the allocation guard of package
  \<^verbatim>\<open>safeio\<close>, the simple case-folding orbits behind \<^verbatim>\<open>strings.EqualFold\<close>, the clock.

  \<^bold>\<open>What the lemmas show.\<close> Codecs are inverse to each other; a fork read returns the window of the
  concatenated extents and never panics; the allocator hands out exactly what was asked or
  nothing; searching a tree is scanning its records; opening and reading never panic on any
  image; path lookup finds the object whose names a path spells, whatever the comparison of the catalog, and \<^verbatim>\<open>ReadFile\<close>
  and \<^verbatim>\<open>ListDir\<close> return what the catalog and the extents say of it. Insertion
  into a well-formed tree leaves a well-formed tree with one more record, so that a lookup finds the new
  record and everything it found before; formatting gives a volume that opens; a session of mutations
  leaves an image that opens to the volume in memory; a file that \<^verbatim>\<open>WriteFile\<close> wrote is what \<^verbatim>\<open>ReadFile\<close>
  returns, every other entry of the catalog is found as before, and the record of the folder counts one more.

  \<^bold>\<open>Bounds.\<close> The insertion theorems ask for a free node per level of the tree and one for a new root,
  so that no growth of the tree's file intervenes; a tree has at most 64 levels, the depth at which the
  code gives up.

  \<^bold>\<open>Not modelled.\<close> Files and host tools (\<^verbatim>\<open>format.go\<close>, \<^verbatim>\<open>format_darwin.go\<close>, \<^verbatim>\<open>Sync\<close>, \<^verbatim>\<open>Close\<close>), the
  text of error messages, platforms whose \<^verbatim>\<open>int\<close> has 32 bits, the capacity of a slice beyond its length, strings that are not
  valid UTF-8, and exhaustion of memory.
\<close>

end
